(* ===== verification/Prelude.thy ===== *)
theory Prelude imports Main "HOL-Library.Word" begin

text \<open>
  Shared vocabulary of the development: the collections of rewrite and introduction
  rules the component theories fill, the addresses and 64-bit integers of the engine,
  and the generic facts on signed truncation, function update and lists that more than
  one component uses.
\<close>

unbundle bit_operations_syntax

named_theorems wam_simps \<open>unfolding rules for the primitive operations of the emulator\<close>
named_theorems safe_intros \<open>operations of the emulator that backtracking undoes\<close>
named_theorems tab_simps \<open>unfolding rules for the table structures\<close>

type_synonym addr = nat

text \<open>
  \<open>Integer\<close> of basictypes.h is a signed 64-bit integer; its arithmetic wraps. An
  \<open>Integer\<close> is modelled as the mathematical integer it denotes, and \<open>wrap64\<close> is
  applied where the code can leave the range.
\<close>

definition wrap64 :: "int \<Rightarrow> int" where
  "wrap64 i = signed_take_bit 63 i"

definition in64 :: "int \<Rightarrow> bool" where
  "in64 i \<longleftrightarrow> - (2 ^ 63) \<le> i \<and> i < 2 ^ 63"

lemma signed_take_bit_id_iff:
  "signed_take_bit n i = i \<longleftrightarrow> - (2 ^ n) \<le> i \<and> i < (2 ^ n :: int)"
  by (metis signed_take_bit_int_eq_self_iff)

lemma wrap64_id_iff: "wrap64 i = i \<longleftrightarrow> in64 i"
  by (simp add: wrap64_def in64_def signed_take_bit_id_iff)

lemma in64_wrap64 [simp]: "in64 (wrap64 i)"
proof -
  have "wrap64 (wrap64 i) = wrap64 i" by (simp add: wrap64_def)
  then show ?thesis by (simp only: wrap64_id_iff)
qed

lemma wrap64_in64 [simp]: "in64 i \<Longrightarrow> wrap64 i = i"
  by (simp add: wrap64_id_iff)

end
