(* ===== verification/Wam_State.thy ===== *)
theory Wam_State imports Prelude "HOL-Library.Monad_Syntax" begin

text \<open>
  The registers and memory areas of the emulator (\<open>src/XSB/emu\<close>: binding.h, deref.h,
  heap_xsb.h, memory_xsb.h, choice.h, cell_xsb.h) and its primitive operations:
  dereferencing, the forward trail with its pre-image frames, conditional trailing and
  binding, and the untrailing of \<open>sw_envs.h\<close>.

  Addresses count cells and are integers, so pointer arithmetic is that of the code. The
  heap and the local stack share one address space (the global stack \<open>glstack\<close>), as in
  the code. Argument registers are an array of their own. A trail frame is found at the
  address of its \<open>trail_parent\<close> cell, a choice point at the value \<open>breg\<close> takes for it.
  Growing a full stack (the \<open>handle_tcpstack_overflow\<close> and \<open>glstack_realloc\<close> calls)
  is not modelled: the areas are unbounded.
\<close>

section \<open>Cells and frames\<close>

type_synonym iaddr = int

text \<open>
  One constructor per tag of \<open>celltags_xsb.h\<close>, and three for the raw words the code
  stores untagged: the functor word of a structure, a saved continuation pointer and a
  saved environment pointer. Theory \<open>Cells\<close> relates the tagged ones to 64-bit words.
\<close>

datatype cell =
    Ref iaddr | CInt int | CStr nat | CFlt "64 word" | CStruct iaddr | CList iaddr | CAttv iaddr
  | CPsc nat | CCode iaddr | CEnv iaddr

record tframe =
  tf_variable :: iaddr
  tf_value :: cell
  tf_parent :: iaddr
  tf_pre_image :: "cell option"

record choice =
  next_clause :: iaddr
  prev_top :: iaddr
  cp_ebreg :: iaddr
  cp_hreg :: iaddr
  cp_trreg :: iaddr
  cp_cpreg :: iaddr
  cp_ereg :: iaddr
  cp_pdreg :: iaddr
  cp_ptcp :: iaddr
  cp_prev :: iaddr
  cp_args :: "cell list"

text \<open>
  What the emulator reads and never writes: the bounds of the areas, the attributes of the
  predicate symbols, the environment size the compiler left before each return address
  (the byte at \<open>cpreg - (2*sizeof(Cell)-3)\<close>), the address of the completion check instruction, the blocks of interned terms
  (\<open>struct_intern.c\<close>), and the floating-point comparison of the machine, which is a
  parameter.
\<close>

record wenv =
  gl_low :: iaddr
  gl_high :: iaddr
  tcp_high :: iaddr
  psc_arity :: "nat \<Rightarrow> nat"
  psc_ep :: "nat \<Rightarrow> iaddr"
  env_size :: "iaddr \<Rightarrow> int"
  check_complete_inst :: iaddr
  box_psc :: nat
  nil_string :: nat
  occurs_check :: bool
  intern_lists :: "(iaddr \<times> iaddr) list"
  intern_strs :: "nat \<Rightarrow> (iaddr \<times> iaddr) list"
  flt_eq_box :: "64 word \<Rightarrow> cell \<Rightarrow> cell \<Rightarrow> cell \<Rightarrow> bool"

record wam =
  mem :: "iaddr \<Rightarrow> cell"
  xreg :: "nat \<Rightarrow> cell"
  hreg :: iaddr
  sreg :: iaddr
  ereg :: iaddr
  hbreg :: iaddr
  ebreg :: iaddr
  hfreg :: iaddr
  efreg :: iaddr
  trreg :: iaddr
  trfreg :: iaddr
  breg :: iaddr
  bfreg :: iaddr
  cpreg :: iaddr
  lpcreg :: iaddr
  delayreg :: iaddr
  ptcpreg :: iaddr
  trail :: "iaddr \<Rightarrow> tframe"
  cps :: "iaddr \<Rightarrow> choice"
  wflag :: bool
  wenv :: wenv

fun isref :: "cell \<Rightarrow> bool" where
  "isref (Ref _) = True"
| "isref _ = False"

fun isattv :: "cell \<Rightarrow> bool" where
  "isattv (CAttv _) = True"
| "isattv _ = False"

fun isinteger :: "cell \<Rightarrow> bool" where
  "isinteger (CInt _) = True"
| "isinteger _ = False"

fun isstring :: "cell \<Rightarrow> bool" where
  "isstring (CStr _) = True"
| "isstring _ = False"

fun isfloat :: "cell \<Rightarrow> bool" where
  "isfloat (CFlt _) = True"
| "isfloat _ = False"

fun isconstr :: "cell \<Rightarrow> bool" where
  "isconstr (CStruct _) = True"
| "isconstr _ = False"

fun islist :: "cell \<Rightarrow> bool" where
  "islist (CList _) = True"
| "islist _ = False"

text \<open>\<open>dec_addr\<close> of a pointer cell; the code applies it to no other cell.\<close>

fun cell_ptr :: "cell \<Rightarrow> iaddr" where
  "cell_ptr (Ref a) = a"
| "cell_ptr (CStruct a) = a"
| "cell_ptr (CList a) = a"
| "cell_ptr (CAttv a) = a"
| "cell_ptr (CEnv a) = a"
| "cell_ptr (CCode a) = a"
| "cell_ptr _ = 0"

definition get_str_psc :: "(iaddr \<Rightarrow> cell) \<Rightarrow> cell \<Rightarrow> cell" where
  "get_str_psc m c = m (cell_ptr c)"

definition get_str_arg :: "(iaddr \<Rightarrow> cell) \<Rightarrow> cell \<Rightarrow> int \<Rightarrow> cell" where
  "get_str_arg m c i = m (cell_ptr c + i)"

definition get_list_head :: "(iaddr \<Rightarrow> cell) \<Rightarrow> cell \<Rightarrow> cell" where
  "get_list_head m c = m (cell_ptr c)"

definition get_list_tail :: "(iaddr \<Rightarrow> cell) \<Rightarrow> cell \<Rightarrow> cell" where
  "get_list_tail m c = m (cell_ptr c + 1)"

definition makeint_cell :: "int \<Rightarrow> cell" where
  "makeint_cell v = CInt (signed_take_bit 60 v)"

definition isboxed :: "wam \<Rightarrow> cell \<Rightarrow> bool" where
  "isboxed s c \<longleftrightarrow> isconstr c \<and> get_str_psc (mem s) c = CPsc (box_psc (wenv s))"

text \<open>\<open>box_has_id\<close>: bits 16 and up of the first argument of the box.\<close>

definition cell_box_has_id :: "wam \<Rightarrow> cell \<Rightarrow> int \<Rightarrow> bool" where
  "cell_box_has_id s c i \<longleftrightarrow>
     (case get_str_arg (mem s) c 1 of CInt n \<Rightarrow> n div 2 ^ 16 = i | _ \<Rightarrow> False)"

definition isboxedinteger :: "wam \<Rightarrow> cell \<Rightarrow> bool" where
  "isboxedinteger s c \<longleftrightarrow> isboxed s c \<and> cell_box_has_id s c 1"

definition isboxedfloat :: "wam \<Rightarrow> cell \<Rightarrow> bool" where
  "isboxedfloat s c \<longleftrightarrow> isboxed s c \<and> cell_box_has_id s c 2"

fun cint_val :: "cell \<Rightarrow> int" where
  "cint_val (CInt n) = n"
| "cint_val _ = 0"

definition cell_boxedint_val :: "wam \<Rightarrow> cell \<Rightarrow> int" where
  "cell_boxedint_val s c =
     wrap64 (cint_val (get_str_arg (mem s) c 2) * 2 ^ 24
       OR cint_val (get_str_arg (mem s) c 3))"

definition oint_val :: "wam \<Rightarrow> cell \<Rightarrow> int" where
  "oint_val s c =
     (if isinteger c then cint_val c
      else if isboxedinteger s c then cell_boxedint_val s c
      else 2147483648)"

definition isointeger :: "wam \<Rightarrow> cell \<Rightarrow> bool" where
  "isointeger s c \<longleftrightarrow> isinteger c \<or> isboxedinteger s c"

fun cell_tag_eq :: "cell \<Rightarrow> cell \<Rightarrow> bool" where
  "cell_tag_eq (CInt _) (CInt _) = True"
| "cell_tag_eq (CStr _) (CStr _) = True"
| "cell_tag_eq (CFlt _) (CFlt _) = True"
| "cell_tag_eq (CStruct _) (CStruct _) = True"
| "cell_tag_eq (CList _) (CList _) = True"
| "cell_tag_eq (CAttv _) (CAttv _) = True"
| "cell_tag_eq (Ref _) (Ref _) = True"
| "cell_tag_eq _ _ = False"

section \<open>Interned terms\<close>

definition in_block :: "iaddr \<Rightarrow> iaddr \<times> iaddr \<Rightarrow> bool" where
  "in_block t b \<longleftrightarrow> (case b of (lo, hi) \<Rightarrow> lo < t \<and> t < hi)"

definition isinternstr_really :: "wam \<Rightarrow> cell \<Rightarrow> bool" where
  "isinternstr_really s c =
     (let e = wenv s; t = cell_ptr c;
          blocks = (case c of
             CList _ \<Rightarrow> intern_lists e
           | CStruct _ \<Rightarrow>
               (case get_str_psc (mem s) c of CPsc p \<Rightarrow> intern_strs e (psc_arity e p) | _ \<Rightarrow> [])
           | _ \<Rightarrow> [])
      in \<not> (gl_low e \<le> t \<and> t \<le> gl_high e) \<and> list_ex (in_block t) blocks)"

definition isinternstr :: "wam \<Rightarrow> cell \<Rightarrow> bool" where
  "isinternstr s c \<longleftrightarrow>
     \<not> (gl_low (wenv s) \<le> cell_ptr c \<and> cell_ptr c < hreg s) \<and> isinternstr_really s c"

section \<open>Stack tops and the trailing condition\<close>

definition top_of_localstk :: "wam \<Rightarrow> iaddr" where
  "top_of_localstk s =
     (if efreg s < ebreg s \<and> efreg s < ereg s then efreg s
      else if ereg s < ebreg s then ereg s - env_size (wenv s) (cpreg s) + 1
      else ebreg s)"

definition top_of_trail :: "wam \<Rightarrow> iaddr" where
  "top_of_trail s = (if trreg s > trfreg s then trreg s else trfreg s)"

definition top_of_cpstack :: "wam \<Rightarrow> iaddr" where
  "top_of_cpstack s = (if breg s < bfreg s then breg s else bfreg s)"

definition conditional :: "wam \<Rightarrow> iaddr \<Rightarrow> bool" where
  "conditional s a \<longleftrightarrow> (a \<ge> ebreg s \<or> a \<ge> efreg s) \<or> (a < hbreg s \<or> a < hfreg s)"

section \<open>Trail and binding\<close>

definition pushtrail0 :: "iaddr \<Rightarrow> cell \<Rightarrow> wam \<Rightarrow> wam" where
  "pushtrail0 a v s =
     (let t = (if trfreg s > trreg s then trfreg s + 3 else trreg s + 3)
      in s\<lparr>trreg := t,
           trail := (trail s)(t := \<lparr>tf_variable = a, tf_value = v, tf_parent = trreg s,
                                   tf_pre_image = None\<rparr>)\<rparr>)"

definition push_pre_image_trail0 :: "iaddr \<Rightarrow> cell \<Rightarrow> wam \<Rightarrow> wam" where
  "push_pre_image_trail0 a v s =
     (let t = (if trfreg s > trreg s then trfreg s + 4 else trreg s + 4)
      in s\<lparr>trreg := t,
           trail := (trail s)(t := \<lparr>tf_variable = a, tf_value = v, tf_parent = trreg s,
                                   tf_pre_image = Some (mem s a)\<rparr>)\<rparr>)"

definition pushtrail :: "iaddr \<Rightarrow> cell \<Rightarrow> wam \<Rightarrow> wam" where
  "pushtrail a v s = (if conditional s a then pushtrail0 a v s else s)"

definition push_pre_image_trail :: "iaddr \<Rightarrow> cell \<Rightarrow> wam \<Rightarrow> wam" where
  "push_pre_image_trail a v s =
     (if conditional s a then push_pre_image_trail0 a v s else s)"

definition bld :: "iaddr \<Rightarrow> cell \<Rightarrow> wam \<Rightarrow> wam" where
  "bld a v s = s\<lparr>mem := (mem s)(a := v)\<rparr>"

definition bld_free :: "iaddr \<Rightarrow> wam \<Rightarrow> wam" where
  "bld_free a s = bld a (Ref a) s"

definition bind_copy :: "iaddr \<Rightarrow> cell \<Rightarrow> wam \<Rightarrow> wam" where
  "bind_copy a v s = bld a v (pushtrail a v s)"

definition bld_reg :: "nat \<Rightarrow> cell \<Rightarrow> wam \<Rightarrow> wam" where
  "bld_reg r v s = s\<lparr>xreg := (xreg s)(r := v)\<rparr>"

section \<open>Heap nodes\<close>

definition new_heap_node :: "cell \<Rightarrow> wam \<Rightarrow> wam" where
  "new_heap_node c s = s\<lparr>mem := (mem s)(hreg s := c), hreg := hreg s + 1\<rparr>"

definition new_heap_free :: "wam \<Rightarrow> wam" where
  "new_heap_free s = new_heap_node (Ref (hreg s)) s"

definition new_heap_functor :: "nat \<Rightarrow> wam \<Rightarrow> wam" where
  "new_heap_functor p s = new_heap_node (CPsc p) s"

text \<open>\<open>bld_boxedint\<close> without its last assignment: the box on the heap and its cell.\<close>

definition boxedint_node :: "int \<Rightarrow> wam \<Rightarrow> cell \<times> wam" where
  "boxedint_node v s =
     (CStruct (hreg s),
      new_heap_node (CInt (v mod 2 ^ 24))
       (new_heap_node (makeint_cell ((v mod 2 ^ 64) div 2 ^ 24))
         (new_heap_node (CInt (1 * 2 ^ 16))
           (new_heap_functor (box_psc (wenv s)) s))))"

definition cint_overflow :: "int \<Rightarrow> bool" where
  "cint_overflow v \<longleftrightarrow> signed_take_bit 60 v \<noteq> v"

text \<open>The cell \<open>bld_oint\<close> and \<open>bind_oint\<close> store, boxed on the heap when it must be.\<close>

definition oint_node :: "int \<Rightarrow> wam \<Rightarrow> cell \<times> wam" where
  "oint_node v s = (if cint_overflow v then boxedint_node v s else (makeint_cell v, s))"

definition bind_oint :: "iaddr \<Rightarrow> int \<Rightarrow> wam \<Rightarrow> wam" where
  "bind_oint a v s = (case oint_node v s of (c, s') \<Rightarrow> bind_copy a c s')"

definition bld_oint_reg :: "nat \<Rightarrow> int \<Rightarrow> wam \<Rightarrow> wam" where
  "bld_oint_reg r v s = (case oint_node v s of (c, s') \<Rightarrow> bld_reg r c s')"

section \<open>Dereferencing\<close>

text \<open>
  The two loops of \<open>XSB_Deref\<close>. A chain of references that runs in a circle would not
  end, which is the result \<open>None\<close>.
\<close>

partial_function (option) deref_ref :: "(iaddr \<Rightarrow> cell) \<Rightarrow> cell \<Rightarrow> cell option" where
  "deref_ref m c =
     (case c of
        Ref a \<Rightarrow> if m a = c then Some c else deref_ref m (m a)
      | _ \<Rightarrow> Some c)"

partial_function (option) deref_attv :: "(iaddr \<Rightarrow> cell) \<Rightarrow> cell \<Rightarrow> cell option" where
  "deref_attv m c =
     (case c of
        CAttv a \<Rightarrow> if m a = Ref a then Some c
                   else Option.bind (deref_ref m (m a)) (deref_attv m)
      | _ \<Rightarrow> Some c)"

definition deref :: "(iaddr \<Rightarrow> cell) \<Rightarrow> cell \<Rightarrow> cell option" where
  "deref m c = Option.bind (deref_ref m c) (deref_attv m)"

section \<open>Untrailing\<close>

definition untrail2 :: "tframe \<Rightarrow> (iaddr \<Rightarrow> cell) \<Rightarrow> iaddr \<Rightarrow> cell" where
  "untrail2 f m =
     (case tf_pre_image f of
        Some old \<Rightarrow> m(tf_variable f := old)
      | None \<Rightarrow> m(tf_variable f := Ref (tf_variable f)))"

text \<open>
  \<open>table_undo_bindings\<close>: untrail and follow the parents down to \<open>old_trreg\<close>. A trail
  whose parents do not go down would not end, which is the result \<open>None\<close>.
\<close>

partial_function (option) table_undo_bindings :: "iaddr \<Rightarrow> wam \<Rightarrow> wam option" where
  "table_undo_bindings old s =
     (if trreg s > old
      then table_undo_bindings old
             (s\<lparr>mem := untrail2 (trail s (trreg s)) (mem s),
                trreg := tf_parent (trail s (trreg s))\<rparr>)
      else Some s)"

definition undo_bindings :: "iaddr \<Rightarrow> wam \<Rightarrow> wam option" where
  "undo_bindings tbreg s = table_undo_bindings (cp_trreg (cps s tbreg)) s"

definition fail1 :: "wam \<Rightarrow> wam" where
  "fail1 s = s\<lparr>lpcreg := next_clause (cps s (breg s))\<rparr>"

section \<open>Attributed-variable interrupts\<close>

definition INT_REC_SIZE :: int where "INT_REC_SIZE = 4"

definition attv_pending_interrupts :: "wam \<Rightarrow> bool" where
  "attv_pending_interrupts s \<longleftrightarrow> \<not> isref (mem s (gl_low (wenv s)))"

definition add_interrupt :: "cell \<Rightarrow> cell \<Rightarrow> wam \<Rightarrow> wam" where
  "add_interrupt op1 op2 s =
     (let ah = gl_low (wenv s); at = gl_low (wenv s) + 1;
          head = mem s ah; tl = mem s at; h = hreg s;
          temp = CList h;
          s1 = s\<lparr>mem := (mem s)(h := CList (h + 2), h + 1 := Ref (h + 1),
                               h + 2 := op1, h + 3 := op2),
                 hreg := h + 4\<rparr>
      in if \<not> isref head
         then bld at temp (push_pre_image_trail at temp (bind_copy (cell_ptr tl + 1) temp s1))
         else bind_copy at temp (bind_copy ah temp s1))"

definition build_interrupt_chain :: "wam \<Rightarrow> cell \<times> wam" where
  "build_interrupt_chain s =
     (let ah = gl_low (wenv s); at = gl_low (wenv s) + 1;
          s1 = bind_copy (cell_ptr (mem s at) + 1) (CStr (nil_string (wenv s))) s;
          head = mem s1 ah;
          s2 = bld_free ah (push_pre_image_trail ah (Ref ah) s1);
          s3 = bld_free at (push_pre_image_trail at (Ref at) s2)
      in (head, s3))"

end
