(* ===== verification/Wam_Safe.thy ===== *)
theory Wam_Safe imports Wam_State begin

text \<open>
  Backtracking safety. \<open>bt_safe s s'\<close> says that the emulator went from \<open>s\<close> to \<open>s'\<close>
  without losing what backtracking to a choice point made at \<open>s\<close> needs: the frames trailed
  since then form a path of the trail tree, and untrailing them gives every conditional
  address its old contents back. The relation is reflexive and transitive and holds of the
  primitive operations, so a component only has to compose them.
\<close>

section \<open>Paths of the trail tree\<close>

inductive tpath :: "(iaddr \<Rightarrow> tframe) \<Rightarrow> iaddr \<Rightarrow> iaddr \<Rightarrow> iaddr list \<Rightarrow> bool" where
  tpath_refl: "tpath tr t t []"
| tpath_step: "t0 < t \<Longrightarrow> tf_parent (tr t) < t \<Longrightarrow> tpath tr (tf_parent (tr t)) t0 ts
    \<Longrightarrow> tpath tr t t0 (t # ts)"

inductive_cases tpath_ConsE: "tpath tr t t0 (x # xs)"
inductive_cases tpath_NilE: "tpath tr t t0 []"

lemma tpath_le: "tpath tr t t0 ts \<Longrightarrow> t0 \<le> t \<and> (\<forall>x \<in> set ts. t0 < x \<and> x \<le> t)"
  by (induction rule: tpath.induct) auto

lemma tpath_append:
  "tpath tr t t1 ts \<Longrightarrow> tpath tr t1 t0 us \<Longrightarrow> tpath tr t t0 (ts @ us)"
proof (induction rule: tpath.induct)
  case (tpath_step t1 t tr ts)
  have "t0 \<le> t1" using tpath_step.prems by (auto dest: tpath_le)
  with tpath_step show ?case by (auto intro!: tpath.tpath_step)
qed simp

lemma tpath_cong:
  "tpath tr t t0 ts \<Longrightarrow> (\<And>x. x \<in> set ts \<Longrightarrow> tr' x = tr x) \<Longrightarrow> tpath tr' t t0 ts"
  by (induction rule: tpath.induct) (auto intro!: tpath.intros)

definition untrail_path :: "(iaddr \<Rightarrow> tframe) \<Rightarrow> iaddr list \<Rightarrow> (iaddr \<Rightarrow> cell) \<Rightarrow> iaddr \<Rightarrow> cell" where
  "untrail_path tr ts m = fold (\<lambda>t. untrail2 (tr t)) ts m"

lemma untrail_path_simps [simp]:
  "untrail_path tr [] m = m"
  "untrail_path tr (t # ts) m = untrail_path tr ts (untrail2 (tr t) m)"
  "untrail_path tr (ts @ us) m = untrail_path tr us (untrail_path tr ts m)"
  by (simp_all add: untrail_path_def)

lemma untrail2_at: "m a = m' a \<Longrightarrow> untrail2 f m a = untrail2 f m' a"
  by (simp add: untrail2_def split: option.split)

lemma untrail_path_at:
  "m a = m' a \<Longrightarrow> (\<And>x. x \<in> set ts \<Longrightarrow> tr' x = tr x) \<Longrightarrow>
    untrail_path tr' ts m a = untrail_path tr ts m' a"
proof (induction ts arbitrary: m m')
  case (Cons t ts)
  have "untrail2 (tr' t) m a = untrail2 (tr t) m' a"
    using Cons.prems by (auto intro: untrail2_at)
  with Cons show ?case by simp
qed simp

section \<open>The relation\<close>

definition same_bt_regs :: "wam \<Rightarrow> wam \<Rightarrow> bool" where
  "same_bt_regs s s' \<longleftrightarrow>
     hbreg s' = hbreg s \<and> ebreg s' = ebreg s \<and> hfreg s' = hfreg s \<and> efreg s' = efreg s \<and>
     trfreg s' = trfreg s \<and> breg s' = breg s \<and> bfreg s' = bfreg s \<and> wenv s' = wenv s \<and>
     (\<forall>b \<ge> top_of_cpstack s. cps s' b = cps s b)"

definition bt_safe :: "wam \<Rightarrow> wam \<Rightarrow> bool" where
  "bt_safe s s' \<longleftrightarrow>
     same_bt_regs s s' \<and> hreg s \<le> hreg s' \<and>
     (\<forall>t \<le> top_of_trail s. trail s' t = trail s t) \<and>
     (\<exists>ts. tpath (trail s') (trreg s') (trreg s) ts \<and> (\<forall>t \<in> set ts. top_of_trail s < t) \<and>
        (\<forall>a. conditional s a \<longrightarrow> \<not> (hreg s \<le> a \<and> a < hreg s') \<longrightarrow>
              untrail_path (trail s') ts (mem s') a = mem s a))"

lemma bt_safeD:
  assumes "bt_safe s s'"
  obtains ts where "same_bt_regs s s'" "hreg s \<le> hreg s'"
    "\<And>t. t \<le> top_of_trail s \<Longrightarrow> trail s' t = trail s t"
    "tpath (trail s') (trreg s') (trreg s) ts" "\<And>t. t \<in> set ts \<Longrightarrow> top_of_trail s < t"
    "\<And>a. conditional s a \<Longrightarrow> \<not> (hreg s \<le> a \<and> a < hreg s') \<Longrightarrow>
        untrail_path (trail s') ts (mem s') a = mem s a"
  using assms by (auto simp: bt_safe_def)

lemma same_bt_regs_conditional: "same_bt_regs s s' \<Longrightarrow> conditional s' = conditional s"
  by (auto simp: same_bt_regs_def conditional_def fun_eq_iff)

lemma same_bt_regs_trans: "same_bt_regs s s' \<Longrightarrow> same_bt_regs s' s'' \<Longrightarrow> same_bt_regs s s''"
  by (simp add: same_bt_regs_def top_of_cpstack_def)

lemma bt_safe_refl [simp, safe_intros]: "bt_safe s s"
  by (auto simp: bt_safe_def same_bt_regs_def intro: tpath.intros)

lemma bt_safe_trans:
  assumes 1: "bt_safe s s'" and 2: "bt_safe s' s''"
  shows "bt_safe s s''"
proof -
  from 1 obtain ts where R: "same_bt_regs s s'" and H: "hreg s \<le> hreg s'"
    and T: "\<And>t. t \<le> top_of_trail s \<Longrightarrow> trail s' t = trail s t"
    and P: "tpath (trail s') (trreg s') (trreg s) ts" and G: "\<And>t. t \<in> set ts \<Longrightarrow> top_of_trail s < t"
    and M: "\<And>a. conditional s a \<Longrightarrow> \<not> (hreg s \<le> a \<and> a < hreg s') \<Longrightarrow>
        untrail_path (trail s') ts (mem s') a = mem s a" by (rule bt_safeD) blast
  from 2 obtain us where R': "same_bt_regs s' s''" and H': "hreg s' \<le> hreg s''"
    and T': "\<And>t. t \<le> top_of_trail s' \<Longrightarrow> trail s'' t = trail s' t"
    and P': "tpath (trail s'') (trreg s'') (trreg s') us"
    and G': "\<And>t. t \<in> set us \<Longrightarrow> top_of_trail s' < t"
    and M': "\<And>a. conditional s' a \<Longrightarrow> \<not> (hreg s' \<le> a \<and> a < hreg s'') \<Longrightarrow>
        untrail_path (trail s'') us (mem s'') a = mem s' a" by (rule bt_safeD) blast
  have top: "top_of_trail s \<le> top_of_trail s'" and tip: "trreg s' \<le> top_of_trail s'"
    using R P by (auto simp: top_of_trail_def same_bt_regs_def dest: tpath_le)
  have eq: "trail s'' x = trail s' x" if "x \<in> set ts" for x
    using that P tip by (intro T') (auto dest!: tpath_le)
  have "tpath (trail s'') (trreg s'') (trreg s) (us @ ts)"
    using P' tpath_cong [OF P eq] by (rule tpath_append)
  moreover have "untrail_path (trail s'') (us @ ts) (mem s'') a = mem s a"
    if "conditional s a" "\<not> (hreg s \<le> a \<and> a < hreg s'')" for a
  proof -
    have "untrail_path (trail s'') us (mem s'') a = mem s' a"
      using that H H' R by (intro M') (auto simp: same_bt_regs_conditional)
    then have "untrail_path (trail s'') ts (untrail_path (trail s'') us (mem s'')) a
        = untrail_path (trail s') ts (mem s') a"
      by (intro untrail_path_at eq)
    with that H' M [of a] show ?thesis by auto
  qed
  ultimately show ?thesis
    unfolding bt_safe_def
    using same_bt_regs_trans [OF R R'] H H' T T' G G' top
    by (intro conjI exI [of _ "us @ ts"]) (fastforce simp: not_less)+
qed

section \<open>Primitive operations\<close>

text \<open>Operations that touch neither memory, trail nor the backtracking registers.\<close>

lemma bt_safe_frame:
  assumes "same_bt_regs s s'" "hreg s \<le> hreg s'" "trail s' = trail s" "trreg s' = trreg s"
    and "\<And>a. conditional s a \<Longrightarrow> \<not> (hreg s \<le> a \<and> a < hreg s') \<Longrightarrow> mem s' a = mem s a"
  shows "bt_safe s s'"
  using assms by (auto simp: bt_safe_def intro!: exI [of _ "[]"] tpath.intros)

lemma bt_safe_xreg [safe_intros]: "bt_safe s s' \<Longrightarrow> bt_safe s (s'\<lparr>xreg := x\<rparr>)"
  by (erule bt_safe_trans) (rule bt_safe_frame, auto simp: same_bt_regs_def)

lemma bt_safe_sreg [safe_intros]: "bt_safe s s' \<Longrightarrow> bt_safe s (s'\<lparr>sreg := x\<rparr>)"
  by (erule bt_safe_trans) (rule bt_safe_frame, auto simp: same_bt_regs_def)

lemma bt_safe_wflag [safe_intros]: "bt_safe s s' \<Longrightarrow> bt_safe s (s'\<lparr>wflag := x\<rparr>)"
  by (erule bt_safe_trans) (rule bt_safe_frame, auto simp: same_bt_regs_def)

lemma bt_safe_lpcreg [safe_intros]: "bt_safe s s' \<Longrightarrow> bt_safe s (s'\<lparr>lpcreg := x\<rparr>)"
  by (erule bt_safe_trans) (rule bt_safe_frame, auto simp: same_bt_regs_def)

lemma bt_safe_cpreg [safe_intros]: "bt_safe s s' \<Longrightarrow> bt_safe s (s'\<lparr>cpreg := x\<rparr>)"
  by (erule bt_safe_trans) (rule bt_safe_frame, auto simp: same_bt_regs_def)

lemma bt_safe_ereg [safe_intros]: "bt_safe s s' \<Longrightarrow> bt_safe s (s'\<lparr>ereg := x\<rparr>)"
  by (erule bt_safe_trans) (rule bt_safe_frame, auto simp: same_bt_regs_def)

lemma bt_safe_bld_reg [safe_intros]: "bt_safe s s' \<Longrightarrow> bt_safe s (bld_reg r v s')"
  unfolding bld_reg_def by (rule bt_safe_xreg)

lemma bt_safe_fail1 [safe_intros]: "bt_safe s s' \<Longrightarrow> bt_safe s (fail1 s')"
  unfolding fail1_def by (rule bt_safe_lpcreg)

lemma bt_safe_new_heap_node [safe_intros]: "bt_safe s s' \<Longrightarrow> bt_safe s (new_heap_node c s')"
  by (erule bt_safe_trans) (rule bt_safe_frame, auto simp: same_bt_regs_def new_heap_node_def)

lemma bt_safe_new_heap_free [safe_intros]: "bt_safe s s' \<Longrightarrow> bt_safe s (new_heap_free s')"
  unfolding new_heap_free_def by (rule bt_safe_new_heap_node)

lemma bt_safe_new_heap_functor [safe_intros]: "bt_safe s s' \<Longrightarrow> bt_safe s (new_heap_functor p s')"
  unfolding new_heap_functor_def by (rule bt_safe_new_heap_node)

lemma bt_safe_push:
  assumes t: "top_of_trail s < t" and f: "tf_parent f = trreg s" "tf_variable f = a"
    and old: "(case tf_pre_image f of Some c \<Rightarrow> c = mem s a | None \<Rightarrow> mem s a = Ref a)"
  shows "bt_safe s (s\<lparr>trreg := t, trail := (trail s)(t := f), mem := (mem s)(a := v)\<rparr>)"
proof -
  have "trreg s < t" using t by (auto simp: top_of_trail_def split: if_splits)
  moreover from this have "tpath ((trail s)(t := f)) t (trreg s) [t]"
    using f by (auto intro!: tpath.intros)
  moreover have "untrail2 f ((mem s)(a := v)) b = mem s b" for b
    using f old by (auto simp: untrail2_def split: option.splits)
  ultimately show ?thesis
    using t by (auto simp: bt_safe_def same_bt_regs_def intro!: exI [of _ "[t]"])
qed

lemma bt_safe_unconditional:
  "\<not> conditional s a \<Longrightarrow> bt_safe s (s\<lparr>mem := (mem s)(a := v)\<rparr>)"
  by (rule bt_safe_frame) (auto simp: same_bt_regs_def)

text \<open>Binding a free variable, and overwriting any cell under a pre-image frame.\<close>

lemma bind_copy_safe: "mem s a = Ref a \<Longrightarrow> bt_safe s (bind_copy a v s)"
proof (cases "conditional s a")
  case True
  assume free: "mem s a = Ref a"
  let ?t = "if trfreg s > trreg s then trfreg s + 3 else trreg s + 3"
  let ?f = "\<lparr>tf_variable = a, tf_value = v, tf_parent = trreg s, tf_pre_image = None\<rparr>"
  have "bind_copy a v s = s\<lparr>trreg := ?t, trail := (trail s)(?t := ?f), mem := (mem s)(a := v)\<rparr>"
    using True by (simp add: bind_copy_def bld_def pushtrail_def pushtrail0_def Let_def)
  moreover have "bt_safe s \<dots>"
    using free by (intro bt_safe_push) (auto simp: top_of_trail_def)
  ultimately show ?thesis by simp
qed (simp add: bind_copy_def bld_def pushtrail_def bt_safe_unconditional)

lemma pre_image_safe: "bt_safe s (bld a v (push_pre_image_trail a w s))"
proof (cases "conditional s a")
  case True
  let ?t = "if trfreg s > trreg s then trfreg s + 4 else trreg s + 4"
  let ?f = "\<lparr>tf_variable = a, tf_value = w, tf_parent = trreg s, tf_pre_image = Some (mem s a)\<rparr>"
  have "bld a v (push_pre_image_trail a w s)
      = s\<lparr>trreg := ?t, trail := (trail s)(?t := ?f), mem := (mem s)(a := v)\<rparr>"
    using True by (simp add: bld_def push_pre_image_trail_def push_pre_image_trail0_def Let_def)
  moreover have "bt_safe s \<dots>"
    by (intro bt_safe_push) (auto simp: top_of_trail_def)
  ultimately show ?thesis by simp
qed (simp add: bld_def push_pre_image_trail_def bt_safe_unconditional)

lemma bt_safe_bind_copy [safe_intros]:
  "bt_safe s s' \<Longrightarrow> mem s' a = Ref a \<Longrightarrow> bt_safe s (bind_copy a v s')"
  by (erule bt_safe_trans) (rule bind_copy_safe)

lemma bt_safe_pre_image [safe_intros]:
  "bt_safe s s' \<Longrightarrow> bt_safe s (bld a v (push_pre_image_trail a w s'))"
  by (erule bt_safe_trans) (rule pre_image_safe)

lemma bt_safe_oint_node: "bt_safe s (snd (oint_node v s))"
  by (auto simp: oint_node_def boxedint_node_def intro!: safe_intros)

section \<open>Untrailing restores\<close>

text \<open>The loop of \<open>table_undo_bindings\<close> along a path of the trail tree.\<close>

lemma table_undo_path:
  "tpath (trail s) (trreg s) t0 ts \<Longrightarrow>
    table_undo_bindings t0 s = Some (s\<lparr>mem := untrail_path (trail s) ts (mem s), trreg := t0\<rparr>)"
proof (induction ts arbitrary: s)
  case Nil
  then have "trreg s = t0" by (auto elim: tpath_NilE)
  then show ?case by (subst table_undo_bindings.simps) auto
next
  case (Cons t ts)
  let ?s = "s\<lparr>mem := untrail2 (trail s (trreg s)) (mem s), trreg := tf_parent (trail s (trreg s))\<rparr>"
  from Cons.prems have t: "t = trreg s" "t0 < trreg s"
    and p: "tpath (trail s) (tf_parent (trail s (trreg s))) t0 ts"
    by (auto elim: tpath_ConsE)
  have "table_undo_bindings t0 ?s = Some (?s\<lparr>mem := untrail_path (trail s) ts (mem ?s), trreg := t0\<rparr>)"
    using Cons.IH [of ?s] p by simp
  with t show ?case by (subst table_undo_bindings.simps) simp
qed

theorem undo_restores:
  assumes "bt_safe s s'"
  shows "\<exists>s''. table_undo_bindings (trreg s) s' = Some s'' \<and> trreg s'' = trreg s \<and>
    hreg s'' = hreg s' \<and> same_bt_regs s s'' \<and> xreg s'' = xreg s' \<and>
    (\<forall>t \<le> top_of_trail s. trail s'' t = trail s t) \<and>
    (\<forall>a. conditional s a \<longrightarrow> \<not> (hreg s \<le> a \<and> a < hreg s') \<longrightarrow> mem s'' a = mem s a)"
  using assms
proof (rule bt_safeD)
  fix ts
  assume P: "tpath (trail s') (trreg s') (trreg s) ts"
    and *: "same_bt_regs s s'" "\<And>t. t \<le> top_of_trail s \<Longrightarrow> trail s' t = trail s t"
    "\<And>a. conditional s a \<Longrightarrow> \<not> (hreg s \<le> a \<and> a < hreg s') \<Longrightarrow>
        untrail_path (trail s') ts (mem s') a = mem s a"
  show ?thesis using * table_undo_path [OF P] by (auto simp: same_bt_regs_def)
qed

end
