(* ===== verification/Wam_Unify.thy ===== *)
theory Wam_Unify imports Wam_Safe begin

text \<open>
  Dereferencing and unification: \<open>unify_rat\<close> and \<open>unify\<close> of \<open>subp.c\<close> with the macro
  \<open>unify_xsb\<close> of \<open>unify_xsb.h\<close>, which the emulator's instructions expand.
  \<open>unify_rat\<close> recurses through memory; the model counts the calls down in a fuel
  argument, and \<open>None\<close> is a call that has not returned within the fuel.
\<close>

section \<open>Dereferencing\<close>

lemma deref_ref_result:
  assumes "deref_ref m c = Some d"
  shows "isref d \<longrightarrow> m (cell_ptr d) = d"
proof (rule deref_ref.raw_induct [where P = "\<lambda>m c d. isref d \<longrightarrow> m (cell_ptr d) = d", OF _ assms])
  fix f m c d
  assume IH: "\<And>m c d. f m c = Some d \<Longrightarrow> isref d \<longrightarrow> m (cell_ptr d) = d"
    and eq: "(case c of Ref a \<Rightarrow> if m a = c then Some c else f m (m a) | _ \<Rightarrow> Some c) = Some d"
  show "isref d \<longrightarrow> m (cell_ptr d) = d"
  proof (cases c)
    case (Ref a)
    then show ?thesis using eq IH [of m "m a" d] by (cases "m a = Ref a") auto
  qed (use eq in auto)
qed

lemma deref_attv_result:
  assumes "deref_attv m c = Some d"
  shows "(isref c \<longrightarrow> m (cell_ptr c) = c) \<longrightarrow>
    (isref d \<longrightarrow> m (cell_ptr d) = d) \<and> (isattv d \<longrightarrow> m (cell_ptr d) = Ref (cell_ptr d))"
proof (rule deref_attv.raw_induct [where P = "\<lambda>m c d. (isref c \<longrightarrow> m (cell_ptr c) = c) \<longrightarrow>
    (isref d \<longrightarrow> m (cell_ptr d) = d) \<and> (isattv d \<longrightarrow> m (cell_ptr d) = Ref (cell_ptr d))", OF _ assms])
  fix f m c d
  assume IH: "\<And>m c d. f m c = Some d \<Longrightarrow> (isref c \<longrightarrow> m (cell_ptr c) = c) \<longrightarrow>
      (isref d \<longrightarrow> m (cell_ptr d) = d) \<and> (isattv d \<longrightarrow> m (cell_ptr d) = Ref (cell_ptr d))"
    and eq: "(case c of CAttv a \<Rightarrow> if m a = Ref a then Some c
        else Option.bind (deref_ref m (m a)) (f m) | _ \<Rightarrow> Some c) = Some d"
  show "(isref c \<longrightarrow> m (cell_ptr c) = c) \<longrightarrow>
      (isref d \<longrightarrow> m (cell_ptr d) = d) \<and> (isattv d \<longrightarrow> m (cell_ptr d) = Ref (cell_ptr d))"
  proof (cases c)
    case (CAttv a)
    then show ?thesis
      using eq IH by (auto split: if_splits bind_splits dest: deref_ref_result)
  qed (use eq in auto)
qed

lemma deref_result:
  assumes "deref m c = Some d"
  shows "(isref d \<longrightarrow> m (cell_ptr d) = d) \<and> (isattv d \<longrightarrow> m (cell_ptr d) = Ref (cell_ptr d))"
proof -
  from assms obtain e where "deref_ref m c = Some e" "deref_attv m e = Some d"
    by (auto simp: deref_def split: bind_splits)
  then show ?thesis using deref_ref_result deref_attv_result by blast
qed

lemma deref_freeD: "deref m c = Some (Ref a) \<Longrightarrow> m a = Ref a"
  by (drule deref_result) simp

lemma deref_attvD: "deref m c = Some (CAttv a) \<Longrightarrow> m a = Ref a"
  by (drule deref_result) simp

text \<open>
  The chains end when some rank goes down along them. The emulator keeps one: a reference
  points to an older heap cell, or from the local stack into the heap or to an older frame.
\<close>

definition chain_ranked :: "(iaddr \<Rightarrow> cell) \<Rightarrow> (iaddr \<Rightarrow> nat) \<Rightarrow> bool" where
  "chain_ranked m rank \<longleftrightarrow>
     (\<forall>a b. (m a = Ref b \<or> m a = CAttv b) \<longrightarrow> m a \<noteq> Ref a \<longrightarrow> rank b < rank a)"

fun chain_rank :: "(iaddr \<Rightarrow> nat) \<Rightarrow> cell \<Rightarrow> nat" where
  "chain_rank rank (Ref a) = Suc (rank a)"
| "chain_rank rank (CAttv a) = Suc (rank a)"
| "chain_rank rank _ = 0"

lemma chain_ranked_step:
  assumes "chain_ranked m rank" "m a \<noteq> Ref a"
  shows "chain_rank rank (m a) < Suc (rank a)"
  using assms by (cases "m a") (auto simp: chain_ranked_def)

lemma deref_ref_total:
  assumes "chain_ranked m rank"
  shows "\<exists>d. deref_ref m c = Some d \<and> chain_rank rank d \<le> chain_rank rank c"
proof (induction "chain_rank rank c" arbitrary: c rule: less_induct)
  case less
  show ?case
  proof (cases "\<exists>a. c = Ref a \<and> m a \<noteq> c")
    case True
    then obtain a where c: "c = Ref a" "m a \<noteq> Ref a" by auto
    with chain_ranked_step [OF assms] less [of "m a"]
    obtain d where "deref_ref m (m a) = Some d" "chain_rank rank d \<le> chain_rank rank (m a)"
      by auto
    with c chain_ranked_step [OF assms c(2)] show ?thesis
      by (subst deref_ref.simps) auto
  next
    case False
    then show ?thesis by (subst deref_ref.simps) (auto split: cell.splits)
  qed
qed

lemma deref_attv_total:
  assumes "chain_ranked m rank"
  shows "\<exists>d. deref_attv m c = Some d"
proof (induction "chain_rank rank c" arbitrary: c rule: less_induct)
  case less
  show ?case
  proof (cases "\<exists>a. c = CAttv a \<and> m a \<noteq> Ref a")
    case True
    then obtain a where c: "c = CAttv a" "m a \<noteq> Ref a" by auto
    from deref_ref_total [OF assms, of "m a"]
    obtain d where d: "deref_ref m (m a) = Some d" "chain_rank rank d \<le> chain_rank rank (m a)"
      by blast
    moreover have "chain_rank rank d < chain_rank rank c"
      using d c chain_ranked_step [OF assms c(2)] by simp
    ultimately obtain e where "deref_attv m d = Some e" using less by blast
    with c d show ?thesis by (subst deref_attv.simps) auto
  next
    case False
    then show ?thesis by (subst deref_attv.simps) (auto split: cell.splits)
  qed
qed

lemma deref_total: "chain_ranked m rank \<Longrightarrow> \<exists>d. deref m c = Some d"
  using deref_ref_total [of m rank c] deref_attv_total [of m rank] by (auto simp: deref_def)

section \<open>The occurs check\<close>

text \<open>
  \<open>not_occurs_in\<close> passes its argument the address of a subterm's cell as a reference, and
  is given a dereferenced variable.
\<close>

fun not_occurs_in :: "nat \<Rightarrow> wam \<Rightarrow> cell \<Rightarrow> cell \<Rightarrow> bool option"
  and not_occurs_in_args :: "nat \<Rightarrow> wam \<Rightarrow> cell \<Rightarrow> iaddr \<Rightarrow> nat \<Rightarrow> bool option" where
  "not_occurs_in 0 s v t = None"
| "not_occurs_in (Suc n) s v t =
     (case deref (mem s) t of None \<Rightarrow> None | Some d \<Rightarrow>
       (case d of
          CAttv _ \<Rightarrow> Some (v \<noteq> d)
        | Ref _ \<Rightarrow> Some (v \<noteq> d)
        | CList a \<Rightarrow> not_occurs_in_args n s v a 2
        | CStruct a \<Rightarrow>
            (case mem s a of
               CPsc p \<Rightarrow> not_occurs_in_args n s v (a + 1) (psc_arity (wenv s) p)
             | _ \<Rightarrow> Some True)
        | _ \<Rightarrow> Some True))"
| "not_occurs_in_args 0 s v a k = (if k = 0 then Some True else None)"
| "not_occurs_in_args (Suc n) s v a k =
     (if k = 0 then Some True else
      case not_occurs_in n s v (Ref a) of
        None \<Rightarrow> None
      | Some False \<Rightarrow> Some False
      | Some True \<Rightarrow> not_occurs_in_args n s v (a + 1) (k - 1))"

section \<open>Unification\<close>

text \<open>
  The third argument of \<open>unify_rat\<close>, \<open>op1loc\<close>, is one machine word used two ways: below
  100 it counts the levels left before the routine starts redirecting the cells it came
  from, otherwise it is the address of the cell \<open>op1\<close> was loaded from.
\<close>

datatype op1loc = Depth nat | Loc iaddr

fun next_loc :: "op1loc \<Rightarrow> iaddr \<Rightarrow> op1loc" where
  "next_loc (Depth 0) a = Loc a"
| "next_loc (Depth (Suc k)) a = Depth k"
| "next_loc (Loc _) a = Loc a"

text \<open>Redirecting the cell at \<open>op1loc\<close> to the second term, under a pre-image frame.\<close>

fun swizzle :: "op1loc \<Rightarrow> cell \<Rightarrow> wam \<Rightarrow> wam" where
  "swizzle (Depth _) c s = s"
| "swizzle (Loc a) c s = bld a c (push_pre_image_trail a c s)"

definition in_heap_cond :: "wam \<Rightarrow> iaddr \<Rightarrow> bool" where
  "in_heap_cond s a \<longleftrightarrow> a < hreg s \<or> a < hfreg s"

definition unify_both_free :: "iaddr \<Rightarrow> iaddr \<Rightarrow> wam \<Rightarrow> wam" where
  "unify_both_free a1 a2 s =
     (if a1 = a2 then s
      else if a1 < a2 then
        (if in_heap_cond s a1 then bind_copy a2 (Ref a1) s else bind_copy a1 (Ref a2) s)
      else
        (if in_heap_cond s a2 then bind_copy a1 (Ref a2) s else bind_copy a2 (Ref a1) s))"

definition unify_free :: "nat \<Rightarrow> iaddr \<Rightarrow> cell \<Rightarrow> wam \<Rightarrow> (bool \<times> wam) option" where
  "unify_free n a op2 s =
     (if occurs_check (wenv s) \<and> (isconstr op2 \<or> islist op2) \<and> in_heap_cond s a then
        (case not_occurs_in n s (Ref a) op2 of
           None \<Rightarrow> None
         | Some False \<Rightarrow> Some (False, s)
         | Some True \<Rightarrow> Some (True, bind_copy a op2 s))
      else Some (True, bind_copy a op2 s))"

definition unify_attv :: "iaddr \<Rightarrow> cell \<Rightarrow> wam \<Rightarrow> wam" where
  "unify_attv a op2 s = bind_copy a op2 (add_interrupt (mem s (a + 1)) op2 s)"

text \<open>The comparison of a tagged float with a boxed one; \<open>None\<close> when the pair is no such.\<close>

definition unify_floats :: "cell \<Rightarrow> cell \<Rightarrow> wam \<Rightarrow> bool option" where
  "unify_floats op1 op2 s =
     (let eq = (\<lambda>f b. case f of CFlt w \<Rightarrow>
            flt_eq_box (wenv s) w (get_str_arg (mem s) b 1) (get_str_arg (mem s) b 2)
              (get_str_arg (mem s) b 3) | _ \<Rightarrow> False)
      in if isfloat op2 \<and> isboxedfloat s op1 then Some (eq op2 op1)
         else if isfloat op1 \<and> isboxedfloat s op2 then Some (eq op1 op2)
         else None)"

fun unify_rat :: "nat \<Rightarrow> cell \<Rightarrow> cell \<Rightarrow> op1loc \<Rightarrow> wam \<Rightarrow> (bool \<times> wam) option"
  and unify_args :: "nat \<Rightarrow> iaddr \<Rightarrow> iaddr \<Rightarrow> nat \<Rightarrow> op1loc \<Rightarrow> wam \<Rightarrow> (bool \<times> wam) option" where
  "unify_rat 0 rop1 rop2 loc s = None"
| "unify_rat (Suc n) rop1 rop2 loc s =
     (case (deref (mem s) rop1, deref (mem s) rop2) of
        (Some op1, Some op2) \<Rightarrow>
          if isref op1 then
            if isref op2 then Some (True, unify_both_free (cell_ptr op1) (cell_ptr op2) s)
            else unify_free n (cell_ptr op1) op2 s
          else if isref op2 then unify_free n (cell_ptr op2) op1 s
          else if isattv op1 then
            if isattv op2 \<and> op1 = op2 then Some (True, s)
            else Some (True, unify_attv (cell_ptr op1) op2 s)
          else if isattv op2 then Some (True, unify_attv (cell_ptr op2) op1 s)
          else (case unify_floats op1 op2 s of Some b \<Rightarrow> Some (b, s) | None \<Rightarrow>
            if \<not> cell_tag_eq op1 op2 then Some (False, s)
            else if op1 = op2 then Some (True, s)
            else (case (op1, op2) of
                (CStruct a1, CStruct a2) \<Rightarrow>
                  if mem s a1 \<noteq> mem s a2 then Some (False, s)
                  else (case mem s a1 of
                      CPsc p \<Rightarrow>
                        if psc_arity (wenv s) p = 0 then Some (True, s)
                        else unify_args n (a1 + 1) (a2 + 1) (psc_arity (wenv s) p) loc
                               (swizzle loc (CStruct a2) s)
                    | _ \<Rightarrow> Some (False, s))
              | (CList a1, CList a2) \<Rightarrow>
                  unify_args n a1 a2 2 loc (swizzle loc op2 s)
              | _ \<Rightarrow> Some (False, s)))
      | _ \<Rightarrow> None)"
| "unify_args 0 a1 a2 k loc s = (if k = 0 then Some (True, s) else None)"
| "unify_args (Suc n) a1 a2 k loc s =
     (if k = 0 then Some (True, s) else
      case unify_rat n (mem s a1) (mem s a2) (next_loc loc a1) s of
        None \<Rightarrow> None
      | Some (False, s') \<Rightarrow> Some (False, s')
      | Some (True, s') \<Rightarrow> unify_args n (a1 + 1) (a2 + 1) (k - 1) loc s')"

definition DEPTH_TILL_CYCLE_CHECK :: nat where "DEPTH_TILL_CYCLE_CHECK = 20"

text \<open>
  The arguments of the two structures at the top of \<open>unify_xsb\<close>: each pair is unified by
  \<open>unify_rat\<close> with the full depth.
\<close>

fun unify_xsb_args :: "nat \<Rightarrow> iaddr \<Rightarrow> iaddr \<Rightarrow> nat \<Rightarrow> wam \<Rightarrow> (bool \<times> wam) option" where
  "unify_xsb_args n a1 a2 0 s = Some (True, s)"
| "unify_xsb_args n a1 a2 (Suc k) s =
     (case unify_rat n (mem s a1) (mem s a2) (Depth DEPTH_TILL_CYCLE_CHECK) s of
        None \<Rightarrow> None
      | Some (False, s') \<Rightarrow> Some (False, s')
      | Some (True, s') \<Rightarrow> unify_xsb_args n (a1 + 1) (a2 + 1) k s')"

definition unify_xsb :: "nat \<Rightarrow> cell \<Rightarrow> cell \<Rightarrow> wam \<Rightarrow> (bool \<times> wam) option" where
  "unify_xsb n rop1 rop2 s =
     (case (deref (mem s) rop1, deref (mem s) rop2) of
        (Some op1, Some op2) \<Rightarrow>
          if isref op1 then
            if isref op2 then Some (True, unify_both_free (cell_ptr op1) (cell_ptr op2) s)
            else unify_free n (cell_ptr op1) op2 s
          else if isref op2 then unify_free n (cell_ptr op2) op1 s
          else if isattv op1 then
            if isattv op2 \<and> op1 = op2 then Some (True, s)
            else Some (True, unify_attv (cell_ptr op1) op2 s)
          else if isattv op2 then Some (True, unify_attv (cell_ptr op2) op1 s)
          else (case unify_floats op1 op2 s of Some b \<Rightarrow> Some (b, s) | None \<Rightarrow>
            if \<not> cell_tag_eq op1 op2 then Some (False, s)
            else if op1 = op2 then Some (True, s)
            else if (isconstr op1 \<or> islist op1) \<and> isinternstr s op1 \<and> isinternstr s op2
              then Some (False, s)
            else (case (op1, op2) of
                (CStruct a1, CStruct a2) \<Rightarrow>
                  if mem s a1 \<noteq> mem s a2 then Some (False, s)
                  else (case mem s a1 of
                      CPsc p \<Rightarrow> unify_xsb_args n (a1 + 1) (a2 + 1) (psc_arity (wenv s) p) s
                    | _ \<Rightarrow> Some (False, s))
              | (CList a1, CList a2) \<Rightarrow> unify_xsb_args n a1 a2 2 s
              | _ \<Rightarrow> Some (False, s)))
      | _ \<Rightarrow> None)"

section \<open>Unification is undone by backtracking\<close>

lemma swizzle_safe [safe_intros]: "bt_safe s s' \<Longrightarrow> bt_safe s (swizzle loc c s')"
  by (cases loc) (auto intro: safe_intros)

lemma unify_both_free_safe:
  "mem s a1 = Ref a1 \<Longrightarrow> mem s a2 = Ref a2 \<Longrightarrow> bt_safe s (unify_both_free a1 a2 s)"
  by (auto simp: unify_both_free_def intro!: bind_copy_safe)

lemma unify_free_safe:
  "mem s a = Ref a \<Longrightarrow> unify_free n a c s = Some (b, s') \<Longrightarrow> bt_safe s s'"
  by (auto simp: unify_free_def split: if_splits option.splits bool.splits intro: bind_copy_safe)

text \<open>
  Without attributed variables, in memory or among the trailed pre-images, every write of the unifier binds a free variable or is under
  a pre-image frame.
\<close>

definition attv_free :: "wam \<Rightarrow> bool" where
  "attv_free s \<longleftrightarrow>
     (\<forall>x. \<not> isattv (mem s x)) \<and>
     (\<forall>t c. tf_pre_image (trail s t) = Some c \<longrightarrow> \<not> isattv c)"

lemma deref_ref_not_attv:
  assumes "deref_ref m c = Some d"
  shows "(\<forall>x. \<not> isattv (m x)) \<longrightarrow> \<not> isattv c \<longrightarrow> \<not> isattv d"
proof (rule deref_ref.raw_induct [where
      P = "\<lambda>m c d. (\<forall>x. \<not> isattv (m x)) \<longrightarrow> \<not> isattv c \<longrightarrow> \<not> isattv d", OF _ assms])
  fix f m c d
  assume "\<And>m c d. f m c = Some d \<Longrightarrow> (\<forall>x. \<not> isattv (m x)) \<longrightarrow> \<not> isattv c \<longrightarrow> \<not> isattv d"
    and "(case c of Ref a \<Rightarrow> if m a = c then Some c else f m (m a) | _ \<Rightarrow> Some c) = Some d"
  then show "(\<forall>x. \<not> isattv (m x)) \<longrightarrow> \<not> isattv c \<longrightarrow> \<not> isattv d"
    by (cases c) (auto split: if_splits)
qed

lemma deref_attv_other: "\<not> isattv c \<Longrightarrow> deref_attv m c = Some c"
  by (subst deref_attv.simps) (cases c, auto)

lemma deref_not_attv:
  "deref (mem s) c = Some d \<Longrightarrow> attv_free s \<Longrightarrow> \<not> isattv c \<Longrightarrow> \<not> isattv d"
  by (auto simp: deref_def attv_free_def deref_attv_other dest: deref_ref_not_attv
      split: bind_splits)

text \<open>
  What each step of the unifier keeps, in one predicate: it is undone by backtracking, makes
  no attributed variable and leaves the control and argument registers alone.
\<close>

definition same_ctl :: "wam \<Rightarrow> wam \<Rightarrow> bool" where
  "same_ctl s s' \<longleftrightarrow>
     xreg s' = xreg s \<and> sreg s' = sreg s \<and> ereg s' = ereg s \<and> cpreg s' = cpreg s \<and>
     lpcreg s' = lpcreg s \<and> wflag s' = wflag s \<and> delayreg s' = delayreg s \<and>
     ptcpreg s' = ptcpreg s \<and> hreg s' = hreg s"

definition keeps :: "wam \<Rightarrow> wam \<Rightarrow> bool" where
  "keeps s s' \<longleftrightarrow> bt_safe s s' \<and> attv_free s' \<and> same_ctl s s'"

lemma keeps_trans: "keeps s s' \<Longrightarrow> keeps s' s'' \<Longrightarrow> keeps s s''"
  by (auto simp: keeps_def same_ctl_def intro: bt_safe_trans)

lemma keeps_refl: "attv_free s \<Longrightarrow> keeps s s"
  by (simp add: keeps_def same_ctl_def)

lemma attv_free_bind_copy: "attv_free s \<Longrightarrow> \<not> isattv v \<Longrightarrow> attv_free (bind_copy a v s)"
  by (auto simp: attv_free_def bind_copy_def bld_def pushtrail_def pushtrail0_def Let_def)

lemma same_ctl_bind_copy: "same_ctl s (bind_copy a v s)"
  by (simp add: same_ctl_def bind_copy_def bld_def pushtrail_def pushtrail0_def Let_def)

lemma keeps_bind_copy:
  "attv_free s \<Longrightarrow> mem s a = Ref a \<Longrightarrow> \<not> isattv v \<Longrightarrow> keeps s (bind_copy a v s)"
  by (simp add: keeps_def bind_copy_safe attv_free_bind_copy same_ctl_bind_copy)

lemma same_ctl_swizzle: "same_ctl s (swizzle loc c s)"
  by (cases loc)
    (simp_all add: same_ctl_def bld_def push_pre_image_trail_def push_pre_image_trail0_def Let_def)

lemma attv_free_swizzle: "attv_free s \<Longrightarrow> \<not> isattv c \<Longrightarrow> attv_free (swizzle loc c s)"
  by (cases loc) (auto simp: attv_free_def bld_def push_pre_image_trail_def
      push_pre_image_trail0_def Let_def)

lemma keeps_swizzle: "attv_free s \<Longrightarrow> \<not> isattv c \<Longrightarrow> keeps s (swizzle loc c s)"
  by (auto simp: keeps_def attv_free_swizzle same_ctl_swizzle intro: swizzle_safe)

lemma keeps_both_free:
  "attv_free s \<Longrightarrow> mem s a1 = Ref a1 \<Longrightarrow> mem s a2 = Ref a2 \<Longrightarrow> keeps s (unify_both_free a1 a2 s)"
  by (auto simp: unify_both_free_def keeps_refl intro!: keeps_bind_copy)

lemma keeps_free:
  "attv_free s \<Longrightarrow> mem s a = Ref a \<Longrightarrow> \<not> isattv c \<Longrightarrow> unify_free n a c s = Some (b, s')
    \<Longrightarrow> keeps s s'"
  by (auto simp: unify_free_def keeps_refl split: if_splits option.splits bool.splits
      intro: keeps_bind_copy)

lemma isref_cases: "isref c \<longleftrightarrow> c = Ref (cell_ptr c)"
  by (cases c) auto

text \<open>
  One unfolding of \<open>unify_rat\<close> on dereferenced operands: a binding, a descent into two
  structures or lists, or no change.
\<close>

lemma unify_rat_cases:
  assumes res: "unify_rat (Suc n) rop1 rop2 loc s = Some (b, s')"
  obtains (free) op1 op2 where "deref (mem s) rop1 = Some op1" "deref (mem s) rop2 = Some op2"
      "isref op1" "isref op2" "b" "s' = unify_both_free (cell_ptr op1) (cell_ptr op2) s"
    | (free1) op1 op2 where "deref (mem s) rop1 = Some op1" "deref (mem s) rop2 = Some op2"
      "isref op1" "\<not> isref op2" "unify_free n (cell_ptr op1) op2 s = Some (b, s')"
    | (free2) op1 op2 where "deref (mem s) rop1 = Some op1" "deref (mem s) rop2 = Some op2"
      "isref op2" "\<not> isref op1" "unify_free n (cell_ptr op2) op1 s = Some (b, s')"
    | (attv) op1 op2 where "deref (mem s) rop1 = Some op1" "deref (mem s) rop2 = Some op2"
      "isattv op1 \<or> isattv op2"
      "s' = s \<or> isattv op1 \<and> s' = unify_attv (cell_ptr op1) op2 s \<or>
        isattv op2 \<and> s' = unify_attv (cell_ptr op2) op1 s"
    | (struct) c1 c2 p where "deref (mem s) rop1 = Some (CStruct c1)"
      "deref (mem s) rop2 = Some (CStruct c2)" "mem s c1 = CPsc p" "mem s c2 = CPsc p"
      "unify_args n (c1 + 1) (c2 + 1) (psc_arity (wenv s) p) loc (swizzle loc (CStruct c2) s)
          = Some (b, s')"
    | (list) c1 c2 where "deref (mem s) rop1 = Some (CList c1)"
      "deref (mem s) rop2 = Some (CList c2)"
      "unify_args n c1 c2 2 loc (swizzle loc (CList c2) s) = Some (b, s')"
    | (same) op1 op2 where "deref (mem s) rop1 = Some op1" "deref (mem s) rop2 = Some op2"
      "\<not> isref op1" "\<not> isref op2" "s' = s"
proof -
  from res obtain op1 op2
    where d1: "deref (mem s) rop1 = Some op1" and d2: "deref (mem s) rop2 = Some op2"
    by (auto split: option.splits)
  note r = res [unfolded unify_rat.simps d1 d2, simplified]
  consider "isref op1" "isref op2" | "isref op1" "\<not> isref op2" | "isref op2" "\<not> isref op1"
    | "\<not> isref op1" "\<not> isref op2" "isattv op1 \<or> isattv op2"
    | "\<not> isref op1" "\<not> isref op2" "\<not> isattv op1" "\<not> isattv op2" by blast
  then show ?thesis
  proof cases
    case 4
    then have "s' = s \<or> isattv op1 \<and> s' = unify_attv (cell_ptr op1) op2 s \<or>
        isattv op2 \<and> s' = unify_attv (cell_ptr op2) op1 s"
      using r by (cases "isattv op1"; cases "op1 = op2") simp_all
    then show ?thesis using attv d1 d2 4 by blast
  next
    case 5
    show ?thesis
    proof (cases "s' = s")
      case True
      with same d1 d2 5 show ?thesis by blast
    next
      case False
      have fl: "unify_floats op1 op2 s = None" and ne: "cell_tag_eq op1 op2" "op1 \<noteq> op2"
        using r 5 False by (simp_all split: option.splits if_splits)
      note r5 = r [unfolded fl, simplified 5 ne if_True if_False simp_thms option.case]
      have "(\<exists>c1 c2. op1 = CStruct c1 \<and> op2 = CStruct c2) \<or> (\<exists>c1 c2. op1 = CList c1 \<and> op2 = CList c2)"
        using r5 False by (cases op1; cases op2) simp_all
      then show ?thesis
      proof (elim disjE exE conjE)
        fix c1 c2
        assume c: "op1 = CStruct c1" "op2 = CStruct c2"
        then show ?thesis
          using r5 False d1 d2 struct [of c1 c2]
          by (auto split: if_splits cell.splits)
      next
        fix c1 c2
        assume c: "op1 = CList c1" "op2 = CList c2"
        then show ?thesis using r5 d1 d2 list [of c1 c2] by simp
      qed
    qed
  qed (use r d1 d2 free free1 free2 in \<open>auto\<close>)
qed

lemma unify_args_cases:
  assumes "unify_args (Suc n) a1 a2 k loc s = Some (b, s')"
  obtains (zero) "k = 0" "b" "s' = s"
    | (fails) "k \<noteq> 0" "\<not> b" "unify_rat n (mem s a1) (mem s a2) (next_loc loc a1) s = Some (False, s')"
    | (step) t where "k \<noteq> 0"
      "unify_rat n (mem s a1) (mem s a2) (next_loc loc a1) s = Some (True, t)"
      "unify_args n (a1 + 1) (a2 + 1) (k - 1) loc t = Some (b, s')"
  using assms by (auto split: if_splits option.splits bool.splits)

lemma unify_keeps_fuel:
  "(\<forall>c1 c2 loc s b s'. unify_rat n c1 c2 loc s = Some (b, s') \<longrightarrow> attv_free s \<longrightarrow>
      \<not> isattv c1 \<longrightarrow> \<not> isattv c2 \<longrightarrow> keeps s s') \<and>
   (\<forall>a1 a2 k loc s b s'. unify_args n a1 a2 k loc s = Some (b, s') \<longrightarrow> attv_free s \<longrightarrow> keeps s s')"
proof (induction n)
  case 0
  then show ?case by (auto intro: keeps_refl split: if_splits)
next
  case (Suc n)
  note argsD = Suc [THEN conjunct2, rule_format] and ratD = Suc [THEN conjunct1, rule_format]
  have rat: "keeps s s'" if res: "unify_rat (Suc n) c1 c2 loc s = Some (b, s')"
    and a: "attv_free s" and n1: "\<not> isattv c1" and n2: "\<not> isattv c2" for c1 c2 loc s b s'
    using res
  proof (cases rule: unify_rat_cases)
    case (free op1 op2)
    then show ?thesis using a keeps_both_free deref_freeD isref_cases by metis
  next
    case (free1 op1 op2)
    then show ?thesis using a n2 keeps_free deref_freeD deref_not_attv isref_cases by metis
  next
    case (free2 op1 op2)
    then show ?thesis using a n1 keeps_free deref_freeD deref_not_attv isref_cases by metis
  next
    case (attv op1 op2)
    then show ?thesis using a n1 n2 deref_not_attv by blast
  next
    case (struct d1 d2 p)
    have k: "keeps s (swizzle loc (CStruct d2) s)" using a by (simp add: keeps_swizzle)
    with struct argsD show ?thesis by (meson keeps_def keeps_trans)
  next
    case (list d1 d2)
    have k: "keeps s (swizzle loc (CList d2) s)" using a by (simp add: keeps_swizzle)
    with list argsD show ?thesis by (meson keeps_def keeps_trans)
  qed (use a keeps_refl in auto)
  have args: "keeps s s'" if res: "unify_args (Suc n) a1 a2 k loc s = Some (b, s')"
    and a: "attv_free s" for a1 a2 k loc s b s'
    using res
  proof (cases rule: unify_args_cases)
    case (step t)
    then have "keeps s t" using ratD a by (auto simp: attv_free_def)
    with step argsD show ?thesis by (meson keeps_def keeps_trans)
  qed (use a keeps_refl ratD in \<open>auto simp: attv_free_def\<close>)
  from rat args show ?case by blast
qed

lemma unify_rat_keeps:
  "unify_rat n c1 c2 loc s = Some (b, s') \<Longrightarrow> attv_free s \<Longrightarrow> \<not> isattv c1 \<Longrightarrow> \<not> isattv c2
    \<Longrightarrow> keeps s s'"
  using unify_keeps_fuel [of n] by blast

lemma unify_xsb_args_keeps:
  "unify_xsb_args n a1 a2 k s = Some (b, s') \<Longrightarrow> attv_free s \<Longrightarrow> keeps s s'"
proof (induction k arbitrary: a1 a2 s)
  case (Suc k)
  then obtain c t where r: "unify_rat n (mem s a1) (mem s a2) (Depth DEPTH_TILL_CYCLE_CHECK) s = Some (c, t)"
    by (auto split: option.splits)
  have kt: "keeps s t" using unify_rat_keeps [OF r] Suc.prems by (auto simp: attv_free_def)
  show ?case
  proof (cases c)
    case True
    then have "unify_xsb_args n (a1 + 1) (a2 + 1) k t = Some (b, s')" using Suc.prems r by simp
    then have "keeps t s'" using Suc.IH kt by (simp add: keeps_def)
    with kt show ?thesis by (rule keeps_trans)
  qed (use Suc.prems r kt in simp)
qed (auto intro: keeps_refl)

lemma unify_xsb_keeps:
  assumes res: "unify_xsb n rop1 rop2 s = Some (b, s')"
    and a: "attv_free s" "\<not> isattv rop1" "\<not> isattv rop2"
  shows "keeps s s'"
proof -
  from res obtain op1 op2
    where d1: "deref (mem s) rop1 = Some op1" and d2: "deref (mem s) rop2 = Some op2"
    by (auto simp: unify_xsb_def split: option.splits)
  note r = res [unfolded unify_xsb_def d1 d2, simplified]
  have na: "\<not> isattv op1" "\<not> isattv op2" using a d1 d2 deref_not_attv by blast+
  have f: "isref op1 \<Longrightarrow> mem s (cell_ptr op1) = Ref (cell_ptr op1)"
    "isref op2 \<Longrightarrow> mem s (cell_ptr op2) = Ref (cell_ptr op2)"
    using d1 d2 deref_freeD isref_cases by metis+
  show ?thesis
  proof (cases "isref op1 \<or> isref op2")
    case True
    then show ?thesis using r a na f by (auto split: if_splits intro: keeps_both_free keeps_free)
  next
    case False
    then show ?thesis using r a na
      by (cases op1; cases op2)
        (auto split: if_splits option.splits cell.splits intro: keeps_refl unify_xsb_args_keeps)
  qed
qed

end
