(* ===== verification/Wam_Instr.thy ===== *)
theory Wam_Instr imports Wam_Unify begin

text \<open>
  The head-unification, body-construction and structure instructions of the emulator loop
  (\<open>emuloop.c\<close>) with the specialised unifications of \<open>emudef.h\<close> and \<open>nbldval\<close> of
  \<open>binding.h\<close>. One definition per instruction, on decoded operands: register numbers,
  offsets of environment variables, and the constant, number or functor word. The program
  counter counts cells.

  Where an instruction dereferences or unifies, its result is an option: \<open>None\<close> is a
  dereference that does not end or a unification that has not ended within the fuel \<open>n\<close>.
  The emulator's own failure is the jump \<open>fail1\<close>.
\<close>

section \<open>Operands\<close>

definition advance_pc :: "int \<Rightarrow> wam \<Rightarrow> wam" where
  "advance_pc k s = s\<lparr>lpcreg := lpcreg s + k\<rparr>"

text \<open>\<open>get_xxv\<close>, the address of an environment variable, and \<open>Variable\<close>, its contents.\<close>

definition get_v :: "nat \<Rightarrow> wam \<Rightarrow> iaddr" where
  "get_v v s = ereg s - int v"

definition variable_at :: "nat \<Rightarrow> wam \<Rightarrow> cell" where
  "variable_at v s = mem s (get_v v s)"

definition set_read :: "iaddr \<Rightarrow> wam \<Rightarrow> wam" where
  "set_read a s = s\<lparr>wflag := False, sreg := a\<rparr>"

definition set_write :: "wam \<Rightarrow> wam" where
  "set_write s = s\<lparr>wflag := True\<rparr>"

definition inc_sreg :: "int \<Rightarrow> wam \<Rightarrow> wam" where
  "inc_sreg k s = s\<lparr>sreg := sreg s + k\<rparr>"

definition get_sreg :: "wam \<Rightarrow> cell" where
  "get_sreg s = mem s (sreg s)"

section \<open>Specialised unification\<close>

definition nunify_with_nil :: "cell \<Rightarrow> wam \<Rightarrow> wam option" where
  "nunify_with_nil op s =
     (case deref (mem s) op of
        None \<Rightarrow> None
      | Some (Ref a) \<Rightarrow> Some (bind_copy a (CStr (nil_string (wenv s))) s)
      | Some (CStr c) \<Rightarrow> Some (if c = nil_string (wenv s) then s else fail1 s)
      | Some (CAttv a) \<Rightarrow>
          Some (bind_copy a (CStr (nil_string (wenv s)))
                 (add_interrupt (mem s (a + 1)) (CStr (nil_string (wenv s))) s))
      | Some _ \<Rightarrow> Some (fail1 s))"

definition nunify_with_con :: "cell \<Rightarrow> nat \<Rightarrow> wam \<Rightarrow> wam option" where
  "nunify_with_con op1 op2 s =
     (case deref (mem s) op1 of
        None \<Rightarrow> None
      | Some (Ref a) \<Rightarrow> Some (bind_copy a (CStr op2) s)
      | Some (CStr c) \<Rightarrow> Some (if c = op2 then s else fail1 s)
      | Some (CAttv a) \<Rightarrow>
          Some (bind_copy a (CStr op2) (add_interrupt (mem s (a + 1)) (CStr op2) s))
      | Some _ \<Rightarrow> Some (fail1 s))"

definition unify_or_fail :: "nat \<Rightarrow> cell \<Rightarrow> cell \<Rightarrow> wam \<Rightarrow> wam option" where
  "unify_or_fail n op1 op2 s =
     (case unify_xsb n op1 op2 s of
        None \<Rightarrow> None
      | Some (b, s') \<Rightarrow> Some (if b then s' else fail1 s'))"

text \<open>
  The second operand is an interned structure or list, so already a tagged cell; tagging it
  again, as the code does, changes nothing.
\<close>

definition nunify_with_internstr :: "nat \<Rightarrow> cell \<Rightarrow> cell \<Rightarrow> wam \<Rightarrow> wam option" where
  "nunify_with_internstr n op1 op2 s =
     (case deref (mem s) op1 of
        None \<Rightarrow> None
      | Some (Ref a) \<Rightarrow> Some (bind_copy a op2 s)
      | Some d \<Rightarrow>
          if isinternstr s d then Some (if d = op2 then s else fail1 s)
          else unify_or_fail n d op2 s)"

definition nunify_with_num :: "cell \<Rightarrow> int \<Rightarrow> wam \<Rightarrow> wam option" where
  "nunify_with_num op1 op2 s =
     (case deref (mem s) op1 of
        None \<Rightarrow> None
      | Some (Ref a) \<Rightarrow> Some (bind_oint a op2 s)
      | Some d \<Rightarrow>
          if isointeger s d then Some (if oint_val s d = op2 then s else fail1 s)
          else (case d of
              CAttv a \<Rightarrow> Some (bind_oint a op2 (add_interrupt (mem s (a + 1)) (makeint_cell op2) s))
            | _ \<Rightarrow> Some (fail1 s)))"

text \<open>
  In the branch for the functor of boxed numbers the operand, a functor word, is tested with
  \<open>isofloat\<close> and \<open>isointeger\<close>, which no functor word satisfies: the branch fails, and then
  still switches to read mode below the heap top.
\<close>

definition nunify_with_str :: "cell \<Rightarrow> nat \<Rightarrow> wam \<Rightarrow> wam option" where
  "nunify_with_str op1 p s =
     (case deref (mem s) op1 of
        None \<Rightarrow> None
      | Some (Ref a) \<Rightarrow>
          Some (set_write (new_heap_functor p (bind_copy a (CStruct (hreg s)) s)))
      | Some (CStruct a) \<Rightarrow>
          Some (if mem s a = CPsc p then set_read (a + 1) s else fail1 s)
      | Some d \<Rightarrow>
          if p = box_psc (wenv s) then Some (set_read (hreg s - 3) (fail1 s))
          else (case d of
              CAttv a \<Rightarrow>
                (let s1 = add_interrupt (mem s (a + 1)) (CStruct (hreg s + INT_REC_SIZE)) s
                 in Some (set_write (new_heap_functor p (bind_copy a (CStruct (hreg s1)) s1))))
            | _ \<Rightarrow> Some (fail1 s)))"

definition nunify_with_list_sym :: "cell \<Rightarrow> wam \<Rightarrow> wam option" where
  "nunify_with_list_sym op1 s =
     (case deref (mem s) op1 of
        None \<Rightarrow> None
      | Some (Ref a) \<Rightarrow> Some (set_write (bind_copy a (CList (hreg s)) s))
      | Some (CList a) \<Rightarrow> Some (set_read a s)
      | Some (CAttv a) \<Rightarrow>
          (let s1 = add_interrupt (mem s (a + 1)) (CList (hreg s + INT_REC_SIZE)) s
           in Some (set_write (bind_copy a (CList (hreg s1)) s1)))
      | Some _ \<Rightarrow> Some (fail1 s))"

definition nunify_with_attv :: "cell \<Rightarrow> wam \<Rightarrow> wam option" where
  "nunify_with_attv op1 s =
     (case deref (mem s) op1 of
        None \<Rightarrow> None
      | Some (Ref a) \<Rightarrow> Some (set_write (new_heap_free (bind_copy a (CAttv (hreg s)) s)))
      | Some d \<Rightarrow>
          Some (set_write (new_heap_node d
                 (add_interrupt (Ref (hreg s + (INT_REC_SIZE + 1))) d s))))"

section \<open>Building values on the heap\<close>

fun occurs_in_list_or_struc :: "nat \<Rightarrow> wam \<Rightarrow> iaddr \<Rightarrow> cell \<Rightarrow> bool option"
  and occurs_in_some_arg :: "nat \<Rightarrow> wam \<Rightarrow> iaddr \<Rightarrow> iaddr \<Rightarrow> nat \<Rightarrow> bool option" where
  "occurs_in_list_or_struc 0 s v t = None"
| "occurs_in_list_or_struc (Suc n) s v t =
     (case deref (mem s) t of None \<Rightarrow> None | Some d \<Rightarrow>
       (case d of
          CList a \<Rightarrow> if v = a \<or> v = a + 1 then Some True else occurs_in_some_arg n s v a 2
        | CStruct a \<Rightarrow>
            (case mem s a of
               CPsc p \<Rightarrow>
                 (let k = psc_arity (wenv s) p
                  in if k = 0 then Some False
                     else if v > a \<and> v \<le> a + int k then Some True
                     else occurs_in_some_arg n s v (a + 1) k)
             | _ \<Rightarrow> Some False)
        | _ \<Rightarrow> Some False))"
| "occurs_in_some_arg 0 s v a k = (if k = 0 then Some False else None)"
| "occurs_in_some_arg (Suc n) s v a k =
     (if k = 0 then Some False else
      case occurs_in_list_or_struc n s v (mem s a) of
        None \<Rightarrow> None
      | Some True \<Rightarrow> Some True
      | Some False \<Rightarrow> occurs_in_some_arg n s v (a + 1) (k - 1))"

definition nbldval :: "nat \<Rightarrow> cell \<Rightarrow> wam \<Rightarrow> wam option" where
  "nbldval n op1 s =
     (case deref (mem s) op1 of
        None \<Rightarrow> None
      | Some d \<Rightarrow>
          if \<not> isref d \<or> cell_ptr d \<le> hreg s - 1 then
            if occurs_check (wenv s) \<and> (isconstr d \<or> islist d) then
              (case occurs_in_list_or_struc n s (hreg s) d of
                 None \<Rightarrow> None
               | Some True \<Rightarrow> Some (fail1 s)
               | Some False \<Rightarrow> Some (new_heap_node d s))
            else Some (new_heap_node d s)
          else Some (new_heap_free (bind_copy (cell_ptr d) (Ref (hreg s)) s)))"

section \<open>Get instructions\<close>

text \<open>\<open>Register(r)\<close> is \<open>xreg s r\<close>.\<close>

definition i_getpvar :: "nat \<Rightarrow> nat \<Rightarrow> wam \<Rightarrow> wam option" where
  "i_getpvar v r s =
     (let op1 = variable_at v s; op2 = xreg s r
      in Some (bind_copy (cell_ptr op1) op2 (advance_pc 1 s)))"

fun getkpvars_loop :: "bool \<Rightarrow> nat \<Rightarrow> iaddr \<Rightarrow> nat \<Rightarrow> wam \<Rightarrow> wam" where
  "getkpvars_loop c 0 vaddr raddr s = s"
| "getkpvars_loop c (Suc k) vaddr raddr s =
     (let vval = cell_ptr (mem s vaddr); rval = xreg s raddr
      in getkpvars_loop c k (vaddr - 1) (raddr + 1)
           (bld vval rval (if c then pushtrail0 vval rval s else s)))"

definition i_getkpvars :: "nat \<Rightarrow> nat \<Rightarrow> nat \<Rightarrow> wam \<Rightarrow> wam option" where
  "i_getkpvars k v r s =
     (let s1 = advance_pc 1 s
      in Some (getkpvars_loop (conditional s1 (cell_ptr (variable_at v s1))) k (get_v v s1) r s1))"

definition i_getpval :: "nat \<Rightarrow> nat \<Rightarrow> nat \<Rightarrow> wam \<Rightarrow> wam option" where
  "i_getpval n v r s = unify_or_fail n (variable_at v s) (xreg s r) (advance_pc 1 s)"

definition i_getstrv :: "nat \<Rightarrow> nat \<Rightarrow> wam \<Rightarrow> wam option" where
  "i_getstrv v p s = nunify_with_str (variable_at v s) p (advance_pc 2 s)"

definition i_gettval :: "nat \<Rightarrow> nat \<Rightarrow> nat \<Rightarrow> wam \<Rightarrow> wam option" where
  "i_gettval n r1 r2 s = unify_or_fail n (xreg s r1) (xreg s r2) (advance_pc 1 s)"

definition i_getcon :: "nat \<Rightarrow> nat \<Rightarrow> wam \<Rightarrow> wam option" where
  "i_getcon r c s = nunify_with_con (xreg s r) c (advance_pc 2 s)"

definition i_getinternstr :: "nat \<Rightarrow> nat \<Rightarrow> cell \<Rightarrow> wam \<Rightarrow> wam option" where
  "i_getinternstr n r c s = nunify_with_internstr n (xreg s r) c (advance_pc 2 s)"

definition i_getnil :: "nat \<Rightarrow> wam \<Rightarrow> wam option" where
  "i_getnil r s = nunify_with_nil (xreg s r) (advance_pc 1 s)"

definition i_getstr :: "nat \<Rightarrow> nat \<Rightarrow> wam \<Rightarrow> wam option" where
  "i_getstr r p s = nunify_with_str (xreg s r) p (advance_pc 2 s)"

definition i_getlist :: "nat \<Rightarrow> wam \<Rightarrow> wam option" where
  "i_getlist r s = nunify_with_list_sym (xreg s r) (advance_pc 1 s)"

definition i_getattv :: "nat \<Rightarrow> wam \<Rightarrow> wam option" where
  "i_getattv r s = nunify_with_attv (xreg s r) (advance_pc 1 s)"

definition i_getnumcon :: "nat \<Rightarrow> int \<Rightarrow> wam \<Rightarrow> wam option" where
  "i_getnumcon r k s = nunify_with_num (xreg s r) k (advance_pc 2 s)"

text \<open>
  \<open>getlist_tvar_tvar\<close>. On an attributed variable the code queues the interrupt with the
  variable itself and the address the list would have had before the interrupt record was
  built, and binds nothing; \<open>getlist\<close> does otherwise.
\<close>

definition i_getlist_tvar_tvar :: "nat \<Rightarrow> nat \<Rightarrow> nat \<Rightarrow> wam \<Rightarrow> wam option" where
  "i_getlist_tvar_tvar r1 r2 r3 s =
     (let s0 = advance_pc 1 s;
          two_free = (\<lambda>s. let s1 = new_heap_free (bld_reg r2 (Ref (hreg s)) s)
                          in new_heap_free (bld_reg r3 (Ref (hreg s1)) s1))
      in case deref (mem s0) (xreg s0 r1) of
           None \<Rightarrow> None
         | Some (CList a) \<Rightarrow>
             (let s1 = s0\<lparr>sreg := a\<rparr>
              in Some (bld_reg r3 (mem s1 (sreg s1 + 1)) (bld_reg r2 (get_sreg s1) s1)))
         | Some (Ref a) \<Rightarrow> Some (two_free (bind_copy a (CList (hreg s0)) s0))
         | Some (CAttv a) \<Rightarrow> Some (two_free (add_interrupt (CAttv a) (CList (hreg s0)) s0))
         | Some _ \<Rightarrow> Some (fail1 s0))"

section \<open>Unify instructions\<close>

text \<open>In read mode the argument is taken at \<open>sreg\<close>, in write mode built at \<open>hreg\<close>.\<close>

definition i_unipvar :: "nat \<Rightarrow> wam \<Rightarrow> wam option" where
  "i_unipvar v s =
     (let op1 = get_v v s; s1 = advance_pc 1 s
      in Some (if \<not> wflag s1 then inc_sreg 1 (bind_copy op1 (get_sreg s1) s1)
               else new_heap_free (bind_copy op1 (Ref (hreg s1)) s1)))"

definition i_unipval :: "nat \<Rightarrow> nat \<Rightarrow> wam \<Rightarrow> wam option" where
  "i_unipval n v s =
     (let op1 = variable_at v s; s1 = advance_pc 1 s
      in if wflag s1 then nbldval n op1 s1
         else unify_or_fail n op1 (get_sreg s1) (inc_sreg 1 s1))"

definition i_unitvar :: "nat \<Rightarrow> wam \<Rightarrow> wam option" where
  "i_unitvar r s =
     (let s1 = advance_pc 1 s
      in Some (if \<not> wflag s1 then inc_sreg 1 (bld_reg r (get_sreg s1) s1)
               else new_heap_free (bld_reg r (Ref (hreg s1)) s1)))"

definition i_unitvar_getlist_uninumcon :: "nat \<Rightarrow> nat \<Rightarrow> nat \<Rightarrow> wam \<Rightarrow> wam option" where
  "i_unitvar_getlist_uninumcon r hi lo s =
     (let num = int hi * 256 + int lo; s1 = advance_pc 1 s
      in if \<not> wflag s1 then
           (let next_instr = lpcreg s1; s2 = inc_sreg 1 (bld_reg r (get_sreg s1) s1)
            in case nunify_with_list_sym (xreg s2 r) s2 of
                 None \<Rightarrow> None
               | Some s3 \<Rightarrow>
                   if lpcreg s3 = next_instr then
                     (if wflag s3 then Some (new_heap_node (makeint_cell num) s3)
                      else nunify_with_num (get_sreg s3) num (inc_sreg 1 s3))
                   else Some s3)
         else
           (let s2 = new_heap_free (bld_reg r (Ref (hreg s1)) s1)
            in Some (new_heap_node (makeint_cell num)
                      (bld (cell_ptr (xreg s2 r)) (CList (hreg s2)) s2))))"

definition i_uniavar :: "wam \<Rightarrow> wam option" where
  "i_uniavar s =
     (let s1 = advance_pc 1 s in Some (if \<not> wflag s1 then inc_sreg 1 s1 else new_heap_free s1))"

definition i_unikavars :: "nat \<Rightarrow> wam \<Rightarrow> wam option" where
  "i_unikavars k s =
     (let s1 = advance_pc 1 s
      in Some (if \<not> wflag s1 then inc_sreg (int k) s1 else (new_heap_free ^^ k) s1))"

definition i_unitval :: "nat \<Rightarrow> nat \<Rightarrow> wam \<Rightarrow> wam option" where
  "i_unitval n r s =
     (let op1 = xreg s r; s1 = advance_pc 1 s
      in if wflag s1 then nbldval n op1 s1
         else unify_or_fail n op1 (get_sreg s1) (inc_sreg 1 s1))"

definition i_unicon :: "nat \<Rightarrow> wam \<Rightarrow> wam option" where
  "i_unicon c s =
     (let s1 = advance_pc 2 s
      in if wflag s1 then Some (new_heap_node (CStr c) s1)
         else nunify_with_con (get_sreg s1) c (inc_sreg 1 s1))"

definition i_uniinternstr :: "nat \<Rightarrow> cell \<Rightarrow> wam \<Rightarrow> wam option" where
  "i_uniinternstr n c s =
     (let s1 = advance_pc 2 s
      in if wflag s1 then Some (new_heap_node c s1)
         else nunify_with_internstr n (get_sreg s1) c (inc_sreg 1 s1))"

definition i_uninil :: "wam \<Rightarrow> wam option" where
  "i_uninil s =
     (let s1 = advance_pc 1 s
      in if wflag s1 then Some (new_heap_node (CStr (nil_string (wenv s1))) s1)
         else nunify_with_nil (get_sreg s1) (inc_sreg 1 s1))"

definition i_uninumcon :: "int \<Rightarrow> wam \<Rightarrow> wam option" where
  "i_uninumcon k s =
     (let s1 = advance_pc 2 s
      in if wflag s1 then Some (new_heap_node (makeint_cell k) s1)
         else nunify_with_num (get_sreg s1) k (inc_sreg 1 s1))"

section \<open>Put instructions\<close>

definition i_putnumcon :: "nat \<Rightarrow> int \<Rightarrow> wam \<Rightarrow> wam option" where
  "i_putnumcon r k s = Some (bld_oint_reg r k (advance_pc 2 s))"

definition i_putpvar :: "nat \<Rightarrow> nat \<Rightarrow> wam \<Rightarrow> wam option" where
  "i_putpvar v r s =
     (let op1 = get_v v s in Some (bld_reg r (Ref op1) (bld_free op1 (advance_pc 1 s))))"

definition i_putpval :: "nat \<Rightarrow> nat \<Rightarrow> wam \<Rightarrow> wam option" where
  "i_putpval v r s = Some (bld_reg r (variable_at v s) (advance_pc 1 s))"

definition i_puttvar :: "nat \<Rightarrow> nat \<Rightarrow> wam \<Rightarrow> wam option" where
  "i_puttvar r1 r2 s =
     (let s1 = advance_pc 1 s
      in Some (new_heap_free (bld_reg r2 (Ref (hreg s1)) (bld_reg r1 (Ref (hreg s1)) s1))))"

definition i_putstrv :: "nat \<Rightarrow> nat \<Rightarrow> wam \<Rightarrow> wam option" where
  "i_putstrv v p s =
     (let op1 = get_v v s; s1 = advance_pc 2 s
      in Some (new_heap_functor p (bind_copy op1 (CStruct (hreg s1)) s1)))"

definition i_putcon :: "nat \<Rightarrow> nat \<Rightarrow> wam \<Rightarrow> wam option" where
  "i_putcon r c s = Some (bld_reg r (CStr c) (advance_pc 2 s))"

definition i_putnil :: "nat \<Rightarrow> wam \<Rightarrow> wam option" where
  "i_putnil r s = Some (bld_reg r (CStr (nil_string (wenv s))) (advance_pc 1 s))"

definition i_putstr :: "nat \<Rightarrow> nat \<Rightarrow> wam \<Rightarrow> wam option" where
  "i_putstr r p s =
     (let s1 = advance_pc 2 s in Some (new_heap_functor p (bld_reg r (CStruct (hreg s1)) s1)))"

definition i_putlist :: "nat \<Rightarrow> wam \<Rightarrow> wam option" where
  "i_putlist r s = (let s1 = advance_pc 1 s in Some (bld_reg r (CList (hreg s1)) s1))"

definition i_putattv :: "nat \<Rightarrow> wam \<Rightarrow> wam option" where
  "i_putattv r s =
     (let s1 = advance_pc 1 s in Some (new_heap_free (bld_reg r (CAttv (hreg s1)) s1)))"

section \<open>Build instructions\<close>

definition i_bldpvar :: "nat \<Rightarrow> wam \<Rightarrow> wam option" where
  "i_bldpvar v s =
     (let op1 = get_v v s; s1 = advance_pc 1 s
      in Some (new_heap_free (bind_copy op1 (Ref (hreg s1)) s1)))"

definition i_bldpval :: "nat \<Rightarrow> nat \<Rightarrow> wam \<Rightarrow> wam option" where
  "i_bldpval n v s = nbldval n (variable_at v s) (advance_pc 1 s)"

definition i_bldtvar :: "nat \<Rightarrow> wam \<Rightarrow> wam option" where
  "i_bldtvar r s =
     (let s1 = advance_pc 1 s in Some (new_heap_free (bld_reg r (Ref (hreg s1)) s1)))"

definition i_bldavar :: "wam \<Rightarrow> wam option" where
  "i_bldavar s = Some (new_heap_free (advance_pc 1 s))"

definition i_bldkavars :: "nat \<Rightarrow> wam \<Rightarrow> wam option" where
  "i_bldkavars k s = Some ((new_heap_free ^^ k) (advance_pc 1 s))"

definition i_bldtval :: "nat \<Rightarrow> nat \<Rightarrow> wam \<Rightarrow> wam option" where
  "i_bldtval n r s = nbldval n (xreg s r) (advance_pc 1 s)"

definition i_bldtval_putlist_bldnumcon :: "nat \<Rightarrow> nat \<Rightarrow> nat \<Rightarrow> nat \<Rightarrow> wam \<Rightarrow> wam option" where
  "i_bldtval_putlist_bldnumcon n r hi lo s =
     (case nbldval n (xreg s r) (advance_pc 1 s) of
        None \<Rightarrow> None
      | Some s1 \<Rightarrow>
          Some (new_heap_node (makeint_cell (int hi * 256 + int lo))
                 (bld_reg r (CList (hreg s1)) s1)))"

definition i_bldtvar_list_numcon :: "nat \<Rightarrow> nat \<Rightarrow> wam \<Rightarrow> wam option" where
  "i_bldtvar_list_numcon hi lo s =
     (let s1 = advance_pc 1 s; h = hreg s1; s2 = new_heap_free s1
      in Some (new_heap_node (makeint_cell (int hi * 256 + int lo)) (bld h (CList (hreg s2)) s2)))"

definition i_bldcon :: "nat \<Rightarrow> wam \<Rightarrow> wam option" where
  "i_bldcon c s = Some (new_heap_node (CStr c) (advance_pc 2 s))"

definition i_bldinternstr :: "cell \<Rightarrow> wam \<Rightarrow> wam option" where
  "i_bldinternstr c s = Some (new_heap_node c (advance_pc 2 s))"

definition i_bldnil :: "wam \<Rightarrow> wam option" where
  "i_bldnil s = Some (new_heap_node (CStr (nil_string (wenv s))) (advance_pc 1 s))"

definition i_bldnumcon :: "int \<Rightarrow> wam \<Rightarrow> wam option" where
  "i_bldnumcon k s = Some (new_heap_node (makeint_cell k) (advance_pc 2 s))"

section \<open>The instruction set\<close>

text \<open>
  The dispatch of the emulator loop over these instructions. The code keeps the first
  operand bytes in the instruction word and wider operands in the cells after it.
\<close>

datatype instr =
    Getpvar nat nat | Getkpvars nat nat nat | Getpval nat nat | Getstrv nat nat
  | Gettval nat nat | Getcon nat nat | Getinternstr nat cell | Getnil nat | Getstr nat nat
  | Getlist nat | Getattv nat | Getnumcon nat int | Getlist_tvar_tvar nat nat nat
  | Unipvar nat | Unipval nat | Unitvar nat | Unitvar_getlist_uninumcon nat nat nat
  | Uniavar | Unikavars nat | Unitval nat | Unicon nat | Uniinternstr cell | Uninil
  | Uninumcon int
  | Putnumcon nat int | Putpvar nat nat | Putpval nat nat | Puttvar nat nat | Putstrv nat nat
  | Putcon nat nat | Putnil nat | Putstr nat nat | Putlist nat | Putattv nat
  | Bldpvar nat | Bldpval nat | Bldtvar nat | Bldavar | Bldkavars nat | Bldtval nat
  | Bldtval_putlist_bldnumcon nat nat nat | Bldtvar_list_numcon nat nat | Bldcon nat
  | Bldinternstr cell | Bldnil | Bldnumcon int

fun step_instr :: "nat \<Rightarrow> instr \<Rightarrow> wam \<Rightarrow> wam option" where
  "step_instr n (Getpvar v r) s = i_getpvar v r s"
| "step_instr n (Getkpvars k v r) s = i_getkpvars k v r s"
| "step_instr n (Getpval v r) s = i_getpval n v r s"
| "step_instr n (Getstrv v p) s = i_getstrv v p s"
| "step_instr n (Gettval r1 r2) s = i_gettval n r1 r2 s"
| "step_instr n (Getcon r c) s = i_getcon r c s"
| "step_instr n (Getinternstr r c) s = i_getinternstr n r c s"
| "step_instr n (Getnil r) s = i_getnil r s"
| "step_instr n (Getstr r p) s = i_getstr r p s"
| "step_instr n (Getlist r) s = i_getlist r s"
| "step_instr n (Getattv r) s = i_getattv r s"
| "step_instr n (Getnumcon r k) s = i_getnumcon r k s"
| "step_instr n (Getlist_tvar_tvar r1 r2 r3) s = i_getlist_tvar_tvar r1 r2 r3 s"
| "step_instr n (Unipvar v) s = i_unipvar v s"
| "step_instr n (Unipval v) s = i_unipval n v s"
| "step_instr n (Unitvar r) s = i_unitvar r s"
| "step_instr n (Unitvar_getlist_uninumcon r hi lo) s = i_unitvar_getlist_uninumcon r hi lo s"
| "step_instr n Uniavar s = i_uniavar s"
| "step_instr n (Unikavars k) s = i_unikavars k s"
| "step_instr n (Unitval r) s = i_unitval n r s"
| "step_instr n (Unicon c) s = i_unicon c s"
| "step_instr n (Uniinternstr c) s = i_uniinternstr n c s"
| "step_instr n Uninil s = i_uninil s"
| "step_instr n (Uninumcon k) s = i_uninumcon k s"
| "step_instr n (Putnumcon r k) s = i_putnumcon r k s"
| "step_instr n (Putpvar v r) s = i_putpvar v r s"
| "step_instr n (Putpval v r) s = i_putpval v r s"
| "step_instr n (Puttvar r1 r2) s = i_puttvar r1 r2 s"
| "step_instr n (Putstrv v p) s = i_putstrv v p s"
| "step_instr n (Putcon r c) s = i_putcon r c s"
| "step_instr n (Putnil r) s = i_putnil r s"
| "step_instr n (Putstr r p) s = i_putstr r p s"
| "step_instr n (Putlist r) s = i_putlist r s"
| "step_instr n (Putattv r) s = i_putattv r s"
| "step_instr n (Bldpvar v) s = i_bldpvar v s"
| "step_instr n (Bldpval v) s = i_bldpval n v s"
| "step_instr n (Bldtvar r) s = i_bldtvar r s"
| "step_instr n Bldavar s = i_bldavar s"
| "step_instr n (Bldkavars k) s = i_bldkavars k s"
| "step_instr n (Bldtval r) s = i_bldtval n r s"
| "step_instr n (Bldtval_putlist_bldnumcon r hi lo) s = i_bldtval_putlist_bldnumcon n r hi lo s"
| "step_instr n (Bldtvar_list_numcon hi lo) s = i_bldtvar_list_numcon hi lo s"
| "step_instr n (Bldcon c) s = i_bldcon c s"
| "step_instr n (Bldinternstr c) s = i_bldinternstr c s"
| "step_instr n Bldnil s = i_bldnil s"
| "step_instr n (Bldnumcon k) s = i_bldnumcon k s"

section \<open>States without attributed variables\<close>

text \<open>
  \<open>plain s\<close>: neither memory nor an argument register holds an attributed variable. Every
  instruction but \<open>putattv\<close> and \<open>getattv\<close> keeps it.
\<close>

definition plain :: "wam \<Rightarrow> bool" where
  "plain s \<longleftrightarrow> attv_free s \<and> (\<forall>r. \<not> isattv (xreg s r))"

named_theorems plain_intros

lemma plain_attv_free: "plain s \<Longrightarrow> attv_free s"
  by (simp add: plain_def)

lemma plain_cells [plain_intros]:
  "plain s \<Longrightarrow> \<not> isattv (mem s x)"
  "plain s \<Longrightarrow> \<not> isattv (xreg s r)"
  "plain s \<Longrightarrow> \<not> isattv (variable_at v s)"
  "plain s \<Longrightarrow> \<not> isattv (get_sreg s)"
  by (simp_all add: plain_def attv_free_def variable_at_def get_sreg_def)

lemma plain_regs [simp, plain_intros]:
  "plain s \<Longrightarrow> plain (advance_pc k s)"
  "plain s \<Longrightarrow> plain (set_read a s)"
  "plain s \<Longrightarrow> plain (set_write s)"
  "plain s \<Longrightarrow> plain (inc_sreg k s)"
  "plain s \<Longrightarrow> plain (fail1 s)"
  "plain s \<Longrightarrow> plain (s\<lparr>sreg := a\<rparr>)"
  by (simp_all add: plain_def attv_free_def advance_pc_def set_read_def set_write_def inc_sreg_def fail1_def)

lemma plain_writes [plain_intros]:
  "plain s \<Longrightarrow> \<not> isattv c \<Longrightarrow> plain (bld_reg r c s)"
  "plain s \<Longrightarrow> \<not> isattv c \<Longrightarrow> plain (bld a c s)"
  "plain s \<Longrightarrow> \<not> isattv c \<Longrightarrow> plain (bind_copy a c s)"
  "plain s \<Longrightarrow> \<not> isattv c \<Longrightarrow> plain (new_heap_node c s)"
  "plain s \<Longrightarrow> plain (new_heap_free s)"
  "plain s \<Longrightarrow> plain (new_heap_functor p s)"
  "plain s \<Longrightarrow> plain (bld_free a s)"
  by (simp_all add: plain_def attv_free_def bld_reg_def bld_def bind_copy_def pushtrail_def pushtrail0_def
      new_heap_node_def new_heap_free_def new_heap_functor_def bld_free_def Let_def)

lemma plain_pushtrail0 [plain_intros]: "plain s \<Longrightarrow> plain (pushtrail0 a c s)"
  by (simp add: plain_def attv_free_def pushtrail0_def Let_def)

lemma plain_oint_node:
  "plain s \<Longrightarrow> plain (snd (oint_node k s)) \<and> \<not> isattv (fst (oint_node k s))"
  by (auto simp: oint_node_def boxedint_node_def makeint_cell_def intro!: plain_intros)

lemma plain_keeps: "keeps s s' \<Longrightarrow> plain s \<Longrightarrow> plain s'"
  by (simp add: keeps_def plain_def attv_free_def same_ctl_def)

lemma plain_deref: "deref (mem s) c = Some d \<Longrightarrow> plain s \<Longrightarrow> \<not> isattv c \<Longrightarrow> \<not> isattv d"
  using deref_not_attv plain_attv_free by blast

section \<open>Instructions are undone by backtracking\<close>

definition pkeeps :: "wam \<Rightarrow> wam \<Rightarrow> bool" where
  "pkeeps s s' \<longleftrightarrow> bt_safe s s' \<and> plain s'"

lemma pkeepsI: "bt_safe s s' \<Longrightarrow> plain s' \<Longrightarrow> pkeeps s s'"
  by (simp add: pkeeps_def)

lemma pkeeps_trans: "pkeeps s s' \<Longrightarrow> pkeeps s' s'' \<Longrightarrow> pkeeps s s''"
  by (auto simp: pkeeps_def intro: bt_safe_trans)

lemma pkeeps_refl: "plain s \<Longrightarrow> pkeeps s s"
  by (simp add: pkeeps_def)

lemma keeps_pkeeps: "keeps s s' \<Longrightarrow> plain s \<Longrightarrow> pkeeps s s'"
  using plain_keeps by (simp add: pkeeps_def keeps_def)

lemma bt_safe_ctl [safe_intros]:
  "bt_safe s s' \<Longrightarrow> bt_safe s (advance_pc k s')"
  "bt_safe s s' \<Longrightarrow> bt_safe s (set_read a s')"
  "bt_safe s s' \<Longrightarrow> bt_safe s (set_write s')"
  "bt_safe s s' \<Longrightarrow> bt_safe s (inc_sreg k s')"
  unfolding advance_pc_def set_read_def set_write_def inc_sreg_def
  by (auto intro!: safe_intros)

lemma bt_safe_fresh:
  assumes safe: "bt_safe s s'" and a: "hreg s \<le> a" "a < hreg s'"
  shows "bt_safe s (bld a v s')"
  using safe
proof (rule bt_safeD)
  fix ts
  assume P: "tpath (trail s') (trreg s') (trreg s) ts" "\<And>t. t \<in> set ts \<Longrightarrow> top_of_trail s < t"
    and R: "same_bt_regs s s'" "hreg s \<le> hreg s'" "\<And>t. t \<le> top_of_trail s \<Longrightarrow> trail s' t = trail s t"
    and M: "\<And>b. conditional s b \<Longrightarrow> \<not> (hreg s \<le> b \<and> b < hreg s') \<Longrightarrow>
        untrail_path (trail s') ts (mem s') b = mem s b"
  have "untrail_path (trail s') ts ((mem s')(a := v)) b = mem s b"
    if "conditional s b" "\<not> (hreg s \<le> b \<and> b < hreg s')" for b
  proof -
    have "untrail_path (trail s') ts ((mem s')(a := v)) b = untrail_path (trail s') ts (mem s') b"
      using a that by (intro untrail_path_at) auto
    with M that show ?thesis by simp
  qed
  with P R show ?thesis
    unfolding bt_safe_def by (intro conjI exI [of _ ts]) (simp_all add: bld_def same_bt_regs_def)
qed

text \<open>The registers the primitive operations leave alone.\<close>

lemma ctl_simps [simp]:
  "mem (advance_pc k s) = mem s" "xreg (advance_pc k s) = xreg s" "hreg (advance_pc k s) = hreg s"
  "wflag (advance_pc k s) = wflag s" "sreg (advance_pc k s) = sreg s" "wenv (advance_pc k s) = wenv s"
  "mem (inc_sreg k s) = mem s" "xreg (inc_sreg k s) = xreg s" "hreg (inc_sreg k s) = hreg s"
  "mem (bld_reg r c s) = mem s" "hreg (bld_reg r c s) = hreg s"
  "wenv (bld_reg r c s) = wenv s"
  "hreg (new_heap_free s) = hreg s + 1" "xreg (new_heap_free s) = xreg s"
  "hreg (new_heap_node c s) = hreg s + 1" "xreg (new_heap_node c s) = xreg s"
  "hreg (bind_copy a c s) = hreg s" "xreg (bind_copy a c s) = xreg s"
  by (simp_all add: advance_pc_def inc_sreg_def bld_reg_def new_heap_free_def new_heap_node_def
      bind_copy_def bld_def pushtrail_def pushtrail0_def Let_def)

lemma conditional_pc [simp]: "conditional (advance_pc k s) = conditional s"
  by (simp add: fun_eq_iff conditional_def advance_pc_def)

lemma get_v_pc [simp]:
  "get_v v (advance_pc k s) = get_v v s" "variable_at v (advance_pc k s) = variable_at v s"
  by (simp_all add: get_v_def variable_at_def advance_pc_def)

lemmas ok_intros = pkeepsI safe_intros plain_intros

lemma deref_free_simp: "deref (mem s) c = Some (Ref a) \<Longrightarrow> mem s a = Ref a"
  by (rule deref_freeD)

lemma pkeeps_bind:
  "plain s \<Longrightarrow> mem s a = Ref a \<Longrightarrow> \<not> isattv c \<Longrightarrow> pkeeps s (bind_copy a c s)"
  by (auto intro!: ok_intros)

lemma nunify_with_nil_ok:
  "nunify_with_nil op s = Some s' \<Longrightarrow> plain s \<Longrightarrow> \<not> isattv op \<Longrightarrow> pkeeps s s'"
  by (auto simp: nunify_with_nil_def split: option.splits cell.splits if_splits
      intro!: ok_intros dest: deref_freeD plain_deref)

lemma nunify_with_con_ok:
  "nunify_with_con op c s = Some s' \<Longrightarrow> plain s \<Longrightarrow> \<not> isattv op \<Longrightarrow> pkeeps s s'"
  by (auto simp: nunify_with_con_def split: option.splits cell.splits if_splits
      intro!: ok_intros dest: deref_freeD plain_deref)

lemma unify_or_fail_ok:
  assumes "unify_or_fail n c1 c2 s = Some s'" "plain s" "\<not> isattv c1" "\<not> isattv c2"
  shows "pkeeps s s'"
proof -
  from assms obtain b t where u: "unify_xsb n c1 c2 s = Some (b, t)"
    and s': "s' = (if b then t else fail1 t)"
    by (auto simp: unify_or_fail_def split: option.splits)
  have "pkeeps s t"
    using unify_xsb_keeps [OF u] assms by (simp add: keeps_pkeeps plain_attv_free)
  with s' show ?thesis by (auto simp: pkeeps_def intro: safe_intros)
qed

lemma nunify_with_internstr_ok:
  assumes "nunify_with_internstr n op c s = Some s'" "plain s" "\<not> isattv op" "\<not> isattv c"
  shows "pkeeps s s'"
proof -
  from assms obtain d where d: "deref (mem s) op = Some d"
    by (auto simp: nunify_with_internstr_def split: option.splits)
  have na: "\<not> isattv d" using plain_deref [OF d] assms by simp
  show ?thesis
  proof (cases "isref d")
    case True
    then obtain a where a: "d = Ref a" by (cases d) auto
    then show ?thesis using assms d deref_freeD [of "mem s" op a]
      by (auto simp: nunify_with_internstr_def intro: pkeeps_bind)
  next
    case False
    then have "(if isinternstr s d then Some (if d = c then s else fail1 s)
        else unify_or_fail n d c s) = Some s'"
      using assms(1) False unfolding nunify_with_internstr_def d
      by (cases d) (simp_all cong: if_cong split del: if_split)
    then show ?thesis using assms na
      by (auto split: if_splits intro: unify_or_fail_ok pkeeps_refl pkeepsI safe_intros plain_intros)
  qed
qed

text \<open>
  A number too wide for its tag is boxed at the top of the heap before the variable is
  bound, so the variable must not lie in the four cells above it.
\<close>

definition below_box :: "int \<Rightarrow> wam \<Rightarrow> cell \<Rightarrow> bool" where
  "below_box k s op \<longleftrightarrow>
     (cint_overflow k \<longrightarrow>
       (\<forall>a. deref (mem s) op = Some (Ref a) \<longrightarrow> \<not> (hreg s \<le> a \<and> a < hreg s + 4)))"

lemma oint_node_mem:
  "\<not> (hreg s \<le> a \<and> a < hreg s + 4) \<or> \<not> cint_overflow k \<Longrightarrow> mem (snd (oint_node k s)) a = mem s a"
  by (auto simp: oint_node_def boxedint_node_def new_heap_node_def new_heap_functor_def)

lemma bind_oint_ok:
  assumes "plain s" "mem s a = Ref a" "\<not> (hreg s \<le> a \<and> a < hreg s + 4) \<or> \<not> cint_overflow k"
  shows "pkeeps s (bind_oint a k s)"
proof -
  have "pkeeps s (snd (oint_node k s))"
    using assms plain_oint_node bt_safe_oint_node by (simp add: pkeeps_def)
  moreover have "pkeeps (snd (oint_node k s))
      (bind_copy a (fst (oint_node k s)) (snd (oint_node k s)))"
    using assms plain_oint_node [of s k] oint_node_mem [of s a k] by (auto intro: pkeeps_bind)
  ultimately show ?thesis by (auto simp: bind_oint_def case_prod_beta intro: pkeeps_trans)
qed

lemma nunify_with_num_ok:
  assumes res: "nunify_with_num op k s = Some s'" and s: "plain s" "\<not> isattv op" "below_box k s op"
  shows "pkeeps s s'"
proof -
  from res obtain d where d: "deref (mem s) op = Some d"
    by (auto simp: nunify_with_num_def split: option.splits)
  have na: "\<not> isattv d" using plain_deref [OF d] s by simp
  show ?thesis
  proof (cases "\<exists>a. d = Ref a")
    case True
    then show ?thesis using res s d
      by (auto simp: nunify_with_num_def below_box_def intro!: bind_oint_ok dest: deref_freeD)
  next
    case False
    then have "s' = s \<or> s' = fail1 s"
      using res na unfolding nunify_with_num_def d
      by (cases d) (auto split: if_splits)
    then show ?thesis using s by (auto intro!: ok_intros)
  qed
qed

lemma nunify_with_str_ok:
  "nunify_with_str op p s = Some s' \<Longrightarrow> plain s \<Longrightarrow> \<not> isattv op \<Longrightarrow> pkeeps s s'"
  by (auto simp: nunify_with_str_def Let_def split: option.splits cell.splits if_splits
      intro!: ok_intros dest: deref_freeD plain_deref)

lemma nunify_with_list_sym_ok:
  "nunify_with_list_sym op s = Some s' \<Longrightarrow> plain s \<Longrightarrow> \<not> isattv op \<Longrightarrow> pkeeps s s'"
  by (auto simp: nunify_with_list_sym_def Let_def split: option.splits cell.splits if_splits
      intro!: ok_intros dest: deref_freeD plain_deref)

lemma nbldval_ok:
  assumes res: "nbldval n op s = Some s'" and s: "plain s" "\<not> isattv op"
  shows "pkeeps s s'"
proof -
  from res obtain d where d: "deref (mem s) op = Some d"
    by (auto simp: nbldval_def split: option.splits)
  have na: "\<not> isattv d" using plain_deref [OF d] s by simp
  have "isref d \<Longrightarrow> mem s (cell_ptr d) = Ref (cell_ptr d)"
    using deref_result [OF d] by (cases d) auto
  moreover have "s' = new_heap_node d s \<or> s' = fail1 s \<or>
      isref d \<and> s' = new_heap_free (bind_copy (cell_ptr d) (Ref (hreg s)) s)"
    using res unfolding nbldval_def d by (auto split: if_splits option.splits bool.splits)
  ultimately show ?thesis using s na by (auto intro!: ok_intros)
qed

text \<open>
  What the compiler guarantees of an instruction's operands: the environment variable an
  instruction initialises is still free, a variable initialised without trailing is either
  free or younger than the last choice point, and constants are not attributed variables.
\<close>

definition fresh_v :: "nat \<Rightarrow> wam \<Rightarrow> bool" where
  "fresh_v v s \<longleftrightarrow> mem s (get_v v s) = Ref (get_v v s)"

fun operands_ok :: "instr \<Rightarrow> wam \<Rightarrow> bool" where
  "operands_ok (Getpvar v r) s = fresh_v v s"
| "operands_ok (Getkpvars k v r) s =
     (\<forall>i < k. fresh_v (v + i) s \<and> conditional s (get_v (v + i) s) = conditional s (get_v v s))"
| "operands_ok (Getinternstr r c) s = (\<not> isattv c)"
| "operands_ok (Getnumcon r k) s = below_box k s (xreg s r)"
| "operands_ok (Unipvar v) s = fresh_v v s"
| "operands_ok (Uniinternstr c) s = (\<not> isattv c)"
| "operands_ok (Unitvar_getlist_uninumcon r hi lo) s = (hi < 256 \<and> lo < 256)"
| "operands_ok (Uninumcon k) s = below_box k s (get_sreg s)"
| "operands_ok (Putpvar v r) s = (fresh_v v s \<or> \<not> conditional s (get_v v s))"
| "operands_ok (Putstrv v p) s = fresh_v v s"
| "operands_ok (Bldpvar v) s = fresh_v v s"
| "operands_ok (Bldinternstr c) s = (\<not> isattv c)"
| "operands_ok (Getattv r) s = False"
| "operands_ok (Putattv r) s = False"
| "operands_ok _ s = True"

lemma conditional_bind_copy [simp]: "conditional (bind_copy a c s) = conditional s"
  by (simp add: fun_eq_iff conditional_def bind_copy_def bld_def pushtrail_def pushtrail0_def Let_def)

lemma mem_bind_copy: "mem (bind_copy a c s) x = (if x = a then c else mem s x)"
  by (simp add: bind_copy_def bld_def pushtrail_def pushtrail0_def Let_def)

lemma getkpvars_loop_ok:
  "plain s \<Longrightarrow> (\<And>i. i < k \<Longrightarrow> mem s (va - int i) = Ref (va - int i) \<and> conditional s (va - int i) = c)
    \<Longrightarrow> pkeeps s (getkpvars_loop c k va ra s)"
proof (induction k arbitrary: va ra s)
  case (Suc k)
  let ?s = "bind_copy va (xreg s ra) s"
  have f: "mem s va = Ref va" "conditional s va = c" using Suc.prems(2) [of 0] by auto
  then have k: "pkeeps s ?s" using Suc.prems(1) by (intro pkeeps_bind) (auto simp: plain_def)
  have eq: "getkpvars_loop c (Suc k) va ra s = getkpvars_loop c k (va - 1) (ra + 1) ?s"
    using f by (simp add: bind_copy_def pushtrail_def Let_def)
  have "mem ?s (va - 1 - int i) = Ref (va - 1 - int i) \<and> conditional ?s (va - 1 - int i) = c"
    if "i < k" for i
    using Suc.prems(2) [of "Suc i"] that by (auto simp: mem_bind_copy algebra_simps)
  then have "pkeeps ?s (getkpvars_loop c k (va - 1) (ra + 1) ?s)"
    using k by (intro Suc.IH) (simp_all add: pkeeps_def)
  with k eq show ?case by (auto intro: pkeeps_trans)
qed (simp add: pkeeps_refl)

lemma pkeeps_pc: "pkeeps (advance_pc k s) s' \<Longrightarrow> plain s \<Longrightarrow> pkeeps s s'"
  by (rule pkeeps_trans [of _ "advance_pc k s"]) (auto intro!: ok_intros)

lemma pkeeps_inc_sreg: "pkeeps (inc_sreg k s) s' \<Longrightarrow> plain s \<Longrightarrow> pkeeps s s'"
  by (rule pkeeps_trans [of _ "inc_sreg k s"]) (auto intro!: ok_intros)

lemma heap_node_ok: "plain s \<Longrightarrow> \<not> isattv c \<Longrightarrow> pkeeps s (new_heap_node c (advance_pc k s))"
  by (auto intro!: ok_intros)

lemma heap_frees_ok: "plain s \<Longrightarrow> pkeeps s ((new_heap_free ^^ k) s)"
  by (induction k) (auto simp: pkeeps_def intro: safe_intros plain_intros)

lemmas sub_ok = nunify_with_nil_ok nunify_with_con_ok nunify_with_internstr_ok
  nunify_with_num_ok nunify_with_str_ok nunify_with_list_sym_ok nbldval_ok unify_or_fail_ok

lemma below_box_regs [simp]:
  "below_box k (advance_pc j s) op = below_box k s op"
  "below_box k (inc_sreg j s) op = below_box k s op"
  by (simp_all add: below_box_def)

lemma get_sreg_regs [simp]:
  "get_sreg (advance_pc j s) = get_sreg s"
  by (simp add: get_sreg_def)

lemma get_ok:
  "i_getpvar v r s = Some s' \<Longrightarrow> plain s \<Longrightarrow> operands_ok (Getpvar v r) s \<Longrightarrow> pkeeps s s'"
  "i_getkpvars k v r s = Some s' \<Longrightarrow> plain s \<Longrightarrow> operands_ok (Getkpvars k v r) s \<Longrightarrow> pkeeps s s'"
  "i_getpval n v r s = Some s' \<Longrightarrow> plain s \<Longrightarrow> pkeeps s s'"
  "i_getstrv v p s = Some s' \<Longrightarrow> plain s \<Longrightarrow> pkeeps s s'"
  "i_gettval n r r2 s = Some s' \<Longrightarrow> plain s \<Longrightarrow> pkeeps s s'"
  "i_getcon r c s = Some s' \<Longrightarrow> plain s \<Longrightarrow> pkeeps s s'"
  "i_getinternstr n r d s = Some s' \<Longrightarrow> plain s \<Longrightarrow> \<not> isattv d \<Longrightarrow> pkeeps s s'"
  "i_getnil r s = Some s' \<Longrightarrow> plain s \<Longrightarrow> pkeeps s s'"
  "i_getstr r p s = Some s' \<Longrightarrow> plain s \<Longrightarrow> pkeeps s s'"
  "i_getlist r s = Some s' \<Longrightarrow> plain s \<Longrightarrow> pkeeps s s'"
  "i_getnumcon r j s = Some s' \<Longrightarrow> plain s \<Longrightarrow> operands_ok (Getnumcon r j) s \<Longrightarrow> pkeeps s s'"
proof -
  show "pkeeps s s'" if "i_getpvar v r s = Some s'" "plain s" "operands_ok (Getpvar v r) s"
    using that by (auto simp: i_getpvar_def fresh_v_def variable_at_def Let_def
        intro!: pkeeps_pc [OF pkeeps_bind] plain_intros)
  show "pkeeps s s'" if "i_getkpvars k v r s = Some s'" "plain s" "operands_ok (Getkpvars k v r) s"
  proof (cases k)
    case (Suc j)
    have e: "cell_ptr (variable_at v s) = get_v v s"
      using that Suc by (auto simp: fresh_v_def variable_at_def)
    have "get_v v s - int i = get_v (v + i) s" for i by (simp add: get_v_def)
    then show ?thesis using that e
      by (auto simp: i_getkpvars_def Let_def fresh_v_def
          intro!: pkeeps_pc [of 1] getkpvars_loop_ok)
  qed (use that in \<open>auto simp: i_getkpvars_def Let_def intro!: ok_intros\<close>)
  show "pkeeps s s'" if "i_getnumcon r j s = Some s'" "plain s" "operands_ok (Getnumcon r j) s"
    by (rule pkeeps_pc [OF nunify_with_num_ok [OF that(1) [unfolded i_getnumcon_def]]])
      (use that in \<open>simp_all add: plain_cells\<close>)
qed (auto simp: i_getpval_def i_getstrv_def i_gettval_def i_getcon_def i_getinternstr_def
    i_getnil_def i_getstr_def i_getlist_def elim!: sub_ok intro!: plain_intros
    intro: pkeeps_pc)

lemma i_getlist_tvar_tvar_ok:
  "i_getlist_tvar_tvar r1 r2 r3 s = Some s' \<Longrightarrow> plain s \<Longrightarrow> pkeeps s s'"
  by (auto simp: i_getlist_tvar_tvar_def Let_def split: option.splits cell.splits
      intro!: ok_intros dest: deref_freeD plain_deref)

lemma pkeeps_read: "pkeeps (inc_sreg j (advance_pc k s)) s' \<Longrightarrow> plain s \<Longrightarrow> pkeeps s s'"
  by (rule pkeeps_pc [OF pkeeps_inc_sreg]) auto

lemma uni_ok:
  "i_unipvar v s = Some s' \<Longrightarrow> plain s \<Longrightarrow> fresh_v v s \<Longrightarrow> pkeeps s s'"
  "i_unipval n v s = Some s' \<Longrightarrow> plain s \<Longrightarrow> pkeeps s s'"
  "i_unitvar r s = Some s' \<Longrightarrow> plain s \<Longrightarrow> pkeeps s s'"
  "i_uniavar s = Some s' \<Longrightarrow> plain s \<Longrightarrow> pkeeps s s'"
  "i_unikavars k s = Some s' \<Longrightarrow> plain s \<Longrightarrow> pkeeps s s'"
  "i_unitval n r s = Some s' \<Longrightarrow> plain s \<Longrightarrow> pkeeps s s'"
  "i_unicon c s = Some s' \<Longrightarrow> plain s \<Longrightarrow> pkeeps s s'"
  "i_uniinternstr n d s = Some s' \<Longrightarrow> plain s \<Longrightarrow> \<not> isattv d \<Longrightarrow> pkeeps s s'"
  "i_uninil s = Some s' \<Longrightarrow> plain s \<Longrightarrow> pkeeps s s'"
  "i_uninumcon j s = Some s' \<Longrightarrow> plain s \<Longrightarrow> below_box j s (get_sreg s) \<Longrightarrow> pkeeps s s'"
proof -
  note defs = i_unipvar_def i_unipval_def i_unitvar_def i_uniavar_def i_unikavars_def i_unitval_def
    i_unicon_def i_uniinternstr_def i_uninil_def i_uninumcon_def
  show "i_unipvar v s = Some s' \<Longrightarrow> plain s \<Longrightarrow> fresh_v v s \<Longrightarrow> pkeeps s s'"
    by (auto simp: defs Let_def fresh_v_def intro!: ok_intros)
  show "i_unitvar r s = Some s' \<Longrightarrow> plain s \<Longrightarrow> pkeeps s s'"
    "i_uniavar s = Some s' \<Longrightarrow> plain s \<Longrightarrow> pkeeps s s'"
    by (auto simp: defs Let_def intro!: ok_intros)
  show "i_unikavars k s = Some s' \<Longrightarrow> plain s \<Longrightarrow> pkeeps s s'"
    using heap_frees_ok [of "advance_pc 1 s" k]
    by (cases "wflag s") (auto simp: defs Let_def intro: pkeeps_pc [of 1 s], auto intro!: ok_intros)
  show "i_unipval n v s = Some s' \<Longrightarrow> plain s \<Longrightarrow> pkeeps s s'"
    "i_unitval n r s = Some s' \<Longrightarrow> plain s \<Longrightarrow> pkeeps s s'"
    "i_unicon c s = Some s' \<Longrightarrow> plain s \<Longrightarrow> pkeeps s s'"
    "i_uninil s = Some s' \<Longrightarrow> plain s \<Longrightarrow> pkeeps s s'"
    by (auto simp: defs Let_def plain_cells split: if_splits dest!: sub_ok
        intro: pkeeps_pc pkeeps_read heap_node_ok)
  show "i_uniinternstr n d s = Some s' \<Longrightarrow> plain s \<Longrightarrow> \<not> isattv d \<Longrightarrow> pkeeps s s'"
    by (auto simp: defs Let_def plain_cells split: if_splits dest!: sub_ok
        intro: pkeeps_read heap_node_ok)
  show "i_uninumcon j s = Some s' \<Longrightarrow> plain s \<Longrightarrow> below_box j s (get_sreg s) \<Longrightarrow> pkeeps s s'"
    by (auto simp: defs Let_def plain_cells makeint_cell_def split: if_splits dest!: sub_ok
        intro: pkeeps_read heap_node_ok)
qed

lemma bld_free_safe: "mem s a = Ref a \<or> \<not> conditional s a \<Longrightarrow> bt_safe s (bld_free a s)"
  by (auto simp: bld_free_def bld_def fun_upd_idem intro: bt_safe_unconditional)

lemma put_ok:
  "i_putnumcon r k s = Some s' \<Longrightarrow> plain s \<Longrightarrow> pkeeps s s'"
  "i_putpvar v r s = Some s' \<Longrightarrow> plain s \<Longrightarrow> fresh_v v s \<or> \<not> conditional s (get_v v s) \<Longrightarrow> pkeeps s s'"
  "i_putpval v r s = Some s' \<Longrightarrow> plain s \<Longrightarrow> pkeeps s s'"
  "i_puttvar r r2 s = Some s' \<Longrightarrow> plain s \<Longrightarrow> pkeeps s s'"
  "i_putstrv v p s = Some s' \<Longrightarrow> plain s \<Longrightarrow> fresh_v v s \<Longrightarrow> pkeeps s s'"
  "i_putcon r c s = Some s' \<Longrightarrow> plain s \<Longrightarrow> pkeeps s s'"
  "i_putnil r s = Some s' \<Longrightarrow> plain s \<Longrightarrow> pkeeps s s'"
  "i_putstr r p s = Some s' \<Longrightarrow> plain s \<Longrightarrow> pkeeps s s'"
  "i_putlist r s = Some s' \<Longrightarrow> plain s \<Longrightarrow> pkeeps s s'"
proof -
  note defs = i_putnumcon_def i_putpvar_def i_putpval_def i_puttvar_def i_putstrv_def i_putcon_def
    i_putnil_def i_putstr_def i_putlist_def
  show "i_putnumcon r k s = Some s' \<Longrightarrow> plain s \<Longrightarrow> pkeeps s s'"
  proof -
    assume r: "i_putnumcon r k s = Some s'" "plain s"
    let ?s = "advance_pc 2 s"
    have "pkeeps ?s (snd (oint_node k ?s))" "\<not> isattv (fst (oint_node k ?s))"
      using r plain_oint_node [of ?s k] bt_safe_oint_node by (simp_all add: pkeeps_def)
    then have "pkeeps ?s s'" using r
      by (auto simp: defs bld_oint_reg_def case_prod_beta pkeeps_def intro: safe_intros plain_intros)
    then show "pkeeps s s'" using r by (auto intro: pkeeps_pc)
  qed
  show "i_putpvar v r s = Some s' \<Longrightarrow> plain s \<Longrightarrow> fresh_v v s \<or> \<not> conditional s (get_v v s)
      \<Longrightarrow> pkeeps s s'"
  proof -
    assume r: "i_putpvar v r s = Some s'" "plain s" "fresh_v v s \<or> \<not> conditional s (get_v v s)"
    let ?s = "advance_pc 1 s" and ?a = "get_v v s"
    have "bt_safe ?s (bld_free ?a ?s)"
      using r by (intro bld_free_safe) (auto simp: fresh_v_def)
    then have "pkeeps ?s s'" using r
      by (auto simp: defs pkeeps_def Let_def intro!: bt_safe_bld_reg plain_intros)
    then show "pkeeps s s'" using r by (auto intro: pkeeps_pc)
  qed
  show "i_putstrv v p s = Some s' \<Longrightarrow> plain s \<Longrightarrow> fresh_v v s \<Longrightarrow> pkeeps s s'"
    by (auto simp: defs Let_def fresh_v_def intro!: ok_intros)
qed (auto simp: i_putpval_def i_puttvar_def i_putcon_def i_putnil_def i_putstr_def i_putlist_def
    Let_def intro!: ok_intros)

lemma bld_ok:
  "i_bldpvar v s = Some s' \<Longrightarrow> plain s \<Longrightarrow> fresh_v v s \<Longrightarrow> pkeeps s s'"
  "i_bldpval n v s = Some s' \<Longrightarrow> plain s \<Longrightarrow> pkeeps s s'"
  "i_bldtvar r s = Some s' \<Longrightarrow> plain s \<Longrightarrow> pkeeps s s'"
  "i_bldavar s = Some s' \<Longrightarrow> plain s \<Longrightarrow> pkeeps s s'"
  "i_bldkavars k s = Some s' \<Longrightarrow> plain s \<Longrightarrow> pkeeps s s'"
  "i_bldtval n r s = Some s' \<Longrightarrow> plain s \<Longrightarrow> pkeeps s s'"
  "i_bldtval_putlist_bldnumcon n r hi lo s = Some s' \<Longrightarrow> plain s \<Longrightarrow> pkeeps s s'"
  "i_bldtvar_list_numcon hi lo s = Some s' \<Longrightarrow> plain s \<Longrightarrow> pkeeps s s'"
  "i_bldcon c s = Some s' \<Longrightarrow> plain s \<Longrightarrow> pkeeps s s'"
  "i_bldinternstr d s = Some s' \<Longrightarrow> plain s \<Longrightarrow> \<not> isattv d \<Longrightarrow> pkeeps s s'"
  "i_bldnil s = Some s' \<Longrightarrow> plain s \<Longrightarrow> pkeeps s s'"
  "i_bldnumcon j s = Some s' \<Longrightarrow> plain s \<Longrightarrow> pkeeps s s'"
proof -
  show "i_bldtval_putlist_bldnumcon n r hi lo s = Some s' \<Longrightarrow> plain s \<Longrightarrow> pkeeps s s'"
  proof -
    assume r: "i_bldtval_putlist_bldnumcon n r hi lo s = Some s'" "plain s"
    then obtain t where t: "nbldval n (xreg s r) (advance_pc 1 s) = Some t"
      and s': "s' = new_heap_node (makeint_cell (int hi * 256 + int lo))
          (bld_reg r (CList (hreg t)) t)"
      by (auto simp: i_bldtval_putlist_bldnumcon_def split: option.splits)
    have "pkeeps (advance_pc 1 s) t" using nbldval_ok [OF t] r by (simp add: plain_cells)
    then have "pkeeps (advance_pc 1 s) s'"
      using s' by (auto simp: pkeeps_def makeint_cell_def intro!: safe_intros plain_intros)
    then show "pkeeps s s'" using r by (auto intro: pkeeps_pc)
  qed
  show "i_bldtvar_list_numcon hi lo s = Some s' \<Longrightarrow> plain s \<Longrightarrow> pkeeps s s'"
    by (auto simp: i_bldtvar_list_numcon_def Let_def makeint_cell_def
        intro!: ok_intros bt_safe_fresh)
  show "i_bldkavars k s = Some s' \<Longrightarrow> plain s \<Longrightarrow> pkeeps s s'"
    using heap_frees_ok [of "advance_pc 1 s" k]
    by (auto simp: i_bldkavars_def intro: pkeeps_pc [of 1 s])
  show "i_bldpval n v s = Some s' \<Longrightarrow> plain s \<Longrightarrow> pkeeps s s'"
    "i_bldtval n r s = Some s' \<Longrightarrow> plain s \<Longrightarrow> pkeeps s s'"
    by (auto simp: i_bldpval_def i_bldtval_def plain_cells dest!: nbldval_ok intro: pkeeps_pc)
qed (auto simp: i_bldpvar_def i_bldtvar_def i_bldavar_def i_bldcon_def
    i_bldinternstr_def i_bldnil_def i_bldnumcon_def makeint_cell_def fresh_v_def Let_def
    intro!: ok_intros)

lemma small_not_overflow: "0 \<le> k \<Longrightarrow> k < 2 ^ 60 \<Longrightarrow> \<not> cint_overflow k"
  by (simp add: cint_overflow_def signed_take_bit_id_iff)

lemma xreg_bld_reg: "xreg (bld_reg r c s) = (xreg s)(r := c)"
  by (simp add: bld_reg_def)

lemma unitvar_getlist_uninumcon_ok:
  assumes res: "i_unitvar_getlist_uninumcon r hi lo s = Some s'" and s: "plain s"
    and b: "hi < 256" "lo < 256"
  shows "pkeeps s s'"
proof -
  let ?num = "int hi * 256 + int lo" and ?s = "advance_pc 1 s"
  have small: "\<not> cint_overflow ?num" using b by (intro small_not_overflow) auto
  show ?thesis
  proof (cases "wflag s")
    case True
    then show ?thesis using res s
      by (auto simp: i_unitvar_getlist_uninumcon_def Let_def makeint_cell_def xreg_bld_reg
          intro!: ok_intros bt_safe_fresh)
  next
    case False
    let ?t = "inc_sreg 1 (bld_reg r (get_sreg ?s) ?s)"
    have t: "pkeeps s ?t" using s by (auto intro!: ok_intros)
    from res False obtain u where u: "nunify_with_list_sym (xreg ?t r) ?t = Some u"
      and s': "s' = u \<or> s' = new_heap_node (makeint_cell ?num) u
        \<or> nunify_with_num (get_sreg u) ?num (inc_sreg 1 u) = Some s'"
      by (auto simp: i_unitvar_getlist_uninumcon_def Let_def split: option.splits if_splits)
    have tu: "pkeeps ?t u"
      using t by (intro nunify_with_list_sym_ok [OF u]) (simp_all add: pkeeps_def plain_def)
    from s' have "pkeeps u s'"
    proof (elim disjE)
      assume n: "nunify_with_num (get_sreg u) ?num (inc_sreg 1 u) = Some s'"
      have "plain u" using tu by (simp add: pkeeps_def)
      moreover have "pkeeps (inc_sreg 1 u) s'"
        using \<open>plain u\<close> small by (intro nunify_with_num_ok [OF n]) (auto simp: plain_cells below_box_def)
      ultimately show ?thesis by (rule pkeeps_inc_sreg [rotated])
    qed (use tu in \<open>auto simp: pkeeps_def makeint_cell_def intro!: safe_intros plain_intros\<close>)
    with t tu show ?thesis by (blast intro: pkeeps_trans)
  qed
qed

text \<open>
  Every instruction of the set, on operands as the compiler leaves them: the bindings it
  makes are undone by backtracking.
\<close>

lemma step_instr_keeps:
  assumes "step_instr n i s = Some s'" "plain s" "operands_ok i s"
  shows "pkeeps s s'"
  using assms
  by (cases i) (simp_all add: get_ok uni_ok put_ok bld_ok i_getlist_tvar_tvar_ok
      unitvar_getlist_uninumcon_ok)

text \<open>A run of instructions, each with its operands as the compiler leaves them.\<close>

inductive runs :: "nat \<Rightarrow> wam \<Rightarrow> instr list \<Rightarrow> wam \<Rightarrow> bool" where
  runs_nil: "runs n s [] s"
| runs_step: "operands_ok i s \<Longrightarrow> step_instr n i s = Some t \<Longrightarrow> runs n t is s' \<Longrightarrow> runs n s (i # is) s'"

inductive_cases runs_ConsE: "runs n s (i # is) s'"

lemma runs_keeps: "runs n s is s' \<Longrightarrow> plain s \<Longrightarrow> pkeeps s s'"
proof (induction rule: runs.induct)
  case (runs_step i s n t "is" s')
  have "pkeeps s t" by (rule step_instr_keeps) (use runs_step in auto)
  with runs_step show ?case by (auto simp: pkeeps_def intro: bt_safe_trans)
qed (simp add: pkeeps_refl)

end
