(* ===== verification/Wam_Choice.thy ===== *)
theory Wam_Choice imports Wam_Instr begin

text \<open>
  Choice points and backtracking: \<open>SUBTRYME\<close> and \<open>RESTORE_SUB\<close> (\<open>emuloop_aux.h\<close>),
  saving and restoring registers (\<open>choice.h\<close>), the try, retry and trust instructions,
  environments and the transfer of control (\<open>emuloop.c\<close>), and the trail compaction of cut
  (\<open>cut_xsb.h\<close>). The configuration is the single-threaded engine with \<open>SLG_GC\<close>, without
  profiling.

  The argument registers a choice point saves lie above its frame on the choice point
  stack; the model keeps them in the frame, in the order of the stack (last register
  first). Addresses on the choice point stack count cells.
\<close>

section \<open>Saving and restoring registers\<close>

definition CP_SIZE :: int where "CP_SIZE = 10"

text \<open>
  The loop counter of \<open>save_registers\<close> is a byte: with 255 arguments it wraps before it can
  exceed the arity, and the loop does not end, which is the result \<open>None\<close>.
\<close>

partial_function (option) save_registers_loop ::
    "8 word \<Rightarrow> nat \<Rightarrow> (nat \<Rightarrow> cell) \<Rightarrow> cell list \<Rightarrow> cell list option" where
  "save_registers_loop ii arity regs args =
     (if unat ii \<le> arity
      then save_registers_loop (ii + 1) arity regs (regs (unat ii) # args)
      else Some args)"

definition save_registers :: "nat \<Rightarrow> (nat \<Rightarrow> cell) \<Rightarrow> cell list option" where
  "save_registers arity regs = save_registers_loop 1 arity regs []"

text \<open>
  \<open>None\<close> is the restoration of more registers than were saved: the code would read the
  cells of the next older frame.
\<close>

fun restore_registers :: "cell list \<Rightarrow> nat \<Rightarrow> (nat \<Rightarrow> cell) \<Rightarrow> (nat \<Rightarrow> cell) option" where
  "restore_registers cs 0 regs = Some regs"
| "restore_registers [] (Suc k) regs = None"
| "restore_registers (c # cs) (Suc k) regs = restore_registers cs k (regs(Suc k := c))"

definition save_find_locx :: "wam \<Rightarrow> wam" where
  "save_find_locx s =
     (if efreg s < ebreg s \<and> efreg s < ereg s then s\<lparr>ebreg := efreg s\<rparr>
      else if ereg s < ebreg s then s\<lparr>ebreg := ereg s - env_size (wenv s) (cpreg s) + 1\<rparr>
      else s)"

definition save_choicepoint :: "iaddr \<Rightarrow> iaddr \<Rightarrow> cell list \<Rightarrow> iaddr \<Rightarrow> wam \<Rightarrow> choice" where
  "save_choicepoint clause old_top args prev s =
     \<lparr>next_clause = clause, prev_top = old_top, cp_ebreg = ebreg s, cp_hreg = hreg s,
      cp_trreg = trreg s, cp_cpreg = cpreg s, cp_ereg = ereg s, cp_pdreg = delayreg s,
      cp_ptcp = ptcpreg s, cp_prev = prev, cp_args = args\<rparr>"

definition push_choicepoint :: "cell list \<Rightarrow> nat \<Rightarrow> iaddr \<Rightarrow> wam \<Rightarrow> wam" where
  "push_choicepoint args op1 op2 s1 =
     (let old_top = top_of_cpstack s1;
          cp = save_choicepoint op2 old_top args (breg s1) s1;
          cps_top = old_top - int op1 - CP_SIZE
      in s1\<lparr>cps := (cps s1)(cps_top := cp), breg := cps_top, hbreg := hreg s1\<rparr>)"

definition subtryme :: "nat \<Rightarrow> iaddr \<Rightarrow> wam \<Rightarrow> wam option" where
  "subtryme op1 op2 s =
     (let s1 = save_find_locx s
      in map_option (\<lambda>args. push_choicepoint args op1 op2 s1) (save_registers op1 (xreg s1)))"

definition restore_some_wamregs :: "iaddr \<Rightarrow> wam \<Rightarrow> wam" where
  "restore_some_wamregs b s =
     s\<lparr>hreg := (if hbreg s \<ge> hfreg s then hbreg s else hfreg s),
       cpreg := cp_cpreg (cps s b), ereg := cp_ereg (cps s b)\<rparr>"

definition restore_trail_condition_registers :: "iaddr \<Rightarrow> wam \<Rightarrow> wam" where
  "restore_trail_condition_registers b s =
     (if next_clause (cps s b) \<noteq> check_complete_inst (wenv s)
      then s\<lparr>ebreg := cp_ebreg (cps s b), hbreg := cp_hreg (cps s b)\<rparr>
      else s)"

text \<open>\<open>RESTORE_SUB\<close>; the first argument is \<open>restore_type == 1\<close>, a trust.\<close>

definition restore_sub :: "bool \<Rightarrow> nat \<Rightarrow> wam \<Rightarrow> wam option" where
  "restore_sub trust_it op1 s =
     (let tbreg = breg s in
      case undo_bindings tbreg s of
        None \<Rightarrow> None
      | Some s1 \<Rightarrow>
          (let s2 = s1\<lparr>ptcpreg := cp_ptcp (cps s1 tbreg), delayreg := cp_pdreg (cps s1 tbreg)\<rparr>;
               s3 = restore_some_wamregs tbreg s2
           in case restore_registers (cp_args (cps s3 tbreg)) op1 (xreg s3) of
                None \<Rightarrow> None
              | Some regs \<Rightarrow>
                  (let s4 = s3\<lparr>xreg := regs\<rparr>
                   in Some (if trust_it
                        then (let s5 = s4\<lparr>breg := cp_prev (cps s4 (breg s4))\<rparr>
                              in restore_trail_condition_registers (breg s5) s5)
                        else s4))))"

section \<open>Try, retry and trust\<close>

definition set_cp_pcreg :: "iaddr \<Rightarrow> wam \<Rightarrow> wam" where
  "set_cp_pcreg l s =
     s\<lparr>cps := (cps s)(breg s := (cps s (breg s))\<lparr>next_clause := l\<rparr>)\<rparr>"

definition i_trymeelse :: "nat \<Rightarrow> iaddr \<Rightarrow> wam \<Rightarrow> wam option" where
  "i_trymeelse a l s = subtryme a l (advance_pc 2 s)"

definition i_retrymeelse :: "nat \<Rightarrow> iaddr \<Rightarrow> wam \<Rightarrow> wam option" where
  "i_retrymeelse a l s = restore_sub False a (advance_pc 2 (set_cp_pcreg l s))"

definition i_trustmeelsefail :: "nat \<Rightarrow> wam \<Rightarrow> wam option" where
  "i_trustmeelsefail a s = restore_sub True a (advance_pc 1 s)"

definition i_try :: "nat \<Rightarrow> iaddr \<Rightarrow> wam \<Rightarrow> wam option" where
  "i_try a l s = subtryme a (lpcreg s + 2) (s\<lparr>lpcreg := l\<rparr>)"

definition i_retry :: "nat \<Rightarrow> iaddr \<Rightarrow> wam \<Rightarrow> wam option" where
  "i_retry a l s = restore_sub False a ((set_cp_pcreg (lpcreg s + 2) s)\<lparr>lpcreg := l\<rparr>)"

definition i_trust :: "nat \<Rightarrow> iaddr \<Rightarrow> wam \<Rightarrow> wam option" where
  "i_trust a l s = restore_sub True a (s\<lparr>lpcreg := l\<rparr>)"

definition i_retrymeorelse :: "iaddr \<Rightarrow> wam \<Rightarrow> wam option" where
  "i_retrymeorelse l s = restore_sub False 0 (advance_pc 2 (set_cp_pcreg l s))"

definition i_trustmeorelsefail :: "wam \<Rightarrow> wam option" where
  "i_trustmeorelsefail s = restore_sub True 0 (advance_pc 1 s)"

definition i_dyntrustmeelsefail :: "nat \<Rightarrow> wam \<Rightarrow> wam option" where
  "i_dyntrustmeelsefail a s = restore_sub True a (advance_pc 2 s)"

section \<open>Environments\<close>

text \<open>
  The loop that frees the permanent variables from \<open>p\<close> down. A negative count, a first
  chunk larger than the frame, would not end: \<open>None\<close>.
\<close>

fun free_vars :: "nat \<Rightarrow> iaddr \<Rightarrow> wam \<Rightarrow> wam" where
  "free_vars 0 p s = s"
| "free_vars (Suc i) p s = free_vars i (p - 1) (bld_free p s)"

definition new_frame :: "wam \<Rightarrow> iaddr" where
  "new_frame s =
     (if efreg s < ebreg s \<and> efreg s < ereg s then efreg s - 1
      else if ereg s < ebreg s then ereg s - env_size (wenv s) (cpreg s)
      else ebreg s - 1)"

definition i_allocate_gc :: "nat \<Rightarrow> nat \<Rightarrow> wam \<Rightarrow> wam option" where
  "i_allocate_gc op2 op3 s =
     (let s0 = advance_pc 1 s;
          op1 = new_frame s0;
          s1 = bld (op1 - 1) (CCode (cpreg s0)) (bld op1 (CEnv (ereg s0)) s0);
          s2 = s1\<lparr>ereg := op1\<rparr>
      in if op3 < op2 then None else Some (free_vars (op3 - op2) (op1 - int op2) s2))"

definition i_allocate :: "wam \<Rightarrow> wam option" where
  "i_allocate s =
     (let s0 = advance_pc 1 s;
          op1 = new_frame s0;
          s1 = bld (op1 - 1) (CCode (cpreg s0)) (bld op1 (CEnv (ereg s0)) s0);
          s2 = s1\<lparr>ereg := op1\<rparr>
      in Some (free_vars 256 (op1 - 2) s2))"

definition i_deallocate :: "wam \<Rightarrow> wam" where
  "i_deallocate s =
     (let s0 = advance_pc 1 s
      in s0\<lparr>cpreg := cell_ptr (mem s0 (ereg s0 - 1)), ereg := cell_ptr (mem s0 (ereg s0))\<rparr>)"

definition i_calld :: "iaddr \<Rightarrow> wam \<Rightarrow> wam" where
  "i_calld l s = (let s0 = advance_pc 1 s in s0\<lparr>cpreg := lpcreg s0 + 1, lpcreg := l\<rparr>)"

definition i_jump :: "iaddr \<Rightarrow> wam \<Rightarrow> wam" where
  "i_jump l s = s\<lparr>lpcreg := l\<rparr>"

definition i_movreg :: "nat \<Rightarrow> nat \<Rightarrow> wam \<Rightarrow> wam" where
  "i_movreg r1 r2 s = bld_reg r2 (xreg s r1) (advance_pc 1 s)"

definition i_putdval :: "nat \<Rightarrow> nat \<Rightarrow> wam \<Rightarrow> wam option" where
  "i_putdval v r s =
     map_option (\<lambda>d. bld_reg r d (advance_pc 1 s)) (deref (mem s) (variable_at v s))"

definition i_putuval :: "nat \<Rightarrow> nat \<Rightarrow> wam \<Rightarrow> wam option" where
  "i_putuval v r s =
     (let s0 = advance_pc 1 s in
      case deref (mem s0) (variable_at v s0) of
        None \<Rightarrow> None
      | Some d \<Rightarrow>
          Some (if \<not> isref d \<or> cell_ptr d < hreg s0 \<or> cell_ptr d \<ge> ereg s0 then bld_reg r d s0
                else new_heap_free (bind_copy (cell_ptr d) (Ref (hreg s0))
                       (bld_reg r (Ref (hreg s0)) s0))))"

text \<open>
  The test on the first argument. The labels are those of the atomic and of the compound
  clauses; on a variable control falls through.
\<close>

definition i_switchonterm :: "nat \<Rightarrow> iaddr \<Rightarrow> iaddr \<Rightarrow> wam \<Rightarrow> wam option" where
  "i_switchonterm r l1 l2 s =
     (case deref (mem s) (xreg s r) of
        None \<Rightarrow> None
      | Some d \<Rightarrow>
          Some (case d of
              CInt _ \<Rightarrow> s\<lparr>lpcreg := l1\<rparr>
            | CStr _ \<Rightarrow> s\<lparr>lpcreg := l1\<rparr>
            | CFlt _ \<Rightarrow> s\<lparr>lpcreg := l1\<rparr>
            | Ref _ \<Rightarrow> advance_pc 3 s
            | CAttv _ \<Rightarrow> advance_pc 3 s
            | CStruct a \<Rightarrow>
                if isboxedfloat s d then s\<lparr>lpcreg := l1\<rparr>
                else (case mem s a of
                    CPsc p \<Rightarrow> if psc_arity (wenv s) p = 0 then s\<lparr>lpcreg := l1\<rparr>
                              else s\<lparr>lpcreg := l2\<rparr>
                  | _ \<Rightarrow> s\<lparr>lpcreg := l2\<rparr>)
            | CList _ \<Rightarrow> s\<lparr>lpcreg := l2\<rparr>
            | _ \<Rightarrow> s))"

text \<open>\<open>fun_test_ne\<close>: the jump of \<open>\@=/2\<close>, taken when the terms' functors differ.\<close>

definition i_fun_test_ne :: "nat \<Rightarrow> nat \<Rightarrow> iaddr \<Rightarrow> wam \<Rightarrow> wam option" where
  "i_fun_test_ne r1 r2 l s =
     (case (deref (mem s) (xreg s r1), deref (mem s) (xreg s r2)) of
        (Some op1, Some op2) \<Rightarrow>
          Some (if isconstr op1 then
                  (if \<not> isconstr op2 \<or> get_str_psc (mem s) op1 \<noteq> get_str_psc (mem s) op2
                   then s\<lparr>lpcreg := l\<rparr> else advance_pc 2 s)
                else if islist op1 then
                  (if \<not> islist op2 then s\<lparr>lpcreg := l\<rparr> else advance_pc 2 s)
                else if op1 \<noteq> op2 then s\<lparr>lpcreg := l\<rparr>
                else advance_pc 2 s)
      | _ \<Rightarrow> None)"

section \<open>What a choice point saves\<close>

lemma save_find_locx_top: "save_find_locx s = s\<lparr>ebreg := top_of_localstk s\<rparr>"
  by (auto simp: save_find_locx_def top_of_localstk_def)

text \<open>The saved registers, last first, and the state with the new choice point.\<close>

fun saved_args :: "nat \<Rightarrow> (nat \<Rightarrow> cell) \<Rightarrow> cell list" where
  "saved_args 0 regs = []"
| "saved_args (Suc k) regs = regs (Suc k) # saved_args k regs"

definition cp_pushed :: "nat \<Rightarrow> iaddr \<Rightarrow> wam \<Rightarrow> wam" where
  "cp_pushed k l s = push_choicepoint (saved_args k (xreg s)) k l (save_find_locx s)"

lemma save_registers_loop_from:
  "i \<le> k \<Longrightarrow> k < 255 \<Longrightarrow>
     save_registers_loop (of_nat (Suc i)) k regs (saved_args i regs) = Some (saved_args k regs)"
proof (induction "k - i" arbitrary: i)
  case 0
  then have "unat (of_nat (Suc i) :: 8 word) = Suc k"
    by (simp only: unat_of_nat) (simp add: take_bit_nat_eq_self)
  with 0 show ?case by (subst save_registers_loop.simps) simp
next
  case (Suc j)
  then have u: "unat (of_nat (Suc i) :: 8 word) = Suc i"
    by (simp only: unat_of_nat) (simp add: take_bit_nat_eq_self)
  have "save_registers_loop (of_nat (Suc (Suc i))) k regs (saved_args (Suc i) regs)
      = Some (saved_args k regs)"
    using Suc by (intro Suc.hyps) auto
  moreover have "of_nat (Suc (Suc i)) = (of_nat (Suc i) + 1 :: 8 word)" "Suc i \<le> k"
    using Suc.hyps(2) by simp_all
  ultimately show ?case using Suc u by (subst save_registers_loop.simps) simp
qed

lemma save_registers_loop_endless:
  assumes "save_registers_loop ii k regs args = Some r"
  shows "k < 255"
proof (rule save_registers_loop.raw_induct [where P = "\<lambda>ii k regs args r. k < 255", OF _ assms])
  fix f ii k regs args r
  assume "\<And>ii k regs args r. f ii k regs args = Some r \<Longrightarrow> k < 255"
    and "(if unat (ii :: 8 word) \<le> k then f (ii + 1) k regs (regs (unat ii) # args) else Some args) = Some r"
  moreover have "unat ii < 256" using unsigned_less [of ii] by simp
  ultimately show "k < 255" by (auto split: if_splits)
qed

lemma save_registers_eq:
  "save_registers k regs = (if k < 255 then Some (saved_args k regs) else None)"
proof (cases "k < 255")
  case True
  then show ?thesis using save_registers_loop_from [of 0 k regs] by (simp add: save_registers_def)
next
  case False
  then show ?thesis using save_registers_loop_endless [of 1 k regs "[]"]
    by (cases "save_registers_loop 1 k regs []") (auto simp: save_registers_def)
qed

lemma subtryme_eq: "subtryme k l s = (if k < 255 then Some (cp_pushed k l s) else None)"
  by (simp add: subtryme_def save_registers_eq cp_pushed_def save_find_locx_top Let_def)

definition new_breg :: "nat \<Rightarrow> wam \<Rightarrow> iaddr" where
  "new_breg k s = top_of_cpstack s - int k - CP_SIZE"

lemma pushed_fields [simp]:
  "mem (cp_pushed k l s) = mem s" "xreg (cp_pushed k l s) = xreg s"
  "hreg (cp_pushed k l s) = hreg s" "trreg (cp_pushed k l s) = trreg s"
  "trail (cp_pushed k l s) = trail s" "hbreg (cp_pushed k l s) = hreg s"
  "ebreg (cp_pushed k l s) = top_of_localstk s" "hfreg (cp_pushed k l s) = hfreg s"
  "efreg (cp_pushed k l s) = efreg s" "trfreg (cp_pushed k l s) = trfreg s"
  "bfreg (cp_pushed k l s) = bfreg s" "wenv (cp_pushed k l s) = wenv s"
  "breg (cp_pushed k l s) = new_breg k s" "lpcreg (cp_pushed k l s) = lpcreg s"
  by (simp_all add: new_breg_def cp_pushed_def push_choicepoint_def save_find_locx_top Let_def top_of_cpstack_def)

lemma pushed_cp [simp]:
  "cps (cp_pushed k l s) (new_breg k s) =
     \<lparr>next_clause = l, prev_top = top_of_cpstack s, cp_ebreg = top_of_localstk s, cp_hreg = hreg s,
      cp_trreg = trreg s, cp_cpreg = cpreg s, cp_ereg = ereg s, cp_pdreg = delayreg s,
      cp_ptcp = ptcpreg s, cp_prev = breg s, cp_args = saved_args k (xreg s)\<rparr>"
  by (simp add: cp_pushed_def push_choicepoint_def save_find_locx_top save_choicepoint_def Let_def top_of_cpstack_def
      new_breg_def)

lemma pushed_older_cps:
  "top_of_cpstack s \<le> b \<Longrightarrow> cps (cp_pushed k l s) b = cps s b"
  by (auto simp: cp_pushed_def push_choicepoint_def save_find_locx_top Let_def top_of_cpstack_def CP_SIZE_def)

lemma restore_registers_saved:
  "restore_registers (saved_args k regs) k regs' =
     Some (\<lambda>r. if 1 \<le> r \<and> r \<le> k then regs r else regs' r)"
proof (induction k arbitrary: regs')
  case (Suc k)
  then show ?case by (auto simp: fun_eq_iff)
qed auto

section \<open>Undoing keeps a state plain\<close>

lemma untrail_path_attv:
  "(\<And>t c. tf_pre_image (tr t) = Some c \<Longrightarrow> \<not> isattv c) \<Longrightarrow> (\<And>x. \<not> isattv (m x)) \<Longrightarrow>
    \<not> isattv (untrail_path tr ts m x)"
proof (induction ts arbitrary: m)
  case (Cons t ts)
  have "\<not> isattv (untrail2 (tr t) m x)" for x
    using Cons.prems by (auto simp: untrail2_def split: option.splits)
  with Cons show ?case by simp
qed simp

lemma undo_plain:
  assumes safe: "bt_safe s t" and t: "plain t" and u: "table_undo_bindings (trreg s) t = Some u"
  shows "plain u"
  using safe
proof (rule bt_safeD)
  fix ts
  assume P: "tpath (trail t) (trreg t) (trreg s) ts"
  from t have "tf_pre_image (trail t x) = Some c \<Longrightarrow> \<not> isattv c" "\<not> isattv (mem t a)" for x c a
    by (auto simp: plain_def attv_free_def)
  then have "\<not> isattv (untrail_path (trail t) ts (mem t) a)" for a
    using untrail_path_attv by blast
  with t u table_undo_path [OF P] show ?thesis by (auto simp: plain_def attv_free_def)
qed

section \<open>Restoring a choice point\<close>

text \<open>
  The state the engine is back in after \<open>restore_sub\<close>, in terms of the state \<open>s\<close> in which
  the choice point was made and the state \<open>t\<close> that failed.
\<close>

definition restored :: "nat \<Rightarrow> wam \<Rightarrow> wam \<Rightarrow> wam \<Rightarrow> bool" where
  "restored k s t u \<longleftrightarrow>
     trreg u = trreg s \<and> ereg u = ereg s \<and> cpreg u = cpreg s \<and> ptcpreg u = ptcpreg s \<and>
     delayreg u = delayreg s \<and> hreg u = max (hreg s) (hfreg s) \<and> lpcreg u = lpcreg t \<and>
     hfreg u = hfreg s \<and> efreg u = efreg s \<and> trfreg u = trfreg s \<and> bfreg u = bfreg s \<and>
     wenv u = wenv s \<and> (\<forall>r. xreg u r = (if 1 \<le> r \<and> r \<le> k then xreg s r else xreg t r)) \<and>
     (\<forall>x \<le> top_of_trail s. trail u x = trail s x) \<and>
     (\<forall>b \<ge> top_of_cpstack s. cps u b = cps s b) \<and>
     (\<forall>a. (a < hreg s \<or> a < hfreg s \<or> a \<ge> top_of_localstk s \<or> a \<ge> efreg s) \<longrightarrow>
        \<not> (hreg s \<le> a \<and> a < hreg t) \<longrightarrow> mem u a = mem s a)"

lemma conditional_pushed:
  "conditional (cp_pushed k l s) a \<longleftrightarrow>
     a < hreg s \<or> a < hfreg s \<or> a \<ge> top_of_localstk s \<or> a \<ge> efreg s"
  by (auto simp: conditional_def)

lemma top_of_trail_pushed [simp]: "top_of_trail (cp_pushed k l s) = top_of_trail s"
  by (simp add: top_of_trail_def)

lemma top_of_cpstack_pushed: "top_of_cpstack (cp_pushed k l s) \<le> new_breg k s"
  by (auto simp: top_of_cpstack_def)

lemma top_of_cpstack_le: "top_of_cpstack (cp_pushed k l s) \<le> top_of_cpstack s"
  by (auto simp: top_of_cpstack_def CP_SIZE_def new_breg_def)

text \<open>Untrailing and restoring the registers, before the choice point is dropped.\<close>

lemma restore_sub_False:
  assumes safe: "bt_safe (cp_pushed k l s) t"
  shows "\<exists>u. restore_sub False k t = Some u \<and> restored k s t u \<and> breg u = new_breg k s \<and>
     hbreg u = hreg s \<and> ebreg u = top_of_localstk s \<and>
     (\<forall>b \<ge> top_of_cpstack (cp_pushed k l s). cps u b = cps t b) \<and> (plain t \<longrightarrow> plain s \<longrightarrow> plain u)"
proof -
  let ?S = "cp_pushed k l s"
  have R: "same_bt_regs ?S t" "hreg ?S \<le> hreg t" using safe by (auto simp: bt_safe_def)
  have b: "breg t = new_breg k s" and cp: "cps t (new_breg k s) = cps ?S (new_breg k s)"
    using R top_of_cpstack_pushed by (auto simp: same_bt_regs_def)
  from undo_restores [OF safe] obtain u where
    u: "table_undo_bindings (trreg ?S) t = Some u" "trreg u = trreg ?S" "hreg u = hreg t"
    "same_bt_regs ?S u" "xreg u = xreg t" "\<forall>x \<le> top_of_trail ?S. trail u x = trail ?S x"
    "\<forall>a. conditional ?S a \<longrightarrow> \<not> (hreg ?S \<le> a \<and> a < hreg t) \<longrightarrow> mem u a = mem ?S a"
    by blast
  have undo: "undo_bindings (breg t) t = Some u"
    using u(1) b cp by (simp add: undo_bindings_def)
  have lp: "lpcreg u = lpcreg t \<and> cps u = cps t"
    using safe u(1) by (rule_tac bt_safeD [OF safe]) (auto simp: table_undo_path)
  let ?x = "\<lambda>r. if 1 \<le> r \<and> r \<le> k then xreg s r else xreg u r"
  let ?v = "u\<lparr>ptcpreg := ptcpreg s, delayreg := delayreg s, hreg := max (hreg s) (hfreg s),
        cpreg := cpreg s, ereg := ereg s, xreg := ?x\<rparr>"
  have "restore_sub False k t = Some ?v"
    using undo lp cp b u R
    by (simp add: restore_sub_def restore_some_wamregs_def restore_registers_saved
        same_bt_regs_def max_def Let_def cong: if_cong)
  moreover have "restored k s t ?v"
    unfolding restored_def
  proof (intro conjI allI impI)
    fix b assume "top_of_cpstack s \<le> b"
    moreover from this have "top_of_cpstack ?S \<le> b" using top_of_cpstack_le order_trans by blast
    ultimately show "cps ?v b = cps s b"
      using R lp pushed_older_cps by (simp add: same_bt_regs_def)
  next
    fix a assume "a < hreg s \<or> a < hfreg s \<or> top_of_localstk s \<le> a \<or> efreg s \<le> a"
      "\<not> (hreg s \<le> a \<and> a < hreg t)"
    then show "mem ?v a = mem s a" using u(7) [rule_format, of a] conditional_pushed [of k l s a] by auto
  qed (use u R lp in \<open>simp_all add: same_bt_regs_def conditional_pushed\<close>)
  moreover have "plain ?v" if "plain t" "plain s"
  proof -
    have "attv_free ?v = attv_free u" by (simp add: attv_free_def)
    then show ?thesis using undo_plain [OF safe that(1) u(1)] that(2) by (simp add: plain_def)
  qed
  ultimately show ?thesis using u b lp
    by (intro exI [of _ ?v]) (simp add: same_bt_regs_def)
qed

text \<open>A trust also drops the choice point and takes the trail conditions of the one below.\<close>

lemma restore_sub_True:
  assumes r: "restore_sub False k t = Some u"
  shows "restore_sub True k t =
    Some (restore_trail_condition_registers (cp_prev (cps u (breg u)))
            (u\<lparr>breg := cp_prev (cps u (breg u))\<rparr>))"
  using r by (auto simp: restore_sub_def Let_def split: option.splits)

lemma set_cp_pcreg_pushed: "set_cp_pcreg l' (cp_pushed k l s) = cp_pushed k l' s"
  by (simp add: set_cp_pcreg_def cp_pushed_def push_choicepoint_def save_choicepoint_def Let_def)

lemma set_cp_pcreg_safe:
  assumes safe: "bt_safe (cp_pushed k l s) t"
  shows "bt_safe (cp_pushed k l' s) (set_cp_pcreg l' t)"
proof -
  let ?S = "cp_pushed k l s" and ?S' = "cp_pushed k l' s"
  have b: "breg t = new_breg k s"
    and older: "\<And>b. top_of_cpstack ?S \<le> b \<Longrightarrow> cps t b = cps ?S b"
    using safe by (auto simp: bt_safe_def same_bt_regs_def)
  have top: "top_of_cpstack ?S' = top_of_cpstack ?S" by (simp add: top_of_cpstack_def)
  have "cps (set_cp_pcreg l' t) b = cps ?S' b" if "top_of_cpstack ?S' \<le> b" for b
  proof -
    have "cps ?S' = (cps ?S)(new_breg k s := (cps ?S (new_breg k s))\<lparr>next_clause := l'\<rparr>)"
      by (simp add: set_cp_pcreg_pushed [symmetric, where l' = l' and k = k and s = s and l = l] set_cp_pcreg_def)
    then show ?thesis using that older top b top_of_cpstack_pushed [of k l s]
      by (auto simp: set_cp_pcreg_def)
  qed
  moreover have "conditional ?S' = conditional ?S"
    by (simp add: fun_eq_iff conditional_pushed)
  ultimately show ?thesis
    using safe unfolding bt_safe_def
    by (elim conjE, intro conjI)
      (simp_all add: same_bt_regs_def set_cp_pcreg_def)
qed

section \<open>Nested choice points\<close>

text \<open>
  The invariant of the registers that decide what is trailed: they are those of the last
  choice point, which is not the completion instruction's, and no frame is empty.
\<close>

definition cp_wf :: "wam \<Rightarrow> bool" where
  "cp_wf s \<longleftrightarrow>
     hbreg s \<le> hreg s \<and> hfreg s \<le> hreg s \<and> (\<forall>c. 1 \<le> env_size (wenv s) c) \<and>
     next_clause (cps s (breg s)) \<noteq> check_complete_inst (wenv s) \<and>
     cp_hreg (cps s (breg s)) = hbreg s \<and> cp_ebreg (cps s (breg s)) = ebreg s"

lemma cp_wf_bt_safe: "bt_safe s t \<Longrightarrow> cp_wf s \<Longrightarrow> cp_wf t"
  by (auto simp: bt_safe_def same_bt_regs_def cp_wf_def top_of_cpstack_def)

lemma top_of_localstk_le: "cp_wf s \<Longrightarrow> top_of_localstk s \<le> ebreg s"
  by (auto simp: top_of_localstk_def cp_wf_def dest: spec [of _ "cpreg s"])

lemma cp_wf_conditional: "cp_wf s \<Longrightarrow> conditional s a \<Longrightarrow> conditional (cp_pushed k l s) a"
proof -
  assume wf: "cp_wf s" and c: "conditional s a"
  with top_of_localstk_le [OF wf] show ?thesis by (auto simp: conditional_pushed conditional_def cp_wf_def)
qed

lemma plain_pushed: "plain s \<Longrightarrow> plain (cp_pushed k l s)"
  by (simp add: plain_def attv_free_def)

text \<open>
  The heap has not run into the part of the local stack that was live at \<open>s\<close>; the engine
  checks for that overflow and enlarges the stacks.
\<close>

definition no_overflow :: "wam \<Rightarrow> wam \<Rightarrow> bool" where
  "no_overflow s t \<longleftrightarrow> hreg t \<le> top_of_localstk s \<and> hreg t \<le> efreg s"

text \<open>
  A choice point made at \<open>s\<close> and popped again gives a state that is safe for \<open>s\<close>: the
  outer choice points lose nothing to an inner one.
\<close>

lemma trust_safe:
  assumes wf: "cp_wf s" and safe: "bt_safe (cp_pushed k l s) t" and gap: "no_overflow s t"
  shows "\<exists>u. restore_sub True k t = Some u \<and> bt_safe s u \<and> restored k s t u \<and> breg u = breg s \<and>
     hbreg u = hbreg s \<and> ebreg u = ebreg s \<and> (plain t \<longrightarrow> plain s \<longrightarrow> plain u)"
proof -
  let ?S = "cp_pushed k l s"
  from restore_sub_False [OF safe] obtain v where
    v: "restore_sub False k t = Some v" "restored k s t v" "breg v = new_breg k s"
    "\<forall>b \<ge> top_of_cpstack ?S. cps v b = cps t b" "plain t \<longrightarrow> plain s \<longrightarrow> plain v"
    by blast
  have "cps v (new_breg k s) = cps ?S (new_breg k s)"
    using v safe top_of_cpstack_pushed [of k l s] by (simp add: bt_safe_def same_bt_regs_def)
  then have prev: "cp_prev (cps v (breg v)) = breg s" using v by simp
  have cp: "cps v (breg s) = cps s (breg s)"
    using v by (simp add: restored_def top_of_cpstack_def)
  let ?u = "v\<lparr>breg := breg s, ebreg := ebreg s, hbreg := hbreg s\<rparr>"
  have u: "restore_sub True k t = Some ?u"
    using restore_sub_True [OF v(1)] wf prev cp v(2)
    by (simp add: restore_trail_condition_registers_def cp_wf_def restored_def)
  have mem: "mem ?u a = mem s a" if "conditional s a" "\<not> (hreg s \<le> a \<and> a < hreg ?u)" for a
  proof -
    have "\<not> (hreg s \<le> a \<and> a < hreg t)"
      using wf gap that(1) top_of_localstk_le [OF wf]
      by (auto simp: conditional_def cp_wf_def no_overflow_def)
    moreover have "a < hreg s \<or> a < hfreg s \<or> top_of_localstk s \<le> a \<or> efreg s \<le> a"
      using cp_wf_conditional [OF wf that(1), of k l] by (simp add: conditional_pushed)
    ultimately show ?thesis using v(2) unfolding restored_def by auto
  qed
  have "bt_safe s ?u"
  proof (unfold bt_safe_def, intro conjI exI [of _ "[]"])
    show "same_bt_regs s ?u" using v(2) by (simp add: same_bt_regs_def restored_def)
    show "hreg s \<le> hreg ?u" using v(2) by (simp add: restored_def)
    show "tpath (trail ?u) (trreg ?u) (trreg s) []" using v(2) by (auto simp: restored_def intro: tpath.intros)
  qed (use v(2) mem in \<open>auto simp: restored_def\<close>)
  moreover have "restored k s t ?u" using v(2) by (simp add: restored_def)
  moreover have "plain ?u = plain v" by (simp add: plain_def attv_free_def)
  ultimately show ?thesis using u v(5) by (intro exI [of _ ?u]) simp
qed

text \<open>A retry gives a state that is safe for the choice point with its new clause.\<close>

lemma retry_safe:
  assumes safe: "bt_safe (cp_pushed k l s) t" and gap: "no_overflow s t"
  shows "\<exists>u. restore_sub False k (set_cp_pcreg l' t) = Some u \<and> bt_safe (cp_pushed k l' s) u \<and>
     restored k s t u \<and> (plain t \<longrightarrow> plain s \<longrightarrow> plain u)"
proof -
  let ?S = "cp_pushed k l' s" and ?t = "set_cp_pcreg l' t"
  have safe': "bt_safe ?S ?t" by (rule set_cp_pcreg_safe [OF safe])
  have pt: "plain ?t = plain t" and ht: "hreg ?t = hreg t" and xt: "xreg ?t = xreg t" "lpcreg ?t = lpcreg t"
    by (simp_all add: set_cp_pcreg_def plain_def attv_free_def)
  from restore_sub_False [OF safe'] obtain u where
    u: "restore_sub False k ?t = Some u" "restored k s ?t u" "breg u = new_breg k s"
    "hbreg u = hreg s" "ebreg u = top_of_localstk s"
    "\<forall>b \<ge> top_of_cpstack ?S. cps u b = cps ?t b" "plain ?t \<longrightarrow> plain s \<longrightarrow> plain u"
    by blast
  have mem: "mem u a = mem s a" if "conditional ?S a" "\<not> (hreg s \<le> a \<and> a < hreg u)" for a
  proof -
    have "\<not> (hreg s \<le> a \<and> a < hreg t)"
      using gap that u(2)
      by (auto simp: conditional_pushed no_overflow_def restored_def max_def split: if_splits)
    with that(1) u(2) ht show ?thesis unfolding conditional_pushed restored_def by auto
  qed
  have "bt_safe ?S u"
  proof (unfold bt_safe_def, intro conjI exI [of _ "[]"])
    show "same_bt_regs ?S u"
      using u safe' by (simp add: same_bt_regs_def restored_def bt_safe_def)
    show "hreg ?S \<le> hreg u" using u(2) by (simp add: restored_def)
    show "tpath (trail u) (trreg u) (trreg ?S) []" using u(2) by (auto simp: restored_def intro: tpath.intros)
  qed (use u(2) mem in \<open>auto simp: restored_def\<close>)
  with u pt ht xt show ?thesis by (auto simp: restored_def intro!: exI [of _ u])
qed

section \<open>Environments and control\<close>

lemma free_vars_safe:
  "plain s \<Longrightarrow> (\<And>i. i < k \<Longrightarrow> \<not> conditional s (p - int i)) \<Longrightarrow> pkeeps s (free_vars k p s)"
proof (induction k arbitrary: p s)
  case (Suc k)
  have "pkeeps s (bld_free p s)"
    using Suc.prems(1) Suc.prems(2) [of 0] by (auto simp: pkeeps_def intro: bld_free_safe plain_intros)
  moreover have "\<not> conditional (bld_free p s) (p - 1 - int i)" if "i < k" for i
    using Suc.prems(2) [of "Suc i"] that
    by (simp add: conditional_def bld_free_def bld_def algebra_simps)
  ultimately show ?case
    using Suc.IH [of "bld_free p s" "p - 1"] by (auto simp: pkeeps_def intro: bt_safe_trans)
qed (simp add: pkeeps_refl)

text \<open>The new environment fits between the heap and the frame below it.\<close>

definition frame_fits :: "int \<Rightarrow> wam \<Rightarrow> bool" where
  "frame_fits len s \<longleftrightarrow>
     1 \<le> env_size (wenv s) (cpreg s) \<and> hbreg s \<le> new_frame s - len \<and> hfreg s \<le> new_frame s - len"

lemma new_frame_unconditional:
  "frame_fits len s \<Longrightarrow> new_frame s - len \<le> a \<Longrightarrow> a \<le> new_frame s \<Longrightarrow> \<not> conditional s a"
  by (auto simp: frame_fits_def new_frame_def conditional_def split: if_splits)

lemma new_frame_top: "new_frame s = top_of_localstk s - 1"
  by (simp add: new_frame_def top_of_localstk_def)

lemma pkeeps_unconditional:
  "plain s \<Longrightarrow> \<not> conditional s a \<Longrightarrow> \<not> isattv c \<Longrightarrow> pkeeps s (bld a c s)"
  by (auto simp: pkeeps_def bld_def intro!: bt_safe_unconditional plain_writes(2) [unfolded bld_def])

lemma new_frame_pc [simp]: "new_frame (advance_pc k s) = new_frame s"
  by (simp add: new_frame_def advance_pc_def)

text \<open>
  Allocating an environment writes no cell that an older frame, a frozen frame or the heap
  may need: nothing it writes is conditional.
\<close>

lemma i_allocate_gc_keeps:
  assumes res: "i_allocate_gc op2 op3 s = Some s'" and s: "plain s"
    and fits: "frame_fits (int op3) s" "1 \<le> op3"
  shows "pkeeps s s'"
proof -
  let ?s = "advance_pc 1 s" and ?f = "new_frame s"
  let ?s1 = "bld (?f - 1) (CCode (cpreg ?s)) (bld ?f (CEnv (ereg ?s)) ?s)"
  let ?s2 = "?s1\<lparr>ereg := ?f\<rparr>"
  have un: "\<not> conditional s a" if "?f - int op3 \<le> a" "a \<le> ?f" for a
    using new_frame_unconditional [OF fits(1) that] .
  have c: "conditional ?s2 = conditional s" "conditional (bld ?f (CEnv (ereg ?s)) ?s) = conditional s"
    by (simp_all add: fun_eq_iff conditional_def bld_def advance_pc_def)
  have "pkeeps ?s (bld ?f (CEnv (ereg ?s)) ?s)"
    using s un [of ?f] by (intro pkeeps_unconditional) auto
  moreover from this have "pkeeps (bld ?f (CEnv (ereg ?s)) ?s) ?s1"
    using c un [of "?f - 1"] fits(2) by (intro pkeeps_unconditional) (auto simp: pkeeps_def)
  ultimately have "pkeeps s ?s1" using s by (blast intro: pkeeps_trans pkeeps_pc)
  then have k: "pkeeps s ?s2" by (auto simp: pkeeps_def plain_def attv_free_def intro: bt_safe_ereg)
  have "pkeeps ?s2 (free_vars (op3 - op2) (?f - int op2) ?s2)"
    using k un c by (intro free_vars_safe) (auto simp: pkeeps_def)
  moreover have "s' = free_vars (op3 - op2) (?f - int op2) ?s2"
    using res by (auto simp: i_allocate_gc_def Let_def split: if_splits)
  ultimately show ?thesis using k by (auto intro: pkeeps_trans)
qed

lemma plain_ctl [simp]:
  "plain s \<Longrightarrow> plain (s\<lparr>lpcreg := l\<rparr>)" "plain s \<Longrightarrow> plain (s\<lparr>cpreg := l\<rparr>)"
  "plain s \<Longrightarrow> plain (s\<lparr>ereg := l\<rparr>)" "plain s \<Longrightarrow> plain (s\<lparr>cpreg := l, ereg := l'\<rparr>)"
  "plain s \<Longrightarrow> plain (s\<lparr>cpreg := l, lpcreg := l'\<rparr>)"
  by (simp_all add: plain_def attv_free_def)

lemma control_keeps:
  "plain s \<Longrightarrow> pkeeps s (i_deallocate s)"
  "plain s \<Longrightarrow> pkeeps s (i_calld l s)"
  "plain s \<Longrightarrow> pkeeps s (i_jump l s)"
  "plain s \<Longrightarrow> pkeeps s (i_movreg r1 r2 s)"
  "plain s \<Longrightarrow> pkeeps s (fail1 s)"
  by (auto simp: pkeeps_def i_deallocate_def i_calld_def i_jump_def i_movreg_def Let_def
      intro!: safe_intros plain_intros)

lemma i_putdval_keeps: "i_putdval v r s = Some s' \<Longrightarrow> plain s \<Longrightarrow> pkeeps s s'"
  by (auto simp: i_putdval_def pkeeps_def plain_cells dest!: plain_deref
      intro!: safe_intros plain_intros)

lemma i_putuval_keeps:
  assumes res: "i_putuval v r s = Some s'" and s: "plain s"
  shows "pkeeps s s'"
proof -
  let ?s = "advance_pc 1 s"
  from res obtain d where d: "deref (mem ?s) (variable_at v ?s) = Some d"
    by (auto simp: i_putuval_def Let_def split: option.splits)
  have na: "\<not> isattv d" using plain_deref [OF d] s by (simp add: plain_cells)
  have "isref d \<Longrightarrow> mem s (cell_ptr d) = Ref (cell_ptr d)"
    using deref_result [OF d] by (cases d) auto
  moreover have "s' = bld_reg r d ?s \<or> isref d \<and>
      s' = new_heap_free (bind_copy (cell_ptr d) (Ref (hreg ?s)) (bld_reg r (Ref (hreg ?s)) ?s))"
    using res unfolding i_putuval_def Let_def d by (auto split: if_splits)
  ultimately show ?thesis using s na by (auto intro!: ok_intros)
qed

lemma i_switchonterm_keeps: "i_switchonterm r l1 l2 s = Some s' \<Longrightarrow> plain s \<Longrightarrow> pkeeps s s'"
  by (auto simp: i_switchonterm_def pkeeps_def split: option.splits cell.splits if_splits
      intro!: safe_intros plain_intros)

lemma i_fun_test_ne_keeps: "i_fun_test_ne r1 r2 l s = Some s' \<Longrightarrow> plain s \<Longrightarrow> pkeeps s s'"
  by (auto simp: i_fun_test_ne_def pkeeps_def split: option.splits if_splits
      intro!: safe_intros plain_intros)

section \<open>Runs with nested choice points\<close>

text \<open>
  \<open>wrun n s t\<close>: the engine goes from \<open>s\<close> to \<open>t\<close> by instructions and by predicates that
  made choice points and dropped the last of them again. \<open>tries n k s t\<close>: \<open>t\<close> is reached
  under the choice point that \<open>trymeelse\<close> of arity \<open>k\<close> made at \<open>s\<close>, after any number of
  retries.
\<close>

inductive wrun :: "nat \<Rightarrow> wam \<Rightarrow> wam \<Rightarrow> bool"
  and tries :: "nat \<Rightarrow> nat \<Rightarrow> wam \<Rightarrow> wam \<Rightarrow> bool" for n :: nat where
  wrun_refl: "wrun n s s"
| wrun_instr: "wrun n s t \<Longrightarrow> operands_ok i t \<Longrightarrow> step_instr n i t = Some u \<Longrightarrow> wrun n s u"
| wrun_allocate: "wrun n s t \<Longrightarrow> frame_fits (int op3) t \<Longrightarrow> 1 \<le> op3 \<Longrightarrow>
    i_allocate_gc op2 op3 t = Some u \<Longrightarrow> wrun n s u"
| wrun_deallocate: "wrun n s t \<Longrightarrow> wrun n s (i_deallocate t)"
| wrun_calld: "wrun n s t \<Longrightarrow> wrun n s (i_calld l t)"
| wrun_jump: "wrun n s t \<Longrightarrow> wrun n s (i_jump l t)"
| wrun_movreg: "wrun n s t \<Longrightarrow> wrun n s (i_movreg r1 r2 t)"
| wrun_fail: "wrun n s t \<Longrightarrow> wrun n s (fail1 t)"
| wrun_putdval: "wrun n s t \<Longrightarrow> i_putdval v r t = Some u \<Longrightarrow> wrun n s u"
| wrun_putuval: "wrun n s t \<Longrightarrow> i_putuval v r t = Some u \<Longrightarrow> wrun n s u"
| wrun_switch: "wrun n s t \<Longrightarrow> i_switchonterm r l l' t = Some u \<Longrightarrow> wrun n s u"
| wrun_test: "wrun n s t \<Longrightarrow> i_fun_test_ne r1 r2 l t = Some u \<Longrightarrow> wrun n s u"
| wrun_trust: "wrun n s t \<Longrightarrow> tries n k t u \<Longrightarrow> no_overflow (advance_pc 2 t) u \<Longrightarrow>
    i_trustmeelsefail k u = Some v \<Longrightarrow> wrun n s v"
| tries_try: "l \<noteq> check_complete_inst (wenv s) \<Longrightarrow> i_trymeelse k l s = Some s0 \<Longrightarrow> wrun n s0 t \<Longrightarrow>
    tries n k s t"
| tries_retry: "tries n k s t \<Longrightarrow> l \<noteq> check_complete_inst (wenv s) \<Longrightarrow>
    no_overflow (advance_pc 2 s) t \<Longrightarrow> i_retrymeelse k l t = Some u \<Longrightarrow> wrun n u v \<Longrightarrow> tries n k s v"

lemma cp_wf_pc [simp]: "cp_wf (advance_pc k s) = cp_wf s"
  by (simp add: cp_wf_def advance_pc_def)

lemma cp_wf_pushed:
  "cp_wf s \<Longrightarrow> l \<noteq> check_complete_inst (wenv s) \<Longrightarrow> cp_wf (cp_pushed k l s)"
  by (simp add: cp_wf_def)

lemma set_cp_pcreg_pc: "advance_pc j (set_cp_pcreg l s) = set_cp_pcreg l (advance_pc j s)"
  by (simp add: advance_pc_def set_cp_pcreg_def)

lemma no_overflow_pc [simp]: "no_overflow s (advance_pc j t) = no_overflow s t"
  by (simp add: no_overflow_def)

lemma runs_safe:
  "wrun n s t \<Longrightarrow> plain s \<Longrightarrow> cp_wf s \<Longrightarrow> pkeeps s t"
  "tries n k s t \<Longrightarrow> plain s \<Longrightarrow> cp_wf s \<Longrightarrow>
     \<exists>l. l \<noteq> check_complete_inst (wenv s) \<and> pkeeps (cp_pushed k l (advance_pc 2 s)) t"
proof (induction rule: wrun_tries.inducts)
  case (wrun_instr s t i u)
  then have "plain t" by (simp add: pkeeps_def)
  with wrun_instr show ?case using step_instr_keeps by (blast intro: pkeeps_trans)
next
  case (wrun_allocate s t op3 op2 u)
  then have "plain t" by (simp add: pkeeps_def)
  with wrun_allocate show ?case using i_allocate_gc_keeps by (blast intro: pkeeps_trans)
next
  case (wrun_deallocate s t)
  then show ?case using control_keeps(1) pkeeps_trans pkeeps_def by metis
next
  case (wrun_calld s t l)
  then show ?case using control_keeps(2) pkeeps_trans pkeeps_def by metis
next
  case (wrun_jump s t l)
  then show ?case using control_keeps(3) pkeeps_trans pkeeps_def by metis
next
  case (wrun_movreg s t r1 r2)
  then show ?case using control_keeps(4) pkeeps_trans pkeeps_def by metis
next
  case (wrun_fail s t)
  then show ?case using control_keeps(5) pkeeps_trans pkeeps_def by metis
next
  case (wrun_putdval s t v r u)
  then show ?case using i_putdval_keeps pkeeps_trans pkeeps_def by metis
next
  case (wrun_putuval s t v r u)
  then show ?case using i_putuval_keeps pkeeps_trans pkeeps_def by metis
next
  case (wrun_switch s t r l l' u)
  then show ?case using i_switchonterm_keeps pkeeps_trans pkeeps_def by metis
next
  case (wrun_test s t r1 r2 l u)
  then show ?case using i_fun_test_ne_keeps pkeeps_trans pkeeps_def by metis
next
  case (wrun_trust s t k u v)
  then have st: "pkeeps s t" and pt: "plain t" and wf: "cp_wf t"
    by (auto simp: pkeeps_def intro: cp_wf_bt_safe)
  then obtain l where l: "pkeeps (cp_pushed k l (advance_pc 2 t)) u" using wrun_trust by blast
  let ?t = "advance_pc 2 t" and ?u = "advance_pc 1 u"
  have "bt_safe (cp_pushed k l ?t) ?u" "plain ?u" using l by (auto simp: pkeeps_def intro: safe_intros)
  with trust_safe [of ?t k l ?u] wf pt wrun_trust.hyps
  have "pkeeps ?t v" by (auto simp: i_trustmeelsefail_def pkeeps_def)
  then show ?case using st pt by (blast intro: pkeeps_trans pkeeps_pc)
next
  case (tries_try l s k s0 t)
  let ?S = "cp_pushed k l (advance_pc 2 s)"
  have "plain ?S" "cp_wf ?S"
    using tries_try.prems tries_try.hyps(1)
    by (simp_all add: plain_pushed cp_wf_pushed advance_pc_def [of 2 s] cp_wf_def)
  moreover have "s0 = ?S"
    using tries_try.hyps(2) by (simp add: i_trymeelse_def subtryme_eq split: if_splits)
  ultimately show ?case using tries_try by auto
next
  case (tries_retry k s t l u v)
  let ?s = "advance_pc 2 s" and ?t = "advance_pc 2 t"
  obtain l0 where l0: "pkeeps (cp_pushed k l0 ?s) t" using tries_retry by blast
  then have t: "bt_safe (cp_pushed k l0 ?s) ?t" "plain ?t" by (auto simp: pkeeps_def intro: safe_intros)
  have "restore_sub False k (set_cp_pcreg l ?t) = Some u"
    using tries_retry.hyps by (simp add: i_retrymeelse_def set_cp_pcreg_pc)
  with retry_safe [OF t(1), of l] tries_retry t(2)
  have u: "pkeeps (cp_pushed k l ?s) u" by (auto simp: pkeeps_def)
  moreover have "cp_wf (cp_pushed k l ?s)"
    using tries_retry by (intro cp_wf_pushed) auto
  ultimately have "plain u" "cp_wf u" by (auto simp: pkeeps_def intro: cp_wf_bt_safe)
  then have "pkeeps u v" using tries_retry.IH by blast
  with u tries_retry.hyps show ?case by (blast intro: pkeeps_trans)
qed (simp_all add: pkeeps_refl)

end
