(* ===== verification/Wam_Cut.thy ===== *)
theory Wam_Cut imports Wam_Choice begin

text \<open>
  Cutting choice points away (\<open>cut_xsb.h\<close>): \<open>unwind_trail\<close> drops the trail frames whose
  variable is no longer conditional under the trail conditions of the choice point that the
  cut goes back to.
\<close>

section \<open>The two loops\<close>

definition good_trail_register :: "wam \<Rightarrow> iaddr \<Rightarrow> bool" where
  "good_trail_register s t \<longleftrightarrow> conditional s (tf_variable (trail s t))"

text \<open>
  The first loop lowers \<open>trreg\<close>. A trail whose parents do not go down would not end, the
  result \<open>None\<close>, here and in the second loop.
\<close>

partial_function (option) unwind_top :: "iaddr \<Rightarrow> wam \<Rightarrow> wam option" where
  "unwind_top low s =
     (if trreg s > trfreg s \<and> \<not> good_trail_register s (trreg s) \<and> trreg s > low
      then unwind_top low (s\<lparr>trreg := tf_parent (trail s (trreg s))\<rparr>)
      else Some s)"

text \<open>The second loop unlinks the frames below \<open>t1\<close>; \<open>t2\<close> is the next one.\<close>

partial_function (option) unwind_links :: "iaddr \<Rightarrow> iaddr \<Rightarrow> iaddr \<Rightarrow> wam \<Rightarrow> wam option" where
  "unwind_links low t1 t2 s =
     (if t2 > low \<and> t2 > trfreg s then
        (if \<not> good_trail_register s t2 then
           (let t2' = tf_parent (trail s t2)
            in unwind_links low t1 t2'
                 (s\<lparr>trail := (trail s)(t1 := (trail s t1)\<lparr>tf_parent := t2'\<rparr>)\<rparr>))
         else unwind_links low t2 (tf_parent (trail s t2)) s)
      else Some s)"

definition unwind_trail :: "iaddr \<Rightarrow> wam \<Rightarrow> wam option" where
  "unwind_trail tbreg s =
     (let low = cp_trreg (cps s tbreg) in
      case unwind_top low s of
        None \<Rightarrow> None
      | Some s1 \<Rightarrow> unwind_links low (trreg s1) (tf_parent (trail s1 (trreg s1))) s1)"

section \<open>The compacted trail\<close>

text \<open>Changing a parent link leaves what the frame restores.\<close>

definition same_frames :: "(iaddr \<Rightarrow> tframe) \<Rightarrow> (iaddr \<Rightarrow> tframe) \<Rightarrow> bool" where
  "same_frames tr tr' \<longleftrightarrow>
     (\<forall>t. tf_variable (tr' t) = tf_variable (tr t) \<and> tf_value (tr' t) = tf_value (tr t) \<and>
          tf_pre_image (tr' t) = tf_pre_image (tr t))"

lemma same_frames_trans: "same_frames a b \<Longrightarrow> same_frames b c \<Longrightarrow> same_frames a c"
  by (simp add: same_frames_def)

lemma same_frames_untrail: "same_frames tr tr' \<Longrightarrow> untrail_path tr' ts m = untrail_path tr ts m"
proof (induction ts arbitrary: m)
  case (Cons t ts)
  then have "untrail2 (tr' t) m = untrail2 (tr t) m"
    by (simp add: untrail2_def same_frames_def split: option.split)
  with Cons show ?case by simp
qed simp

text \<open>
  The frames that stay: those of the frozen trail, at or below \<open>trfreg\<close>, and those whose
  variable is still conditional.
\<close>

definition kept_frame :: "wam \<Rightarrow> iaddr \<Rightarrow> bool" where
  "kept_frame s t \<longleftrightarrow> t \<le> trfreg s \<or> good_trail_register s t"

lemma kept_frozen:
  assumes "tpath tr t low ts" "t \<le> trfreg s"
  shows "filter (kept_frame s) ts = ts"
  using tpath_le [OF assms(1)] assms(2) by (intro filter_True) (fastforce simp: kept_frame_def)

lemma kept_frame_upd [simp]:
  "kept_frame (s\<lparr>trreg := t\<rparr>) = kept_frame s"
  "kept_frame (s\<lparr>trail := (trail s)(t1 := (trail s t1)\<lparr>tf_parent := p\<rparr>)\<rparr>) = kept_frame s"
  by (auto simp: fun_eq_iff kept_frame_def good_trail_register_def conditional_def)

lemma unwind_links_path:
  assumes "tpath (trail s) t2 low ts" "t2 < t1" "tf_parent (trail s t1) = t2"
  shows "\<exists>tr. unwind_links low t1 t2 s = Some (s\<lparr>trail := tr\<rparr>) \<and> same_frames (trail s) tr \<and>
    tpath tr (tf_parent (tr t1)) low (filter (kept_frame s) ts) \<and> tf_parent (tr t1) < t1 \<and>
    (\<forall>x. x > t1 \<or> x \<noteq> t1 \<and> (x \<le> low \<or> x \<le> trfreg s) \<longrightarrow> tr x = trail s x) \<and>
    (t1 \<le> trfreg s \<longrightarrow> tr = trail s)"
  using assms
proof (induction ts arbitrary: s t1 t2 rule: list.induct)
  case Nil
  then have "t2 = low" by (auto elim: tpath_NilE)
  with Nil show ?case
    by (subst unwind_links.simps)
      (auto simp: same_frames_def intro!: exI [of _ "trail s"] tpath.intros)
next
  case (Cons t ts)
  let ?p = "tf_parent (trail s t2)"
  from Cons.prems(1) have t: "t = t2" "low < t2" "?p < t2" "tpath (trail s) ?p low ts"
    by (auto elim: tpath_ConsE)
  consider (frozen) "t2 \<le> trfreg s" | (good) "trfreg s < t2" "good_trail_register s t2"
    | (bad) "trfreg s < t2" "\<not> good_trail_register s t2" by linarith
  then show ?case
  proof cases
    case frozen
    then have "unwind_links low t1 t2 s = Some (s\<lparr>trail := trail s\<rparr>)"
      by (subst unwind_links.simps) simp
    then show ?thesis using Cons.prems kept_frozen [OF Cons.prems(1) frozen]
      by (intro exI [of _ "trail s"]) (simp add: same_frames_def)
  next
    case good
    from Cons.IH [OF t(4) t(3) refl] obtain tr where
      tr: "unwind_links low t2 ?p s = Some (s\<lparr>trail := tr\<rparr>)" "same_frames (trail s) tr"
      "tpath tr (tf_parent (tr t2)) low (filter (kept_frame s) ts)"
      "tf_parent (tr t2) < t2"
      "\<forall>x. x > t2 \<or> x \<noteq> t2 \<and> (x \<le> low \<or> x \<le> trfreg s) \<longrightarrow> tr x = trail s x" by blast
    have "tr t1 = trail s t1" using tr(5) Cons.prems(2) by simp
    moreover have "unwind_links low t1 t2 s = Some (s\<lparr>trail := tr\<rparr>)"
      using good t tr(1) by (subst unwind_links.simps) simp
    moreover have "tpath tr t2 low (t2 # filter (kept_frame s) ts)"
      using tr t by (intro tpath_step)
    moreover have "kept_frame s t2" using good by (simp add: kept_frame_def)
    ultimately show ?thesis using good t tr Cons.prems by (intro exI [of _ tr]) auto
  next
    case bad
    let ?s = "s\<lparr>trail := (trail s)(t1 := (trail s t1)\<lparr>tf_parent := ?p\<rparr>)\<rparr>"
    have tp: "tpath (trail ?s) ?p low ts"
      using tpath_le [OF t(4)] t(3) Cons.prems(2) by (intro tpath_cong [OF t(4)]) auto
    have sf: "same_frames (trail s) (trail ?s)" by (simp add: same_frames_def)
    have "?p < t1" using t Cons.prems(2) by simp
    moreover have "tf_parent (trail ?s t1) = ?p" by simp
    ultimately obtain tr where
      tr: "unwind_links low t1 ?p ?s = Some (?s\<lparr>trail := tr\<rparr>)" "same_frames (trail ?s) tr"
      "tpath tr (tf_parent (tr t1)) low (filter (kept_frame ?s) ts)"
      "tf_parent (tr t1) < t1"
      "\<forall>x. x > t1 \<or> x \<noteq> t1 \<and> (x \<le> low \<or> x \<le> trfreg ?s) \<longrightarrow> tr x = trail ?s x"
      using Cons.IH [OF tp] by blast
    have "unwind_links low t1 t2 s = Some (s\<lparr>trail := tr\<rparr>)"
      using bad t tr(1) by (subst unwind_links.simps) (simp add: Let_def)
    moreover have "same_frames (trail s) tr" using sf tr(2) by (rule same_frames_trans)
    moreover have "filter (kept_frame s) (t # ts) = filter (kept_frame ?s) ts"
      using bad t(1) by (simp add: kept_frame_def)
    ultimately show ?thesis using tr(3-5) bad Cons.prems(2) by (intro exI [of _ tr]) simp
  qed
qed

lemma unwind_top_path:
  assumes "tpath (trail s) (trreg s) low ts"
  shows "\<exists>t us. unwind_top low s = Some (s\<lparr>trreg := t\<rparr>) \<and> tpath (trail s) t low us \<and>
    filter (kept_frame s) us = filter (kept_frame s) ts \<and> (us = [] \<or> kept_frame s (hd us))"
  using assms
proof (induction ts arbitrary: s rule: list.induct)
  case Nil
  then have "trreg s = low" by (auto elim: tpath_NilE)
  with Nil show ?case
    by (subst unwind_top.simps) (auto intro!: exI [of _ "[]"] exI [of _ low] tpath.intros)
next
  case (Cons t ts)
  let ?p = "tf_parent (trail s (trreg s))"
  from Cons.prems(1) have t: "t = trreg s" "low < trreg s" "?p < trreg s" "tpath (trail s) ?p low ts"
    by (auto elim: tpath_ConsE)
  show ?case
  proof (cases "kept_frame s (trreg s)")
    case True
    then show ?thesis using Cons.prems(1) t
      by (subst unwind_top.simps)
        (auto simp: kept_frame_def intro!: exI [of _ "trreg s"] exI [of _ "t # ts"])
  next
    case False
    let ?s = "s\<lparr>trreg := ?p\<rparr>"
    from Cons.IH [of ?s] t(4) obtain u us where
      "unwind_top low ?s = Some (?s\<lparr>trreg := u\<rparr>)" "tpath (trail s) u low us"
      "filter (kept_frame s) us = filter (kept_frame s) ts"
      "us = [] \<or> kept_frame s (hd us)" by auto
    with False t show ?thesis
      by (subst unwind_top.simps) (auto simp: kept_frame_def intro!: exI [of _ u] exI [of _ us])
  qed
qed

lemma unwind_trail_path:
  assumes low: "low = cp_trreg (cps s b)" and P: "tpath (trail s) (trreg s) low ts"
    and root: "tf_parent (trail s low) \<le> low"
  shows "\<exists>t tr. unwind_trail b s = Some (s\<lparr>trreg := t, trail := tr\<rparr>) \<and> same_frames (trail s) tr \<and>
    tpath tr t low (filter (kept_frame s) ts) \<and>
    (\<forall>x. x \<le> low \<or> x \<le> trfreg s \<longrightarrow> tr x = trail s x)"
proof -
  from unwind_top_path [OF P] obtain t us where
    t: "unwind_top low s = Some (s\<lparr>trreg := t\<rparr>)" "tpath (trail s) t low us"
    "filter (kept_frame s) us = filter (kept_frame s) ts"
    "us = [] \<or> kept_frame s (hd us)" by blast
  let ?s = "s\<lparr>trreg := t\<rparr>"
  show ?thesis
  proof (cases us)
    case Nil
    then have "t = low" using t(2) by (auto elim: tpath_NilE)
    then have "unwind_trail b s = Some (s\<lparr>trreg := t, trail := trail s\<rparr>)"
      using t(1) root low
      by (simp add: unwind_trail_def Let_def, subst unwind_links.simps) simp
    then show ?thesis using Nil t(2,3)
      by (intro exI [of _ t] exI [of _ "trail s"]) (simp add: same_frames_def)
  next
    case (Cons v vs)
    then have v: "v = t" "low < t" "tf_parent (trail s t) < t"
      "tpath (trail ?s) (tf_parent (trail s t)) low vs"
      using t(2) by (auto elim: tpath_ConsE)
    from unwind_links_path [OF v(4,3)] obtain tr where
      tr: "unwind_links low t (tf_parent (trail s t)) ?s = Some (?s\<lparr>trail := tr\<rparr>)"
      "same_frames (trail s) tr" "tpath tr (tf_parent (tr t)) low (filter (kept_frame s) vs)"
      "tf_parent (tr t) < t"
      "\<forall>x. x > t \<or> x \<noteq> t \<and> (x \<le> low \<or> x \<le> trfreg s) \<longrightarrow> tr x = trail s x"
      "t \<le> trfreg s \<longrightarrow> tr = trail s"
      by auto
    have "tpath tr t low (t # filter (kept_frame s) vs)"
      using v tr by (intro tpath_step)
    moreover have "t # filter (kept_frame s) vs = filter (kept_frame s) ts"
      using t(3,4) Cons v(1) by simp
    moreover have "unwind_trail b s = Some (s\<lparr>trreg := t, trail := tr\<rparr>)"
      using t(1) tr(1) low by (simp add: unwind_trail_def Let_def)
    moreover have "tr x = trail s x" if "x \<le> low \<or> x \<le> trfreg s" for x
      using that tr(5,6) v(2) by (cases "x = t") auto
    ultimately show ?thesis using tr(2)
      by (intro exI [of _ t] exI [of _ tr]) auto
  qed
qed

lemma untrail_filter:
  "conditional s a \<Longrightarrow> m a = m' a \<Longrightarrow>
    untrail_path (trail s) (filter (kept_frame s) ts) m a = untrail_path (trail s) ts m' a"
proof (induction ts arbitrary: m m')
  case (Cons t ts)
  have "untrail2 (trail s t) m' a = m' a" if "\<not> kept_frame s t"
    using that Cons.prems
    by (auto simp: kept_frame_def good_trail_register_def untrail2_def split: option.splits)
  moreover have "untrail2 (trail s t) m a = untrail2 (trail s t) m' a"
    using Cons.prems by (auto intro: untrail2_at)
  ultimately show ?case
    using Cons.IH [of m "untrail2 (trail s t) m'"] Cons.IH Cons.prems
    by (cases "kept_frame s t") simp_all
qed simp

end
