(* ===== verification/Wam_Attv.thy ===== *)
theory Wam_Attv imports Wam_Unify begin

text \<open>
  Unification of terms with attributed variables. Binding one queues an interrupt
  (\<open>add_interrupt\<close> of \<open>memory_xsb.c\<close>): a record of four cells on the heap, linked into a
  chain whose head and last record the first two heap cells point to. The chain grows by
  binding its open end, so its cells must not be reached by the terms being unified; with
  that, the untrailing loop takes back the binding and the interrupt together.
\<close>

section \<open>The interrupt chain and the cells of the terms\<close>

text \<open>The cells \<open>add_interrupt\<close> writes: the two pointers, and the open end of the chain.\<close>

definition chain_end :: "wam \<Rightarrow> iaddr" where
  "chain_end s = cell_ptr (mem s (gl_low (wenv s) + 1)) + 1"

definition chain_cells :: "wam \<Rightarrow> iaddr set" where
  "chain_cells s =
     {gl_low (wenv s), gl_low (wenv s) + 1} \<union>
     (if isref (mem s (gl_low (wenv s))) then {} else {chain_end s})"

definition chain_ok :: "wam \<Rightarrow> bool" where
  "chain_ok s \<longleftrightarrow>
     gl_low (wenv s) + 1 < hreg s \<and>
     (if isref (mem s (gl_low (wenv s)))
      then mem s (gl_low (wenv s)) = Ref (gl_low (wenv s)) \<and>
           mem s (gl_low (wenv s) + 1) = Ref (gl_low (wenv s) + 1)
      else mem s (chain_end s) = Ref (chain_end s) \<and> chain_end s < hreg s \<and>
           chain_end s \<noteq> gl_low (wenv s) \<and> chain_end s \<noteq> gl_low (wenv s) + 1)"

text \<open>
  The cells a term gives the unifier access to lie in \<open>R\<close>, the functor words it reads in
  \<open>F\<close>.
\<close>

fun reaches :: "iaddr set \<Rightarrow> iaddr set \<Rightarrow> wam \<Rightarrow> cell \<Rightarrow> bool" where
  "reaches R F s (Ref a) = (a \<in> R)"
| "reaches R F s (CAttv a) = (a \<in> R)"
| "reaches R F s (CList a) = (a \<in> R \<and> a + 1 \<in> R)"
| "reaches R F s (CStruct a) =
     (a \<in> F \<and> (\<forall>p i. mem s a = CPsc p \<longrightarrow> i < psc_arity (wenv s) p \<longrightarrow> a + 1 + int i \<in> R))"
| "reaches R F s _ = True"

text \<open>
  The terms live in \<open>R\<close> and \<open>F\<close>: what the cells of \<open>R\<close> refer to lies there too, and neither
  set meets the chain or the part of the heap that is free up to \<open>lim\<close>.
\<close>

definition term_area :: "iaddr \<Rightarrow> iaddr set \<Rightarrow> iaddr set \<Rightarrow> wam \<Rightarrow> bool" where
  "term_area lim R F s \<longleftrightarrow>
     chain_ok s \<and> R \<inter> F = {} \<and> (R \<union> F) \<inter> chain_cells s = {} \<and>
     (\<forall>x \<in> R \<union> F. \<not> (hreg s \<le> x \<and> x < lim)) \<and> (\<forall>x \<in> R. reaches R F s (mem s x))"

lemma term_area_cong:
  assumes "mem s' = mem s" "hreg s' = hreg s" "wenv s' = wenv s"
  shows "term_area lim R F s' = term_area lim R F s"
proof -
  have "reaches R F s' c = reaches R F s c" for c using assms by (cases c) auto
  then show ?thesis using assms
    by (simp add: term_area_def chain_ok_def chain_cells_def chain_end_def)
qed

lemma reaches_frame:
  "reaches R F s c \<Longrightarrow> (\<And>x. x \<in> F \<Longrightarrow> mem s' x = mem s x) \<Longrightarrow> wenv s' = wenv s \<Longrightarrow>
     reaches R F s' c"
  by (cases c) auto

lemma deref_ref_reaches:
  assumes "deref_ref m c = Some d"
  shows "(\<forall>x \<in> R. reaches R F s (m x)) \<longrightarrow> reaches R F s c \<longrightarrow> reaches R F s d"
proof (rule deref_ref.raw_induct [where P = "\<lambda>m c d. (\<forall>x \<in> R. reaches R F s (m x)) \<longrightarrow>
    reaches R F s c \<longrightarrow> reaches R F s d", OF _ assms])
  fix f m c d
  assume "\<And>m c d. f m c = Some d \<Longrightarrow>
      (\<forall>x \<in> R. reaches R F s (m x)) \<longrightarrow> reaches R F s c \<longrightarrow> reaches R F s d"
    and "(case c of Ref a \<Rightarrow> if m a = c then Some c else f m (m a) | _ \<Rightarrow> Some c) = Some d"
  then show "(\<forall>x \<in> R. reaches R F s (m x)) \<longrightarrow> reaches R F s c \<longrightarrow> reaches R F s d"
    by (cases c) (auto split: if_splits)
qed

lemma deref_attv_reaches:
  assumes "deref_attv m c = Some d"
  shows "(\<forall>x \<in> R. reaches R F s (m x)) \<longrightarrow> reaches R F s c \<longrightarrow> reaches R F s d"
proof (rule deref_attv.raw_induct [where P = "\<lambda>m c d. (\<forall>x \<in> R. reaches R F s (m x)) \<longrightarrow>
    reaches R F s c \<longrightarrow> reaches R F s d", OF _ assms])
  fix f m c d
  assume IH: "\<And>m c d. f m c = Some d \<Longrightarrow>
      (\<forall>x \<in> R. reaches R F s (m x)) \<longrightarrow> reaches R F s c \<longrightarrow> reaches R F s d"
    and eq: "(case c of CAttv a \<Rightarrow> if m a = Ref a then Some c
        else Option.bind (deref_ref m (m a)) (f m) | _ \<Rightarrow> Some c) = Some d"
  show "(\<forall>x \<in> R. reaches R F s (m x)) \<longrightarrow> reaches R F s c \<longrightarrow> reaches R F s d"
  proof (cases c)
    case (CAttv a)
    then show ?thesis using eq IH deref_ref_reaches [of m "m a" _ R F s]
      by (auto split: if_splits bind_splits)
  qed (use eq in auto)
qed

lemma deref_reaches:
  "deref (mem s) c = Some d \<Longrightarrow> term_area lim R F s \<Longrightarrow> reaches R F s c \<Longrightarrow> reaches R F s d"
  using deref_ref_reaches [of "mem s" c _ R F s] deref_attv_reaches [of "mem s" _ d R F s]
  by (auto simp: deref_def term_area_def split: bind_splits)

section \<open>Writes inside and beside the terms\<close>

definition attv_keeps :: "iaddr \<Rightarrow> iaddr set \<Rightarrow> iaddr set \<Rightarrow> wam \<Rightarrow> wam \<Rightarrow> bool" where
  "attv_keeps lim R F s s' \<longleftrightarrow>
     bt_safe s s' \<and> term_area lim R F s' \<and> (\<forall>x \<in> F. mem s' x = mem s x)"

lemma attv_keeps_refl: "term_area lim R F s \<Longrightarrow> attv_keeps lim R F s s"
  by (simp add: attv_keeps_def)

lemma attv_keeps_trans:
  "attv_keeps lim R F s t \<Longrightarrow> attv_keeps lim R F t u \<Longrightarrow> attv_keeps lim R F s u"
  by (auto simp: attv_keeps_def intro: bt_safe_trans)

lemma attv_keeps_reaches:
  "attv_keeps lim R F s s' \<Longrightarrow> reaches R F s c \<Longrightarrow> reaches R F s' c"
  by (erule reaches_frame) (auto simp: attv_keeps_def bt_safe_def same_bt_regs_def)

lemma term_area_write:
  assumes "term_area lim R F s" "a \<in> R" "reaches R F s v"
  shows "term_area lim R F (s\<lparr>mem := (mem s)(a := v)\<rparr>)"
proof -
  let ?s = "s\<lparr>mem := (mem s)(a := v)\<rparr>"
  have a: "a \<notin> F" "a \<notin> chain_cells s" using assms by (auto simp: term_area_def)
  have r: "reaches R F ?s c" if "reaches R F s c" for c
    using a(1) by (intro reaches_frame [OF that]) auto
  have m: "mem ?s (gl_low (wenv s)) = mem s (gl_low (wenv s))"
    "mem ?s (gl_low (wenv s) + 1) = mem s (gl_low (wenv s) + 1)"
    "\<not> isref (mem s (gl_low (wenv s))) \<Longrightarrow> mem ?s (chain_end s) = mem s (chain_end s)"
    using a(2) by (auto simp: chain_cells_def)
  then have e: "chain_end ?s = chain_end s" by (simp add: chain_end_def)
  have "chain_ok ?s" "chain_cells ?s = chain_cells s"
    using assms(1) m e unfolding chain_ok_def chain_cells_def term_area_def by auto
  then show ?thesis using assms r by (auto simp: term_area_def)
qed

lemma pushtrail_parts [simp]:
  "mem (pushtrail a v s) = mem s" "hreg (pushtrail a v s) = hreg s" "wenv (pushtrail a v s) = wenv s"
  "mem (push_pre_image_trail a v s) = mem s" "hreg (push_pre_image_trail a v s) = hreg s"
  "wenv (push_pre_image_trail a v s) = wenv s"
  by (simp_all add: pushtrail_def pushtrail0_def push_pre_image_trail_def
      push_pre_image_trail0_def Let_def)

lemma bind_copy_parts [simp]:
  "mem (bind_copy a v s) = (mem s)(a := v)" "hreg (bind_copy a v s) = hreg s"
  "wenv (bind_copy a v s) = wenv s"
  by (simp_all add: bind_copy_def bld_def)

lemma attv_keeps_bind:
  assumes "term_area lim R F s" "a \<in> R" "reaches R F s v" "mem s a = Ref a"
  shows "attv_keeps lim R F s (bind_copy a v s)"
proof -
  have "term_area lim R F (bind_copy a v s) = term_area lim R F (s\<lparr>mem := (mem s)(a := v)\<rparr>)"
    by (rule term_area_cong) simp_all
  with term_area_write [OF assms(1-3)] assms show ?thesis
    by (auto simp: attv_keeps_def term_area_def intro: bind_copy_safe)
qed

fun loc_in :: "iaddr set \<Rightarrow> op1loc \<Rightarrow> bool" where
  "loc_in R (Depth k) = True"
| "loc_in R (Loc a) = (a \<in> R)"

lemma loc_in_next: "a \<in> R \<Longrightarrow> loc_in R (next_loc loc a)"
  by (cases "(loc, a)" rule: next_loc.cases) auto

lemma attv_keeps_swizzle:
  assumes "term_area lim R F s" "loc_in R loc" "reaches R F s c"
  shows "attv_keeps lim R F s (swizzle loc c s)"
proof (cases loc)
  case (Loc a)
  have "term_area lim R F (swizzle loc c s) = term_area lim R F (s\<lparr>mem := (mem s)(a := c)\<rparr>)"
    by (rule term_area_cong) (simp_all add: Loc bld_def)
  moreover have "\<forall>x \<in> F. mem (swizzle loc c s) x = mem s x"
    using assms(1,2) Loc by (auto simp: term_area_def bld_def)
  ultimately show ?thesis
    using term_area_write [OF assms(1), of a c] assms Loc swizzle_safe [OF bt_safe_refl, of s loc c]
    by (simp add: attv_keeps_def)
qed (use assms attv_keeps_refl in simp)

section \<open>Queueing an interrupt\<close>

lemma add_interrupt_hreg [simp]:
  "hreg (add_interrupt c1 c2 s) = hreg s + 4" "wenv (add_interrupt c1 c2 s) = wenv s"
  by (simp_all add: add_interrupt_def Let_def bld_def)

lemma add_interrupt_mem:
  "mem (add_interrupt c1 c2 s) =
     ((mem s)(hreg s := CList (hreg s + 2), hreg s + 1 := Ref (hreg s + 1), hreg s + 2 := c1,
        hreg s + 3 := c2))
      ((if isref (mem s (gl_low (wenv s))) then gl_low (wenv s) else chain_end s) := CList (hreg s),
       gl_low (wenv s) + 1 := CList (hreg s))"
  by (auto simp: add_interrupt_def Let_def bld_def chain_end_def fun_eq_iff)

lemma add_interrupt_safe:
  assumes "chain_ok s"
  shows "bt_safe s (add_interrupt c1 c2 s)"
proof -
  let ?h = "hreg s"
  let ?s1 = "s\<lparr>mem := (mem s)(?h := CList (?h + 2), ?h + 1 := Ref (?h + 1), ?h + 2 := c1,
      ?h + 3 := c2), hreg := ?h + 4\<rparr>"
  have "bt_safe s ?s1" by (rule bt_safe_frame) (auto simp: same_bt_regs_def)
  with assms show ?thesis
    by (auto simp: add_interrupt_def Let_def chain_ok_def chain_end_def split: if_splits
        intro!: safe_intros)
qed

lemma attv_keeps_interrupt:
  assumes T: "term_area lim R F s" and room: "hreg s + 4 \<le> lim"
  shows "attv_keeps lim R F s (add_interrupt c1 c2 s) \<and>
    (\<forall>x \<in> R. mem (add_interrupt c1 c2 s) x = mem s x)"
proof -
  let ?s = "add_interrupt c1 c2 s" and ?h = "hreg s" and ?g = "gl_low (wenv s)"
  have C: "chain_ok s" and D: "(R \<union> F) \<inter> chain_cells s = {}"
    and H: "x \<in> R \<union> F \<Longrightarrow> \<not> (?h \<le> x \<and> x < lim)" for x
    using T by (auto simp: term_area_def)
  have same: "mem ?s x = mem s x" if "x \<in> R \<union> F" for x
    using that D H [OF that] room by (auto simp: add_interrupt_mem chain_cells_def)
  have g: "?g + 1 < ?h" using C by (simp add: chain_ok_def)
  have e: "chain_end ?s = ?h + 1" by (simp add: chain_end_def add_interrupt_mem)
  have nr: "\<not> isref (mem ?s ?g)"
    using C g by (auto simp: add_interrupt_mem chain_ok_def split: if_splits)
  have "mem ?s (?h + 1) = Ref (?h + 1)"
    using g C by (cases "isref (mem s ?g)") (auto simp: chain_ok_def add_interrupt_mem)
  then have ok: "chain_ok ?s" using g e nr by (simp add: chain_ok_def)
  have "chain_cells ?s = {?g, ?g + 1, ?h + 1}" using nr e by (auto simp: chain_cells_def)
  moreover have "{?g, ?g + 1} \<subseteq> chain_cells s" by (auto simp: chain_cells_def)
  moreover have "?h + 1 \<notin> R \<union> F" using H [of "?h + 1"] room by auto
  ultimately have "(R \<union> F) \<inter> chain_cells ?s = {}" using D by blast
  moreover have "reaches R F ?s (mem ?s x)" if "x \<in> R" for x
  proof (rule reaches_frame [where s = s])
    show "reaches R F s (mem ?s x)" using that T same by (simp add: term_area_def)
  qed (simp_all add: same)
  moreover have "\<not> (hreg ?s \<le> x \<and> x < lim)" if "x \<in> R \<union> F" for x using H [OF that] by auto
  ultimately have "term_area lim R F ?s" using T ok unfolding term_area_def by blast
  then show ?thesis using same add_interrupt_safe [OF C] by (simp add: attv_keeps_def)
qed

lemma unify_attv_hreg: "hreg (unify_attv a c s) = hreg s + 4"
  by (simp add: unify_attv_def)

lemma attv_keeps_unify_attv:
  assumes T: "term_area lim R F s" and a: "a \<in> R" "mem s a = Ref a" "reaches R F s c"
    and room: "hreg (unify_attv a c s) \<le> lim"
  shows "attv_keeps lim R F s (unify_attv a c s)"
proof -
  let ?s = "add_interrupt (mem s (a + 1)) c s"
  have k: "attv_keeps lim R F s ?s" "mem ?s a = Ref a"
    using attv_keeps_interrupt [OF T] room a by (simp_all add: unify_attv_hreg)
  then have "attv_keeps lim R F ?s (bind_copy a c ?s)"
    using a attv_keeps_reaches [OF k(1) a(3)] by (intro attv_keeps_bind) (auto simp: attv_keeps_def)
  with k(1) show ?thesis by (auto simp: unify_attv_def intro: attv_keeps_trans)
qed

section \<open>The heap only grows\<close>

lemma unify_steps_hreg [simp]:
  "hreg (unify_both_free a1 a2 s) = hreg s" "hreg (swizzle loc c s) = hreg s"
  by (simp add: unify_both_free_def, cases loc) (simp_all add: bld_def)

lemma unify_free_hreg: "unify_free n a c s = Some (b, s') \<Longrightarrow> hreg s' = hreg s"
  by (auto simp: unify_free_def split: if_splits option.splits bool.splits)

lemma unify_hreg_fuel:
  "(\<forall>c1 c2 loc s b s'. unify_rat n c1 c2 loc s = Some (b, s') \<longrightarrow> hreg s \<le> hreg s') \<and>
   (\<forall>a1 a2 k loc s b s'. unify_args n a1 a2 k loc s = Some (b, s') \<longrightarrow> hreg s \<le> hreg s')"
proof (induction n)
  case 0
  then show ?case by (auto split: if_splits)
next
  case (Suc n)
  note argsD = Suc [THEN conjunct2, rule_format] and ratD = Suc [THEN conjunct1, rule_format]
  have "hreg s \<le> hreg s'" if "unify_rat (Suc n) c1 c2 loc s = Some (b, s')" for c1 c2 loc s b s'
    using that
    by (cases rule: unify_rat_cases)
      (auto dest: argsD unify_free_hreg simp: unify_attv_hreg)
  moreover have "hreg s \<le> hreg s'" if "unify_args (Suc n) a1 a2 k loc s = Some (b, s')"
    for a1 a2 k loc s b s'
    using that by (cases rule: unify_args_cases) (auto dest!: argsD ratD)
  ultimately show ?case by blast
qed

lemma unify_rat_hreg: "unify_rat n c1 c2 loc s = Some (b, s') \<Longrightarrow> hreg s \<le> hreg s'"
  using unify_hreg_fuel [of n] by blast

lemma unify_args_hreg: "unify_args n a1 a2 k loc s = Some (b, s') \<Longrightarrow> hreg s \<le> hreg s'"
  using unify_hreg_fuel [of n] by blast

lemma unify_xsb_args_hreg: "unify_xsb_args n a1 a2 k s = Some (b, s') \<Longrightarrow> hreg s \<le> hreg s'"
proof (induction k arbitrary: a1 a2 s)
  case (Suc k)
  from Suc.prems obtain c t where
    r: "unify_rat n (mem s a1) (mem s a2) (Depth DEPTH_TILL_CYCLE_CHECK) s = Some (c, t)"
    by (auto split: option.splits)
  then have "hreg s \<le> hreg t" by (rule unify_rat_hreg)
  then show ?case using Suc.IH [of _ _ t] Suc.prems r by (cases c) fastforce+
qed simp

section \<open>Unification\<close>

lemma attv_keeps_both_free:
  "term_area lim R F s \<Longrightarrow> a1 \<in> R \<Longrightarrow> a2 \<in> R \<Longrightarrow> mem s a1 = Ref a1 \<Longrightarrow> mem s a2 = Ref a2 \<Longrightarrow>
     attv_keeps lim R F s (unify_both_free a1 a2 s)"
  by (auto simp: unify_both_free_def attv_keeps_refl intro!: attv_keeps_bind)

lemma attv_keeps_free:
  "term_area lim R F s \<Longrightarrow> a \<in> R \<Longrightarrow> reaches R F s c \<Longrightarrow> mem s a = Ref a \<Longrightarrow>
     unify_free n a c s = Some (b, s') \<Longrightarrow> attv_keeps lim R F s s'"
  by (auto simp: unify_free_def attv_keeps_refl split: if_splits option.splits bool.splits
      intro: attv_keeps_bind)

lemma reaches_ref: "reaches R F s c \<Longrightarrow> isref c \<or> isattv c \<Longrightarrow> cell_ptr c \<in> R"
  by (cases c) auto

lemma deref_open:
  "deref m c = Some d \<Longrightarrow> isref d \<or> isattv d \<Longrightarrow> m (cell_ptr d) = Ref (cell_ptr d)"
  using deref_result [of m c d] by (cases d) auto

lemma unify_attv_keeps_fuel:
  "(\<forall>c1 c2 loc s b s'. unify_rat n c1 c2 loc s = Some (b, s') \<longrightarrow> term_area lim R F s \<longrightarrow>
      reaches R F s c1 \<longrightarrow> reaches R F s c2 \<longrightarrow> loc_in R loc \<longrightarrow> hreg s' \<le> lim \<longrightarrow>
      attv_keeps lim R F s s') \<and>
   (\<forall>a1 a2 k loc s b s'. unify_args n a1 a2 k loc s = Some (b, s') \<longrightarrow> term_area lim R F s \<longrightarrow>
      (\<forall>i < k. a1 + int i \<in> R \<and> a2 + int i \<in> R) \<longrightarrow> loc_in R loc \<longrightarrow> hreg s' \<le> lim \<longrightarrow>
      attv_keeps lim R F s s')"
proof (induction n)
  case 0
  then show ?case by (auto intro: attv_keeps_refl split: if_splits)
next
  case (Suc n)
  note argsD = Suc [THEN conjunct2, rule_format] and ratD = Suc [THEN conjunct1, rule_format]
  have rat: "attv_keeps lim R F s s'"
    if res: "unify_rat (Suc n) c1 c2 loc s = Some (b, s')" and T: "term_area lim R F s"
      and r: "reaches R F s c1" "reaches R F s c2" and l: "loc_in R loc" and h: "hreg s' \<le> lim"
    for c1 c2 loc s b s'
    using res
  proof (cases rule: unify_rat_cases)
    case (free op1 op2)
    then show ?thesis using T r deref_reaches deref_open reaches_ref
      by (metis attv_keeps_both_free)
  next
    case (free1 op1 op2)
    then show ?thesis using T r deref_reaches deref_open reaches_ref by (metis attv_keeps_free)
  next
    case (free2 op1 op2)
    then show ?thesis using T r deref_reaches deref_open reaches_ref by (metis attv_keeps_free)
  next
    case (attv op1 op2)
    have "reaches R F s op1" "reaches R F s op2" using attv T r deref_reaches by blast+
    moreover have "isattv op1 \<Longrightarrow> mem s (cell_ptr op1) = Ref (cell_ptr op1)"
      "isattv op2 \<Longrightarrow> mem s (cell_ptr op2) = Ref (cell_ptr op2)"
      using attv deref_open by blast+
    ultimately show ?thesis using attv(4) T h reaches_ref attv_keeps_unify_attv attv_keeps_refl
      by metis
  next
    case (struct d1 d2 p)
    have R: "reaches R F s (CStruct d1)" "reaches R F s (CStruct d2)"
      using struct T r deref_reaches by blast+
    have k: "attv_keeps lim R F s (swizzle loc (CStruct d2) s)"
      using T l R by (intro attv_keeps_swizzle)
    then have "attv_keeps lim R F (swizzle loc (CStruct d2) s) s'"
      using R struct l h by (intro argsD [OF struct(5)]) (auto simp: attv_keeps_def)
    with k show ?thesis by (rule attv_keeps_trans)
  next
    case (list d1 d2)
    have R: "reaches R F s (CList d1)" "reaches R F s (CList d2)"
      using list T r deref_reaches by blast+
    have k: "attv_keeps lim R F s (swizzle loc (CList d2) s)"
      using T l R by (intro attv_keeps_swizzle)
    then have "attv_keeps lim R F (swizzle loc (CList d2) s) s'"
      using R l h by (intro argsD [OF list(3)]) (auto simp: attv_keeps_def less_2_cases_iff)
    with k show ?thesis by (rule attv_keeps_trans)
  qed (use T attv_keeps_refl in auto)
  have args: "attv_keeps lim R F s s'"
    if res: "unify_args (Suc n) a1 a2 k loc s = Some (b, s')" and T: "term_area lim R F s"
      and a: "\<forall>i < k. a1 + int i \<in> R \<and> a2 + int i \<in> R" and l: "loc_in R loc" and h: "hreg s' \<le> lim"
    for a1 a2 k loc s b s'
  proof -
    have r: "k \<noteq> 0 \<Longrightarrow> a1 \<in> R \<and> a2 \<in> R" using a by (auto dest: spec [of _ 0])
    then have m: "k \<noteq> 0 \<Longrightarrow> reaches R F s (mem s a1) \<and> reaches R F s (mem s a2)"
      using T by (auto simp: term_area_def)
    from res show ?thesis
    proof (cases rule: unify_args_cases)
      case fails
      then show ?thesis using ratD T m r h loc_in_next by metis
    next
      case (step t)
      have "hreg t \<le> lim" using unify_args_hreg [OF step(3)] h by simp
      then have k: "attv_keeps lim R F s t" using ratD [OF step(2)] T m r loc_in_next step(1) by blast
      have "a1 + 1 + int i \<in> R \<and> a2 + 1 + int i \<in> R" if "i < k - 1" for i
        using a that by (auto dest!: spec [of _ "Suc i"] simp: algebra_simps)
      then have "attv_keeps lim R F t s'"
        using k l h by (intro argsD [OF step(3)]) (auto simp: attv_keeps_def)
      with k show ?thesis by (rule attv_keeps_trans)
    qed (use T attv_keeps_refl in auto)
  qed
  from rat args show ?case by blast
qed

lemma unify_xsb_args_attv_keeps:
  "unify_xsb_args n a1 a2 k s = Some (b, s') \<Longrightarrow> term_area lim R F s \<Longrightarrow>
     (\<And>i. i < k \<Longrightarrow> a1 + int i \<in> R \<and> a2 + int i \<in> R) \<Longrightarrow> hreg s' \<le> lim \<Longrightarrow>
     attv_keeps lim R F s s'"
proof (induction k arbitrary: a1 a2 s)
  case (Suc k)
  from Suc.prems(1) obtain c t where
    r: "unify_rat n (mem s a1) (mem s a2) (Depth DEPTH_TILL_CYCLE_CHECK) s = Some (c, t)"
    by (auto split: option.splits)
  have "reaches R F s (mem s a1) \<and> reaches R F s (mem s a2)"
    using Suc.prems(2) Suc.prems(3) [of 0] by (auto simp: term_area_def)
  moreover have "c \<Longrightarrow> unify_xsb_args n (a1 + 1) (a2 + 1) k t = Some (b, s')" "\<not> c \<Longrightarrow> s' = t"
    using Suc.prems(1) r by simp_all
  moreover from this have "hreg t \<le> hreg s'" using unify_xsb_args_hreg by (cases c) fastforce+
  ultimately have kt: "attv_keeps lim R F s t"
    using unify_attv_keeps_fuel [of n lim R F, THEN conjunct1, rule_format, OF r] Suc.prems(2,4)
    by simp
  show ?case
  proof (cases c)
    case True
    then have u: "unify_xsb_args n (a1 + 1) (a2 + 1) k t = Some (b, s')" using Suc.prems(1) r by simp
    have "a1 + 1 + int i \<in> R \<and> a2 + 1 + int i \<in> R" if "i < k" for i
      using Suc.prems(3) [of "Suc i"] that by (simp add: algebra_simps)
    then have "attv_keeps lim R F t s'"
      using Suc.IH [OF u] kt Suc.prems(4) by (simp add: attv_keeps_def)
    with kt show ?thesis by (rule attv_keeps_trans)
  qed (use Suc.prems(1) r kt in simp)
qed (auto intro: attv_keeps_refl)

lemma unify_xsb_attv_keeps:
  assumes res: "unify_xsb n rop1 rop2 s = Some (b, s')" and T: "term_area lim R F s"
    and r: "reaches R F s rop1" "reaches R F s rop2" and h: "hreg s' \<le> lim"
  shows "attv_keeps lim R F s s'"
proof -
  from res obtain op1 op2
    where d1: "deref (mem s) rop1 = Some op1" and d2: "deref (mem s) rop2 = Some op2"
    by (auto simp: unify_xsb_def split: option.splits)
  note u = res [unfolded unify_xsb_def d1 d2, simplified]
  have R: "reaches R F s op1" "reaches R F s op2" using T r d1 d2 deref_reaches by blast+
  have p: "isref op1 \<or> isattv op1 \<Longrightarrow> cell_ptr op1 \<in> R \<and> mem s (cell_ptr op1) = Ref (cell_ptr op1)"
    "isref op2 \<or> isattv op2 \<Longrightarrow> cell_ptr op2 \<in> R \<and> mem s (cell_ptr op2) = Ref (cell_ptr op2)"
    using d1 d2 R deref_open reaches_ref by blast+
  consider "isref op1 \<or> isref op2" | "\<not> isref op1" "\<not> isref op2" "isattv op1 \<or> isattv op2"
    | "\<not> isref op1" "\<not> isref op2" "\<not> isattv op1" "\<not> isattv op2" by blast
  then show ?thesis
  proof cases
    case 1
    then show ?thesis using u T R p
      by (auto split: if_splits intro: attv_keeps_both_free attv_keeps_free)
  next
    case 2
    then show ?thesis using u T R p h
      by (auto split: if_splits intro!: attv_keeps_refl attv_keeps_unify_attv)
  next
    case 3
    have two: "i < (2::nat) \<Longrightarrow> i = 0 \<or> i = 1" for i by auto
    from 3 show ?thesis using u T R h
      by (cases op1; cases op2)
        (auto split: if_splits option.splits cell.splits dest!: two
          intro: attv_keeps_refl intro!: unify_xsb_args_attv_keeps)
  qed
qed

end
