(* ===== verification/Engine.thy ===== *)
theory Engine imports Wam_Cut Wam_Attv begin

text \<open>
  What the emulator's theories give together: a contract for steps that backtracking can
  undo, its instances for unification, single instructions and runs with nested choice
  points, and the properties of the engine stated over them.
\<close>

section \<open>The contract of a step that can be undone\<close>

text \<open>
  The provider's law is local, one step from one state; the client, a sequence of steps,
  is undone as a whole by the untrailing loop.
\<close>

locale undoable =
  fixes ok :: "wam \<Rightarrow> bool" and step :: "wam \<Rightarrow> wam \<Rightarrow> bool"
  assumes step_safe: "ok s \<Longrightarrow> step s s' \<Longrightarrow> bt_safe s s'"
    and step_ok: "ok s \<Longrightarrow> step s s' \<Longrightarrow> ok s'"
begin

lemma steps_safe: "step\<^sup>*\<^sup>* s t \<Longrightarrow> ok s \<Longrightarrow> bt_safe s t \<and> ok t"
proof (induction rule: rtranclp_induct)
  case (step y z)
  then show ?case using step_safe step_ok by (blast intro: bt_safe_trans)
qed simp

lemma steps_undone:
  assumes "step\<^sup>*\<^sup>* s t" "ok s"
  shows "\<exists>u. table_undo_bindings (trreg s) t = Some u \<and> trreg u = trreg s \<and>
    (\<forall>a. conditional s a \<longrightarrow> \<not> (hreg s \<le> a \<and> a < hreg t) \<longrightarrow> mem u a = mem s a)"
proof -
  have "bt_safe s t" using steps_safe assms by blast
  from undo_restores [OF this] show ?thesis by blast
qed

lemma step_undone:
  assumes "step s t" "ok s"
  shows "\<exists>u. table_undo_bindings (trreg s) t = Some u \<and> trreg u = trreg s \<and>
    (\<forall>a. conditional s a \<longrightarrow> \<not> (hreg s \<le> a \<and> a < hreg t) \<longrightarrow> mem u a = mem s a)"
  by (rule steps_undone [OF r_into_rtranclp [of step, OF assms(1)] assms(2)])

end

definition unifies :: "nat \<Rightarrow> cell \<Rightarrow> cell \<Rightarrow> wam \<Rightarrow> wam \<Rightarrow> bool" where
  "unifies n c d s s' \<longleftrightarrow> \<not> isattv c \<and> \<not> isattv d \<and> (\<exists>b. unify_xsb n c d s = Some (b, s'))"

definition unifies_in :: "iaddr \<Rightarrow> iaddr set \<Rightarrow> iaddr set \<Rightarrow> nat \<Rightarrow> wam \<Rightarrow> wam \<Rightarrow> bool" where
  "unifies_in lim R F n s s' \<longleftrightarrow>
     (\<exists>c d b. reaches R F s c \<and> reaches R F s d \<and> hreg s' \<le> lim \<and>
        unify_xsb n c d s = Some (b, s'))"

definition executes :: "nat \<Rightarrow> wam \<Rightarrow> wam \<Rightarrow> bool" where
  "executes n s s' \<longleftrightarrow> (\<exists>i. operands_ok i s \<and> step_instr n i s = Some s')"

lemma unifies_keeps: "attv_free s \<Longrightarrow> unifies n c d s s' \<Longrightarrow> keeps s s'"
  unfolding unifies_def using unify_xsb_keeps by blast

interpretation unif: undoable attv_free "unifies n c d"
  by unfold_locales (use unifies_keeps keeps_def in blast)+

lemma unifies_in_keeps: "term_area lim R F s \<Longrightarrow> unifies_in lim R F n s s' \<Longrightarrow> attv_keeps lim R F s s'"
  unfolding unifies_in_def using unify_xsb_attv_keeps by blast

interpretation unif_attv: undoable "term_area lim R F" "unifies_in lim R F n"
  by unfold_locales (use unifies_in_keeps attv_keeps_def in blast)+

lemma executes_pkeeps: "plain s \<Longrightarrow> executes n s s' \<Longrightarrow> pkeeps s s'"
  unfolding executes_def using step_instr_keeps by blast

interpretation exec: undoable plain "executes n"
  by unfold_locales (use executes_pkeeps pkeeps_def in blast)+



section \<open>A state to run on\<close>

definition demo_wenv :: wenv where
  "demo_wenv = \<lparr>gl_low = 0, gl_high = 3000, tcp_high = 9000, psc_arity = (\<lambda>_. 2), psc_ep = (\<lambda>_. 0),
     env_size = (\<lambda>_. 4), check_complete_inst = 1, box_psc = 1, nil_string = 0,
     occurs_check = False, intern_lists = [], intern_strs = (\<lambda>_. []),
     flt_eq_box = (\<lambda>_ _ _ _. False)\<rparr>"

definition demo_wam :: wam where
  "demo_wam = \<lparr>mem = Ref, xreg = (\<lambda>r. CInt (int r)), hreg = 100, sreg = 0, ereg = 1000, hbreg = 50,
     ebreg = 2000, hfreg = 10, efreg = 3000, trreg = 0, trfreg = 0, breg = 5000, bfreg = 6000,
     cpreg = 700, lpcreg = 400, delayreg = 0, ptcpreg = 0,
     trail = (\<lambda>_. \<lparr>tf_variable = 0, tf_value = CInt 0, tf_parent = 0, tf_pre_image = None\<rparr>),
     cps = (\<lambda>_. \<lparr>next_clause = 0, prev_top = 0, cp_ebreg = 2000, cp_hreg = 50, cp_trreg = 0,
       cp_cpreg = 0, cp_ereg = 0, cp_pdreg = 0, cp_ptcp = 0, cp_prev = 0, cp_args = []\<rparr>),
     wflag = False, wenv = demo_wenv\<rparr>"

lemma demo_plain: "plain demo_wam" "attv_free demo_wam"
  by (simp_all add: plain_def attv_free_def demo_wam_def)

lemma demo_fields:
  "hbreg demo_wam = 50" "ebreg demo_wam = 2000" "breg demo_wam = 5000" "trreg demo_wam = 0"
  "mem demo_wam = Ref" "hreg demo_wam = 100"
  by (simp_all add: demo_wam_def)

lemma demo_regs: "ereg demo_wam = 1000" "cpreg demo_wam = 700"
  by (simp_all add: demo_wam_def)

lemma demo_cp_wf: "cp_wf demo_wam"
  by (simp add: cp_wf_def demo_wam_def demo_wenv_def)

lemma deref_demo [simp]:
  "deref Ref (Ref a) = Some (Ref a)" "deref m (CInt k) = Some (CInt k)"
  by (simp_all add: deref_def deref_ref.simps [of _ "Ref _"] deref_ref.simps [of _ "CInt _"]
      deref_attv.simps [of _ "Ref _"] deref_attv.simps [of _ "CInt _"])

section \<open>The properties\<close>

text \<open>C8: with a rank that goes down along the reference chains, the dereferencing loops
  return, and the cell they return is a free variable, a free attributed variable or no
  reference at all.\<close>

theorem deref_returns:
  assumes "chain_ranked m rank"
  shows "\<exists>d. deref m c = Some d \<and>
    (\<forall>a. d = Ref a \<or> d = CAttv a \<longrightarrow> m a = Ref a)"
  using deref_total [OF assms, of c] deref_freeD deref_attvD by blast

theorem deref_returns_witness:
  "\<exists>d. deref (Ref(3 := Ref 2, 2 := CInt 7)) (Ref 3) = Some d \<and>
    (\<forall>a. d = Ref a \<or> d = CAttv a \<longrightarrow> (Ref(3 := Ref 2, 2 := CInt 7)) a = Ref a)"
  by (rule deref_returns [where rank = nat]) (auto simp: chain_ranked_def split: if_splits)

text \<open>C4: whatever \<open>unify\<close> bound, whether it succeeded or failed half way, the untrailing
  loop takes back: every cell that backtracking may look at, other than those of the heap
  that unification itself took for its interrupt records, has its old contents, and the
  trail its old top. This is for a state without attributed variables, and for one with
  them when the terms keep apart from the interrupt chain: the cells they reach lie in a set
  \<open>R\<close>, their functor words in a set \<open>F\<close>, and neither meets the cells of the chain or the
  part of the heap that unification fills.\<close>

theorem unify_undone:
  assumes "unify_xsb n c d s = Some (b, s')"
    "attv_free s \<and> \<not> isattv c \<and> \<not> isattv d \<or>
     (\<exists>R F. term_area (hreg s') R F s \<and> reaches R F s c \<and> reaches R F s d)"
  shows "\<exists>u. table_undo_bindings (trreg s) s' = Some u \<and> trreg u = trreg s \<and>
    (\<forall>a. conditional s a \<longrightarrow> \<not> (hreg s \<le> a \<and> a < hreg s') \<longrightarrow> mem u a = mem s a)"
  using assms(2)
proof
  assume a: "attv_free s \<and> \<not> isattv c \<and> \<not> isattv d"
  then have "unifies n c d s s'" using assms(1) by (auto simp: unifies_def)
  from unif.step_undone [OF this] a show ?thesis by blast
next
  assume "\<exists>R F. term_area (hreg s') R F s \<and> reaches R F s c \<and> reaches R F s d"
  then obtain R F where T: "term_area (hreg s') R F s" and r: "reaches R F s c" "reaches R F s d"
    by blast
  then have "unifies_in (hreg s') R F n s s'" using assms(1) by (auto simp: unifies_in_def)
  from unif_attv.step_undone [OF this T] show ?thesis .
qed

text \<open>
  An attributed variable at 20 with a record already queued, unified with an integer: 70 is
  the open end of the chain.
\<close>

definition demo_attv :: wam where
  "demo_attv = demo_wam\<lparr>mem := Ref(0 := CList 69, 1 := CList 69, 69 := CList 71, 71 := CAttv 30,
     72 := CInt 4, 21 := CInt 9)\<rparr>"

theorem unify_undone_witness:
  "\<exists>s' u. unify_xsb 3 (CAttv 20) (CInt 7) demo_attv = Some (True, s') \<and>
    table_undo_bindings (trreg demo_attv) s' = Some u \<and> trreg u = trreg demo_attv \<and>
    (\<forall>a. conditional demo_attv a \<longrightarrow> \<not> (hreg demo_attv \<le> a \<and> a < hreg s') \<longrightarrow>
      mem u a = mem demo_attv a)"
proof -
  have m: "mem demo_attv 20 = Ref 20" "mem demo_attv 0 = CList 69" "mem demo_attv 1 = CList 69"
    "mem demo_attv 70 = Ref 70" "hreg demo_attv = 100" "gl_low (wenv demo_attv) = 0"
    by (simp_all add: demo_attv_def demo_wam_def demo_wenv_def)
  have d: "deref (mem demo_attv) (CAttv 20) = Some (CAttv 20)"
    using m(1) by (simp add: deref_def deref_ref.simps [of _ "CAttv _"] deref_attv.simps [of _ "CAttv _"])
  have "unify_xsb 3 (CAttv 20) (CInt 7) demo_attv = Some (True, unify_attv 20 (CInt 7) demo_attv)"
    by (simp add: unify_xsb_def d)
  moreover have e: "chain_end demo_attv = 70" by (simp add: chain_end_def m)
  have "term_area (hreg (unify_attv 20 (CInt 7) demo_attv)) {20} {} demo_attv"
    unfolding term_area_def chain_ok_def chain_cells_def e m unify_attv_hreg by (auto simp: m)
  ultimately show ?thesis
    using unify_undone [of 3 "CAttv 20" "CInt 7" demo_attv True "unify_attv 20 (CInt 7) demo_attv"]
    by fastforce
qed

text \<open>
  The two instructions that build attributed variables. \<open>getattv\<close> queues an interrupt unless
  its register holds a free variable.
\<close>

fun attv_operands_ok :: "instr \<Rightarrow> wam \<Rightarrow> bool" where
  "attv_operands_ok (Getattv r) s = chain_ok s"
| "attv_operands_ok (Putattv r) s = True"
| "attv_operands_ok i s = operands_ok i s"

lemma chain_ok_pc [simp]: "chain_ok (advance_pc k s) = chain_ok s"
  by (simp add: chain_ok_def chain_end_def advance_pc_def)

lemma nunify_with_attv_safe:
  assumes "nunify_with_attv c s = Some s'" "chain_ok s"
  shows "bt_safe s s'"
proof -
  from assms(1) obtain d where d: "deref (mem s) c = Some d"
    by (auto simp: nunify_with_attv_def split: option.splits)
  note i = add_interrupt_safe [OF assms(2)]
  show ?thesis using assms(1) deref_freeD [of "mem s" c] d
    by (cases d) (auto simp: nunify_with_attv_def intro!: safe_intros i)
qed

lemma attv_step_safe:
  assumes "step_instr n i s = Some s'" "attv_operands_ok i s" "plain s"
  shows "bt_safe s s'"
proof (cases "\<exists>r. i = Getattv r \<or> i = Putattv r")
  case True
  have a: "bt_safe s (advance_pc k s)" for k by (intro safe_intros bt_safe_refl)
  from True assms show ?thesis
    using bt_safe_trans [OF a nunify_with_attv_safe]
    by (auto simp: i_getattv_def i_putattv_def Let_def intro!: safe_intros)
next
  case False
  then have "operands_ok i s" using assms(2) by (cases i) simp_all
  then have "executes n s s'" using assms(1) unfolding executes_def by blast
  then show ?thesis using executes_pkeeps [OF assms(3)] by (simp add: pkeeps_def)
qed

text \<open>C5: one instruction of the get, put, unify and build groups can be undone: untrailing
  gives every conditional cell, other than those the instruction took from the heap, its
  old contents. This is for a state that holds no attributed variable, in memory, in the
  registers or among the trailed pre-images, and for operands as the compiler leaves them:
  the new environment variable an instruction writes is free (for \<open>putpvar\<close>, or not
  conditional), a group of them is on one side of the trail test, an interned term is no
  attributed variable, and a number that must be boxed is not bound to a cell of its own
  box. For \<open>getattv\<close>, which may queue an interrupt, the interrupt chain is well formed.\<close>

theorem step_instr_undone:
  assumes "step_instr n i s = Some s'" "attv_operands_ok i s" "plain s"
  shows "\<exists>u. table_undo_bindings (trreg s) s' = Some u \<and> trreg u = trreg s \<and>
    (\<forall>a. conditional s a \<longrightarrow> \<not> (hreg s \<le> a \<and> a < hreg s') \<longrightarrow> mem u a = mem s a)"
  using undo_restores [OF attv_step_safe [OF assms]] by blast

theorem step_instr_undone_witness:
  "\<exists>s' u. step_instr 3 (Getstr 2 5) (demo_wam\<lparr>xreg := (\<lambda>_. Ref 20)\<rparr>) = Some s' \<and>
    table_undo_bindings 0 s' = Some u \<and> trreg u = 0 \<and>
    (\<forall>a. conditional demo_wam a \<longrightarrow> \<not> (100 \<le> a \<and> a < hreg s') \<longrightarrow> mem u a = Ref a)"
proof -
  let ?s = "demo_wam\<lparr>xreg := (\<lambda>_. Ref 20)\<rparr>"
  have p: "plain ?s" using demo_plain by (simp add: plain_def attv_free_def)
  have "\<exists>s'. step_instr 3 (Getstr 2 5) ?s = Some s'"
    by (simp add: i_getstr_def nunify_with_str_def demo_wam_def demo_wenv_def advance_pc_def)
  then obtain s' where s': "step_instr 3 (Getstr 2 5) ?s = Some s'" by blast
  from step_instr_undone [OF s' _ p] s' show ?thesis
    by (auto simp: demo_wam_def conditional_def)
qed

text \<open>
  What backtracking to the choice point made at \<open>s\<close> with \<open>k\<close> arguments brings back.
\<close>

definition back_at :: "nat \<Rightarrow> wam \<Rightarrow> wam \<Rightarrow> bool" where
  "back_at k s u \<longleftrightarrow>
     trreg u = trreg s \<and> ereg u = ereg s \<and> cpreg u = cpreg s \<and> hreg u = hreg s \<and>
     (\<forall>r. 1 \<le> r \<and> r \<le> k \<longrightarrow> xreg u r = xreg s r) \<and>
     (\<forall>a. a < hreg s \<or> top_of_localstk s \<le> a \<or> efreg s \<le> a \<longrightarrow> mem u a = mem s a)"

lemma trust_back:
  assumes "tries n k s t" "plain s" "cp_wf s" "no_overflow (advance_pc 2 s) t"
  shows "\<exists>u. i_trustmeelsefail k t = Some u \<and> breg u = breg s \<and> hbreg u = hbreg s \<and>
    ebreg u = ebreg s \<and> back_at k s u"
proof -
  let ?s = "advance_pc 2 s" and ?t = "advance_pc 1 t"
  from runs_safe(2) [OF assms(1-3)] obtain l where l: "pkeeps (cp_pushed k l ?s) t" by blast
  then have safe: "bt_safe (cp_pushed k l ?s) ?t" by (auto simp: pkeeps_def intro: safe_intros)
  have h: "hreg s \<le> hreg t" using l by (simp add: pkeeps_def bt_safe_def advance_pc_def)
  have wf: "cp_wf ?s" using assms(3) by simp
  from trust_safe [OF wf safe] assms(4) obtain u where
    u: "restore_sub True k ?t = Some u" "restored k ?s ?t u" "breg u = breg ?s"
    "hbreg u = hbreg ?s" "ebreg u = ebreg ?s" by auto
  have loc: "top_of_localstk ?s = top_of_localstk s"
    by (simp add: top_of_localstk_def advance_pc_def)
  have "mem u a = mem s a" if a: "a < hreg s \<or> top_of_localstk s \<le> a \<or> efreg s \<le> a" for a
  proof -
    have "\<not> (hreg ?s \<le> a \<and> a < hreg ?t)"
      using a assms(4) by (auto simp: no_overflow_def advance_pc_def loc [unfolded advance_pc_def])
    moreover have "a < hreg ?s \<or> a < hfreg ?s \<or> top_of_localstk ?s \<le> a \<or> efreg ?s \<le> a"
      using a loc by (auto simp: advance_pc_def)
    ultimately have "mem u a = mem ?s a" using u(2) unfolding restored_def by blast
    then show ?thesis by (simp add: advance_pc_def)
  qed
  moreover have "hreg u = hreg s" using u(2) assms(3)
    by (simp add: restored_def cp_wf_def advance_pc_def)
  ultimately show ?thesis using u
    by (intro exI [of _ u])
      (auto simp: i_trustmeelsefail_def back_at_def restored_def advance_pc_def)
qed

definition demo_tried :: wam where
  "demo_tried = cp_pushed 2 77 (advance_pc 2 demo_wam)"

lemma demo_try: "i_trymeelse 2 77 demo_wam = Some demo_tried"
  by (simp add: i_trymeelse_def subtryme_eq demo_tried_def)

lemma demo_tries: "tries n 2 demo_wam (i_movreg 1 2 demo_tried)"
  by (rule tries_try [OF _ demo_try wrun_movreg [OF wrun_refl]])
    (simp add: demo_wam_def demo_wenv_def)

lemma demo_gap: "no_overflow (advance_pc 2 demo_wam) (i_movreg 1 2 demo_tried)"
  by (simp add: no_overflow_def i_movreg_def demo_tried_def advance_pc_def bld_reg_def demo_wam_def
      demo_wenv_def top_of_localstk_def)



text \<open>C2: backtracking. When the clauses tried under a choice point have failed, after any
  run and any number of retries, \<open>trustmeelsefail\<close> puts the machine back where
  \<open>trymeelse\<close> found it, the argument registers, the environment and continuation, the trail
  and heap tops and every cell of the heap and local stack that was there, and drops the
  choice point. The state has no attributed variable (\<open>plain\<close>), its trail conditions are those
  of its last choice point (\<open>cp_wf\<close>), the runs make no attributed variable either, the choice
  point saves less than 255 registers, for otherwise \<open>trymeelse\<close> does not return, and the heap
  has not run into the part of the local stack that was live.\<close>

theorem trust_restores:
  assumes "tries n k s t" "plain s" "cp_wf s" "no_overflow (advance_pc 2 s) t"
  shows "\<exists>u. i_trustmeelsefail k t = Some u \<and> breg u = breg s \<and> hbreg u = hbreg s \<and>
    ebreg u = ebreg s \<and> back_at k s u"
  by (rule trust_back [OF assms])

theorem trust_restores_witness:
  "\<exists>t u. i_trymeelse 2 77 demo_wam = Some t \<and> i_trustmeelsefail 2 (i_movreg 1 2 t) = Some u \<and>
    breg u = breg demo_wam \<and> hbreg u = hbreg demo_wam \<and> ebreg u = ebreg demo_wam \<and>
    back_at 2 demo_wam u"
  using trust_restores [OF demo_tries [of 0] demo_plain(1) demo_cp_wf demo_gap] demo_try by blast

lemma retry_back:
  assumes "tries n k s t" "plain s" "cp_wf s" "no_overflow (advance_pc 2 s) t"
  shows "\<exists>u. i_retrymeelse k l t = Some u \<and> breg u = new_breg k s \<and>
    next_clause (cps u (breg u)) = l \<and> cp_prev (cps u (breg u)) = breg s \<and> back_at k s u"
proof -
  let ?s = "advance_pc 2 s" and ?t = "advance_pc 2 t"
  from runs_safe(2) [OF assms(1-3)] obtain l0 where l: "pkeeps (cp_pushed k l0 ?s) t" by blast
  then have safe: "bt_safe (cp_pushed k l0 ?s) ?t" by (auto simp: pkeeps_def intro: safe_intros)
  from retry_safe [OF safe, of l] assms(4) obtain u where
    u: "restore_sub False k (set_cp_pcreg l ?t) = Some u" "bt_safe (cp_pushed k l ?s) u"
    "restored k ?s ?t u" by auto
  have loc: "top_of_localstk ?s = top_of_localstk s" "new_breg k ?s = new_breg k s"
    by (simp_all add: top_of_localstk_def new_breg_def top_of_cpstack_def advance_pc_def)
  have "same_bt_regs (cp_pushed k l ?s) u" using u(2) by (simp add: bt_safe_def)
  then have b: "breg u = new_breg k s" "cps u (new_breg k s) = cps (cp_pushed k l ?s) (new_breg k ?s)"
    using top_of_cpstack_pushed [of k l ?s] loc(2) by (auto simp: same_bt_regs_def)
  have "mem u a = mem s a" if a: "a < hreg s \<or> top_of_localstk s \<le> a \<or> efreg s \<le> a" for a
  proof -
    have "\<not> (hreg ?s \<le> a \<and> a < hreg ?t)"
      using a assms(4) by (auto simp: no_overflow_def advance_pc_def loc [unfolded advance_pc_def])
    moreover have "a < hreg ?s \<or> a < hfreg ?s \<or> top_of_localstk ?s \<le> a \<or> efreg ?s \<le> a"
      using a loc by (auto simp: advance_pc_def)
    ultimately have "mem u a = mem ?s a" using u(3) unfolding restored_def by blast
    then show ?thesis by (simp add: advance_pc_def)
  qed
  moreover have "hreg u = hreg s" using u(3) assms(3)
    by (simp add: restored_def cp_wf_def advance_pc_def)
  moreover have "i_retrymeelse k l t = Some u"
    using u(1) by (simp add: i_retrymeelse_def set_cp_pcreg_pc)
  ultimately show ?thesis using u(3) b
    by (intro exI [of _ u]) (auto simp: back_at_def restored_def advance_pc_def)
qed

text \<open>C3: \<open>retrymeelse\<close> restores the same state but keeps the choice point, now with the
  next clause; and whatever run follows, the next backtracking takes it back too, whether by
  a trust or by another retry. As for the trust, the state has no attributed variable
  (\<open>plain\<close>) and the runs make none, the trail conditions are those of the last choice point
  (\<open>cp_wf\<close>), less than 255 registers are saved, the heap has not run into the live local
  stack, and the next clause is not the completion instruction.\<close>

theorem retry_restores:
  assumes "tries n k s t" "plain s" "cp_wf s" "no_overflow (advance_pc 2 s) t"
    "l \<noteq> check_complete_inst (wenv s)"
  shows "\<exists>u. i_retrymeelse k l t = Some u \<and> breg u = new_breg k s \<and>
    next_clause (cps u (breg u)) = l \<and> cp_prev (cps u (breg u)) = breg s \<and> back_at k s u \<and>
    (\<forall>v. wrun n u v \<longrightarrow> no_overflow (advance_pc 2 s) v \<longrightarrow>
      (\<exists>w. i_trustmeelsefail k v = Some w \<and> breg w = breg s \<and> back_at k s w) \<and>
      (\<exists>w. i_retrymeelse k l' v = Some w \<and> breg w = new_breg k s \<and> back_at k s w))"
proof -
  from retry_back [OF assms(1-4), of l] obtain u where
    u: "i_retrymeelse k l t = Some u" "breg u = new_breg k s" "next_clause (cps u (breg u)) = l"
    "cp_prev (cps u (breg u)) = breg s" "back_at k s u" by blast
  have "tries n k s v" if "wrun n u v" for v
    using tries_retry [OF assms(1,5,4) u(1) that] .
  with assms(2,3) have "(\<exists>w. i_trustmeelsefail k v = Some w \<and> breg w = breg s \<and> back_at k s w) \<and>
      (\<exists>w. i_retrymeelse k l' v = Some w \<and> breg w = new_breg k s \<and> back_at k s w)"
    if "wrun n u v" "no_overflow (advance_pc 2 s) v" for v
    using that trust_back [of n k s v] retry_back [of n k s v l'] by blast
  with u show ?thesis by blast
qed

theorem retry_restores_witness:
  "\<exists>t u. i_trymeelse 2 77 demo_wam = Some t \<and> i_retrymeelse 2 88 (i_movreg 1 2 t) = Some u \<and>
    breg u = new_breg 2 demo_wam \<and> next_clause (cps u (breg u)) = 88 \<and>
    cp_prev (cps u (breg u)) = breg demo_wam \<and> back_at 2 demo_wam u \<and>
    (\<exists>w. i_trustmeelsefail 2 u = Some w \<and> breg w = breg demo_wam \<and> back_at 2 demo_wam w)"
proof -
  have "88 \<noteq> check_complete_inst (wenv demo_wam)" by (simp add: demo_wam_def demo_wenv_def)
  from retry_restores [OF demo_tries [of 0] demo_plain(1) demo_cp_wf demo_gap this]
  obtain u where u: "i_retrymeelse 2 88 (i_movreg 1 2 demo_tried) = Some u"
    "breg u = new_breg 2 demo_wam" "next_clause (cps u (breg u)) = 88"
    "cp_prev (cps u (breg u)) = breg demo_wam" "back_at 2 demo_wam u"
    "\<And>v. wrun 0 u v \<Longrightarrow> no_overflow (advance_pc 2 demo_wam) v \<Longrightarrow>
      \<exists>w. i_trustmeelsefail 2 v = Some w \<and> breg w = breg demo_wam \<and> back_at 2 demo_wam w"
    by blast
  have "no_overflow (advance_pc 2 demo_wam) u"
    using u(5) by (simp add: back_at_def no_overflow_def advance_pc_def top_of_localstk_def
        demo_wam_def demo_wenv_def)
  from u(6) [OF wrun_refl this] u(1-5) demo_try show ?thesis by blast
qed

lemma free_vars_mem:
  "mem (free_vars k p s) a = (if p - int k < a \<and> a \<le> p then Ref a else mem s a)"
  by (induction k arbitrary: p s) (auto simp: bld_free_def bld_def)

lemma free_vars_regs: "ereg (free_vars k p s) = ereg s" "lpcreg (free_vars k p s) = lpcreg s"
  by (induction k arbitrary: p s) (auto simp: bld_free_def bld_def)

text \<open>C7: allocating an environment writes only the cells between the top of the local stack
  and \<open>op3\<close> cells below it: nothing at or above the top, where the caller's environment, the
  older and the frozen frames lie, and no cell a choice point could need. It makes the
  permanent variables from \<open>op2\<close> to below \<open>op3\<close> free, and deallocating it gives back the
  continuation and the environment of the caller. The first variable is not in the two cells
  of the frame's links (\<open>2 \<le> op2\<close>), the caller's frame is not empty, and the new frame ends
  above the heap tops of the last choice point and of the frozen stacks.\<close>

theorem allocate_deallocate:
  assumes "i_allocate_gc op2 op3 s = Some t" "2 \<le> op2" "frame_fits (int op3) s"
  shows "ereg (i_deallocate t) = ereg s \<and> cpreg (i_deallocate t) = cpreg s \<and>
    (\<forall>a. a \<ge> top_of_localstk s \<or> a < top_of_localstk s - int op3 \<longrightarrow> mem t a = mem s a) \<and>
    (\<forall>a. conditional s a \<longrightarrow> mem t a = mem s a) \<and>
    (\<forall>v. op2 \<le> v \<and> v < op3 \<longrightarrow> fresh_v v t)"
proof -
  let ?f = "new_frame s"
  from assms(1) have le: "op2 \<le> op3" by (auto simp: i_allocate_gc_def Let_def split: if_splits)
  from assms(1) have t: "t = free_vars (op3 - op2) (?f - int op2)
      (bld (?f - 1) (CCode (cpreg s)) (bld ?f (CEnv (ereg s)) (advance_pc 1 s))\<lparr>ereg := ?f\<rparr>)"
    by (auto simp: i_allocate_gc_def Let_def advance_pc_def [of 1 s] new_frame_def split: if_splits)
  have e: "ereg t = ?f" by (simp add: t free_vars_regs)
  have m: "mem t a = (if ?f - int op3 < a \<and> a \<le> ?f - int op2 then Ref a
      else if a = ?f - 1 then CCode (cpreg s) else if a = ?f then CEnv (ereg s) else mem s a)" for a
    using le by (auto simp: t free_vars_mem bld_def advance_pc_def)
  have "mem t a = mem s a" if "a \<ge> top_of_localstk s \<or> a < top_of_localstk s - int op3" for a
    using that m [of a] new_frame_top [of s] le assms(2) by auto
  moreover have "mem t a = mem s a" if "conditional s a" for a
    using new_frame_unconditional [OF assms(3), of a] that m [of a] le assms(2) by auto
  moreover have "fresh_v v t" if "op2 \<le> v" "v < op3" for v
    using that m [of "?f - int v"] e by (simp add: fresh_v_def get_v_def)
  ultimately show ?thesis using m [of ?f] m [of "?f - 1"] e assms(2)
    by (simp add: i_deallocate_def advance_pc_def Let_def)
qed

theorem allocate_deallocate_witness:
  "\<exists>t. i_allocate_gc 2 5 demo_wam = Some t \<and> ereg (i_deallocate t) = 1000 \<and>
    cpreg (i_deallocate t) = 700 \<and>
    (\<forall>a. a \<ge> 997 \<or> a < 992 \<longrightarrow> mem t a = mem demo_wam a) \<and>
    (\<forall>a. conditional demo_wam a \<longrightarrow> mem t a = mem demo_wam a) \<and>
    (\<forall>v. 2 \<le> v \<and> v < 5 \<longrightarrow> fresh_v v t)"
proof -
  have "\<exists>t. i_allocate_gc 2 5 demo_wam = Some t" by (simp add: i_allocate_gc_def Let_def)
  then obtain t where t: "i_allocate_gc 2 5 demo_wam = Some t" by blast
  have f: "frame_fits (int 5) demo_wam"
    by (simp add: frame_fits_def new_frame_def demo_wam_def demo_wenv_def)
  have "top_of_localstk demo_wam = 997"
    by (simp add: top_of_localstk_def demo_wam_def demo_wenv_def)
  with allocate_deallocate [OF t _ f] t show ?thesis by (simp add: demo_fields demo_regs)
qed

section \<open>Cut\<close>

text \<open>C6: compacting the trail on a cut back to a choice point ends. Above the trail top
  \<open>low\<close> of the choice point it keeps, in their order and linked to one another, exactly the
  frames of the frozen trail, at or below \<open>trfreg\<close>, and those whose variable is still
  conditional; it changes no frame at or below \<open>trfreg\<close> or \<open>low\<close>. Untrailing to \<open>low\<close> from
  the compacted trail gives every cell that is still conditional the contents it would have
  got from the old one. The trail from its top down to \<open>low\<close> is a path \<open>ts\<close> of descending
  parent links, and the frame at \<open>low\<close> does not link upwards.\<close>

theorem unwind_trail_undo:
  assumes "low = cp_trreg (cps s b)" "tpath (trail s) (trreg s) low ts"
    "tf_parent (trail s low) \<le> low"
  shows "\<exists>s' u u'. unwind_trail b s = Some s' \<and> mem s' = mem s \<and>
    tpath (trail s') (trreg s') low (filter (kept_frame s) ts) \<and>
    (\<forall>t. t \<le> low \<or> t \<le> trfreg s \<longrightarrow> trail s' t = trail s t) \<and>
    table_undo_bindings low s = Some u \<and> table_undo_bindings low s' = Some u' \<and>
    trreg u' = trreg u \<and> (\<forall>a. conditional s a \<longrightarrow> mem u' a = mem u a)"
proof -
  from unwind_trail_path [OF assms] obtain t tr where
    s': "unwind_trail b s = Some (s\<lparr>trreg := t, trail := tr\<rparr>)" and sf: "same_frames (trail s) tr"
    and p: "tpath tr t low (filter (kept_frame s) ts)"
    and old: "\<forall>x. x \<le> low \<or> x \<le> trfreg s \<longrightarrow> tr x = trail s x" by blast
  let ?s = "s\<lparr>trreg := t, trail := tr\<rparr>"
  have "untrail_path tr (filter (kept_frame s) ts) (mem s) a
      = untrail_path (trail s) ts (mem s) a" if "conditional s a" for a
    using untrail_filter [OF that] same_frames_untrail [OF sf] by simp
  with s' table_undo_path [OF assms(2)] table_undo_path [of ?s low] p old show ?thesis by simp
qed

text \<open>
  Three frames above the choice point on the trail of \<open>demo_wam\<close>: the oldest one is frozen, and of the
  cells of the others 20 is conditional there, 1500 is not.
\<close>

definition demo_cut :: wam where
  "demo_cut = demo_wam\<lparr>trreg := 9, trfreg := 3,
     mem := (mem demo_wam)(20 := CInt 7, 1500 := CInt 8, 1600 := CInt 9),
     trail := (trail demo_wam)
       (3 := \<lparr>tf_variable = 1600, tf_value = CInt 9, tf_parent = 0, tf_pre_image = None\<rparr>,
        6 := \<lparr>tf_variable = 20, tf_value = CInt 7, tf_parent = 3, tf_pre_image = None\<rparr>,
        9 := \<lparr>tf_variable = 1500, tf_value = CInt 8, tf_parent = 6, tf_pre_image = None\<rparr>)\<rparr>"

lemma demo_cut_kept: "filter (kept_frame demo_cut) [9, 6, 3] = [6, 3]"
  by (simp add: kept_frame_def good_trail_register_def conditional_def demo_cut_def demo_wam_def)

theorem unwind_trail_undo_witness:
  "\<exists>s' u u'. unwind_trail 5000 demo_cut = Some s' \<and> mem s' = mem demo_cut \<and>
    tpath (trail s') (trreg s') 0 [6, 3] \<and>
    (\<forall>t \<le> 3. trail s' t = trail demo_cut t) \<and>
    table_undo_bindings 0 demo_cut = Some u \<and> table_undo_bindings 0 s' = Some u' \<and>
    trreg u' = trreg u \<and> (\<forall>a. conditional demo_cut a \<longrightarrow> mem u' a = mem u a)"
proof -
  have p: "tpath (trail demo_cut) (trreg demo_cut) 0 [9, 6, 3]"
    by (auto simp: demo_cut_def demo_wam_def intro!: tpath_step [where t = 9, simplified]
        tpath_step [where t = 6, simplified] tpath_step [where t = 3, simplified] tpath_refl)
  have c: "0 = cp_trreg (cps demo_cut 5000)" "tf_parent (trail demo_cut 0) \<le> 0" "trfreg demo_cut = 3"
    by (simp_all add: demo_cut_def demo_wam_def)
  from unwind_trail_undo [OF c(1) p c(2), unfolded demo_cut_kept c(3)] show ?thesis by blast
qed

end
