(* ===== verification/Cells.thy ===== *)
theory Cells imports Prelude begin

text \<open>
  The tagged machine words of \<open>src/XSB/emu/cell_xsb.h\<close> on a 64-bit machine
  (\<open>BITS64\<close>): three low bits carry the tag, an integer cell carries 61 bits, and
  integers that do not fit are boxed on the heap as a three-argument structure. The
  other theories use the datatype \<open>cell\<close> of theory \<open>Wam_State\<close>; this one shows
  that the bit patterns behind its constructors can be told apart and decoded.
\<close>

section \<open>Tags\<close>

type_synonym word64 = "64 word"

definition XSB_FREE :: word64 where "XSB_FREE = 0"
definition XSB_REF :: word64 where "XSB_REF = 0"
definition XSB_STRUCT :: word64 where "XSB_STRUCT = 1"
definition XSB_INT :: word64 where "XSB_INT = 2"
definition XSB_LIST :: word64 where "XSB_LIST = 3"
definition XSB_REF1 :: word64 where "XSB_REF1 = 4"
definition XSB_STRING :: word64 where "XSB_STRING = 5"
definition XSB_FLOAT :: word64 where "XSB_FLOAT = 6"
definition XSB_ATTV :: word64 where "XSB_ATTV = 7"

lemmas tag_defs = XSB_FREE_def XSB_REF_def XSB_STRUCT_def XSB_INT_def XSB_LIST_def
  XSB_REF1_def XSB_STRING_def XSB_FLOAT_def XSB_ATTV_def

definition cell_tag :: "word64 \<Rightarrow> word64" where
  "cell_tag c = c AND 7"

definition isref_w :: "word64 \<Rightarrow> bool" where
  "isref_w c \<longleftrightarrow> c AND 3 = 0"

definition isnonvar_w :: "word64 \<Rightarrow> bool" where
  "isnonvar_w c \<longleftrightarrow> c AND 3 \<noteq> 0"

definition isinteger_w :: "word64 \<Rightarrow> bool" where
  "isinteger_w c \<longleftrightarrow> cell_tag c = XSB_INT"

definition isfloat_w :: "word64 \<Rightarrow> bool" where
  "isfloat_w c \<longleftrightarrow> cell_tag c = XSB_FLOAT"

definition isconstr_w :: "word64 \<Rightarrow> bool" where
  "isconstr_w c \<longleftrightarrow> cell_tag c = XSB_STRUCT"

definition islist_w :: "word64 \<Rightarrow> bool" where
  "islist_w c \<longleftrightarrow> cell_tag c = XSB_LIST"

definition isattv_w :: "word64 \<Rightarrow> bool" where
  "isattv_w c \<longleftrightarrow> cell_tag c = XSB_ATTV"

definition isstring_w :: "word64 \<Rightarrow> bool" where
  "isstring_w c \<longleftrightarrow> cell_tag c = XSB_STRING"

section \<open>Encoding and decoding\<close>

definition enc_int :: "word64 \<Rightarrow> word64" where
  "enc_int v = push_bit 3 v"

definition dec_int :: "word64 \<Rightarrow> word64" where
  "dec_int c = signed_drop_bit 3 c"

definition enc_addr :: "word64 \<Rightarrow> word64" where
  "enc_addr a = a"

definition dec_addr :: "word64 \<Rightarrow> word64" where
  "dec_addr c = c AND 0xfffffffffffffff8"

definition int_val :: "word64 \<Rightarrow> word64" where
  "int_val c = dec_int c"

definition makeint :: "word64 \<Rightarrow> word64" where
  "makeint v = enc_int v OR XSB_INT"

definition string_val :: "word64 \<Rightarrow> word64" where
  "string_val c = dec_addr c"

definition makestring :: "word64 \<Rightarrow> word64" where
  "makestring s = enc_addr s OR XSB_STRING"

definition cs_val :: "word64 \<Rightarrow> word64" where
  "cs_val c = dec_addr c"

definition makecs :: "word64 \<Rightarrow> word64" where
  "makecs s = enc_addr s OR XSB_STRUCT"

definition clref_val :: "word64 \<Rightarrow> word64" where
  "clref_val c = dec_addr c"

definition makelist :: "word64 \<Rightarrow> word64" where
  "makelist l = enc_addr l OR XSB_LIST"

definition makeattv :: "word64 \<Rightarrow> word64" where
  "makeattv a = enc_addr a OR XSB_ATTV"

definition trievar_val :: "word64 \<Rightarrow> word64" where
  "trievar_val c = dec_int c"

definition maketrievar :: "word64 \<Rightarrow> word64" where
  "maketrievar v = enc_int v OR XSB_FREE"

section \<open>Boxed integers\<close>

definition int_overflow :: "word64 \<Rightarrow> bool" where
  "int_overflow v \<longleftrightarrow> int_val (makeint v) \<noteq> v"

definition ID_BOXED_INT :: word64 where "ID_BOXED_INT = 1"
definition ID_BOXED_FLOAT :: word64 where "ID_BOXED_FLOAT = 2"
definition BOX_ID_OFFSET :: nat where "BOX_ID_OFFSET = 16"
definition LOW_24_BITS_MASK :: word64 where "LOW_24_BITS_MASK = 0xffffff"

definition INT_LOW_24_BITS :: "word64 \<Rightarrow> word64" where
  "INT_LOW_24_BITS v = drop_bit 24 v"

text \<open>The three argument cells \<open>bld_boxedint\<close> writes after the functor cell.\<close>

definition bld_boxedint_args :: "word64 \<Rightarrow> word64 \<times> word64 \<times> word64" where
  "bld_boxedint_args v =
     (makeint (push_bit BOX_ID_OFFSET ID_BOXED_INT),
      makeint (INT_LOW_24_BITS v),
      makeint (v AND LOW_24_BITS_MASK))"

definition box_has_id :: "word64 \<times> word64 \<times> word64 \<Rightarrow> word64 \<Rightarrow> bool" where
  "box_has_id b i \<longleftrightarrow> (case b of (a1, _, _) \<Rightarrow> signed_drop_bit 16 (int_val a1) = i)"

definition boxedint_val :: "word64 \<times> word64 \<times> word64 \<Rightarrow> word64" where
  "boxedint_val b = (case b of (_, a2, a3) \<Rightarrow> push_bit 24 (int_val a2) OR int_val a3)"

section \<open>Boxed floats\<close>

text \<open>
  A double is boxed as its bit pattern, split into 16, 24 and 24 bits; the first cell
  also carries the box identifier.
\<close>

definition LOW_16_BITS_MASK :: word64 where "LOW_16_BITS_MASK = 0xffff"

definition FLOAT_HIGH_16_BITS :: "word64 \<Rightarrow> word64" where
  "FLOAT_HIGH_16_BITS f = drop_bit 48 f AND LOW_16_BITS_MASK"

definition FLOAT_MIDDLE_24_BITS :: "word64 \<Rightarrow> word64" where
  "FLOAT_MIDDLE_24_BITS f = drop_bit 24 f AND LOW_24_BITS_MASK"

definition FLOAT_LOW_24_BITS :: "word64 \<Rightarrow> word64" where
  "FLOAT_LOW_24_BITS f = f AND LOW_24_BITS_MASK"

definition bld_boxedfloat_args :: "word64 \<Rightarrow> word64 \<times> word64 \<times> word64" where
  "bld_boxedfloat_args f =
     (makeint (push_bit BOX_ID_OFFSET ID_BOXED_FLOAT OR FLOAT_HIGH_16_BITS f),
      makeint (FLOAT_MIDDLE_24_BITS f),
      makeint (FLOAT_LOW_24_BITS f))"

definition EXTRACT_FLOAT_FROM_16_24_24 :: "word64 \<Rightarrow> word64 \<Rightarrow> word64 \<Rightarrow> word64" where
  "EXTRACT_FLOAT_FROM_16_24_24 h m l =
     (push_bit 48 (h AND LOW_16_BITS_MASK) OR push_bit 24 (m AND LOW_24_BITS_MASK))
       OR (l AND LOW_24_BITS_MASK)"

definition boxedfloat_val :: "word64 \<times> word64 \<times> word64 \<Rightarrow> word64" where
  "boxedfloat_val b = (case b of (a1, a2, a3) \<Rightarrow>
     EXTRACT_FLOAT_FROM_16_24_24 (int_val a1) (int_val a2) (int_val a3))"

section \<open>Decoding inverts encoding\<close>

text \<open>Each constant mask is written as the \<open>mask\<close> whose bits the simplifier knows.\<close>

lemma word_masks:
  "(7 :: word64) = mask 3" "(3 :: word64) = mask 2"
  "LOW_24_BITS_MASK = mask 24" "LOW_16_BITS_MASK = mask 16"
  "(0xfffffffffffffff8 :: word64) = NOT (mask 3)"
  by (simp_all add: mask_eq_exp_minus_1 LOW_24_BITS_MASK_def LOW_16_BITS_MASK_def)

lemma bit_numeral_small:
  "bit (1 :: word64) n \<longleftrightarrow> n = 0" "bit (2 :: word64) n \<longleftrightarrow> n = 1"
  "bit (4 :: word64) n \<longleftrightarrow> n = 2" "bit (131072 :: int) n \<longleftrightarrow> n = 17"
proof -
  show "bit (1 :: word64) n \<longleftrightarrow> n = 0" by (simp add: bit_1_iff)
  have "(2 :: word64) = push_bit 1 1" "(4 :: word64) = push_bit 2 1"
    "(131072 :: int) = push_bit 17 1" by simp_all
  then show "bit (2 :: word64) n \<longleftrightarrow> n = 1" "bit (4 :: word64) n \<longleftrightarrow> n = 2"
    "bit (131072 :: int) n \<longleftrightarrow> n = 17"
    by (auto simp only: bit_push_bit_iff bit_1_iff) auto
qed

lemmas cell_bits = word_masks bit_simps bit_numeral_small

lemma aligned_bits: "a AND 7 = (0 :: word64) \<Longrightarrow> n < 3 \<Longrightarrow> \<not> bit a n"
proof
  assume a: "a AND 7 = 0" and n: "n < 3" and b: "bit a n"
  have "bit (a AND 7) n" using n b by (simp add: cell_bits)
  then show False using a by simp
qed

lemma dec_addr_tagged:
  assumes "a AND 7 = 0" and "t AND 7 = t"
  shows "dec_addr (a OR t) = a"
proof (rule bit_word_eqI)
  fix n assume n: "n < LENGTH(64)"
  have t: "bit t n \<Longrightarrow> n < 3"
    using assms(2) by (metis bit_and_iff bit_mask_iff word_masks(1))
  show "bit (dec_addr (a OR t)) n = bit a n"
    using n t aligned_bits [OF assms(1)] by (auto simp: dec_addr_def cell_bits)
qed

lemma cell_tag_tagged:
  assumes "a AND 7 = 0" and "t AND 7 = t"
  shows "cell_tag (a OR t) = t"
  using assms by (simp add: cell_tag_def bit.conj_disj_distrib2)

lemma enc_int_aligned: "enc_int v AND 7 = 0"
  by (rule bit_word_eqI) (auto simp: enc_int_def cell_bits)

lemma tag_masked: "XSB_INT AND 7 = XSB_INT" "XSB_STRUCT AND 7 = XSB_STRUCT"
  "XSB_LIST AND 7 = XSB_LIST" "XSB_STRING AND 7 = XSB_STRING" "XSB_ATTV AND 7 = XSB_ATTV"
  by (simp_all add: tag_defs)

lemma dec_int_tagged:
  assumes "t AND 7 = t"
  shows "dec_int (enc_int v OR t) = signed_take_bit 60 v"
proof (rule bit_word_eqI)
  fix n assume n: "n < LENGTH(64)"
  have t: "bit t m \<Longrightarrow> m < 3" for m
    using assms by (metis bit_and_iff bit_mask_iff word_masks(1))
  show "bit (dec_int (enc_int v OR t)) n = bit (signed_take_bit 60 v) n"
  proof (cases "n < 60")
    case True
    then show ?thesis using t [of "3 + n"]
      by (auto simp: dec_int_def enc_int_def bit_signed_drop_bit_iff bit_signed_take_bit_iff
          bit_simps)
  next
    case False
    then have "n + 3 \<ge> 63" by simp
    then have "bit (dec_int (enc_int v OR t)) n = bit (enc_int v OR t) 63"
      using n False by (cases "n = 60") (auto simp: dec_int_def bit_signed_drop_bit_iff)
    also have "\<dots> = bit v 60"
      using t [of 63] by (auto simp: enc_int_def bit_simps)
    finally show ?thesis
      using False n by (simp add: bit_signed_take_bit_iff min_def)
  qed
qed

lemma int_val_makeint: "int_val (makeint v) = signed_take_bit 60 v"
  by (simp add: int_val_def makeint_def dec_int_tagged tag_masked)

lemma sint_int_val_makeint: "sint (int_val (makeint v)) = signed_take_bit 60 (sint v)"
proof (rule bit_eqI)
  fix n
  show "bit (sint (int_val (makeint v))) n = bit (signed_take_bit 60 (sint v)) n"
    by (auto simp: int_val_makeint bit_sint_iff bit_signed_take_bit_iff not_le min_def)
qed

lemma int_val_makeint_id: "- (2 ^ 60) \<le> sint v \<Longrightarrow> sint v < 2 ^ 60 \<Longrightarrow> int_val (makeint v) = v"
  by (metis sint_int_val_makeint signed_take_bit_id_iff signed_word_eqI)

lemma int_val_makeint_bits:
  assumes "\<And>n. n \<ge> 60 \<Longrightarrow> \<not> bit v n"
  shows "int_val (makeint v) = v"
  using assms unfolding int_val_makeint
  by (intro bit_word_eqI) (auto simp: bit_signed_take_bit_iff min_def)

section \<open>What the encoding promises\<close>

text \<open>C33: an integer cell holds exactly the integers of 61 bits: \<open>int_overflow\<close>, the test
  that decides between a tagged and a boxed integer, is true of all others and of no
  integer that decodes back to itself.\<close>

theorem int_overflow_iff:
  "int_overflow v \<longleftrightarrow> \<not> (- (2 ^ 60) \<le> sint v \<and> sint v < 2 ^ 60)"
proof -
  have "int_val (makeint v) = v \<longleftrightarrow> signed_take_bit 60 (sint v) = sint v"
    by (metis sint_int_val_makeint signed_word_eqI)
  then show ?thesis by (simp add: int_overflow_def signed_take_bit_id_iff)
qed

text \<open>A boxed integer keeps all 64 bits.\<close>

theorem boxedint_roundtrip:
  "boxedint_val (bld_boxedint_args v) = v \<and> box_has_id (bld_boxedint_args v) ID_BOXED_INT
     \<and> \<not> box_has_id (bld_boxedint_args v) ID_BOXED_FLOAT"
proof -
  have hi: "int_val (makeint (INT_LOW_24_BITS v)) = INT_LOW_24_BITS v"
    by (rule int_val_makeint_bits) (auto simp: INT_LOW_24_BITS_def bit_simps dest: bit_imp_le_length)
  have lo: "int_val (makeint (v AND LOW_24_BITS_MASK)) = v AND LOW_24_BITS_MASK"
    by (rule int_val_makeint_bits) (auto simp: cell_bits)
  have "push_bit 24 (drop_bit 24 v) OR (v AND mask 24) = v"
    by (rule bit_word_eqI) (auto simp: bit_simps)
  then have "boxedint_val (bld_boxedint_args v) = v"
    unfolding boxedint_val_def bld_boxedint_args_def prod.case hi lo
    by (simp add: INT_LOW_24_BITS_def word_masks)
  moreover have "box_has_id (bld_boxedint_args v) i \<longleftrightarrow> i = 1" for i
    by (auto simp: box_has_id_def bld_boxedint_args_def BOX_ID_OFFSET_def ID_BOXED_INT_def
        int_val_makeint)
  ultimately show ?thesis by (simp add: ID_BOXED_INT_def ID_BOXED_FLOAT_def)
qed

lemma bit_float_box_id: "bit (push_bit BOX_ID_OFFSET ID_BOXED_FLOAT) n \<longleftrightarrow> n = 17"
  by (auto simp: BOX_ID_OFFSET_def ID_BOXED_FLOAT_def cell_bits)

text \<open>C34: a boxed double keeps its bit pattern.\<close>

theorem boxedfloat_roundtrip:
  "boxedfloat_val (bld_boxedfloat_args f) = f \<and> box_has_id (bld_boxedfloat_args f) ID_BOXED_FLOAT
     \<and> \<not> box_has_id (bld_boxedfloat_args f) ID_BOXED_INT"
proof -
  let ?h = "push_bit BOX_ID_OFFSET ID_BOXED_FLOAT OR FLOAT_HIGH_16_BITS f"
  have hi: "int_val (makeint ?h) = ?h"
    by (rule int_val_makeint_bits)
      (auto simp: FLOAT_HIGH_16_BITS_def bit_float_box_id cell_bits simp del: bit_push_bit_iff)
  have h: "?h AND LOW_16_BITS_MASK = FLOAT_HIGH_16_BITS f"
    by (rule bit_word_eqI) (auto simp: FLOAT_HIGH_16_BITS_def BOX_ID_OFFSET_def
        ID_BOXED_FLOAT_def cell_bits)
  have mid: "int_val (makeint (FLOAT_MIDDLE_24_BITS f)) = FLOAT_MIDDLE_24_BITS f"
    by (rule int_val_makeint_bits) (auto simp: FLOAT_MIDDLE_24_BITS_def cell_bits)
  have lo: "int_val (makeint (FLOAT_LOW_24_BITS f)) = FLOAT_LOW_24_BITS f"
    by (rule int_val_makeint_bits) (auto simp: FLOAT_LOW_24_BITS_def cell_bits)
  have "boxedfloat_val (bld_boxedfloat_args f) = f"
    unfolding boxedfloat_val_def bld_boxedfloat_args_def prod.case hi mid lo
      EXTRACT_FLOAT_FROM_16_24_24_def h
  proof (rule bit_word_eqI)
    fix n assume n: "n < LENGTH(64)"
    show "bit ((push_bit 48 (FLOAT_HIGH_16_BITS f)
          OR push_bit 24 (FLOAT_MIDDLE_24_BITS f AND LOW_24_BITS_MASK))
          OR (FLOAT_LOW_24_BITS f AND LOW_24_BITS_MASK)) n = bit f n"
      using n by (cases "n < 48") (auto simp: FLOAT_HIGH_16_BITS_def FLOAT_MIDDLE_24_BITS_def
        FLOAT_LOW_24_BITS_def cell_bits)
  qed
  moreover have "signed_drop_bit 16 ?h = 2"
    by (rule bit_word_eqI)
      (auto simp: FLOAT_HIGH_16_BITS_def BOX_ID_OFFSET_def ID_BOXED_FLOAT_def bit_signed_drop_bit_iff cell_bits)
  then have "box_has_id (bld_boxedfloat_args f) i \<longleftrightarrow> i = 2" for i
    by (auto simp: box_has_id_def bld_boxedfloat_args_def hi)
  ultimately show ?thesis by (simp add: ID_BOXED_INT_def ID_BOXED_FLOAT_def)
qed

text \<open>C35: a word built from an aligned address has the tag of its constructor, decodes to that
  address, and is a reference only when it was built as one.\<close>

theorem pointer_cells:
  assumes "a AND 7 = 0"
  shows "clref_val (makelist a) = a \<and> islist_w (makelist a) \<and> \<not> isref_w (makelist a)
    \<and> cs_val (makecs a) = a \<and> isconstr_w (makecs a) \<and> \<not> isref_w (makecs a)
    \<and> string_val (makestring a) = a \<and> isstring_w (makestring a) \<and> \<not> isref_w (makestring a)
    \<and> dec_addr (makeattv a) = a \<and> isattv_w (makeattv a) \<and> \<not> isref_w (makeattv a)
    \<and> isref_w a"
proof -
  have ref: "isref_w c \<longleftrightarrow> cell_tag c AND 3 = 0" for c
    by (simp add: isref_w_def cell_tag_def and.assoc)
  note dec = dec_addr_tagged [OF assms] and tag = cell_tag_tagged [OF assms]
  have "isref_w a" using assms by (simp add: ref cell_tag_def)
  then show ?thesis
    by (simp add: clref_val_def cs_val_def string_val_def makelist_def makecs_def makestring_def
        makeattv_def enc_addr_def dec tag_masked islist_w_def isconstr_w_def isstring_w_def
        isattv_w_def ref tag)
      (simp add: tag_defs)
qed

theorem pointer_cells_witness:
  "(64 :: word64) AND 7 = 0 \<and> clref_val (makelist 64) = 64 \<and> \<not> isref_w (makelist 64)"
proof -
  have "(64 :: word64) AND 7 = 0" by simp
  from pointer_cells [OF this] this show ?thesis by blast
qed

end
