(* ===== verification/Eval.thy ===== *)
theory Eval imports Wam_State Cells "HOL-Library.Signed_Division" begin

text \<open>
  Evaluation of arithmetic expressions (\<open>function.c\<close>): the binary, unary and constant
  operators over integers of 64 bits and doubles, and \<open>xsb_eval\<close>, which walks an expression
  with a stack of its own instead of recursion.

  Double arithmetic and the mathematical library are parameters, collected in \<open>fops\<close>; a
  double is its bit pattern. Integer addition, subtraction, multiplication and left shift
  wrap at 64 bits. What C leaves undefined (division by zero, a shift by 64 or more, a
  conversion out of range, an access outside the evaluation stack, a value never set) is
  the error \<open>Undefined\<close>, an exception raised by \<open>arithmetic_abort\<close> is \<open>Abort\<close>, and a return
  of 0 is \<open>Eval_fail\<close>.
\<close>

section \<open>Numbers\<close>

type_synonym fbits = "64 word"

record fops =
  f_add :: "fbits \<Rightarrow> fbits \<Rightarrow> fbits"
  f_sub :: "fbits \<Rightarrow> fbits \<Rightarrow> fbits"
  f_mul :: "fbits \<Rightarrow> fbits \<Rightarrow> fbits"
  f_div :: "fbits \<Rightarrow> fbits \<Rightarrow> fbits"
  f_lt :: "fbits \<Rightarrow> fbits \<Rightarrow> bool"
  f_eq :: "fbits \<Rightarrow> fbits \<Rightarrow> bool"
  f_of_int :: "int \<Rightarrow> fbits"
  f_to_int :: "fbits \<Rightarrow> int option"
  f_lib :: "string \<Rightarrow> fbits \<Rightarrow> fbits"
  f_lib2 :: "string \<Rightarrow> fbits \<Rightarrow> fbits \<Rightarrow> fbits"
  f_lit :: "string \<Rightarrow> fbits"
  f_of_cell :: "64 word \<Rightarrow> fbits"

record aenv =
  str_chars :: "nat \<Rightarrow> string"
  psc_chars :: "nat \<Rightarrow> string"
  fl :: fops

datatype fltint = FI int | FF fbits

datatype eval_err = Eval_fail | Abort | Undefined

type_synonym eval_res = "eval_err + fltint"

fun isfiint :: "fltint \<Rightarrow> bool" where
  "isfiint (FI _) = True"
| "isfiint (FF _) = False"

fun to_flt :: "fops \<Rightarrow> fltint \<Rightarrow> fbits" where
  "to_flt F (FI i) = f_of_int F i"
| "to_flt F (FF x) = x"

fun to_int :: "fops \<Rightarrow> fltint \<Rightarrow> int option" where
  "to_int F (FI i) = Some i"
| "to_int F (FF x) = f_to_int F x"

definition f_neg :: "fops \<Rightarrow> fbits \<Rightarrow> fbits" where
  "f_neg F x = f_lib F ''-'' x"

definition f_floor :: "fops \<Rightarrow> fbits \<Rightarrow> fbits" where
  "f_floor F x = f_lib F ''floor'' x"

definition f_zero :: "fops \<Rightarrow> fbits" where
  "f_zero F = f_of_int F 0"

text \<open>The value of a float cell or of a boxed double, with the value for any other cell.\<close>

definition isofloat :: "wam \<Rightarrow> cell \<Rightarrow> bool" where
  "isofloat s c \<longleftrightarrow> isboxedfloat s c \<or> isfloat c"

definition ofloat_val :: "fops \<Rightarrow> wam \<Rightarrow> cell \<Rightarrow> fbits" where
  "ofloat_val F s c =
     (case c of
        CFlt w \<Rightarrow> f_of_cell F w
      | _ \<Rightarrow>
        (if isboxedfloat s c then
           EXTRACT_FLOAT_FROM_16_24_24 (word_of_int (cint_val (get_str_arg (mem s) c 1)))
             (word_of_int (cint_val (get_str_arg (mem s) c 2)))
             (word_of_int (cint_val (get_str_arg (mem s) c 3)))
         else f_lit F ''12345.6789''))"

section \<open>Integer operators of C\<close>

definition c_div :: "int \<Rightarrow> int \<Rightarrow> eval_res" where
  "c_div i j = (if j = 0 \<or> i = - (2 ^ 63) \<and> j = -1 then Inl Undefined else Inr (FI (i sdiv j)))"

definition c_rem :: "int \<Rightarrow> int \<Rightarrow> eval_res" where
  "c_rem i j = (if j = 0 \<or> i = - (2 ^ 63) \<and> j = -1 then Inl Undefined else Inr (FI (i smod j)))"

definition c_shl :: "int \<Rightarrow> int \<Rightarrow> eval_res" where
  "c_shl i j = (if j < 0 \<or> 64 \<le> j then Inl Undefined else Inr (FI (wrap64 (i * 2 ^ nat j))))"

definition c_shr :: "int \<Rightarrow> int \<Rightarrow> eval_res" where
  "c_shr i j = (if j < 0 \<or> 64 \<le> j then Inl Undefined else Inr (FI (i div 2 ^ nat j)))"

definition of_conv :: "int option \<Rightarrow> eval_res" where
  "of_conv r = (case r of Some i \<Rightarrow> Inr (FI i) | None \<Rightarrow> Inl Undefined)"

section \<open>Operators\<close>

definition bslash :: char where "bslash = CHR 0x5C"

text \<open>Both operands integers, or the operation on doubles.\<close>

fun num_op :: "fops \<Rightarrow> (int \<Rightarrow> int \<Rightarrow> eval_res) \<Rightarrow> (fbits \<Rightarrow> fbits \<Rightarrow> eval_res) \<Rightarrow> fltint \<Rightarrow> fltint \<Rightarrow> eval_res" where
  "num_op F iop fop (FI i) (FI j) = iop i j"
| "num_op F iop fop a b = fop (to_flt F a) (to_flt F b)"

fun int_op :: "eval_err \<Rightarrow> (int \<Rightarrow> int \<Rightarrow> eval_res) \<Rightarrow> fltint \<Rightarrow> fltint \<Rightarrow> eval_res" where
  "int_op e iop (FI i) (FI j) = iop i j"
| "int_op e iop a b = Inl e"

definition ret_flt :: "fbits \<Rightarrow> eval_res" where "ret_flt x = Inr (FF x)"
definition ret_int :: "int \<Rightarrow> eval_res" where "ret_int i = Inr (FI (wrap64 i))"

text \<open>\<open>**\<close> and \<open>^\<close>: a negative double to a power that is a double is refused.\<close>

definition pow_op :: "fops \<Rightarrow> (int \<Rightarrow> int \<Rightarrow> eval_res) \<Rightarrow> fltint \<Rightarrow> fltint \<Rightarrow> eval_res" where
  "pow_op F iop a b =
     (case (a, b) of
        (FI i, FI j) \<Rightarrow> iop i j
      | (FF x, FF y) \<Rightarrow> if f_lt F x (f_zero F) then Inl Eval_fail else ret_flt (f_lib2 F ''pow'' x y)
      | _ \<Rightarrow> ret_flt (f_lib2 F ''pow'' (to_flt F a) (to_flt F b)))"

definition rem_op :: "fops \<Rightarrow> fltint \<Rightarrow> fltint \<Rightarrow> eval_res" where
  "rem_op F a b =
     (case (to_int F a, to_int F b) of
        (Some i, Some j) \<Rightarrow> c_rem i j
      | _ \<Rightarrow> Inl Undefined)"

definition div_op :: "fops \<Rightarrow> fltint \<Rightarrow> fltint \<Rightarrow> eval_res" where
  "div_op F = int_op Abort
     (\<lambda>i j. of_conv (f_to_int F (f_floor F (f_div F (f_of_int F i) (f_of_int F j)))))"

definition mod_op :: "fops \<Rightarrow> fltint \<Rightarrow> fltint \<Rightarrow> eval_res" where
  "mod_op F = num_op F
     (\<lambda>i j. case f_to_int F (f_floor F (f_div F (f_of_int F i) (f_of_int F j))) of
        Some q \<Rightarrow> ret_int (i - q * j) | None \<Rightarrow> Inl Undefined)
     (\<lambda>x y. ret_flt (f_sub F x (f_mul F (f_floor F (f_div F x y)) y)))"

definition less_num :: "fops \<Rightarrow> fltint \<Rightarrow> fltint \<Rightarrow> bool" where
  "less_num F a b =
     (case (a, b) of (FI i, FI j) \<Rightarrow> i < j | _ \<Rightarrow> f_lt F (to_flt F a) (to_flt F b))"

text \<open>
  A binary operator is found by its first character and then by comparison of the whole name. A name
  that begins with \<open>+\<close> but is not \<open>+\<close> leaves the switch without setting the value.
\<close>

definition xsb_eval_bin_op :: "fops \<Rightarrow> string \<Rightarrow> fltint \<Rightarrow> fltint \<Rightarrow> eval_res" where
  "xsb_eval_bin_op F op a b =
     (if op = ''+'' then num_op F (\<lambda>i j. ret_int (i + j)) (\<lambda>x y. ret_flt (f_add F x y)) a b
      else if take 1 op = ''+'' then Inl Undefined
      else if op = ''*'' then num_op F (\<lambda>i j. ret_int (i * j)) (\<lambda>x y. ret_flt (f_mul F x y)) a b
      else if op = ''**'' then
        pow_op F (\<lambda>i j. ret_flt (f_lib2 F ''pow'' (f_of_int F i) (f_of_int F j))) a b
      else if op = ''^'' then
        pow_op F (\<lambda>i j. of_conv (f_to_int F (f_lib2 F ''pow'' (f_of_int F i) (f_of_int F j)))) a b
      else if op = ''atan'' \<or> op = ''atan2'' then ret_flt (f_lib2 F ''atan2'' (to_flt F a) (to_flt F b))
      else if op = ''rem'' then rem_op F a b
      else if op = ''div'' then div_op F a b
      else if op = ''mod'' then mod_op F a b
      else if op = ''min'' then Inr (if less_num F a b then a else b)
      else if op = ''max'' then Inr (if less_num F b a then a else b)
      else if op = ''-'' then num_op F (\<lambda>i j. ret_int (i - j)) (\<lambda>x y. ret_flt (f_sub F x y)) a b
      else if op = ''/'' then ret_flt (f_div F (to_flt F a) (to_flt F b))
      else if op = ''//'' then int_op Eval_fail c_div a b
      else if op = [CHR ''/'', bslash] then int_op Eval_fail (\<lambda>i j. ret_int (i AND j)) a b
      else if op = ''<<'' then int_op Eval_fail c_shl a b
      else if op = ''><'' then int_op Eval_fail (\<lambda>i j. ret_int (i XOR j)) a b
      else if op = ''>>'' then int_op Eval_fail c_shr a b
      else if op = [bslash, CHR ''/''] then int_op Eval_fail (\<lambda>i j. ret_int (i OR j)) a b
      else if op = ''xor'' then int_op Eval_fail (\<lambda>i j. ret_int (i XOR j)) a b
      else Inl Eval_fail)"

definition f_ge0 :: "fops \<Rightarrow> fbits \<Rightarrow> bool" where
  "f_ge0 F x \<longleftrightarrow> f_lt F (f_zero F) x \<or> f_eq F (f_zero F) x"

definition sign_op :: "fops \<Rightarrow> fltint \<Rightarrow> int" where
  "sign_op F a =
     (case a of
        FI i \<Rightarrow> (if i > 0 then 1 else if i = 0 then 0 else -1)
      | FF x \<Rightarrow> (if f_lt F (f_zero F) x then 1 else if f_eq F x (f_zero F) then 0 else -1))"

fun round_op :: "fops \<Rightarrow> (fbits \<Rightarrow> int option) \<Rightarrow> fltint \<Rightarrow> eval_res" where
  "round_op F conv (FI i) = Inr (FI i)"
| "round_op F conv (FF x) = of_conv (conv x)"

definition floor_int :: "fops \<Rightarrow> fbits \<Rightarrow> int option" where
  "floor_int F x = f_to_int F (f_floor F x)"

definition ceil_int :: "fops \<Rightarrow> fbits \<Rightarrow> int option" where
  "ceil_int F x = map_option (\<lambda>i. wrap64 (- i)) (floor_int F (f_neg F x))"

definition trunc_int :: "fops \<Rightarrow> fbits \<Rightarrow> int option" where
  "trunc_int F x = (if f_lt F (f_zero F) x then floor_int F x else ceil_int F x)"

definition abs_op :: "fops \<Rightarrow> fltint \<Rightarrow> eval_res" where
  "abs_op F a =
     (case a of
        FI i \<Rightarrow> ret_int (if i \<ge> 0 then i else - i)
      | FF x \<Rightarrow> ret_flt (if f_ge0 F x then x else f_neg F x))"

text \<open>
  The complement of a double complements its bit pattern; \<open>erf\<close> of a double is computed
  with \<open>exp\<close>.
\<close>

definition xsb_eval_un_op :: "fops \<Rightarrow> string \<Rightarrow> fltint \<Rightarrow> eval_res" where
  "xsb_eval_un_op F op a =
     (if op = ''-'' then (case a of FI i \<Rightarrow> ret_int (- i) | FF x \<Rightarrow> ret_flt (f_neg F x))
      else if op = ''+'' then Inr a
      else if op = [bslash] then
        (case a of FI i \<Rightarrow> ret_int (NOT i) | FF x \<Rightarrow> ret_int (NOT (sint x)))
      else if op = ''sign'' then Inr (FI (sign_op F a))
      else if op = ''ceiling'' then round_op F (ceil_int F) a
      else if op = ''truncate'' then round_op F (trunc_int F) a
      else if op = ''float'' then ret_flt (to_flt F a)
      else if op = ''floor'' then round_op F (floor_int F) a
      else if op = ''round'' then round_op F (\<lambda>x. floor_int F (f_add F x (f_lit F ''0.5''))) a
      else if op = ''abs'' then abs_op F a
      else if op = ''erf'' then
        (case a of FI i \<Rightarrow> ret_flt (f_lib F ''erf'' (f_of_int F i)) | FF x \<Rightarrow> ret_flt (f_lib F ''exp'' x))
      else if op \<in> set [''sin'', ''sqrt'', ''sinh'', ''cos'', ''cosh'', ''tan'', ''tanh'', ''exp'',
          ''log'', ''log10'', ''lgamma'', ''asin'', ''acos'', ''atan'', ''asinh''] then
        ret_flt (f_lib F op (to_flt F a))
      else Inl Eval_fail)"

partial_function (option) epsilon_loop :: "fops \<Rightarrow> fbits \<Rightarrow> fbits option" where
  "epsilon_loop F ep =
     (let one = f_lit F ''1.0''
      in if f_lt F one (f_add F one ep) then epsilon_loop F (f_div F ep (f_of_int F 2))
         else Some (f_mul F ep (f_of_int F 2)))"

definition xsb_eval_con_op :: "fops \<Rightarrow> string \<Rightarrow> eval_res" where
  "xsb_eval_con_op F con =
     (if con = ''pi'' then ret_flt (f_lit F ''3.1415926535897932384'')
      else if con = ''e'' then ret_flt (f_lit F ''2.7182818284590452354'')
      else if con = ''epsilon'' then
        (case epsilon_loop F (f_lit F ''1.0'') of Some x \<Rightarrow> ret_flt x | None \<Rightarrow> Inl Undefined)
      else Inl Eval_fail)"


section \<open>The evaluation stack\<close>

text \<open>
  A slot holds a number, an argument index (a number too), or the cell of an expression; the
  memory \<open>realloc\<close> adds holds nothing that was written. The stack is global and keeps its
  size from call to call; the top index is set afresh by each call.
\<close>

datatype slot = SV fltint | SE cell | SJunk

definition INIT_EVAL_STK_SIZE :: nat where "INIT_EVAL_STK_SIZE = 24"

definition expand_eval_stk :: "slot list \<Rightarrow> slot list" where
  "expand_eval_stk stk =
     (if stk = [] then replicate INIT_EVAL_STK_SIZE SJunk else stk @ replicate (length stk) SJunk)"

datatype eval_step = Ret eval_res | Cont nat

text \<open>Store into a slot and go on; a store outside the stack is undefined.\<close>

definition stk_put :: "nat \<Rightarrow> slot \<Rightarrow> slot list \<Rightarrow> slot list option" where
  "stk_put i v stk = (if i < length stk then Some (stk[i := v]) else None)"

definition stk_get :: "nat \<Rightarrow> slot list \<Rightarrow> slot" where
  "stk_get i stk = (if i < length stk then stk ! i else SJunk)"

text \<open>Push the expression \<open>c\<close> with its frame's top at \<open>tp\<close>, no argument evaluated.\<close>

definition push_expr :: "cell \<Rightarrow> nat \<Rightarrow> slot list \<Rightarrow> eval_step \<times> slot list" where
  "push_expr c tp stk =
     (let stk1 = (if tp \<ge> length stk then expand_eval_stk stk else stk)
      in case Option.bind (stk_put tp (SE c) stk1) (stk_put (tp - 1) (SV (FI 0))) of
           Some stk2 \<Rightarrow> (Cont tp, stk2)
         | None \<Rightarrow> (Ret (Inl Undefined), stk1))"

definition eval_arity :: "wam \<Rightarrow> cell \<Rightarrow> nat" where
  "eval_arity s c = (case get_str_psc (mem s) c of CPsc p \<Rightarrow> psc_arity (wenv s) p | _ \<Rightarrow> 0)"

definition eval_name :: "aenv \<Rightarrow> wam \<Rightarrow> cell \<Rightarrow> string" where
  "eval_name E s c = (case get_str_psc (mem s) c of CPsc p \<Rightarrow> psc_chars E p | _ \<Rightarrow> [])"

text \<open>Store the value of argument \<open>index\<close> of the frame at \<open>tp\<close>.\<close>

definition put_arg :: "nat \<Rightarrow> nat \<Rightarrow> fltint \<Rightarrow> slot list \<Rightarrow> eval_step \<times> slot list" where
  "put_arg tp index v stk =
     (if tp < index + 1 then (Ret (Inl Undefined), stk)
      else case stk_put (tp - index - 1) (SV v) stk of
             Some stk' \<Rightarrow> (Cont tp, stk') | None \<Rightarrow> (Ret (Inl Undefined), stk))"

text \<open>The next argument of the frame at \<open>tp\<close>.\<close>

definition eval_arg :: "aenv \<Rightarrow> wam \<Rightarrow> cell \<Rightarrow> nat \<Rightarrow> nat \<Rightarrow> slot list \<Rightarrow> eval_step \<times> slot list" where
  "eval_arg E s c index tp stk0 =
     (let stk = stk0[tp - 1 := SV (FI (int index))]
      in case deref (mem s) (get_str_arg (mem s) c (int index)) of
           None \<Rightarrow> (Ret (Inl Undefined), stk)
         | Some e \<Rightarrow>
             if isointeger s e then put_arg tp index (FI (oint_val s e)) stk
             else if isofloat s e then put_arg tp index (FF (ofloat_val (fl E) s e)) stk
             else (case e of
                 CStr a \<Rightarrow>
                   (case xsb_eval_con_op (fl E) (str_chars E a) of
                      Inl err \<Rightarrow> (Ret (Inl err), stk) | Inr v \<Rightarrow> put_arg tp index v stk)
               | CStruct a \<Rightarrow> push_expr e (tp + eval_arity s e + 2) stk
               | _ \<Rightarrow> (Ret (Inl Eval_fail), stk)))"

text \<open>Pop a frame of the given arity whose operator gave \<open>r\<close>, and store or return its value.\<close>

definition pop_frame :: "nat \<Rightarrow> nat \<Rightarrow> eval_res \<Rightarrow> slot list \<Rightarrow> eval_step \<times> slot list" where
  "pop_frame tp arity r stk =
     (case r of
        Inl e \<Rightarrow> (Ret (Inl e), stk)
      | Inr v \<Rightarrow>
          if tp \<le> arity + 2 then (Ret (Inr v), stk)
          else (let tp' = tp - (arity + 2)
                in case stk_get (tp' - 1) stk of
                     SV (FI i) \<Rightarrow> put_arg tp' (nat i) v stk
                   | _ \<Rightarrow> (Ret (Inl Undefined), stk)))"

fun eval_apply :: "aenv \<Rightarrow> wam \<Rightarrow> cell \<Rightarrow> nat \<Rightarrow> slot list \<Rightarrow> eval_step \<times> slot list" where
  "eval_apply E s c tp stk =
     (if eval_arity s c = 2 then
        (case (stk_get (tp - 2) stk, stk_get (tp - 3) stk) of
           (SV a, SV b) \<Rightarrow> pop_frame tp 2 (xsb_eval_bin_op (fl E) (eval_name E s c) a b) stk
         | _ \<Rightarrow> (Ret (Inl Undefined), stk))
      else if eval_arity s c = 1 then
        (case stk_get (tp - 2) stk of
           SV a \<Rightarrow> pop_frame tp 1 (xsb_eval_un_op (fl E) (eval_name E s c) a) stk
         | _ \<Rightarrow> (Ret (Inl Undefined), stk))
      else (Ret (Inl Eval_fail), stk))"

text \<open>One round of the loop of \<open>xsb_eval\<close>.\<close>

definition eval_iter :: "aenv \<Rightarrow> wam \<Rightarrow> nat \<Rightarrow> slot list \<Rightarrow> eval_step \<times> slot list" where
  "eval_iter E s tp stk =
     (case (stk_get tp stk, stk_get (tp - 1) stk) of
        (SE c, SV (FI k)) \<Rightarrow>
          (if k + 1 \<le> int (eval_arity s c) then eval_arg E s c (nat k + 1) tp stk
           else eval_apply E s c tp stk)
      | _ \<Rightarrow> (Ret (Inl Undefined), stk))"

partial_function (option) eval_loop ::
    "aenv \<Rightarrow> wam \<Rightarrow> nat \<Rightarrow> slot list \<Rightarrow> (eval_res \<times> slot list) option" where
  "eval_loop E s tp stk =
     (case eval_iter E s tp stk of
        (Ret r, stk') \<Rightarrow> Some (r, stk') | (Cont tp', stk') \<Rightarrow> eval_loop E s tp' stk')"

definition xsb_eval :: "aenv \<Rightarrow> wam \<Rightarrow> cell \<Rightarrow> slot list \<Rightarrow> (eval_res \<times> slot list) option" where
  "xsb_eval E s expr stk =
     Option.bind (deref (mem s) expr) (\<lambda>c.
       if isointeger s c then Some (Inr (FI (oint_val s c)), stk)
       else if isofloat s c then Some (Inr (FF (ofloat_val (fl E) s c)), stk)
       else (case c of
           CStr a \<Rightarrow> Some (xsb_eval_con_op (fl E) (str_chars E a), stk)
         | CStruct a \<Rightarrow>
             (case push_expr c (eval_arity s c + 1) stk of
                (Ret r, stk') \<Rightarrow> Some (r, stk') | (Cont tp, stk') \<Rightarrow> eval_loop E s tp stk')
         | _ \<Rightarrow> Some (Inl Eval_fail, stk)))"

section \<open>Reference: expressions as trees\<close>

datatype aterm = T_num fltint | T_con string | T_op string "aterm list" | T_bad

definition apply_op :: "fops \<Rightarrow> string \<Rightarrow> fltint list \<Rightarrow> eval_res" where
  "apply_op F op vs =
     (case vs of
        [a] \<Rightarrow> xsb_eval_un_op F op a
      | [a, b] \<Rightarrow> xsb_eval_bin_op F op a b
      | _ \<Rightarrow> Inl Eval_fail)"

fun aeval :: "fops \<Rightarrow> aterm \<Rightarrow> eval_res"
  and aevals :: "fops \<Rightarrow> aterm list \<Rightarrow> eval_err + fltint list" where
  "aeval F (T_num v) = Inr v"
| "aeval F (T_con c) = xsb_eval_con_op F c"
| "aeval F (T_op op ts) = (case aevals F ts of Inl e \<Rightarrow> Inl e | Inr vs \<Rightarrow> apply_op F op vs)"
| "aeval F T_bad = Inl Eval_fail"
| "aevals F [] = Inr []"
| "aevals F (t # ts) =
     (case aeval F t of Inl e \<Rightarrow> Inl e
      | Inr v \<Rightarrow> (case aevals F ts of Inl e \<Rightarrow> Inl e | Inr vs \<Rightarrow> Inr (v # vs)))"

text \<open>The tree a cell stands for, and a bound on the arities in a tree.\<close>

inductive expr_rep :: "aenv \<Rightarrow> wam \<Rightarrow> cell \<Rightarrow> aterm \<Rightarrow> bool" for E s where
  rep_int: "deref (mem s) c = Some d \<Longrightarrow> isointeger s d \<Longrightarrow> expr_rep E s c (T_num (FI (oint_val s d)))"
| rep_flt: "deref (mem s) c = Some d \<Longrightarrow> \<not> isointeger s d \<Longrightarrow> isofloat s d \<Longrightarrow>
    expr_rep E s c (T_num (FF (ofloat_val (fl E) s d)))"
| rep_con: "deref (mem s) c = Some (CStr a) \<Longrightarrow> expr_rep E s c (T_con (str_chars E a))"
| rep_op: "deref (mem s) c = Some (CStruct a) \<Longrightarrow> \<not> isointeger s (CStruct a) \<Longrightarrow>
    \<not> isofloat s (CStruct a) \<Longrightarrow> length ts = eval_arity s (CStruct a) \<Longrightarrow>
    (\<And>i. i < length ts \<Longrightarrow> expr_rep E s (mem s (a + 1 + int i)) (ts ! i)) \<Longrightarrow>
    expr_rep E s c (T_op (eval_name E s (CStruct a)) ts)"
| rep_bad: "deref (mem s) c = Some d \<Longrightarrow> \<not> isointeger s d \<Longrightarrow> \<not> isofloat s d \<Longrightarrow>
    \<not> isstring d \<Longrightarrow> \<not> isconstr d \<Longrightarrow> expr_rep E s c T_bad"

fun arities_at_most :: "nat \<Rightarrow> aterm \<Rightarrow> bool" where
  "arities_at_most n (T_op op ts) \<longleftrightarrow> length ts \<le> n \<and> (\<forall>t \<in> set ts. arities_at_most n t)"
| "arities_at_most n _ = True"

definition stk_ok :: "slot list \<Rightarrow> bool" where
  "stk_ok stk \<longleftrightarrow> stk = [] \<or> INIT_EVAL_STK_SIZE \<le> length stk"


section \<open>The stack machine computes the value of the tree\<close>

definition keeps_below :: "nat \<Rightarrow> slot list \<Rightarrow> slot list \<Rightarrow> bool" where
  "keeps_below n stk stk' \<longleftrightarrow>
     length stk \<le> length stk' \<and> (\<forall>i < n. i < length stk \<longrightarrow> stk' ! i = stk ! i)"

lemma keeps_below_refl [simp]: "keeps_below n stk stk"
  by (simp add: keeps_below_def)

lemma keeps_below_trans: "keeps_below n r s \<Longrightarrow> keeps_below m s t \<Longrightarrow> n \<le> m \<Longrightarrow> keeps_below n r t"
  by (auto simp: keeps_below_def)

lemma keeps_below_update: "n \<le> i \<Longrightarrow> keeps_below n stk (stk[i := v])"
  by (simp add: keeps_below_def)

text \<open>A frame with its first values in place.\<close>

definition frame_with :: "wam \<Rightarrow> cell \<Rightarrow> nat \<Rightarrow> fltint list \<Rightarrow> slot list \<Rightarrow> bool" where
  "frame_with s c tp vs stk \<longleftrightarrow>
     INIT_EVAL_STK_SIZE \<le> length stk \<and> tp < length stk \<and> eval_arity s c + 1 \<le> tp \<and>
     length vs \<le> eval_arity s c \<and> stk ! tp = SE c \<and> stk ! (tp - 1) = SV (FI (int (length vs))) \<and>
     (\<forall>j < length vs. stk ! (tp - 2 - j) = SV (vs ! j))"

definition after_pop :: "aenv \<Rightarrow> wam \<Rightarrow> eval_step \<times> slot list \<Rightarrow> (eval_res \<times> slot list) option" where
  "after_pop E s r = (case r of (Ret v, stk) \<Rightarrow> Some (v, stk) | (Cont tp, stk) \<Rightarrow> eval_loop E s tp stk)"

lemma eval_loop_step: "eval_loop E s tp stk = after_pop E s (eval_iter E s tp stk)"
  by (subst eval_loop.simps) (simp add: after_pop_def)

lemma after_pop_simps [simp]:
  "after_pop E s (Ret v, stk) = Some (v, stk)"
  "after_pop E s (Cont tp, stk) = eval_loop E s tp stk"
  by (simp_all add: after_pop_def)

text \<open>The frame at \<open>tp\<close> gives \<open>r\<close>, the slots below it untouched.\<close>

definition frame_gives :: "aenv \<Rightarrow> wam \<Rightarrow> cell \<Rightarrow> nat \<Rightarrow> slot list \<Rightarrow> eval_res \<Rightarrow> bool" where
  "frame_gives E s c tp stk r \<longleftrightarrow>
     (\<exists>stk'. keeps_below (tp - eval_arity s c - 1) stk stk' \<and>
        eval_loop E s tp stk = after_pop E s (pop_frame tp (eval_arity s c) r stk'))"

lemma frame_gives_trans:
  assumes "eval_loop E s tp stk = eval_loop E s tp stk'" "keeps_below (tp - eval_arity s c - 1) stk stk'"
    "frame_gives E s c tp stk' r"
  shows "frame_gives E s c tp stk r"
  using assms keeps_below_trans unfolding frame_gives_def by fastforce

lemma frame_gives_error:
  assumes "eval_loop E s tp stk = Some (Inl e, stk')" "keeps_below (tp - eval_arity s c - 1) stk stk'"
  shows "frame_gives E s c tp stk (Inl e)"
  using assms unfolding frame_gives_def by (intro exI [of _ stk']) (simp add: pop_frame_def)

lemma eval_iter_frame:
  assumes "frame_with s c tp vs stk"
  shows "eval_iter E s tp stk =
    (if length vs < eval_arity s c then eval_arg E s c (length vs + 1) tp stk else eval_apply E s c tp stk)"
  using assms by (auto simp: eval_iter_def frame_with_def stk_get_def)

text \<open>All arguments in place: the operator is applied.\<close>

lemma frame_apply:
  assumes f: "frame_with s c tp vs stk" and n: "length vs = eval_arity s c"
  shows "frame_gives E s c tp stk (apply_op (fl E) (eval_name E s c) vs)"
proof -
  have b: "tp - 2 < length stk" "tp - 3 < length stk" using f by (auto simp: frame_with_def)
  have v: "j < length vs \<Longrightarrow> stk ! (tp - 2 - j) = SV (vs ! j)" for j using f by (simp add: frame_with_def)
  have "eval_apply E s c tp stk =
      pop_frame tp (eval_arity s c) (apply_op (fl E) (eval_name E s c) vs) stk"
  proof (cases "eval_arity s c = 2 \<or> eval_arity s c = 1")
    case True
    then consider a b where "vs = [a, b]" "eval_arity s c = 2" | a where "vs = [a]" "eval_arity s c = 1"
      using n by (cases vs; cases "tl vs") auto
    then show ?thesis
    proof cases
      case (1 a b)
      then have "stk ! (tp - 2) = SV a" "stk ! (tp - 3) = SV b" using v [of 0] v [of 1] by simp_all
      then show ?thesis using 1 b by (simp add: stk_get_def apply_op_def)
    next
      case (2 a)
      then have "stk ! (tp - 2) = SV a" using v [of 0] by simp
      then show ?thesis using 2 b(1) by (simp add: stk_get_def apply_op_def)
    qed
  next
    case False
    then have "apply_op (fl E) (eval_name E s c) vs = Inl Eval_fail"
      using n by (auto simp: apply_op_def split: list.splits)
    then show ?thesis using False by (simp add: pop_frame_def)
  qed
  moreover have "eval_iter E s tp stk = eval_apply E s c tp stk" using eval_iter_frame [OF f] n by simp
  ultimately show ?thesis unfolding frame_gives_def
    by (intro exI [of _ stk]) (simp add: eval_loop_step [of E s tp])
qed

text \<open>Storing the next value.\<close>

lemma put_next:
  assumes f: "frame_with s c tp vs stk" and n: "length vs < eval_arity s c"
    and k: "keeps_below (tp + 1) (stk[tp - 1 := SV (FI (int (length vs) + 1))]) stk1"
  shows "\<exists>stk'. put_arg tp (length vs + 1) v stk1 = (Cont tp, stk') \<and>
    frame_with s c tp (vs @ [v]) stk' \<and> keeps_below (tp - eval_arity s c - 1) stk stk'"
proof -
  let ?i = "tp - length vs - 2" and ?w = "SV v"
  have l: "length stk \<le> length stk1" using k by (simp add: keeps_below_def)
  have i: "?i < length stk1" "length vs + 2 \<le> tp" using f n l by (auto simp: frame_with_def)
  have at: "stk1 ! j = (stk[tp - 1 := SV (FI (int (length vs) + 1))]) ! j" if "j \<le> tp" for j
    using k f that by (simp add: keeps_below_def frame_with_def)
  have "put_arg tp (length vs + 1) v stk1 = (Cont tp, stk1[?i := ?w])"
    using i by (simp add: put_arg_def stk_put_def)
  moreover have "frame_with s c tp (vs @ [v]) (stk1[?i := ?w])"
  proof -
    have "stk1[?i := ?w] ! (tp - 2 - j) = SV ((vs @ [v]) ! j)" if "j < length (vs @ [v])" for j
    proof (cases "j = length vs")
      case True
      then show ?thesis using i by (simp add: diff_diff_add add.commute)
    next
      case False
      then have j: "j < length vs" using that by simp
      then have "?i \<noteq> tp - 2 - j" using i by linarith
      then have "stk1[?i := ?w] ! (tp - 2 - j) = stk1 ! (tp - 2 - j)" by simp
      also have "\<dots> = stk ! (tp - 2 - j)" using at [of "tp - 2 - j"] i j by simp
      finally show ?thesis using f j by (simp add: frame_with_def nth_append)
    qed
    moreover have "stk1[?i := ?w] ! tp = SE c" using at [of tp] f i by (auto simp: frame_with_def)
    moreover have "stk1[?i := ?w] ! (tp - 1) = SV (FI (int (length vs) + 1))"
      using at [of "tp - 1"] f i by (auto simp: frame_with_def)
    ultimately show ?thesis using f n l by (auto simp: frame_with_def)
  qed
  moreover have "keeps_below (tp - eval_arity s c - 1) stk (stk1[?i := ?w])"
  proof -
    have "stk1[?i := ?w] ! j = stk ! j" if "j < tp - eval_arity s c - 1" for j
      using at [of j] that n by simp
    then show ?thesis using l by (simp add: keeps_below_def)
  qed
  ultimately show ?thesis by blast
qed

lemma push_frame_at:
  assumes "INIT_EVAL_STK_SIZE \<le> length stk" "tp < length stk + INIT_EVAL_STK_SIZE" "eval_arity s c + 1 \<le> tp"
  shows "\<exists>stk'. push_expr c tp stk = (Cont tp, stk') \<and> frame_with s c tp [] stk' \<and>
    keeps_below (tp - 1) stk stk'"
proof -
  let ?s = "if tp \<ge> length stk then expand_eval_stk stk else stk"
  have "stk \<noteq> []" using assms(1) by (auto simp: INIT_EVAL_STK_SIZE_def)
  then have l: "tp < length ?s" "length stk \<le> length ?s" "\<forall>i < length stk. ?s ! i = stk ! i"
    using assms by (auto simp: expand_eval_stk_def nth_append)
  let ?t = "?s[tp := SE c, tp - 1 := SV (FI 0)]"
  have "push_expr c tp stk = (Cont tp, ?t)" using l(1) by (simp add: push_expr_def stk_put_def Let_def)
  moreover have "frame_with s c tp [] ?t" using l assms by (simp add: frame_with_def)
  moreover have "keeps_below (tp - 1) stk ?t" using l(2,3) by (auto simp: keeps_below_def)
  ultimately show ?thesis by blast
qed


lemma expr_rep_cases:
  assumes "expr_rep E s c t" "deref (mem s) c = Some d"
  obtains (int) "isointeger s d" "t = T_num (FI (oint_val s d))"
  | (flt) "\<not> isointeger s d" "isofloat s d" "t = T_num (FF (ofloat_val (fl E) s d))"
  | (con) a where "d = CStr a" "t = T_con (str_chars E a)"
  | (op) a ts where "d = CStruct a" "\<not> isointeger s d" "\<not> isofloat s d"
      "t = T_op (eval_name E s d) ts" "length ts = eval_arity s d"
  | (bad) "\<not> isointeger s d" "\<not> isofloat s d" "\<not> isstring d" "\<not> isconstr d" "t = T_bad"
  using assms by (cases rule: expr_rep.cases) auto

lemma con_no_number: "\<not> isointeger s (CStr a)" "\<not> isofloat s (CStr a)"
  by (simp_all add: isointeger_def isboxedinteger_def isboxed_def isofloat_def isboxedfloat_def)

text \<open>
  What is to be shown of a structure: entered anywhere in a stack that is large enough, it
  gives the value of its tree.
\<close>

definition computes :: "aenv \<Rightarrow> wam \<Rightarrow> cell \<Rightarrow> aterm \<Rightarrow> bool" where
  "computes E s c t \<longleftrightarrow>
     (\<forall>a tp stk. deref (mem s) c = Some (CStruct a) \<and> \<not> isointeger s (CStruct a) \<and>
        \<not> isofloat s (CStruct a) \<and> frame_with s (CStruct a) tp [] stk \<longrightarrow>
        frame_gives E s (CStruct a) tp stk (aeval (fl E) t))"

lemma arg_step:
  assumes f: "frame_with s c tp vs stk" and n: "length vs < eval_arity s c"
    and r: "expr_rep E s (get_str_arg (mem s) c (int (length vs + 1))) t"
    and ih: "computes E s (get_str_arg (mem s) c (int (length vs + 1))) t"
    and small: "arities_at_most 22 t"
  shows "case aeval (fl E) t of
      Inl e \<Rightarrow> frame_gives E s c tp stk (Inl e)
    | Inr v \<Rightarrow> \<exists>stk'. eval_loop E s tp stk = eval_loop E s tp stk' \<and>
        frame_with s c tp (vs @ [v]) stk' \<and> keeps_below (tp - eval_arity s c - 1) stk stk'"
proof -
  let ?k = "length vs + 1" and ?stk1 = "stk[tp - 1 := SV (FI (int (length vs) + 1))]"
  let ?arg = "get_str_arg (mem s) c (int (length vs + 1))"
  from r obtain d where d: "deref (mem s) ?arg = Some d" by (cases rule: expr_rep.cases) auto
  have it: "eval_iter E s tp stk = eval_arg E s c ?k tp stk" using eval_iter_frame [OF f] n by simp
  have low: "keeps_below (tp - eval_arity s c - 1) stk ?stk1" by (rule keeps_below_update) simp
  note put = put_next [OF f n]
  have found: "\<exists>stk'. eval_loop E s tp stk = eval_loop E s tp stk' \<and>
      frame_with s c tp (vs @ [v]) stk' \<and> keeps_below (tp - eval_arity s c - 1) stk stk'"
    if "eval_iter E s tp stk = put_arg tp ?k v ?stk1" for v
    using put [of ?stk1 v] that by (auto simp: eval_loop_step [of E s tp stk])
  have err: "frame_gives E s c tp stk (Inl e)" if "eval_iter E s tp stk = (Ret (Inl e), ?stk1)" for e
    using that by (intro frame_gives_error [OF _ low]) (simp add: eval_loop_step)
  show ?thesis
  proof (cases rule: expr_rep_cases [OF r d])
    case 1
    then have "eval_iter E s tp stk = put_arg tp ?k (FI (oint_val s d)) ?stk1"
      using d by (simp add: it eval_arg_def add.commute)
    from found [OF this] 1 show ?thesis by simp
  next
    case 2
    then have "eval_iter E s tp stk = put_arg tp ?k (FF (ofloat_val (fl E) s d)) ?stk1"
      using d by (simp add: it eval_arg_def add.commute)
    from found [OF this] 2 show ?thesis by simp
  next
    case (3 a)
    then have "eval_iter E s tp stk = (case aeval (fl E) t of Inl e \<Rightarrow> (Ret (Inl e), ?stk1) | Inr v \<Rightarrow> put_arg tp ?k v ?stk1)"
      using d con_no_number [of s a] by (simp add: it eval_arg_def add.commute split: sum.splits)
    then show ?thesis using found err by (auto split: sum.splits)
  next
    case (4 a ts)
    let ?tp = "tp + eval_arity s d + 2"
    have ar: "eval_arity s d \<le> 22" using small 4 by simp
    have "INIT_EVAL_STK_SIZE \<le> length ?stk1" "tp < length stk" using f by (auto simp: frame_with_def)
    then obtain stk2 where push: "push_expr d ?tp ?stk1 = (Cont ?tp, stk2)"
      "frame_with s d ?tp [] stk2" "keeps_below (?tp - 1) ?stk1 stk2"
      using push_frame_at [of ?stk1 ?tp s d] ar by (auto simp: INIT_EVAL_STK_SIZE_def)
    have "frame_gives E s d ?tp stk2 (aeval (fl E) t)"
      using ih d 4 push(2) by (auto simp: computes_def)
    then obtain stk3 where stk3: "keeps_below (?tp - eval_arity s d - 1) stk2 stk3"
      "eval_loop E s ?tp stk2 = after_pop E s (pop_frame ?tp (eval_arity s d) (aeval (fl E) t) stk3)"
      unfolding frame_gives_def by blast
    have "eval_iter E s tp stk = (Cont ?tp, stk2)"
      using 4 d push(1) by (simp add: it eval_arg_def add.commute)
    with stk3(2) have loop: "eval_loop E s tp stk =
        after_pop E s (pop_frame ?tp (eval_arity s d) (aeval (fl E) t) stk3)"
      by (simp add: eval_loop_step [of E s tp stk])
    have k3: "keeps_below (tp + 1) ?stk1 stk3"
      using push(3) stk3(1) by (auto simp: keeps_below_def)
    have len: "tp < length stk3" "0 < tp" using k3 f by (auto simp: keeps_below_def frame_with_def)
    have "stk3 ! (tp - 1) = SV (FI (int (length vs) + 1))"
      using k3 f by (auto simp: keeps_below_def frame_with_def)
    then have idx: "stk_get (tp - 1) stk3 = SV (FI (int (length vs) + 1))" using len by (simp add: stk_get_def)
    show ?thesis
    proof (cases "aeval (fl E) t")
      case (Inl e)
      then have "eval_loop E s tp stk = Some (Inl e, stk3)" using loop by (simp add: pop_frame_def)
      moreover have "keeps_below (tp - eval_arity s c - 1) stk stk3"
        using keeps_below_trans [OF low k3] by simp
      ultimately show ?thesis using Inl frame_gives_error by simp
    next
      case (Inr v)
      have "pop_frame ?tp (eval_arity s d) (Inr v) stk3 = put_arg tp ?k v stk3"
        using idx len by (simp add: pop_frame_def nat_add_distrib)
      then show ?thesis using put [OF k3, of v] loop Inr by auto
    qed
  next
    case 5
    then have "eval_iter E s tp stk = (Ret (Inl Eval_fail), ?stk1)"
      using d by (cases d) (simp_all add: it eval_arg_def add.commute)
    then show ?thesis using err 5 by simp
  qed
qed

lemma frame_runs:
  assumes "frame_with s c tp vs stk" "length vs + length us = eval_arity s c"
    "\<And>i. i < length us \<Longrightarrow> expr_rep E s (get_str_arg (mem s) c (int (length vs + i + 1))) (us ! i)"
    "\<And>i. i < length us \<Longrightarrow> computes E s (get_str_arg (mem s) c (int (length vs + i + 1))) (us ! i)"
    "\<forall>t \<in> set us. arities_at_most 22 t"
  shows "frame_gives E s c tp stk
    (case aevals (fl E) us of Inl e \<Rightarrow> Inl e | Inr ws \<Rightarrow> apply_op (fl E) (eval_name E s c) (vs @ ws))"
  using assms
proof (induction us arbitrary: vs stk)
  case Nil
  then show ?case using frame_apply [of s c tp vs stk E] by simp
next
  case (Cons t us)
  have step: "case aeval (fl E) t of
      Inl e \<Rightarrow> frame_gives E s c tp stk (Inl e)
    | Inr v \<Rightarrow> \<exists>stk'. eval_loop E s tp stk = eval_loop E s tp stk' \<and>
        frame_with s c tp (vs @ [v]) stk' \<and> keeps_below (tp - eval_arity s c - 1) stk stk'"
    by (rule arg_step [OF Cons.prems(1)]) (use Cons.prems(2) Cons.prems(3,4) [of 0] Cons.prems(5) in auto)
  show ?case
  proof (cases "aeval (fl E) t")
    case (Inl e)
    then show ?thesis using step by simp
  next
    case (Inr v)
    then obtain stk' where stk': "eval_loop E s tp stk = eval_loop E s tp stk'"
      "frame_with s c tp (vs @ [v]) stk'" "keeps_below (tp - eval_arity s c - 1) stk stk'"
      using step by auto
    have "frame_gives E s c tp stk'
        (case aevals (fl E) us of Inl e \<Rightarrow> Inl e | Inr ws \<Rightarrow> apply_op (fl E) (eval_name E s c) ((vs @ [v]) @ ws))"
    proof (rule Cons.IH [OF stk'(2)])
      fix i assume "i < length us"
      then show "expr_rep E s (get_str_arg (mem s) c (int (length (vs @ [v]) + i + 1))) (us ! i)"
        "computes E s (get_str_arg (mem s) c (int (length (vs @ [v]) + i + 1))) (us ! i)"
        using Cons.prems(3,4) [of "Suc i"] by (simp_all add: add.assoc)
    qed (use Cons.prems(2,5) in auto)
    then have "frame_gives E s c tp stk
        (case aevals (fl E) us of Inl e \<Rightarrow> Inl e | Inr ws \<Rightarrow> apply_op (fl E) (eval_name E s c) ((vs @ [v]) @ ws))"
      by (rule frame_gives_trans [OF stk'(1,3)])
    then show ?thesis using Inr by (auto split: sum.splits)
  qed
qed

lemma structure_computes:
  assumes "expr_rep E s c t" "arities_at_most 22 t"
  shows "computes E s c t"
  using assms
proof (induction rule: expr_rep.induct)
  case (rep_op c a ts)
  have arg: "get_str_arg (mem s) (CStruct a) (int (0 + i + 1)) = mem s (a + 1 + int i)" for i
    by (simp add: get_str_arg_def ac_simps)
  show ?case unfolding computes_def
  proof (intro allI impI)
    fix a' tp stk
    assume "deref (mem s) c = Some (CStruct a') \<and> \<not> isointeger s (CStruct a') \<and>
        \<not> isofloat s (CStruct a') \<and> frame_with s (CStruct a') tp [] stk"
    then have a: "a' = a" and f: "frame_with s (CStruct a) tp [] stk" using rep_op.hyps(1) by auto
    have "frame_gives E s (CStruct a) tp stk
        (case aevals (fl E) ts of Inl e \<Rightarrow> Inl e
         | Inr ws \<Rightarrow> apply_op (fl E) (eval_name E s (CStruct a)) ([] @ ws))"
    proof (rule frame_runs [OF f])
      fix i assume i: "i < length ts"
      show "expr_rep E s (get_str_arg (mem s) (CStruct a) (int (length [] + i + 1))) (ts ! i)"
        using rep_op.hyps(5) [OF i] arg [of i] by simp
      show "computes E s (get_str_arg (mem s) (CStruct a) (int (length [] + i + 1))) (ts ! i)"
        using rep_op.IH [OF i] rep_op.prems i arg [of i] by simp
    qed (use rep_op in auto)
    from this [unfolded append_Nil]
    show "frame_gives E s (CStruct a') tp stk (aeval (fl E) (T_op (eval_name E s (CStruct a)) ts))"
      by (simp add: a)
  qed
qed (auto simp: computes_def con_no_number)


lemma push_empty:
  "tp < INIT_EVAL_STK_SIZE \<Longrightarrow> push_expr c tp [] = push_expr c tp (replicate INIT_EVAL_STK_SIZE SJunk)"
  by (simp add: push_expr_def expand_eval_stk_def)

lemma structure_value:
  assumes t: "expr_rep E s c t" "arities_at_most 22 t" and d: "deref (mem s) c = Some (CStruct a)"
    and num: "\<not> isointeger s (CStruct a)" "\<not> isofloat s (CStruct a)"
    and len: "INIT_EVAL_STK_SIZE \<le> length stk"
  shows "\<exists>stk1 stk'. push_expr (CStruct a) (eval_arity s (CStruct a) + 1) stk =
      (Cont (eval_arity s (CStruct a) + 1), stk1) \<and>
    eval_loop E s (eval_arity s (CStruct a) + 1) stk1 = Some (aeval (fl E) t, stk') \<and>
    INIT_EVAL_STK_SIZE \<le> length stk'"
proof -
  let ?c = "CStruct a" and ?n = "eval_arity s (CStruct a)"
  have "?n \<le> 22" using t d num by (cases rule: expr_rep_cases [OF t(1) d]) auto
  then obtain stk1 where stk1: "push_expr ?c (?n + 1) stk = (Cont (?n + 1), stk1)"
    "frame_with s ?c (?n + 1) [] stk1" "keeps_below (?n + 1 - 1) stk stk1"
    using push_frame_at [OF len, of "?n + 1" s ?c] by (auto simp: INIT_EVAL_STK_SIZE_def)
  have "frame_gives E s ?c (?n + 1) stk1 (aeval (fl E) t)"
    using structure_computes [OF t] d num stk1(2) by (auto simp: computes_def)
  then obtain stk' where stk': "keeps_below (?n + 1 - ?n - 1) stk1 stk'"
    "eval_loop E s (?n + 1) stk1 = after_pop E s (pop_frame (?n + 1) ?n (aeval (fl E) t) stk')"
    unfolding frame_gives_def by blast
  have "pop_frame (?n + 1) ?n (aeval (fl E) t) stk' = (Ret (aeval (fl E) t), stk')"
    by (simp add: pop_frame_def split: sum.splits)
  moreover have "INIT_EVAL_STK_SIZE \<le> length stk'"
    using len stk1(3) stk'(1) by (simp add: keeps_below_def)
  ultimately show ?thesis using stk1(1) stk'(2) by auto
qed

lemma xsb_eval_value:
  assumes t: "expr_rep E s c t" "arities_at_most 22 t" and ok: "stk_ok stk"
  shows "\<exists>stk'. xsb_eval E s c stk = Some (aeval (fl E) t, stk') \<and> stk_ok stk'"
proof -
  from t(1) obtain d where d: "deref (mem s) c = Some d" by (cases rule: expr_rep.cases) auto
  show ?thesis
  proof (cases rule: expr_rep_cases [OF t(1) d])
    case (4 a ts)
    let ?stk = "if stk = [] then replicate INIT_EVAL_STK_SIZE SJunk else stk"
    have n: "eval_arity s d \<le> 22" using t(2) 4 by simp
    have push: "push_expr d (eval_arity s d + 1) stk = push_expr d (eval_arity s d + 1) ?stk"
      using push_empty [of "eval_arity s d + 1" d] n by (simp add: INIT_EVAL_STK_SIZE_def)
    have "INIT_EVAL_STK_SIZE \<le> length ?stk" using ok by (auto simp: stk_ok_def)
    from structure_value [OF t, of a, OF _ _ _ this] 4 d obtain stk1 stk' where
      "push_expr d (eval_arity s d + 1) ?stk = (Cont (eval_arity s d + 1), stk1)"
      "eval_loop E s (eval_arity s d + 1) stk1 = Some (aeval (fl E) t, stk')"
      "INIT_EVAL_STK_SIZE \<le> length stk'" by auto
    then show ?thesis using d 4 push by (simp add: xsb_eval_def stk_ok_def)
  next
    case 5
    then show ?thesis using d ok by (cases d) (simp_all add: xsb_eval_def)
  qed (use d ok con_no_number in \<open>auto simp: xsb_eval_def\<close>)
qed

section \<open>Properties\<close>

text \<open>C9: \<open>xsb_eval\<close>, which keeps its own stack, returns for every expression and gives what a
  recursive evaluation of the expression tree gives, the first error from the left included,
  as long as no structure in it has more than 22 arguments; the stack it leaves for the next
  call is good.\<close>

theorem xsb_eval_tree:
  assumes "expr_rep E s c t" "arities_at_most 22 t" "stk_ok stk"
  shows "\<exists>stk'. xsb_eval E s c stk = Some (aeval (fl E) t, stk') \<and> stk_ok stk'"
  by (rule xsb_eval_value [OF assms])

definition demo_fops :: fops where
  "demo_fops = \<lparr>f_add = (+), f_sub = (-), f_mul = (*), f_div = (\<lambda>x _. x), f_lt = (<), f_eq = (=),
     f_of_int = word_of_int, f_to_int = (\<lambda>x. Some (sint x)), f_lib = (\<lambda>_ x. x),
     f_lib2 = (\<lambda>_ x _. x), f_lit = (\<lambda>_. 0), f_of_cell = (\<lambda>w. w)\<rparr>"

definition demo_aenv :: aenv where
  "demo_aenv = \<lparr>str_chars = (\<lambda>_. ''pi''), psc_chars = (\<lambda>p. if p = 1 then ''+'' else ''*''),
     fl = demo_fops\<rparr>"

text \<open>The term \<open>1 + 2 * 3\<close> on the heap, and a structure of 30 arguments at address 50.\<close>

definition demo_eval_mem :: "iaddr \<Rightarrow> cell" where
  "demo_eval_mem = Ref(10 := CPsc 1, 11 := CInt 1, 12 := CStruct 13, 13 := CPsc 2, 14 := CInt 2,
     15 := CInt 3, 50 := CPsc 3)"

definition demo_eval_wam :: wam where
  "demo_eval_wam = \<lparr>mem = demo_eval_mem, xreg = (\<lambda>r. CInt (int r)), hreg = 100, sreg = 0, ereg = 1000,
     hbreg = 50, ebreg = 2000, hfreg = 10, efreg = 3000, trreg = 0, trfreg = 0, breg = 5000,
     bfreg = 6000, cpreg = 700, lpcreg = 400, delayreg = 0, ptcpreg = 0,
     trail = (\<lambda>_. \<lparr>tf_variable = 0, tf_value = CInt 0, tf_parent = 0, tf_pre_image = None\<rparr>),
     cps = (\<lambda>_. \<lparr>next_clause = 0, prev_top = 0, cp_ebreg = 2000, cp_hreg = 50, cp_trreg = 0,
       cp_cpreg = 0, cp_ereg = 0, cp_pdreg = 0, cp_ptcp = 0, cp_prev = 0, cp_args = []\<rparr>),
     wflag = False,
     wenv = \<lparr>gl_low = 0, gl_high = 4000, tcp_high = 9000, psc_arity = (\<lambda>p. if p = 3 then 30 else 2),
       psc_ep = (\<lambda>_. 0), env_size = (\<lambda>_. 2), check_complete_inst = 1, box_psc = 9, nil_string = 0,
       occurs_check = False, intern_lists = [], intern_strs = (\<lambda>_. []),
       flt_eq_box = (\<lambda>_ _ _ _. False)\<rparr>\<rparr>"

lemma demo_eval_fields [simp]:
  "mem demo_eval_wam = demo_eval_mem" "box_psc (wenv demo_eval_wam) = 9"
  "psc_arity (wenv demo_eval_wam) p = (if p = 3 then 30 else 2)" "fl demo_aenv = demo_fops"
  "psc_chars demo_aenv p = (if p = 1 then ''+'' else ''*'')"
  by (simp_all add: demo_eval_wam_def demo_aenv_def)

lemma deref_nonvar:
  "deref m (CInt k) = Some (CInt k)" "deref m (CStruct a) = Some (CStruct a)"
  by (simp_all add: deref_def deref_ref.simps [of _ "CInt _"] deref_attv.simps [of _ "CInt _"]
      deref_ref.simps [of _ "CStruct _"] deref_attv.simps [of _ "CStruct _"])

lemmas number_defs = isointeger_def isboxedinteger_def isboxed_def isofloat_def isboxedfloat_def
  get_str_psc_def

lemma demo_int_rep: "expr_rep demo_aenv demo_eval_wam (CInt k) (T_num (FI k))"
  using rep_int [of demo_eval_wam "CInt k" "CInt k" demo_aenv]
  by (simp add: deref_nonvar isointeger_def oint_val_def)

lemma two_args: "P 0 t \<Longrightarrow> P 1 u \<Longrightarrow> i < length [t, u] \<Longrightarrow> P i ([t, u] ! i)"
  by (auto simp: less_Suc_eq)

lemma demo_binop_rep:
  assumes "demo_eval_mem a = CPsc p" "p \<noteq> 3" "p \<noteq> 9"
    "expr_rep demo_aenv demo_eval_wam (demo_eval_mem (a + 1)) t"
    "expr_rep demo_aenv demo_eval_wam (demo_eval_mem (a + 2)) u"
  shows "expr_rep demo_aenv demo_eval_wam (CStruct a) (T_op (psc_chars demo_aenv p) [t, u])"
proof -
  have "expr_rep demo_aenv demo_eval_wam (CStruct a)
      (T_op (eval_name demo_aenv demo_eval_wam (CStruct a)) [t, u])"
  proof (rule rep_op)
    fix i assume "i < length [t, u]"
    then show "expr_rep demo_aenv demo_eval_wam (mem demo_eval_wam (a + 1 + int i)) ([t, u] ! i)"
      by (rule two_args [where P = "\<lambda>i v. expr_rep demo_aenv demo_eval_wam (mem demo_eval_wam (a + 1 + int i)) v",
            rotated 2]) (use assms in \<open>simp_all add: add.assoc\<close>)
  qed (use assms in \<open>simp_all add: deref_nonvar number_defs eval_arity_def\<close>)
  then show ?thesis using assms by (simp add: eval_name_def get_str_psc_def)
qed

lemma demo_expr_rep:
  "expr_rep demo_aenv demo_eval_wam (CStruct 10)
     (T_op ''+'' [T_num (FI 1), T_op ''*'' [T_num (FI 2), T_num (FI 3)]])"
proof -
  have "expr_rep demo_aenv demo_eval_wam (CStruct 13) (T_op (psc_chars demo_aenv 2) [T_num (FI 2), T_num (FI 3)])"
    by (rule demo_binop_rep) (simp_all add: demo_eval_mem_def demo_int_rep)
  then have "expr_rep demo_aenv demo_eval_wam (CStruct 10)
      (T_op (psc_chars demo_aenv 1) [T_num (FI 1), T_op ''*'' [T_num (FI 2), T_num (FI 3)]])"
    by (intro demo_binop_rep) (simp_all add: demo_eval_mem_def demo_int_rep)
  then show ?thesis by simp
qed

theorem xsb_eval_tree_witness:
  "\<exists>stk'. xsb_eval demo_aenv demo_eval_wam (CStruct 10) [] = Some (Inr (FI 7), stk') \<and> stk_ok stk'"
  using xsb_eval_tree [OF demo_expr_rep, of "[]"]
  by (simp add: stk_ok_def apply_op_def xsb_eval_bin_op_def ret_int_def wrap64_def)

text \<open>C37: the evaluation stack is enlarged once, to its initial size or to twice its size, before
  a structure's frame is put on it; a structure with too many arguments for that is written
  past the end of the stack.\<close>

theorem xsb_eval_overflow:
  assumes "deref (mem s) c = Some (CStruct a)" "\<not> isointeger s (CStruct a)" "\<not> isofloat s (CStruct a)"
    "length (expand_eval_stk stk) \<le> eval_arity s (CStruct a) + 1"
  shows "xsb_eval E s c stk = Some (Inl Undefined, expand_eval_stk stk)"
proof -
  have "length stk \<le> length (expand_eval_stk stk)" by (simp add: expand_eval_stk_def)
  then have "length stk \<le> eval_arity s (CStruct a) + 1" using assms(4) by linarith
  then show ?thesis using assms by (simp add: xsb_eval_def push_expr_def stk_put_def Let_def)
qed

theorem xsb_eval_overflow_witness:
  "xsb_eval demo_aenv demo_eval_wam (CStruct 50) [] = Some (Inl Undefined, replicate 24 SJunk)"
proof -
  have "expand_eval_stk [] = replicate 24 SJunk"
    by (simp only: expand_eval_stk_def INIT_EVAL_STK_SIZE_def if_True simp_thms)
  then show ?thesis
    using xsb_eval_overflow [of demo_eval_wam "CStruct 50" 50 "[]" demo_aenv]
    by (simp add: deref_nonvar number_defs demo_eval_mem_def eval_arity_def)
qed

text \<open>The quotient \<open>//\<close> and the remainder \<open>rem\<close> of two integers belong together: the quotient is rounded towards
  zero, and the remainder is smaller than the divisor and has the sign of the dividend.\<close>

theorem quotient_remainder:
  assumes "j \<noteq> 0" "\<not> (i = - (2 ^ 63) \<and> j = -1)"
  shows "\<exists>q r. xsb_eval_bin_op F ''//'' (FI i) (FI j) = Inr (FI q) \<and>
    xsb_eval_bin_op F ''rem'' (FI i) (FI j) = Inr (FI r) \<and> i = q * j + r \<and> \<bar>r\<bar> < \<bar>j\<bar> \<and> 0 \<le> r * i"
proof -
  have "\<bar>i smod j\<bar> < \<bar>j\<bar>" using smod_int_range [OF assms(1), of i] by auto
  moreover have "i smod j * i = (\<bar>i\<bar> mod \<bar>j\<bar>) * \<bar>i\<bar>" by (simp add: smod_int_alt_def abs_sgn ac_simps)
  then have "0 \<le> (i smod j) * i" using assms(1) by simp
  ultimately have "\<bar>i smod j\<bar> < \<bar>j\<bar>" "0 \<le> (i smod j) * i" by simp_all
  then show ?thesis using assms
    by (intro exI [of _ "i sdiv j"] exI [of _ "i smod j"])
      (simp add: xsb_eval_bin_op_def c_div_def c_rem_def rem_op_def sdiv_mult_smod_eq)
qed

theorem quotient_remainder_witness:
  "\<exists>q r. xsb_eval_bin_op demo_fops ''//'' (FI (-7)) (FI 2) = Inr (FI q) \<and>
    xsb_eval_bin_op demo_fops ''rem'' (FI (-7)) (FI 2) = Inr (FI r) \<and> -7 = q * 2 + r \<and>
    \<bar>r\<bar> < \<bar>2\<bar> \<and> 0 \<le> r * (-7)"
  by (rule quotient_remainder) simp_all

end
