(* ===== verification/Arith.thy ===== *)
theory Arith imports Engine Eval begin

text \<open>
  The arithmetic, comparison and test instructions of \<open>emuloop.c\<close> and \<open>unifunc_call\<close> of
  \<open>function.c\<close>, which take numbers from registers directly and call \<open>xsb_eval\<close> for anything
  else. The result of an instruction is the next state, or an exception (\<open>Abort\<close>), or what C
  leaves undefined.

  The instructions are written over an evaluator; the contract of an evaluator is a locale,
  which \<open>xsb_eval\<close> fulfils.
\<close>

section \<open>Evaluators\<close>

type_synonym evaluator = "wam \<Rightarrow> cell \<Rightarrow> eval_res"

text \<open>
  The expression evaluator as the instructions call it. What \<open>xsb_eval\<close> returns does not depend
  on what its stack holds, only the stack it leaves does, so both operands of an instruction
  are evaluated from the same stack.
\<close>

definition eval_on :: "aenv \<Rightarrow> slot list \<Rightarrow> evaluator" where
  "eval_on E stk s c = (case xsb_eval E s c stk of Some (r, _) \<Rightarrow> r | None \<Rightarrow> Inl Undefined)"

definition number_val :: "fops \<Rightarrow> wam \<Rightarrow> cell \<Rightarrow> fltint option" where
  "number_val F s c =
     (if isointeger s c then Some (FI (oint_val s c))
      else if isofloat s c then Some (FF (ofloat_val F s c)) else None)"

text \<open>A return of 0 is turned into an exception by every caller in this file.\<close>

fun on_eval :: "eval_err + 'a \<Rightarrow> ('a \<Rightarrow> eval_err + 'b) \<Rightarrow> eval_err + 'b" where
  "on_eval (Inr v) k = k v"
| "on_eval (Inl Undefined) k = Inl Undefined"
| "on_eval (Inl e) k = Inl Abort"

fun need_int :: "fltint \<Rightarrow> eval_err + int" where
  "need_int (FI i) = Inr i"
| "need_int (FF x) = Inl Abort"

section \<open>Storing results\<close>

definition float_node :: "fbits \<Rightarrow> wam \<Rightarrow> cell \<times> wam" where
  "float_node f s =
     (CStruct (hreg s),
      new_heap_node (CInt (uint (FLOAT_LOW_24_BITS f)))
       (new_heap_node (CInt (uint (FLOAT_MIDDLE_24_BITS f)))
         (new_heap_node (CInt (2 * 2 ^ 16 + uint (FLOAT_HIGH_16_BITS f)))
           (new_heap_functor (box_psc (wenv s)) s))))"

definition bld_boxedfloat_reg :: "nat \<Rightarrow> fbits \<Rightarrow> wam \<Rightarrow> wam" where
  "bld_boxedfloat_reg r f s = (case float_node f s of (c, s') \<Rightarrow> bld_reg r c s')"

definition bind_boxedfloat :: "iaddr \<Rightarrow> fbits \<Rightarrow> wam \<Rightarrow> wam" where
  "bind_boxedfloat a f s =
     (case float_node f (pushtrail a (CStruct (hreg s)) s) of (c, s') \<Rightarrow> bld a c s')"

fun store_num :: "nat \<Rightarrow> fltint \<Rightarrow> wam \<Rightarrow> wam" where
  "store_num r (FI i) s = bld_oint_reg r i s"
| "store_num r (FF x) s = bld_boxedfloat_reg r x s"

text \<open>The dereferenced operands of an instruction of format PRR.\<close>

definition with_operands ::
    "nat \<Rightarrow> nat \<Rightarrow> wam \<Rightarrow> (wam \<Rightarrow> cell \<Rightarrow> cell \<Rightarrow> eval_err + wam) \<Rightarrow> eval_err + wam" where
  "with_operands r1 r3 s0 k =
     (let s = advance_pc 1 s0
      in case (deref (mem s) (xreg s r1), deref (mem s) (xreg s r3)) of
           (Some op1, Some op2) \<Rightarrow> k s op1 op2
         | _ \<Rightarrow> Inl Undefined)"

section \<open>Sum, difference and product\<close>

text \<open>
  \<open>float_val\<close> of a cell that is no float cell decodes the bits of a pointer.
\<close>

fun float_val :: "fops \<Rightarrow> cell \<Rightarrow> fbits" where
  "float_val F (CFlt w) = f_of_cell F w"
| "float_val F (CStruct a) = f_of_cell F (makecs (word_of_int (8 * a)))"
| "float_val F _ = f_of_cell F 0"

text \<open>
  \<open>ARITHPROC\<close>. When the first operand is an expression both are evaluated, and the
  operator is applied to them the other way round.
\<close>

definition arithproc ::
    "fops \<Rightarrow> evaluator \<Rightarrow> (int \<Rightarrow> int \<Rightarrow> int) \<Rightarrow> (fbits \<Rightarrow> fbits \<Rightarrow> fbits) \<Rightarrow> wam \<Rightarrow> cell \<Rightarrow> cell \<Rightarrow> eval_res" where
  "arithproc F ev iop fop s op1 op2 =
     (if isointeger s op1 then
        (if isointeger s op2 then ret_int (iop (oint_val s op2) (oint_val s op1))
         else if isofloat s op2 then ret_flt (fop (ofloat_val F s op2) (f_of_int F (oint_val s op1)))
         else on_eval (ev s op2) (\<lambda>v.
           (case v of FI i \<Rightarrow> ret_int (iop i (oint_val s op1))
            | FF x \<Rightarrow> ret_flt (fop x (f_of_int F (oint_val s op1))))))
      else if isofloat s op1 then
        (if isofloat s op2 then ret_flt (fop (ofloat_val F s op2) (ofloat_val F s op1))
         else if isointeger s op2 then ret_flt (fop (f_of_int F (oint_val s op2)) (ofloat_val F s op1))
         else on_eval (ev s op2) (\<lambda>v. ret_flt (fop (to_flt F v) (float_val F op1))))
      else on_eval (ev s op1) (\<lambda>a. on_eval (ev s op2) (\<lambda>b.
        num_op F (\<lambda>i j. ret_int (iop i j)) (\<lambda>x y. ret_flt (fop x y)) a b)))"

definition arith_instr ::
    "(wam \<Rightarrow> cell \<Rightarrow> cell \<Rightarrow> eval_res) \<Rightarrow> nat \<Rightarrow> nat \<Rightarrow> wam \<Rightarrow> eval_err + wam" where
  "arith_instr f r1 r3 s0 =
     with_operands r1 r3 s0 (\<lambda>s op1 op2. on_eval (f s op1 op2) (\<lambda>v. Inr (store_num r3 v s)))"

definition i_addreg :: "fops \<Rightarrow> evaluator \<Rightarrow> nat \<Rightarrow> nat \<Rightarrow> wam \<Rightarrow> eval_err + wam" where
  "i_addreg F ev = arith_instr (arithproc F ev (+) (f_add F))"

definition i_subreg :: "fops \<Rightarrow> evaluator \<Rightarrow> nat \<Rightarrow> nat \<Rightarrow> wam \<Rightarrow> eval_err + wam" where
  "i_subreg F ev = arith_instr (arithproc F ev (-) (f_sub F))"

definition i_mulreg :: "fops \<Rightarrow> evaluator \<Rightarrow> nat \<Rightarrow> nat \<Rightarrow> wam \<Rightarrow> eval_err + wam" where
  "i_mulreg F ev = arith_instr (arithproc F ev (*) (f_mul F))"

section \<open>Comparison and quotients\<close>

text \<open>
  The values of two operands where the code takes numbers as they are and evaluates the
  rest; when the first is an expression it evaluates both.
\<close>

definition two_nums :: "fops \<Rightarrow> evaluator \<Rightarrow> wam \<Rightarrow> cell \<Rightarrow> cell \<Rightarrow> eval_err + fltint \<times> fltint" where
  "two_nums F ev s op1 op2 =
     (case number_val F s op1 of
        Some a \<Rightarrow>
          (case number_val F s op2 of
             Some b \<Rightarrow> Inr (a, b) | None \<Rightarrow> on_eval (ev s op2) (\<lambda>b. Inr (a, b)))
      | None \<Rightarrow> on_eval (ev s op1) (\<lambda>a. on_eval (ev s op2) (\<lambda>b. Inr (a, b))))"

definition cmp_res :: "bool \<Rightarrow> bool \<Rightarrow> int" where
  "cmp_res gt eq = (if gt then 1 else if eq then 0 else -1)"

fun num_cmp :: "fops \<Rightarrow> fltint \<Rightarrow> fltint \<Rightarrow> int" where
  "num_cmp F (FI i) (FI j) = cmp_res (j > i) (j = i)"
| "num_cmp F a b = cmp_res (f_lt F (to_flt F a) (to_flt F b)) (f_eq F (to_flt F b) (to_flt F a))"

definition set_numcmp :: "fops \<Rightarrow> evaluator \<Rightarrow> wam \<Rightarrow> cell \<Rightarrow> cell \<Rightarrow> eval_err + int" where
  "set_numcmp F ev s op1 op2 = on_eval (two_nums F ev s op1 op2) (\<lambda>(a, b). Inr (num_cmp F a b))"

definition num_compare :: "fops \<Rightarrow> evaluator \<Rightarrow> wam \<Rightarrow> cell \<Rightarrow> cell \<Rightarrow> eval_err + int" where
  "num_compare F ev s c1 c2 =
     (case (deref (mem s) c1, deref (mem s) c2) of
        (Some op1, Some op2) \<Rightarrow> set_numcmp F ev s op1 op2 | _ \<Rightarrow> Inl Undefined)"

definition i_cmpreg :: "fops \<Rightarrow> evaluator \<Rightarrow> nat \<Rightarrow> nat \<Rightarrow> wam \<Rightarrow> eval_err + wam" where
  "i_cmpreg F ev r1 r3 s0 =
     with_operands r1 r3 s0 (\<lambda>s op1 op2.
       on_eval (set_numcmp F ev s op1 op2) (\<lambda>res. Inr (bld_oint_reg r3 res s)))"

definition i_divreg :: "fops \<Rightarrow> evaluator \<Rightarrow> nat \<Rightarrow> nat \<Rightarrow> wam \<Rightarrow> eval_err + wam" where
  "i_divreg F ev = arith_instr (\<lambda>s op1 op2.
     on_eval (two_nums F ev s op1 op2) (\<lambda>(a, b). ret_flt (f_div F (to_flt F b) (to_flt F a))))"

text \<open>
  \<open>idivreg\<close> and \<open>fdivreg\<close>: the zero test guards only a first operand that is an integer;
  with an expression there the operands are swapped. The two differ when the second
  operand is an expression.
\<close>

definition idiv_val :: "(int \<Rightarrow> int \<Rightarrow> eval_res) \<Rightarrow> evaluator \<Rightarrow> wam \<Rightarrow> cell \<Rightarrow> cell \<Rightarrow> eval_res" where
  "idiv_val conv ev s op1 op2 =
     (if isointeger s op1 then
        (if oint_val s op1 = 0 then Inl Abort
         else if isointeger s op2 then c_div (oint_val s op2) (oint_val s op1)
         else on_eval (ev s op2) (\<lambda>v. on_eval (need_int v) (\<lambda>j. conv j (oint_val s op1))))
      else on_eval (ev s op1) (\<lambda>a. on_eval (need_int a) (\<lambda>i.
             on_eval (ev s op2) (\<lambda>b. on_eval (need_int b) (\<lambda>j. c_div i j)))))"

definition i_idivreg :: "evaluator \<Rightarrow> nat \<Rightarrow> nat \<Rightarrow> wam \<Rightarrow> eval_err + wam" where
  "i_idivreg ev = arith_instr (idiv_val c_div ev)"

definition i_fdivreg :: "fops \<Rightarrow> evaluator \<Rightarrow> nat \<Rightarrow> nat \<Rightarrow> wam \<Rightarrow> eval_err + wam" where
  "i_fdivreg F ev = arith_instr (idiv_val (\<lambda>j i.
     of_conv (f_to_int F (f_floor F (f_div F (f_of_int F j) (f_of_int F i))))) ev)"

text \<open>\<open>minreg\<close> and \<open>maxreg\<close>: with a number and an expression they leave the register alone.\<close>

definition pick_instr :: "(fltint \<Rightarrow> fltint \<Rightarrow> bool) \<Rightarrow> fops \<Rightarrow> nat \<Rightarrow> nat \<Rightarrow> wam \<Rightarrow> eval_err + wam" where
  "pick_instr better F r1 r3 s0 =
     with_operands r1 r3 s0 (\<lambda>s op1 op2.
       (case number_val F s op1 of
          None \<Rightarrow> Inl Abort
        | Some a \<Rightarrow>
            (case number_val F s op2 of
               None \<Rightarrow> Inr s
             | Some b \<Rightarrow> Inr (bld_reg r3 (if better b a then op2 else op1) s))))"

definition i_minreg :: "fops \<Rightarrow> nat \<Rightarrow> nat \<Rightarrow> wam \<Rightarrow> eval_err + wam" where
  "i_minreg F = pick_instr (less_num F) F"

definition i_maxreg :: "fops \<Rightarrow> nat \<Rightarrow> nat \<Rightarrow> wam \<Rightarrow> eval_err + wam" where
  "i_maxreg F = pick_instr (\<lambda>b a. less_num F a b) F"

text \<open>\<open>powreg\<close> evaluates the base, the second operand, first.\<close>

definition num_or_eval :: "fops \<Rightarrow> evaluator \<Rightarrow> wam \<Rightarrow> cell \<Rightarrow> eval_res" where
  "num_or_eval F ev s c = (case number_val F s c of Some v \<Rightarrow> Inr v | None \<Rightarrow> ev s c)"

definition i_powreg :: "fops \<Rightarrow> evaluator \<Rightarrow> nat \<Rightarrow> nat \<Rightarrow> wam \<Rightarrow> eval_err + wam" where
  "i_powreg F ev = arith_instr (\<lambda>s op1 op2.
     on_eval (num_or_eval F ev s op2) (\<lambda>b. on_eval (num_or_eval F ev s op1) (\<lambda>e.
       (let r = f_lib2 F ''pow'' (to_flt F b) (to_flt F e)
        in if \<not> isfiint e \<and> f_lt F (to_flt F b) (f_zero F) then Inl Abort
           else if isfiint b \<and> isfiint e then of_conv (f_to_int F r) else ret_flt r))))"

section \<open>Bitwise operators\<close>

definition bit_val :: "(int \<Rightarrow> int \<Rightarrow> eval_res) \<Rightarrow> evaluator \<Rightarrow> wam \<Rightarrow> cell \<Rightarrow> cell \<Rightarrow> eval_res" where
  "bit_val iop ev s op1 op2 =
     (if isointeger s op1 then
        (if isointeger s op2 then iop (oint_val s op2) (oint_val s op1)
         else on_eval (ev s op2) (\<lambda>b. on_eval (need_int b) (\<lambda>j. iop j (oint_val s op1))))
      else on_eval (ev s op1) (\<lambda>a. on_eval (need_int a) (\<lambda>i.
             on_eval (ev s op2) (\<lambda>b. on_eval (need_int b) (\<lambda>j. iop j i)))))"

definition i_logshiftr :: "evaluator \<Rightarrow> nat \<Rightarrow> nat \<Rightarrow> wam \<Rightarrow> eval_err + wam" where
  "i_logshiftr ev = arith_instr (bit_val c_shr ev)"

definition i_logshiftl :: "evaluator \<Rightarrow> nat \<Rightarrow> nat \<Rightarrow> wam \<Rightarrow> eval_err + wam" where
  "i_logshiftl ev = arith_instr (bit_val c_shl ev)"

definition i_or :: "evaluator \<Rightarrow> nat \<Rightarrow> nat \<Rightarrow> wam \<Rightarrow> eval_err + wam" where
  "i_or ev = arith_instr (bit_val (\<lambda>j i. ret_int (j OR i)) ev)"

definition i_and :: "evaluator \<Rightarrow> nat \<Rightarrow> nat \<Rightarrow> wam \<Rightarrow> eval_err + wam" where
  "i_and ev = arith_instr (bit_val (\<lambda>j i. ret_int (j AND i)) ev)"

definition i_xorreg :: "evaluator \<Rightarrow> nat \<Rightarrow> nat \<Rightarrow> wam \<Rightarrow> eval_err + wam" where
  "i_xorreg ev = arith_instr (bit_val (\<lambda>j i. ret_int (j XOR i)) ev)"

definition i_negate :: "evaluator \<Rightarrow> nat \<Rightarrow> wam \<Rightarrow> eval_err + wam" where
  "i_negate ev r3 s0 =
     (let s = advance_pc 1 s0
      in case deref (mem s) (xreg s r3) of
           None \<Rightarrow> Inl Undefined
         | Some op1 \<Rightarrow>
             if isointeger s op1 then Inr (bld_oint_reg r3 (NOT (oint_val s op1)) s)
             else on_eval (ev s op1) (\<lambda>v. on_eval (need_int v) (\<lambda>i. Inr (bld_oint_reg r3 (NOT i) s))))"

section \<open>Adding a small integer\<close>

datatype place = P_reg nat | P_var nat

definition place_cell :: "place \<Rightarrow> wam \<Rightarrow> cell" where
  "place_cell p s = (case p of P_reg r \<Rightarrow> xreg s r | P_var v \<Rightarrow> Ref (get_v v s))"

text \<open>
  The third byte: the low bits tell where the operands are, the rest is the integer.
\<close>

definition fast_int :: "8 word \<Rightarrow> int" where "fast_int w = sint w div 4"

definition fast_place :: "8 word \<Rightarrow> nat \<Rightarrow> nat \<Rightarrow> place" where
  "fast_place w k n = (if bit w k then P_var n else P_reg n)"

text \<open>The value of an evaluated sum is stored without trailing even in a variable.\<close>

definition put_num :: "place \<Rightarrow> fltint \<Rightarrow> wam \<Rightarrow> wam" where
  "put_num p v s =
     (case p of
        P_reg r \<Rightarrow> store_num r v s
      | P_var n \<Rightarrow>
          (case (case v of FI i \<Rightarrow> oint_node i s | FF x \<Rightarrow> float_node x s) of
             (c, s') \<Rightarrow> bld (get_v n s) c s'))"

definition bind_num :: "place \<Rightarrow> fltint \<Rightarrow> wam \<Rightarrow> wam" where
  "bind_num p v s =
     (case p of
        P_reg r \<Rightarrow> store_num r v s
      | P_var n \<Rightarrow>
          (case v of FI i \<Rightarrow> bind_oint (get_v n s) i s | FF x \<Rightarrow> bind_boxedfloat (get_v n s) x s))"

definition add_small :: "fops \<Rightarrow> int \<Rightarrow> fltint \<Rightarrow> fltint" where
  "add_small F k v =
     (case v of FI i \<Rightarrow> FI (wrap64 (i + k)) | FF x \<Rightarrow> FF (f_add F x (f_of_int F k)))"

definition i_addintfastasgn :: "fops \<Rightarrow> evaluator \<Rightarrow> nat \<Rightarrow> nat \<Rightarrow> 8 word \<Rightarrow> wam \<Rightarrow> eval_err + wam" where
  "i_addintfastasgn F ev n3 n1 w s0 =
     (let s = advance_pc 1 s0; target = fast_place w 1 n3
      in case deref (mem s) (place_cell (fast_place w 0 n1) s) of
           None \<Rightarrow> Inl Undefined
         | Some op1 \<Rightarrow>
             (case number_val F s op1 of
                Some v \<Rightarrow> Inr (bind_num target (add_small F (fast_int w) v) s)
              | None \<Rightarrow>
                  on_eval (ev s op1) (\<lambda>v. Inr (put_num target (add_small F (fast_int w) v) s))))"

definition nunify_with_float_get :: "fops \<Rightarrow> cell \<Rightarrow> fbits \<Rightarrow> wam \<Rightarrow> wam option" where
  "nunify_with_float_get F op1 x s =
     (case deref (mem s) op1 of
        None \<Rightarrow> None
      | Some d \<Rightarrow>
          (case d of
             Ref a \<Rightarrow> Some (bind_boxedfloat a x s)
           | _ \<Rightarrow>
               if isofloat s d then Some (if f_eq F (ofloat_val F s d) x then s else fail1 s)
               else (case d of
                   CAttv a \<Rightarrow>
                     (let s1 = bind_boxedfloat a x s
                      in Some (add_interrupt (mem s1 (a + 1)) (mem s1 a) s1))
                 | _ \<Rightarrow> Some (fail1 s))))"

definition unify_num :: "fops \<Rightarrow> cell \<Rightarrow> fltint \<Rightarrow> wam \<Rightarrow> eval_err + wam" where
  "unify_num F c v s =
     (case (case v of FI i \<Rightarrow> nunify_with_num c i s | FF x \<Rightarrow> nunify_with_float_get F c x s) of
        Some s' \<Rightarrow> Inr s' | None \<Rightarrow> Inl Undefined)"

text \<open>\<open>n3\<close> is the byte \<open>lpcreg[1]\<close>.\<close>

definition i_addintfastuni :: "fops \<Rightarrow> evaluator \<Rightarrow> nat \<Rightarrow> nat \<Rightarrow> 8 word \<Rightarrow> wam \<Rightarrow> eval_err + wam" where
  "i_addintfastuni F ev n3 n1 w s0 =
     (let s = advance_pc 1 s0; target = place_cell (fast_place w 1 n3) s
      in case deref (mem s) (place_cell (fast_place w 0 n1) s) of
           None \<Rightarrow> Inl Undefined
         | Some op1 \<Rightarrow>
             (case number_val F s op1 of
                Some v \<Rightarrow> unify_num F target (add_small F (fast_int w) v) s
              | None \<Rightarrow> on_eval (ev s op1) (\<lambda>v. unify_num F target (add_small F (fast_int w) v) s)))"

section \<open>Tests and conditional jumps\<close>

text \<open>
  The operand of a conditional jump is not dereferenced. When it is no number the
  instruction does nothing, and would be executed again.
\<close>

definition jump_if :: "(int \<Rightarrow> bool) \<Rightarrow> (fbits \<Rightarrow> bool) \<Rightarrow> fops \<Rightarrow> nat \<Rightarrow> iaddr \<Rightarrow> wam \<Rightarrow> wam" where
  "jump_if itest ftest F r l s =
     (let op1 = xreg s r
      in if isointeger s op1 then (if itest (oint_val s op1) then s\<lparr>lpcreg := l\<rparr> else advance_pc 2 s)
         else if isofloat s op1 then (if ftest (ofloat_val F s op1) then s\<lparr>lpcreg := l\<rparr> else advance_pc 2 s)
         else s)"

definition i_jumpz :: "fops \<Rightarrow> nat \<Rightarrow> iaddr \<Rightarrow> wam \<Rightarrow> wam" where
  "i_jumpz F = jump_if (\<lambda>i. i = 0) (\<lambda>x. f_eq F x (f_zero F)) F"

definition i_jumpnz :: "fops \<Rightarrow> nat \<Rightarrow> iaddr \<Rightarrow> wam \<Rightarrow> wam" where
  "i_jumpnz F = jump_if (\<lambda>i. i \<noteq> 0) (\<lambda>x. \<not> f_eq F x (f_zero F)) F"

definition i_jumplt :: "fops \<Rightarrow> nat \<Rightarrow> iaddr \<Rightarrow> wam \<Rightarrow> wam" where
  "i_jumplt F = jump_if (\<lambda>i. i < 0) (\<lambda>x. f_lt F x (f_zero F)) F"

definition i_jumple :: "fops \<Rightarrow> nat \<Rightarrow> iaddr \<Rightarrow> wam \<Rightarrow> wam" where
  "i_jumple F = jump_if (\<lambda>i. i \<le> 0) (\<lambda>x. f_lt F x (f_zero F) \<or> f_eq F x (f_zero F)) F"

definition i_jumpgt :: "fops \<Rightarrow> nat \<Rightarrow> iaddr \<Rightarrow> wam \<Rightarrow> wam" where
  "i_jumpgt F = jump_if (\<lambda>i. i > 0) (\<lambda>x. f_lt F (f_zero F) x) F"

definition i_jumpge :: "fops \<Rightarrow> nat \<Rightarrow> iaddr \<Rightarrow> wam \<Rightarrow> wam" where
  "i_jumpge F = jump_if (\<lambda>i. i \<ge> 0) (f_ge0 F) F"

text \<open>
  \<open>int_test_z\<close> and \<open>int_test_nz\<close>: a float cell is compared through its bits as an integer.
\<close>

definition int_test :: "bool \<Rightarrow> fops \<Rightarrow> nat \<Rightarrow> int \<Rightarrow> iaddr \<Rightarrow> wam \<Rightarrow> eval_err + wam" where
  "int_test eq F r op2 l s0 =
     (let s = advance_pc 3 s0; go = (\<lambda>b. Inr (if b = eq then s\<lparr>lpcreg := l\<rparr> else s))
      in case deref (mem s) (xreg s r) of
           None \<Rightarrow> Inl Undefined
         | Some op1 \<Rightarrow>
             (case op1 of
                CInt i \<Rightarrow> go (i = op2)
              | CFlt w \<Rightarrow> go (sint (int_val w) = op2)
              | _ \<Rightarrow>
                  if isboxedinteger s op1 then go (oint_val s op1 = op2)
                  else if isboxedfloat s op1 then go (f_eq F (ofloat_val F s op1) (f_of_int F op2))
                  else Inl Abort))"

definition i_int_test_z :: "fops \<Rightarrow> nat \<Rightarrow> int \<Rightarrow> iaddr \<Rightarrow> wam \<Rightarrow> eval_err + wam" where
  "i_int_test_z = int_test True"

definition i_int_test_nz :: "fops \<Rightarrow> nat \<Rightarrow> int \<Rightarrow> iaddr \<Rightarrow> wam \<Rightarrow> eval_err + wam" where
  "i_int_test_nz = int_test False"

section \<open>Unary functions\<close>

definition function_names :: "string list" where
  "function_names = [[], ''+'', ''-'', ''*'', ''/'', [CHR ''/'', bslash], [bslash, CHR ''/''], [], [],
     ''sin'', ''cos'', ''tan'', [], ''float'', ''floor'', ''exp'', ''log'', ''log10'', ''sqrt'', ''asin'',
     ''acos'', ''atan'', ''abs'', ''truncate'', ''round'', ''ceiling'', ''sign'', ''min'', ''lgamma'', ''erf'']"

text \<open>
  \<open>unifunc_call\<close>: the inner result \<open>None\<close> leaves the register as it is, which is the sign of
  a NaN. A domain error is an exception. Only \<open>abs\<close> treats a number it is given, \<open>direct\<close>, and one
  it has to evaluate differently, at zero.
\<close>

definition unary_functions :: "string list" where
  "unary_functions = [''sin'', ''cos'', ''tan'', ''float'', ''floor'', ''exp'', ''log'', ''log10'', ''sqrt'', ''asin'',
     ''acos'', ''atan'', ''abs'', ''truncate'', ''round'', ''ceiling'', ''sign'', ''lgamma'', ''erf'']"

definition unifunc_num :: "fops \<Rightarrow> bool \<Rightarrow> string \<Rightarrow> fltint \<Rightarrow> eval_err + fltint option" where
  "unifunc_num F direct op v =
     (let x = to_flt F v; flt = (\<lambda>y. Inr (Some (FF y))); nan = (\<lambda>y. \<not> f_eq F y y);
          conv = (\<lambda>r. case r of Some i \<Rightarrow> Inr (Some (FI i)) | None \<Rightarrow> Inl Undefined)
      in if op = ''float'' then flt x
         else if op = ''floor'' then conv (floor_int F x)
         else if op \<in> set [''sin'', ''cos'', ''tan'', ''exp'', ''atan'', ''lgamma'', ''erf''] then flt (f_lib F op x)
         else if op \<in> set [''log'', ''log10''] then
           (if f_lt F (f_zero F) x then flt (f_lib F op x) else Inl Abort)
         else if op \<in> set [''sqrt'', ''asin'', ''acos''] then
           (if nan (f_lib F op x) then Inl Abort else flt (f_lib F op x))
         else if op = ''abs'' then
           (case v of
              FI i \<Rightarrow> Inr (Some (FI (wrap64 (if i > 0 then i else - i))))
            | FF y \<Rightarrow> flt (if (if direct then f_lt F (f_zero F) y else f_ge0 F y) then y else f_neg F y))
         else if op = ''truncate'' then
           (case v of FI i \<Rightarrow> Inr (Some (FI i))
            | FF y \<Rightarrow> conv (if f_lt F (f_zero F) y then floor_int F y
                else f_to_int F (f_neg F (f_floor F (f_neg F y)))))
         else if op = ''round'' then
           (case v of FI i \<Rightarrow> Inr (Some (FI i)) | FF y \<Rightarrow> conv (floor_int F (f_add F y (f_lit F ''0.5''))))
         else if op = ''ceiling'' then
           (case v of FI i \<Rightarrow> Inr (Some (FI i)) | FF y \<Rightarrow> conv (f_to_int F (f_neg F (f_floor F (f_neg F y)))))
         else if op = ''sign'' then
           Inr (if f_lt F (f_zero F) x then Some (FI 1) else if f_eq F x (f_zero F) then Some (FI 0)
                else if f_lt F x (f_zero F) then Some (FI (-1)) else None)
         else Inl Eval_fail)"

definition unifunc_call :: "fops \<Rightarrow> evaluator \<Rightarrow> nat \<Rightarrow> nat \<Rightarrow> wam \<Rightarrow> eval_err + wam" where
  "unifunc_call F ev funcnum r s =
     (case deref (mem s) (xreg s r) of
        None \<Rightarrow> Inl Undefined
      | Some c \<Rightarrow>
          if funcnum \<ge> length function_names \<or> function_names ! funcnum \<notin> set unary_functions
          then Inl Eval_fail
          else (case num_or_eval F ev s c of
              Inl e \<Rightarrow> Inl e
            | Inr v \<Rightarrow>
                (case unifunc_num F (number_val F s c \<noteq> None) (function_names ! funcnum) v of
                   Inl e \<Rightarrow> Inl e
                 | Inr None \<Rightarrow> Inr s
                 | Inr (Some w) \<Rightarrow> Inr (store_num r w s))))"

definition i_unifunc :: "fops \<Rightarrow> evaluator \<Rightarrow> nat \<Rightarrow> nat \<Rightarrow> wam \<Rightarrow> eval_err + wam" where
  "i_unifunc F ev funcnum r s = on_eval (unifunc_call F ev funcnum r (advance_pc 1 s)) Inr"


section \<open>Reading a stored number back\<close>

lemma hi_lo_eq:
  fixes v :: int
  assumes "in64 v"
  shows "wrap64 (cint_val (makeint_cell ((v mod 2 ^ 64) div 2 ^ 24)) * 2 ^ 24 OR v mod 2 ^ 24) = v"
proof -
  let ?h = "(v mod 2 ^ 64) div 2 ^ 24"
  have h: "0 \<le> ?h" "?h < 2 ^ 40"
    by (simp_all add: pos_imp_zdiv_nonneg_iff div_less_iff_less_mult)
  then have "signed_take_bit 60 ?h = ?h" by (simp add: signed_take_bit_id_iff)
  then have c: "cint_val (makeint_cell ?h) = ?h" by (simp add: makeint_cell_def)
  have "?h * 2 ^ 24 OR v mod 2 ^ 24 = ?h * 2 ^ 24 + v mod 2 ^ 24"
  proof -
    have "push_bit 24 ?h AND take_bit 24 v = 0"
      by (rule bit_eqI) (simp add: bit_and_iff bit_push_bit_iff bit_take_bit_iff)
    then have "push_bit 24 ?h + take_bit 24 v = push_bit 24 ?h OR take_bit 24 v"
      by (rule disjunctive_add_eq_or)
    then show ?thesis by (simp add: push_bit_eq_mult take_bit_eq_mod)
  qed
  also have "\<dots> = ?h * 2 ^ 24 + (v mod 2 ^ 64) mod 2 ^ 24"
    by (rule arg_cong [where f = "(+) _"]) (simp add: mod_mod_cancel)
  also have "\<dots> = v mod 2 ^ 64" by (rule div_mult_mod_eq)
  finally have "?h * 2 ^ 24 OR v mod 2 ^ 24 = v mod 2 ^ 64" .
  moreover have "wrap64 (take_bit 64 v) = wrap64 v" by (simp add: wrap64_def signed_take_bit_take_bit)
  then have "wrap64 (v mod 2 ^ 64) = v" using assms by (simp only: take_bit_eq_mod wrap64_in64)
  ultimately show ?thesis by (simp only: c)
qed

lemma oint_node_val:
  assumes "in64 v" "oint_node v s = (c, s')"
  shows "isointeger s' c \<and> oint_val s' c = v"
proof (cases "cint_overflow v")
  case False
  then show ?thesis using assms(2)
    by (auto simp: oint_node_def cint_overflow_def makeint_cell_def isointeger_def oint_val_def)
next
  case True
  then have r: "c = CStruct (hreg s)" "s' = snd (boxedint_node v s)"
    using assms(2) by (auto simp: oint_node_def boxedint_node_def)
  have "mem s' (hreg s) = CPsc (box_psc (wenv s'))" "mem s' (hreg s + 1) = CInt (2 ^ 16)"
    "mem s' (hreg s + 2) = makeint_cell ((v mod 2 ^ 64) div 2 ^ 24)" "mem s' (hreg s + 3) = CInt (v mod 2 ^ 24)"
    by (simp_all add: r boxedint_node_def new_heap_node_def new_heap_functor_def)
  then show ?thesis using hi_lo_eq [OF assms(1)]
    by (simp add: r(1) isointeger_def isboxedinteger_def isboxed_def cell_box_has_id_def get_str_psc_def
        get_str_arg_def oint_val_def cell_boxedint_val_def)
qed

lemma store_int_val:
  assumes "in64 v"
  shows "isointeger (bld_oint_reg r v s) (xreg (bld_oint_reg r v s) r) \<and>
    oint_val (bld_oint_reg r v s) (xreg (bld_oint_reg r v s) r) = v"
proof -
  obtain c s' where c: "oint_node v s = (c, s')" by (cases "oint_node v s")
  have "isointeger (bld_reg r c s') x = isointeger s' x" "oint_val (bld_reg r c s') x = oint_val s' x" for x
    by (simp_all add: bld_reg_def isointeger_def isboxedinteger_def isboxed_def cell_box_has_id_def
        oint_val_def cell_boxedint_val_def)
  then show ?thesis using oint_node_val [OF assms c] c by (simp add: bld_oint_reg_def) (simp add: bld_reg_def)
qed


section \<open>The contract of an evaluator\<close>

text \<open>The instructions may take a number from its register because the evaluator would give the same.\<close>

locale evaluates =
  fixes F :: fops and ev :: evaluator
  assumes ev_number: "number_val F s c = Some v \<Longrightarrow> ev s c = Inr v"
begin

lemma two_nums_ev:
  "ev s op1 = Inr a \<Longrightarrow> ev s op2 = Inr b \<Longrightarrow> two_nums F ev s op1 op2 = Inr (a, b)"
  using ev_number [of s op1] ev_number [of s op2]
  by (auto simp: two_nums_def split: option.splits)

lemma int_number:
  assumes "ev s c = Inr (FI i)"
  shows "isointeger s c \<Longrightarrow> oint_val s c = i" "\<not> isointeger s c \<Longrightarrow> \<not> isofloat s c"
  using assms ev_number [of s c] by (auto simp: number_val_def split: if_splits)

lemma bit_val_ev:
  "ev s op1 = Inr (FI i) \<Longrightarrow> ev s op2 = Inr (FI j) \<Longrightarrow> bit_val iop ev s op1 op2 = iop j i"
  using int_number [of s op1 i] int_number [of s op2 j] by (auto simp: bit_val_def)

lemma arithproc_ev:
  "ev s op1 = Inr (FI i) \<Longrightarrow> ev s op2 = Inr (FI j) \<Longrightarrow>
    arithproc F ev iop fop s op1 op2 = ret_int (if isointeger s op1 then iop j i else iop i j)"
  using int_number [of s op1 i] int_number [of s op2 j] by (auto simp: arithproc_def)

lemma idiv_val_ev:
  "ev s op1 = Inr (FI i) \<Longrightarrow> ev s op2 = Inr (FI j) \<Longrightarrow>
    idiv_val c_div ev s op1 op2 =
      (if isointeger s op1 then (if i = 0 then Inl Abort else c_div j i) else c_div i j)"
  using int_number [of s op1 i] int_number [of s op2 j] by (auto simp: idiv_val_def)

end

lemma deref_float [simp]: "deref m (CFlt w) = Some (CFlt w)"
  by (simp add: deref_def deref_ref.simps [of _ "CFlt _"] deref_attv.simps [of _ "CFlt _"])

lemma number_deref: "number_val F s c = Some v \<Longrightarrow> deref (mem s) c = Some c"
  by (cases c) (auto simp: number_val_def number_defs deref_nonvar split: if_splits)

lemma eval_on_number: "number_val (fl E) s c = Some v \<Longrightarrow> eval_on E stk s c = Inr v"
  using number_deref [of "fl E" s c v]
  by (auto simp: eval_on_def xsb_eval_def number_val_def split: if_splits)

interpretation xe: evaluates "fl E" "eval_on E stk" for E stk
  by unfold_locales (rule eval_on_number)

section \<open>Operands given by expression trees\<close>

lemma same_numbers:
  assumes "mem s' = mem s" "wenv s' = wenv s"
  shows "isointeger s' c = isointeger s c" "isofloat s' c = isofloat s c" "oint_val s' c = oint_val s c"
    "ofloat_val F s' c = ofloat_val F s c" "eval_arity s' c = eval_arity s c" "eval_name E s' c = eval_name E s c"
  unfolding isointeger_def isofloat_def isboxedinteger_def isboxedfloat_def isboxed_def
    cell_box_has_id_def oint_val_def cell_boxedint_val_def ofloat_val_def eval_arity_def eval_name_def assms
  by (rule refl)+

lemma expr_rep_state:
  assumes "expr_rep E s c t" "mem s' = mem s" "wenv s' = wenv s"
  shows "expr_rep E s' c t"
  using assms(1)
proof (induction rule: expr_rep.induct)
  case (rep_op c a ts)
  then have "expr_rep E s' c (T_op (eval_name E s' (CStruct a)) ts)"
    by (intro expr_rep.rep_op) (simp_all add: same_numbers [OF assms(2,3)] assms)
  then show ?case by (simp add: same_numbers [OF assms(2,3)])
next
  case (rep_int c d)
  then show ?case using expr_rep.rep_int [of s' c d E] by (simp add: same_numbers [OF assms(2,3)] assms)
next
  case (rep_flt c d)
  then show ?case using expr_rep.rep_flt [of s' c d E] by (simp add: same_numbers [OF assms(2,3)] assms)
next
  case (rep_con c a)
  then show ?case by (intro expr_rep.rep_con) (simp add: assms)
next
  case (rep_bad c d)
  then show ?case by (intro expr_rep.rep_bad [of s' c d]) (simp_all add: same_numbers [OF assms(2,3)] assms)
qed

fun is_number_term :: "aterm \<Rightarrow> bool" where
  "is_number_term (T_num _) = True"
| "is_number_term _ = False"

lemma expr_rep_deref:
  assumes "expr_rep E s c t" "aeval (fl E) t = Inr v"
  shows "\<exists>d. deref (mem s) c = Some d \<and> expr_rep E s d t \<and>
    (isointeger s d \<or> isofloat s d \<longleftrightarrow> is_number_term t)"
  using assms(1)
proof (cases rule: expr_rep.cases)
  case (rep_int d)
  then have "number_val (fl E) s d = Some (FI (oint_val s d))" by (simp add: number_val_def)
  then show ?thesis using rep_int number_deref expr_rep.rep_int by (intro exI [of _ d]) auto
next
  case (rep_flt d)
  then have "number_val (fl E) s d = Some (FF (ofloat_val (fl E) s d))" by (simp add: number_val_def)
  then show ?thesis using rep_flt number_deref expr_rep.rep_flt by (intro exI [of _ d]) auto
next
  case (rep_con a)
  have "deref (mem s) (CStr a) = Some (CStr a)"
    by (simp add: deref_def deref_ref.simps [of _ "CStr _"] deref_attv.simps [of _ "CStr _"])
  then show ?thesis using rep_con expr_rep.rep_con [of s "CStr a" a E] con_no_number by auto
next
  case (rep_op a ts)
  then show ?thesis using expr_rep.rep_op [of s "CStruct a" a ts E] deref_nonvar(2) by auto
next
  case rep_bad
  then show ?thesis using assms(2) by simp
qed

lemma operand_value:
  assumes "expr_rep E s c t" "arities_at_most 22 t" "stk_ok stk" "aeval (fl E) t = Inr v"
    "mem s' = mem s" "wenv s' = wenv s"
  shows "\<exists>d. deref (mem s') c = Some d \<and> eval_on E stk s' d = Inr v \<and>
    (isointeger s' d \<or> isofloat s' d \<longleftrightarrow> is_number_term t)"
proof -
  from expr_rep_deref [OF expr_rep_state [OF assms(1,5,6)] assms(4)] obtain d where
    d: "deref (mem s') c = Some d" "expr_rep E s' d t" "isointeger s' d \<or> isofloat s' d \<longleftrightarrow> is_number_term t"
    by auto
  from xsb_eval_value [OF d(2) assms(2,3)] have "eval_on E stk s' d = Inr v"
    using assms(4) by (auto simp: eval_on_def)
  with d show ?thesis by auto
qed

text \<open>Two operands of an instruction with integer values.\<close>

definition int_operands :: "aenv \<Rightarrow> wam \<Rightarrow> slot list \<Rightarrow> cell \<Rightarrow> aterm \<Rightarrow> int \<Rightarrow> bool" where
  "int_operands E s stk c t i \<longleftrightarrow>
     expr_rep E s c t \<and> arities_at_most 22 t \<and> stk_ok stk \<and> aeval (fl E) t = Inr (FI i)"

lemma with_int_operands:
  assumes "int_operands E s stk (xreg s r1) t1 i" "int_operands E s stk (xreg s r3) t2 j"
  shows "\<exists>op1 op2. with_operands r1 r3 s = (\<lambda>k. k (advance_pc 1 s) op1 op2) \<and>
    eval_on E stk (advance_pc 1 s) op1 = Inr (FI i) \<and> eval_on E stk (advance_pc 1 s) op2 = Inr (FI j) \<and>
    (isointeger (advance_pc 1 s) op1 \<longleftrightarrow> is_number_term t1)"
proof -
  let ?s = "advance_pc 1 s"
  have same: "mem ?s = mem s" "wenv ?s = wenv s" "xreg ?s = xreg s" by (simp_all add: advance_pc_def)
  from assms(1) operand_value [OF _ _ _ _ same(1,2)] obtain op1 where
    1: "deref (mem ?s) (xreg s r1) = Some op1" "eval_on E stk ?s op1 = Inr (FI i)"
      "isointeger ?s op1 \<or> isofloat ?s op1 \<longleftrightarrow> is_number_term t1"
    unfolding int_operands_def by blast
  from assms(2) operand_value [OF _ _ _ _ same(1,2)] obtain op2 where
    2: "deref (mem ?s) (xreg s r3) = Some op2" "eval_on E stk ?s op2 = Inr (FI j)"
    unfolding int_operands_def by blast
  have "with_operands r1 r3 s = (\<lambda>k. k ?s op1 op2)"
    using 1(1) 2(1) same(3) by (auto simp: with_operands_def Let_def)
  moreover have "isointeger ?s op1 \<longleftrightarrow> is_number_term t1"
    using 1(3) xe.int_number(2) [OF 1(2)] by auto
  ultimately show ?thesis using 1(2) 2(2) by blast
qed

lemma arith_instr_int:
  assumes "with_operands r1 r3 s = (\<lambda>k. k s' op1 op2)" "f s' op1 op2 = ret_int v"
  shows "\<exists>u. arith_instr f r1 r3 s = Inr u \<and> isointeger u (xreg u r3) \<and> oint_val u (xreg u r3) = wrap64 v"
  using assms store_int_val [OF in64_wrap64, of r3 v s'] by (simp add: arith_instr_def ret_int_def)


section \<open>Arithmetic and backtracking\<close>

inductive arith_step :: "fops \<Rightarrow> evaluator \<Rightarrow> wam \<Rightarrow> wam \<Rightarrow> bool" for F ev where
  step_arith: "arith_instr f r1 r3 s = Inr s' \<Longrightarrow> arith_step F ev s s'"
| step_cmp: "i_cmpreg F ev r1 r3 s = Inr s' \<Longrightarrow> arith_step F ev s s'"
| step_pick: "pick_instr better F r1 r3 s = Inr s' \<Longrightarrow> arith_step F ev s s'"
| step_negate: "i_negate ev r3 s = Inr s' \<Longrightarrow> arith_step F ev s s'"
| step_jump: "arith_step F ev s (jump_if itest ftest F r l s)"
| step_test: "int_test eq F r k l s = Inr s' \<Longrightarrow> arith_step F ev s s'"
| step_unary: "i_unifunc F ev n r s = Inr s' \<Longrightarrow> arith_step F ev s s'"

lemma on_eval_Inr: "on_eval r k = Inr w \<Longrightarrow> \<exists>v. r = Inr v \<and> k v = Inr w"
  by (cases r; (cases "projl r")?) (auto split: eval_err.splits)

lemma store_num_safe [safe_intros]: "bt_safe s s' \<Longrightarrow> bt_safe s (store_num r v s')"
  by (cases v) (auto simp: bld_oint_reg_def bld_boxedfloat_reg_def oint_node_def boxedint_node_def
      float_node_def intro!: safe_intros)

lemma bld_oint_reg_safe: "bt_safe s s' \<Longrightarrow> bt_safe s (bld_oint_reg r i s')"
  using store_num_safe [of s s' r "FI i"] by simp

lemma arith_step_safe: "arith_step F ev s s' \<Longrightarrow> bt_safe s s'"
proof (induction rule: arith_step.induct)
  case (step_arith f r1 r3 s s')
  then show ?case
    by (auto simp: arith_instr_def with_operands_def Let_def dest!: on_eval_Inr split: option.splits
        intro!: safe_intros)
next
  case (step_cmp r1 r3 s s')
  then show ?case
    by (auto simp: i_cmpreg_def with_operands_def Let_def dest!: on_eval_Inr split: option.splits
        intro!: safe_intros bld_oint_reg_safe)
next
  case (step_pick better r1 r3 s s')
  then show ?case
    by (auto simp: pick_instr_def with_operands_def Let_def split: option.splits intro!: safe_intros)
next
  case (step_negate r3 s s')
  then show ?case
    by (auto simp: i_negate_def Let_def dest!: on_eval_Inr split: option.splits if_splits
        intro!: safe_intros bld_oint_reg_safe)
next
  case (step_jump s itest ftest r l)
  show ?case by (auto simp: jump_if_def Let_def intro!: safe_intros)
next
  case (step_test eq r k l s s')
  then show ?case
    by (auto simp: int_test_def Let_def split: option.splits cell.splits if_splits intro!: safe_intros)
next
  case (step_unary n r s s')
  then show ?case
    by (auto simp: i_unifunc_def unifunc_call_def dest!: on_eval_Inr
        split: option.splits if_splits sum.splits intro!: safe_intros)
qed

interpretation arith: undoable "\<lambda>_. True" "arith_step F ev" for F ev
  by unfold_locales (use arith_step_safe in blast)+

section \<open>Properties\<close>

text \<open>C14: comparing two operands, numbers or expressions of any shape, whose values are integers and
  branching on the result takes each conditional jump exactly when the relation it stands for holds.\<close>

theorem compare_and_branch:
  assumes "int_operands E s stk (xreg s r1) t1 i" "int_operands E s stk (xreg s r3) t2 j"
  shows "\<exists>u. i_cmpreg (fl E) (eval_on E stk) r1 r3 s = Inr u \<and> lpcreg u = lpcreg s + 1 \<and>
    lpcreg (i_jumplt (fl E) r3 l u) = (if j < i then l else lpcreg s + 3) \<and>
    lpcreg (i_jumple (fl E) r3 l u) = (if j \<le> i then l else lpcreg s + 3) \<and>
    lpcreg (i_jumpgt (fl E) r3 l u) = (if j > i then l else lpcreg s + 3) \<and>
    lpcreg (i_jumpge (fl E) r3 l u) = (if j \<ge> i then l else lpcreg s + 3) \<and>
    lpcreg (i_jumpz (fl E) r3 l u) = (if j = i then l else lpcreg s + 3) \<and>
    lpcreg (i_jumpnz (fl E) r3 l u) = (if j \<noteq> i then l else lpcreg s + 3)"
proof -
  from with_int_operands [OF assms] obtain op1 op2 where w: "with_operands r1 r3 s = (\<lambda>k. k (advance_pc 1 s) op1 op2)"
    and v: "eval_on E stk (advance_pc 1 s) op1 = Inr (FI i)" "eval_on E stk (advance_pc 1 s) op2 = Inr (FI j)"
    by blast
  let ?res = "cmp_res (j > i) (j = i)"
  let ?u = "bld_oint_reg r3 ?res (advance_pc 1 s)"
  have "i_cmpreg (fl E) (eval_on E stk) r1 r3 s = Inr ?u"
    by (simp add: i_cmpreg_def w set_numcmp_def xe.two_nums_ev [OF v])
  moreover have "in64 ?res" by (simp add: in64_def cmp_res_def)
  note val = store_int_val [OF this, of r3 "advance_pc 1 s"]
  have pc: "lpcreg ?u = lpcreg s + 1"
    by (simp add: bld_oint_reg_def oint_node_def boxedint_node_def bld_reg_def advance_pc_def
        new_heap_node_def new_heap_functor_def)
  have "lpcreg (jump_if itest ftest (fl E) r3 l ?u) = (if itest ?res then l else lpcreg s + 3)" for itest ftest
    using val pc by (simp add: jump_if_def Let_def advance_pc_def)
  then show ?thesis using calculation pc
    by (intro exI [of _ ?u])
      (simp add: i_jumplt_def i_jumple_def i_jumpgt_def i_jumpge_def i_jumpz_def i_jumpnz_def cmp_res_def)
qed

lemma demo_int_operands:
  "int_operands demo_aenv demo_eval_wam [] (CInt k) (T_num (FI k)) k"
  "int_operands demo_aenv demo_eval_wam [] (CStruct 10)
     (T_op ''+'' [T_num (FI 1), T_op ''*'' [T_num (FI 2), T_num (FI 3)]]) 7"
  using demo_int_rep demo_expr_rep
  by (simp_all add: int_operands_def stk_ok_def apply_op_def xsb_eval_bin_op_def ret_int_def wrap64_def)

definition demo_arith :: wam where
  "demo_arith = demo_eval_wam\<lparr>xreg := (\<lambda>r. if r = 1 then CStruct 10 else CInt 5)\<rparr>"

lemma demo_arith_operands:
  "int_operands demo_aenv demo_arith [] (xreg demo_arith 1)
     (T_op ''+'' [T_num (FI 1), T_op ''*'' [T_num (FI 2), T_num (FI 3)]]) 7"
  "int_operands demo_aenv demo_arith [] (xreg demo_arith 2) (T_num (FI 5)) 5"
  using demo_int_operands expr_rep_state [of demo_aenv demo_eval_wam _ _ demo_arith]
  by (auto simp: int_operands_def demo_arith_def)

theorem compare_and_branch_witness:
  "\<exists>u. i_cmpreg demo_fops (eval_on demo_aenv []) 1 2 demo_arith = Inr u \<and>
    lpcreg (i_jumplt demo_fops 2 77 u) = 77 \<and> lpcreg (i_jumpz demo_fops 2 77 u) = 403"
proof -
  have "lpcreg demo_arith = 400" "fl demo_aenv = demo_fops"
    by (simp_all add: demo_arith_def demo_eval_wam_def)
  with compare_and_branch [OF demo_arith_operands, of 77] show ?thesis by auto
qed

text \<open>C13: the sum and the product of operands with integer values \<open>i\<close> and \<open>j\<close>, numbers or
  expressions, are stored as integers that read back as the exact result, wrapped to 64
  bits, boxed on the heap when they do not fit a cell.\<close>

theorem add_mul_stored:
  assumes "int_operands E s stk (xreg s r1) t1 i" "int_operands E s stk (xreg s r3) t2 j"
  shows "(\<exists>u. i_addreg (fl E) (eval_on E stk) r1 r3 s = Inr u \<and> isointeger u (xreg u r3) \<and>
      oint_val u (xreg u r3) = wrap64 (i + j)) \<and>
    (\<exists>u. i_mulreg (fl E) (eval_on E stk) r1 r3 s = Inr u \<and> isointeger u (xreg u r3) \<and>
      oint_val u (xreg u r3) = wrap64 (i * j))"
proof -
  from with_int_operands [OF assms] obtain op1 op2 where w: "with_operands r1 r3 s = (\<lambda>k. k (advance_pc 1 s) op1 op2)"
    and v: "eval_on E stk (advance_pc 1 s) op1 = Inr (FI i)" "eval_on E stk (advance_pc 1 s) op2 = Inr (FI j)"
    by blast
  have "arithproc (fl E) (eval_on E stk) (+) fop (advance_pc 1 s) op1 op2 = ret_int (i + j)"
    "arithproc (fl E) (eval_on E stk) (*) fop (advance_pc 1 s) op1 op2 = ret_int (i * j)" for fop
    using xe.arithproc_ev [OF v] by (simp_all add: ac_simps)
  with arith_instr_int [OF w] show ?thesis unfolding i_addreg_def i_mulreg_def by blast
qed

theorem add_mul_stored_witness:
  "(\<exists>u. i_addreg demo_fops (eval_on demo_aenv []) 1 2 demo_arith = Inr u \<and> isointeger u (xreg u 2) \<and>
      oint_val u (xreg u 2) = 12) \<and>
    (\<exists>u. i_mulreg demo_fops (eval_on demo_aenv []) 1 2 demo_arith = Inr u \<and> isointeger u (xreg u 2) \<and>
      oint_val u (xreg u 2) = 35)"
  using add_mul_stored [OF demo_arith_operands] by (simp add: wrap64_def)

lemma in64_sdiv:
  assumes a: "in64 a" and d: "d \<noteq> 0" "\<not> (a = - (2 ^ 63) \<and> d = -1)"
  shows "in64 (a sdiv d)"
proof -
  have abs: "\<bar>a sdiv d\<bar> = \<bar>a\<bar> div \<bar>d\<bar>"
    using d(1) by (simp add: signed_divide_int_def abs_mult abs_sgn_eq pos_imp_zdiv_nonneg_iff) (cases "a = 0", simp_all)
  show ?thesis
  proof (cases "\<bar>d\<bar> = 1")
    case True
    then have "d = 1 \<or> d = -1" by arith
    then have "a sdiv d = a \<and> d = 1 \<or> a sdiv d = - a \<and> d = -1"
      by (auto simp: signed_divide_int_def sgn_mult_abs mult_sgn_abs)
    with a d show ?thesis by (auto simp: in64_def)
  next
    case False
    then have "2 \<le> \<bar>d\<bar>" using d(1) by arith
    then have "\<bar>a\<bar> div \<bar>d\<bar> \<le> \<bar>a\<bar> div 2" by (intro zdiv_mono2) auto
    moreover have "\<bar>a\<bar> \<le> 2 ^ 63" using a by (auto simp: in64_def)
    ultimately show ?thesis unfolding abs [symmetric] by (simp add: in64_def) arith
  qed
qed

text \<open>C36: on operands with integer values \<open>i\<close> and \<open>j\<close> a difference or quotient depends on how its
  divisor or subtrahend, the first operand, is given. As a number it is taken from or divides the
  other operand. As an expression of the same value the operands are swapped: the result is
  \<open>i - j\<close> or \<open>i\<close> divided by \<open>j\<close>. The difference is wrapped to 64 bits; the quotient is cut
  off towards zero, for values of 64 bits, a divisor other than zero and not the one quotient
  that overflows. A number that is zero stops with an error as a divisor; with an expression as the
  first operand the zero test is missing, so that an operand \<open>j\<close> of zero, which should have been
  the dividend, divides by zero.\<close>

theorem swapped_operands:
  assumes "int_operands E s stk (xreg s r1) t1 i" "int_operands E s stk (xreg s r3) t2 j"
    "dividend = (if is_number_term t1 then j else i)" "divisor = (if is_number_term t1 then i else j)"
  shows "(\<exists>u. i_subreg (fl E) (eval_on E stk) r1 r3 s = Inr u \<and>
      oint_val u (xreg u r3) = wrap64 (dividend - divisor)) \<and>
    (in64 i \<and> in64 j \<and> divisor \<noteq> 0 \<and> \<not> (dividend = - (2 ^ 63) \<and> divisor = -1) \<longrightarrow>
      (\<exists>u. i_idivreg (eval_on E stk) r1 r3 s = Inr u \<and> isointeger u (xreg u r3) \<and>
        oint_val u (xreg u r3) = dividend sdiv divisor)) \<and>
    (divisor = 0 \<longrightarrow> i_idivreg (eval_on E stk) r1 r3 s =
      Inl (if is_number_term t1 then Abort else Undefined))"
proof -
  from with_int_operands [OF assms(1,2)] obtain op1 op2 where w: "with_operands r1 r3 s = (\<lambda>k. k (advance_pc 1 s) op1 op2)"
    and v: "eval_on E stk (advance_pc 1 s) op1 = Inr (FI i)" "eval_on E stk (advance_pc 1 s) op2 = Inr (FI j)"
    and n: "isointeger (advance_pc 1 s) op1 \<longleftrightarrow> is_number_term t1"
    by blast
  have "arithproc (fl E) (eval_on E stk) (-) (f_sub (fl E)) (advance_pc 1 s) op1 op2 =
      ret_int (dividend - divisor)"
    using xe.arithproc_ev [OF v] n assms(3,4) by simp
  from arith_instr_int [where f = "arithproc (fl E) (eval_on E stk) (-) (f_sub (fl E))", OF w this] have "\<exists>u. i_subreg (fl E) (eval_on E stk) r1 r3 s = Inr u \<and>
      oint_val u (xreg u r3) = wrap64 (dividend - divisor)"
    unfolding i_subreg_def by blast
  moreover have q: "i_idivreg (eval_on E stk) r1 r3 s = on_eval
      (if is_number_term t1 \<and> divisor = 0 then Inl Abort else c_div dividend divisor)
      (\<lambda>v. Inr (store_num r3 v (advance_pc 1 s)))"
    using xe.idiv_val_ev [OF v] n assms(3,4) by (simp add: i_idivreg_def arith_instr_def w)
  moreover have "\<exists>u. i_idivreg (eval_on E stk) r1 r3 s = Inr u \<and> isointeger u (xreg u r3) \<and>
        oint_val u (xreg u r3) = dividend sdiv divisor"
    if "in64 i" "in64 j" "divisor \<noteq> 0" "\<not> (dividend = - (2 ^ 63) \<and> divisor = -1)"
  proof -
    have "in64 dividend" using that assms(3) by simp
    note r = store_int_val [OF in64_sdiv [OF this that(3,4)], of r3 "advance_pc 1 s"]
    show ?thesis unfolding q using that(3,4) r by (auto simp: c_div_def)
  qed
  ultimately show ?thesis by (simp add: c_div_def)
qed

theorem swapped_operands_witness:
  "(\<exists>u. i_subreg demo_fops (eval_on demo_aenv []) 1 2 demo_arith = Inr u \<and> oint_val u (xreg u 2) = 2) \<and>
   (\<exists>u. i_idivreg (eval_on demo_aenv []) 1 2 demo_arith = Inr u \<and> oint_val u (xreg u 2) = 1)"
  using swapped_operands [OF demo_arith_operands refl refl] by (auto simp: wrap64_def in64_def)

text \<open>The bitwise instructions on operands with integer values store the bitwise disjunction, conjunction and
  exclusive disjunction of their 64-bit values, which read back as they are.\<close>

theorem bitwise_stored:
  assumes "int_operands E s stk (xreg s r1) t1 i" "int_operands E s stk (xreg s r3) t2 j"
  shows "(\<exists>u. i_or (eval_on E stk) r1 r3 s = Inr u \<and> isointeger u (xreg u r3) \<and>
      oint_val u (xreg u r3) = wrap64 (i OR j)) \<and>
    (\<exists>u. i_and (eval_on E stk) r1 r3 s = Inr u \<and> isointeger u (xreg u r3) \<and>
      oint_val u (xreg u r3) = wrap64 (i AND j)) \<and>
    (\<exists>u. i_xorreg (eval_on E stk) r1 r3 s = Inr u \<and> isointeger u (xreg u r3) \<and>
      oint_val u (xreg u r3) = wrap64 (i XOR j))"
proof -
  from with_int_operands [OF assms] obtain op1 op2 where w: "with_operands r1 r3 s = (\<lambda>k. k (advance_pc 1 s) op1 op2)"
    and v: "eval_on E stk (advance_pc 1 s) op1 = Inr (FI i)" "eval_on E stk (advance_pc 1 s) op2 = Inr (FI j)"
    by blast
  show ?thesis unfolding i_or_def i_and_def i_xorreg_def
    by (intro conjI arith_instr_int [OF w]) (simp_all add: xe.bit_val_ev [OF v] ac_simps)
qed

theorem bitwise_stored_witness:
  "(\<exists>u. i_and (eval_on demo_aenv []) 1 2 demo_arith = Inr u \<and> oint_val u (xreg u 2) = 5) \<and>
    (\<exists>u. i_xorreg (eval_on demo_aenv []) 1 2 demo_arith = Inr u \<and> oint_val u (xreg u 2) = 2)"
  using bitwise_stored [OF demo_arith_operands] by (auto simp: wrap64_def)

end
