(* ===== verification/Hashtable.thy ===== *)
theory Hashtable imports Prelude "HOL-Library.Multiset" begin

text \<open>
  The chained hash tables of the incremental call graph (\<open>hashtable.c\<close>, \<open>hashtable_itr.c\<close>):
  the sizes are primes, the hash value of a key is mixed before it selects a bucket, an
  entry is put in front of its chain, and a table that would hold more than 0.65 entries per
  bucket is moved to the next size, which reverses the chains.

  Keys are compared with \<open>equalkeys\<close>, which is equality of the keys. \<open>mem_alloc\<close> always gives
  the memory, so the branches that handle its failure are left out. The number of entries, an
  unsigned int in C, is a natural number here: each entry takes 32 bytes, so that the two differ
  only once the entries fill 128 gigabytes.
\<close>

section \<open>Tables\<close>

record ('k, 'v) entry =
  e_k :: 'k
  e_v :: 'v
  e_h :: "32 word"

record ('k, 'v) hashtable =
  table :: "('k, 'v) entry list list"
  tablelength :: nat
  entrycount :: nat
  loadlimit :: nat
  primeindex :: nat
  hashfn :: "'k \<Rightarrow> 32 word"

definition table_primes :: "nat list" where
  "table_primes = [2, 17, 53, 97, 193, 389, 769, 1543, 3079, 6151, 12289, 24593, 49157, 98317,
     196613, 393241, 786433, 1572869, 3145739, 6291469, 12582917, 25165843,
     50331653, 100663319, 201326611, 402653189, 805306457, 1610612741]"

definition prime_table_length :: nat where
  "prime_table_length = 28"

text \<open>
  \<open>ceil(size * 0.65)\<close>. No size is a multiple of 20, so that \<open>0.65 * size\<close> is far from an
  integer and the rounding of doubles does not change its ceiling.
\<close>

definition load_limit :: "nat \<Rightarrow> nat" where
  "load_limit n = (13 * n + 19) div 20"

fun prime_at_least :: "nat \<Rightarrow> nat list \<Rightarrow> nat \<Rightarrow> nat" where
  "prime_at_least n [] i = i"
| "prime_at_least n (p # ps) i = (if n \<le> p then i else prime_at_least n ps (i + 1))"

definition create_hashtable1 :: "nat \<Rightarrow> ('k \<Rightarrow> 32 word) \<Rightarrow> ('k, 'v) hashtable option" where
  "create_hashtable1 minsize hashf =
     (if minsize > 2 ^ 30 then None
      else let pindex = prime_at_least minsize table_primes 0;
               n = (if pindex < prime_table_length then table_primes ! pindex else table_primes ! 0)
           in Some \<lparr>table = replicate n [], tablelength = n, entrycount = 0, loadlimit = load_limit n,
                    primeindex = pindex, hashfn = hashf\<rparr>)"

definition hash1 :: "('k, 'v) hashtable \<Rightarrow> 'k \<Rightarrow> 32 word" where
  "hash1 h k =
     (let i = hashfn h k;
          i1 = i + NOT (push_bit 9 i);
          i2 = i1 XOR (drop_bit 14 i1 OR push_bit 18 i1);
          i3 = i2 + push_bit 4 i2
      in i3 XOR (drop_bit 10 i3 OR push_bit 22 i3))"

definition indexFor :: "nat \<Rightarrow> 32 word \<Rightarrow> nat" where
  "indexFor n hashvalue = unat hashvalue mod n"

definition move_entry :: "nat \<Rightarrow> ('k, 'v) entry \<Rightarrow> ('k, 'v) entry list list \<Rightarrow> ('k, 'v) entry list list" where
  "move_entry newsize e newtable =
     (let index = indexFor newsize (e_h e) in newtable[index := e # newtable ! index])"

definition hashtable1_expand :: "('k, 'v) hashtable \<Rightarrow> ('k, 'v) hashtable" where
  "hashtable1_expand h =
     (if primeindex h = prime_table_length - 1 then h
      else let newsize = table_primes ! (primeindex h + 1)
           in h\<lparr>table := fold (fold (move_entry newsize)) (table h) (replicate newsize []),
                tablelength := newsize, loadlimit := load_limit newsize, primeindex := primeindex h + 1\<rparr>)"

definition hashtable1_count :: "('k, 'v) hashtable \<Rightarrow> nat" where
  "hashtable1_count h = entrycount h"

definition hashtable1_insert :: "('k, 'v) hashtable \<Rightarrow> 'k \<Rightarrow> 'v \<Rightarrow> ('k, 'v) hashtable" where
  "hashtable1_insert h k v =
     (let h1 = h\<lparr>entrycount := entrycount h + 1\<rparr>;
          h2 = (if entrycount h1 > loadlimit h1 then hashtable1_expand h1 else h1);
          e = \<lparr>e_k = k, e_v = v, e_h = hash1 h2 k\<rparr>;
          index = indexFor (tablelength h2) (e_h e)
      in h2\<lparr>table := (table h2)[index := e # table h2 ! index]\<rparr>)"

fun search_chain :: "32 word \<Rightarrow> 'k \<Rightarrow> ('k, 'v) entry list \<Rightarrow> 'v option" where
  "search_chain hv k [] = None"
| "search_chain hv k (e # es) = (if hv = e_h e \<and> k = e_k e then Some (e_v e) else search_chain hv k es)"

definition hashtable1_search :: "('k, 'v) hashtable \<Rightarrow> 'k \<Rightarrow> 'v option" where
  "hashtable1_search h k = (let hv = hash1 h k in search_chain hv k (table h ! indexFor (tablelength h) hv))"

fun remove_chain :: "32 word \<Rightarrow> 'k \<Rightarrow> ('k, 'v) entry list \<Rightarrow> ('v \<times> ('k, 'v) entry list) option" where
  "remove_chain hv k [] = None"
| "remove_chain hv k (e # es) =
     (if hv = e_h e \<and> k = e_k e then Some (e_v e, es) else map_option (apsnd ((#) e)) (remove_chain hv k es))"

definition hashtable1_remove :: "('k, 'v) hashtable \<Rightarrow> 'k \<Rightarrow> 'v option \<times> ('k, 'v) hashtable" where
  "hashtable1_remove h k =
     (let hv = hash1 h k; index = indexFor (tablelength h) hv
      in case remove_chain hv k (table h ! index) of
           None \<Rightarrow> (None, h)
         | Some (v, es) \<Rightarrow> (Some v, h\<lparr>table := (table h)[index := es], entrycount := entrycount h - 1\<rparr>))"

section \<open>Iterators\<close>

text \<open>
  An iterator is at an entry, which is the rest of its chain from there on; at the end of
  the table this is NULL, the empty list. The \<open>parent\<close> field serves only the removal through
  an iterator.
\<close>

record ('k, 'v) hashtable_itr =
  it_index :: nat
  it_e :: "('k, 'v) entry list"

fun next_chain :: "('k, 'v) entry list list \<Rightarrow> nat \<Rightarrow> nat \<times> ('k, 'v) entry list" where
  "next_chain [] j = (j, [])"
| "next_chain (es # ess) j = (if es \<noteq> [] then (j, es) else next_chain ess (j + 1))"

definition hashtable1_iterator :: "('k, 'v) hashtable \<Rightarrow> ('k, 'v) hashtable_itr" where
  "hashtable1_iterator h =
     (if entrycount h = 0 then \<lparr>it_index = tablelength h, it_e = []\<rparr>
      else case next_chain (table h) 0 of (i, es) \<Rightarrow> \<lparr>it_index = i, it_e = es\<rparr>)"

definition hashtable1_iterator_value :: "('k, 'v) hashtable_itr \<Rightarrow> 'v" where
  "hashtable1_iterator_value itr = e_v (hd (it_e itr))"

definition hashtable1_iterator_advance :: "('k, 'v) hashtable \<Rightarrow> ('k, 'v) hashtable_itr \<Rightarrow> bool \<times> ('k, 'v) hashtable_itr" where
  "hashtable1_iterator_advance h itr =
     (if it_e itr = [] then (False, itr)
      else if tl (it_e itr) \<noteq> [] then (True, itr\<lparr>it_e := tl (it_e itr)\<rparr>)
      else let j = it_index itr + 1
           in if tablelength h \<le> j then (False, itr\<lparr>it_index := j, it_e := []\<rparr>)
              else case next_chain (drop j (table h)) j of
                     (i, es) \<Rightarrow> (es \<noteq> [], itr\<lparr>it_index := i, it_e := es\<rparr>))"

section \<open>A table is a map\<close>

definition all_entries :: "('k, 'v) hashtable \<Rightarrow> ('k, 'v) entry list" where
  "all_entries h = concat (table h)"

definition ht_values :: "('k, 'v) hashtable \<Rightarrow> 'v list" where
  "ht_values h = map e_v (all_entries h)"

definition ht_map :: "('k, 'v) hashtable \<Rightarrow> 'k \<rightharpoonup> 'v" where
  "ht_map h = map_of (map (\<lambda>e. (e_k e, e_v e)) (all_entries h))"

definition placed :: "('k, 'v) hashtable \<Rightarrow> nat \<Rightarrow> ('k, 'v) entry list list \<Rightarrow> bool" where
  "placed h n ess \<longleftrightarrow> length ess = n \<and> (\<forall>i < n. \<forall>e \<in> set (ess ! i). e_h e = hash1 h (e_k e) \<and> indexFor n (hash1 h (e_k e)) = i)"

definition ht_core :: "('k, 'v) hashtable \<Rightarrow> bool" where
  "ht_core h \<longleftrightarrow> primeindex h < prime_table_length \<and> tablelength h = table_primes ! primeindex h \<and>
     loadlimit h = load_limit (tablelength h) \<and> placed h (tablelength h) (table h) \<and> distinct (map e_k (all_entries h))"

definition ht_ok :: "('k, 'v) hashtable \<Rightarrow> bool" where
  "ht_ok h \<longleftrightarrow> ht_core h \<and> entrycount h = length (all_entries h) \<and>
     (entrycount h \<le> loadlimit h \<or> primeindex h = prime_table_length - 1)"

lemma length_primes [simp]: "length table_primes = prime_table_length"
  by (simp add: table_primes_def prime_table_length_def)

lemma primes_pos: "i < prime_table_length \<Longrightarrow> 0 < table_primes ! i"
proof -
  have "\<forall>p \<in> set table_primes. 0 < p" by (simp add: table_primes_def)
  then show "i < prime_table_length \<Longrightarrow> 0 < table_primes ! i" by simp
qed

lemma limits_grow:
  assumes "i + 1 < prime_table_length"
  shows "load_limit (table_primes ! i) < load_limit (table_primes ! (i + 1))"
proof -
  have "\<forall>(p, q) \<in> set (zip table_primes (tl table_primes)). load_limit p < load_limit q" by (simp add: table_primes_def load_limit_def)
  moreover have "(table_primes ! i, table_primes ! (i + 1)) \<in> set (zip table_primes (tl table_primes))"
    using assms by (auto simp: in_set_zip nth_tl intro!: exI [of _ i])
  ultimately show ?thesis by auto
qed

lemma indexFor_less: "0 < n \<Longrightarrow> indexFor n hv < n"
  by (simp add: indexFor_def)

lemma ht_coreD:
  assumes "ht_core h"
  shows "0 < tablelength h" "length (table h) = tablelength h" "distinct (map e_k (all_entries h))"
    "i < tablelength h \<Longrightarrow> e \<in> set (table h ! i) \<Longrightarrow> e_h e = hash1 h (e_k e) \<and> indexFor (tablelength h) (hash1 h (e_k e)) = i"
proof -
  have p: "placed h (tablelength h) (table h)" and "primeindex h < prime_table_length" "tablelength h = table_primes ! primeindex h"
    using assms unfolding ht_core_def by blast+
  then show "0 < tablelength h" using primes_pos by simp
  show "length (table h) = tablelength h" using p by (simp add: placed_def)
  show "i < tablelength h \<Longrightarrow> e \<in> set (table h ! i) \<Longrightarrow> e_h e = hash1 h (e_k e) \<and> indexFor (tablelength h) (hash1 h (e_k e)) = i"
    using p unfolding placed_def by blast
  show "distinct (map e_k (all_entries h))" using assms by (simp add: ht_core_def)
qed

lemma ht_ok_core: "ht_ok h \<Longrightarrow> ht_core h"
  by (simp add: ht_ok_def)

lemma hash1_cong: "hashfn h = hashfn g \<Longrightarrow> hash1 h = hash1 g"
  by (simp add: hash1_def fun_eq_iff)

lemma placed_cong: "hashfn h = hashfn g \<Longrightarrow> placed h = placed g"
  using hash1_cong [of h g] by (simp add: placed_def fun_eq_iff)

lemma chain_at: "i < length ess \<Longrightarrow> set (ess ! i) \<subseteq> set (concat ess)"
  by (auto intro!: bexI [of _ "ess ! i"])

text \<open>The entries of a key are in the chain its hash value selects.\<close>

lemma entry_chain:
  assumes ok: "ht_core h"
  shows "e \<in> set (all_entries h) \<longleftrightarrow> e \<in> set (table h ! indexFor (tablelength h) (hash1 h (e_k e)))"
proof
  assume "e \<in> set (all_entries h)"
  then obtain es where "es \<in> set (table h)" "e \<in> set es" by (auto simp: all_entries_def)
  then obtain i where "i < tablelength h" "e \<in> set (table h ! i)" using ht_coreD(2) [OF ok] by (metis in_set_conv_nth)
  then show "e \<in> set (table h ! indexFor (tablelength h) (hash1 h (e_k e)))" using ht_coreD(4) [OF ok] by metis
next
  assume "e \<in> set (table h ! indexFor (tablelength h) (hash1 h (e_k e)))"
  then show "e \<in> set (all_entries h)"
    using chain_at [of _ "table h"] indexFor_less [OF ht_coreD(1) [OF ok]] ht_coreD(2) [OF ok] by (auto simp: all_entries_def)
qed

lemma ht_map_iff: "ht_core h \<Longrightarrow> ht_map h k = Some v \<longleftrightarrow> (\<exists>e \<in> set (all_entries h). e_k e = k \<and> e_v e = v)"
  by (auto simp: ht_map_def ht_core_def comp_def image_iff map_of_eq_Some_iff)

lemma search_chain_Some: "search_chain hv k es = Some v \<Longrightarrow> \<exists>e \<in> set es. e_h e = hv \<and> e_k e = k \<and> e_v e = v"
  by (induction es) (auto split: if_splits)

lemma search_chain_None: "search_chain hv k es = None \<longleftrightarrow> (\<forall>e \<in> set es. \<not> (e_h e = hv \<and> e_k e = k))"
  by (induction es) auto

lemma search_map:
  assumes ok: "ht_core h"
  shows "hashtable1_search h k = ht_map h k"
proof (cases "hashtable1_search h k")
  case (Some v)
  let ?i = "indexFor (tablelength h) (hash1 h k)"
  obtain e where "e \<in> set (table h ! ?i)" "e_k e = k" "e_v e = v"
    using search_chain_Some Some by (fastforce simp: hashtable1_search_def Let_def)
  then have "ht_map h k = Some v" using ht_map_iff [OF ok] entry_chain [OF ok] by auto
  then show ?thesis using Some by simp
next
  case None
  have "\<not> (\<exists>e \<in> set (all_entries h). e_k e = k)"
  proof
    assume "\<exists>e \<in> set (all_entries h). e_k e = k"
    then obtain e where e: "e \<in> set (table h ! indexFor (tablelength h) (hash1 h k))" "e_k e = k" using entry_chain [OF ok] by auto
    moreover have "e_h e = hash1 h k" using ht_coreD(4) [OF ok indexFor_less [OF ht_coreD(1) [OF ok]] e(1)] e(2) by simp
    ultimately show False using None search_chain_None by (metis hashtable1_search_def)
  qed
  then show ?thesis using None ht_map_iff [OF ok] by (cases "ht_map h k") auto
qed


text \<open>Two tables with the same entries in another order are the same map.\<close>

lemma map_of_entries:
  "distinct (map e_k es) \<Longrightarrow> mset es = mset fs \<Longrightarrow> map_of (map (\<lambda>e. (e_k e, e_v e)) es) = map_of (map (\<lambda>e. (e_k e, e_v e)) fs)"
proof -
  assume d: "distinct (map e_k es)" and m: "mset es = mset fs"
  have "distinct (map e_k fs)" using d m by (metis mset_eq_imp_distinct_iff mset_map)
  moreover have "set es = set fs" using m by (rule mset_eq_setD)
  moreover have "set (map (\<lambda>e. (e_k e, e_v e)) es) = set (map (\<lambda>e. (e_k e, e_v e)) fs)" using \<open>set es = set fs\<close> by simp
  ultimately show ?thesis using d by (intro map_of_inject_set [THEN iffD2]) (simp_all add: comp_def)
qed

lemma concat_update: "i < length xs \<Longrightarrow> mset (concat (xs[i := ys])) + mset (xs ! i) = mset (concat xs) + mset ys"
proof (induction xs arbitrary: i)
  case (Cons x xs)
  then show ?case by (cases i) (simp_all add: ac_simps)
qed simp

lemma concat_add: "i < length xs \<Longrightarrow> mset (concat (xs[i := e # xs ! i])) = add_mset e (mset (concat xs))"
  using concat_update [of i xs "e # xs ! i"] by simp

lemma move_entry_ok:
  assumes p: "placed h n nt" and n: "0 < n" and e: "e_h e = hash1 h (e_k e)"
  shows "placed h n (move_entry n e nt)" "mset (concat (move_entry n e nt)) = add_mset e (mset (concat nt))"
proof -
  let ?i = "indexFor n (e_h e)"
  have i: "?i < length nt" using p indexFor_less [OF n] by (simp add: placed_def)
  show "mset (concat (move_entry n e nt)) = add_mset e (mset (concat nt))" using concat_add [OF i] by (simp add: move_entry_def Let_def)
  have "e_h f = hash1 h (e_k f) \<and> indexFor n (hash1 h (e_k f)) = j" if "j < n" "f \<in> set (move_entry n e nt ! j)" for j f
  proof (cases "f = e \<and> j = ?i")
    case True
    then show ?thesis using e by simp
  next
    case False
    then have "f \<in> set (nt ! j)" using that i by (cases "j = ?i") (auto simp: move_entry_def Let_def)
    moreover have q: "\<forall>i < n. \<forall>e \<in> set (nt ! i). e_h e = hash1 h (e_k e) \<and> indexFor n (hash1 h (e_k e)) = i" using p by (simp add: placed_def)
    ultimately show ?thesis using q [rule_format, OF that(1), of f] by simp
  qed
  moreover have "length (move_entry n e nt) = n" using p by (simp add: placed_def move_entry_def Let_def)
  ultimately show "placed h n (move_entry n e nt)" unfolding placed_def by blast
qed

lemma move_chain_ok:
  "placed h n nt \<Longrightarrow> 0 < n \<Longrightarrow> \<forall>e \<in> set es. e_h e = hash1 h (e_k e) \<Longrightarrow>
    placed h n (fold (move_entry n) es nt) \<and> mset (concat (fold (move_entry n) es nt)) = mset es + mset (concat nt)"
proof (induction es arbitrary: nt)
  case (Cons e es)
  then show ?case using move_entry_ok [of h n nt e] by simp
qed simp

lemma move_table_ok:
  "placed h n nt \<Longrightarrow> 0 < n \<Longrightarrow> \<forall>es \<in> set ess. \<forall>e \<in> set es. e_h e = hash1 h (e_k e) \<Longrightarrow>
    placed h n (fold (fold (move_entry n)) ess nt) \<and> mset (concat (fold (fold (move_entry n)) ess nt)) = mset (concat ess) + mset (concat nt)"
proof (induction ess arbitrary: nt)
  case (Cons es ess)
  then show ?case using move_chain_ok [of h n nt es] by (simp add: ac_simps)
qed simp

text \<open>Moving to the next size keeps the entries.\<close>

lemma expand_table_ok:
  assumes c: "ht_core h"
  defines "g \<equiv> hashtable1_expand h"
  shows "ht_core g" "mset (all_entries g) = mset (all_entries h)" "hashfn g = hashfn h" "entrycount g = entrycount h"
    "loadlimit h < loadlimit g \<or> primeindex g = prime_table_length - 1"
    "primeindex h = prime_table_length - 1 \<Longrightarrow> primeindex g = prime_table_length - 1"
proof -
  have "ht_core g \<and> mset (all_entries g) = mset (all_entries h) \<and> hashfn g = hashfn h \<and> entrycount g = entrycount h \<and>
    (loadlimit h < loadlimit g \<or> primeindex g = prime_table_length - 1)"
  proof (cases "primeindex h = prime_table_length - 1")
    case True
    then show ?thesis using c by (simp add: g_def hashtable1_expand_def)
  next
    case False
    let ?n = "table_primes ! (primeindex h + 1)"
    have i: "primeindex h + 1 < prime_table_length" using False c unfolding ht_core_def by linarith
    have "\<forall>es \<in> set (table h). \<forall>e \<in> set es. e_h e = hash1 h (e_k e)"
      using ht_coreD(2,4) [OF c] by (metis in_set_conv_nth)
    from move_table_ok [OF _ primes_pos [OF i] this, of "replicate ?n []"]
    have m: "placed h ?n (table g)" "mset (all_entries g) = mset (all_entries h)"
      using False by (auto simp: placed_def g_def hashtable1_expand_def Let_def all_entries_def)
    have f: "tablelength g = ?n" "loadlimit g = load_limit ?n" "primeindex g = primeindex h + 1" "hashfn g = hashfn h" "entrycount g = entrycount h"
      using False by (simp_all add: g_def hashtable1_expand_def Let_def)
    have "loadlimit h < loadlimit g" using limits_grow [OF i] c f(2) by (simp add: ht_core_def)
    moreover have "distinct (map e_k (all_entries g))"
      using m(2) ht_coreD(3) [OF c] by (metis mset_eq_imp_distinct_iff mset_map)
    moreover have "placed g ?n (table g)" using m(1) placed_cong [OF f(4)] by simp
    ultimately show ?thesis using m(2) f i by (simp add: ht_core_def)
  qed
  then show "ht_core g" "mset (all_entries g) = mset (all_entries h)" "hashfn g = hashfn h" "entrycount g = entrycount h"
    "loadlimit h < loadlimit g \<or> primeindex g = prime_table_length - 1" by simp_all
  show "primeindex h = prime_table_length - 1 \<Longrightarrow> primeindex g = prime_table_length - 1" by (simp add: g_def hashtable1_expand_def)
qed

lemma insert_ok:
  assumes ok: "ht_ok h" and k: "ht_map h k = None"
  shows "ht_ok (hashtable1_insert h k v)" "mset (all_entries (hashtable1_insert h k v)) = add_mset \<lparr>e_k = k, e_v = v, e_h = hash1 h k\<rparr> (mset (all_entries h))"
    "hashfn (hashtable1_insert h k v) = hashfn h"
proof -
  let ?g = "hashtable1_insert h k v" and ?e = "\<lparr>e_k = k, e_v = v, e_h = hash1 h k\<rparr>"
  define h1 where "h1 = h\<lparr>entrycount := entrycount h + 1\<rparr>"
  define h2 where "h2 = (if entrycount h1 > loadlimit h1 then hashtable1_expand h1 else h1)"
  have c1: "ht_core h1" "mset (all_entries h1) = mset (all_entries h)" "hashfn h1 = hashfn h"
    using ok placed_cong [of h1 h] by (auto simp: h1_def ht_ok_def ht_core_def all_entries_def)
  have c2: "ht_core h2" "mset (all_entries h2) = mset (all_entries h)" "hashfn h2 = hashfn h" "entrycount h2 = entrycount h + 1"
    "entrycount h2 \<le> loadlimit h2 \<or> primeindex h2 = prime_table_length - 1"
    using c1 expand_table_ok [OF c1(1)] ok unfolding h2_def by (auto simp: h1_def ht_ok_def)
  have hh: "hash1 h2 = hash1 h" by (rule hash1_cong [OF c2(3)])
  let ?i = "indexFor (tablelength h2) (hash1 h k)"
  have g: "?g = h2\<lparr>table := move_entry (tablelength h2) ?e (table h2)\<rparr>"
    unfolding hashtable1_insert_def Let_def move_entry_def entry.simps hh [symmetric] h2_def h1_def by simp
  have e: "e_h ?e = hash1 h2 (e_k ?e)" using hh by simp
  have pl: "placed h2 (tablelength h2) (table h2)" using c2(1) unfolding ht_core_def by blast
  note M = move_entry_ok [OF pl ht_coreD(1) [OF c2(1)] e]
  show m: "mset (all_entries ?g) = add_mset ?e (mset (all_entries h))" using M(2) c2(2) unfolding g by (simp add: all_entries_def)
  show "hashfn ?g = hashfn h" using c2(3) unfolding g by simp
  have "k \<notin> set (map e_k (all_entries h))" using k by (simp add: ht_map_def map_of_eq_None_iff image_image)
  then have "distinct (map e_k (?e # all_entries h))" using ht_coreD(3) [OF ht_ok_core [OF ok]] by simp
  moreover have "mset (map e_k (all_entries ?g)) = mset (map e_k (?e # all_entries h))" using m by simp
  ultimately have d: "distinct (map e_k (all_entries ?g))" by (metis mset_eq_imp_distinct_iff)
  have "length (all_entries ?g) = Suc (length (all_entries h))" using m by (metis size_add_mset size_mset)
  moreover have "placed ?g (tablelength h2) (table ?g)" using M(1) placed_cong [of ?g h2] unfolding g by simp
  ultimately show "ht_ok ?g" using d c2 ok unfolding ht_ok_def ht_core_def g by simp
qed

lemma insert_map:
  assumes ok: "ht_ok h" and k: "ht_map h k = None"
  shows "ht_map (hashtable1_insert h k v) = (ht_map h)(k \<mapsto> v)"
proof -
  have "mset (all_entries (hashtable1_insert h k v)) = mset (\<lparr>e_k = k, e_v = v, e_h = hash1 h k\<rparr> # all_entries h)"
    using insert_ok(2) [OF ok k] by simp
  then have "ht_map (hashtable1_insert h k v) = map_of (map (\<lambda>e. (e_k e, e_v e)) (\<lparr>e_k = k, e_v = v, e_h = hash1 h k\<rparr> # all_entries h))"
    unfolding ht_map_def using ht_coreD(3) [OF ht_ok_core [OF insert_ok(1) [OF ok k]]] by (intro map_of_entries) simp_all
  then show ?thesis by (simp add: ht_map_def)
qed

lemma remove_chain_Some:
  "remove_chain hv k es = Some (v, fs) \<Longrightarrow> \<exists>e. e_k e = k \<and> e_v e = v \<and> mset es = add_mset e (mset fs)"
  by (induction es arbitrary: fs) (auto split: if_splits)

lemma remove_chain_None: "remove_chain hv k es = None \<longleftrightarrow> search_chain hv k es = None"
  by (induction es) auto

lemma remove_ok:
  assumes ok: "ht_ok h"
  shows "fst (hashtable1_remove h k) = ht_map h k" "ht_ok (snd (hashtable1_remove h k))"
    "ht_map (snd (hashtable1_remove h k)) = (ht_map h)(k := None)" "hashfn (snd (hashtable1_remove h k)) = hashfn h"
    "ht_map h k = Some v \<Longrightarrow> mset (ht_values h) = add_mset v (mset (ht_values (snd (hashtable1_remove h k))))"
proof -
  note c = ht_ok_core [OF ok]
  let ?i = "indexFor (tablelength h) (hash1 h k)" and ?g = "snd (hashtable1_remove h k)"
  have i: "?i < length (table h)" using ht_coreD(1,2) [OF c] indexFor_less by simp
  have "fst (hashtable1_remove h k) = ht_map h k \<and> ht_ok ?g \<and> ht_map ?g = (ht_map h)(k := None) \<and> hashfn ?g = hashfn h \<and>
    (ht_map h k = Some v \<longrightarrow> mset (ht_values h) = add_mset v (mset (ht_values ?g)))"
  proof (cases "remove_chain (hash1 h k) k (table h ! ?i)")
    case None
    then have "ht_map h k = None"
      unfolding search_map [OF c, symmetric] by (simp add: hashtable1_search_def Let_def remove_chain_None)
    then show ?thesis using None ok by (auto simp: hashtable1_remove_def Let_def)
  next
    case (Some p)
    obtain u fs where p: "p = (u, fs)" by (cases p)
    from remove_chain_Some [OF Some [unfolded p]] obtain e where e: "e_k e = k" "e_v e = u" "mset (table h ! ?i) = add_mset e (mset fs)" by blast
    have g: "hashtable1_remove h k = (Some u, h\<lparr>table := (table h)[?i := fs], entrycount := entrycount h - 1\<rparr>)"
      using Some p by (simp add: hashtable1_remove_def Let_def)
    have m: "mset (all_entries h) = add_mset e (mset (all_entries ?g))"
      using concat_update [OF i, of fs] e(3) unfolding g by (simp add: all_entries_def)
    have "mset (map e_k (all_entries h)) = mset (map e_k (e # all_entries ?g))" using m by simp
    then have d: "distinct (map e_k (e # all_entries ?g))" using ht_coreD(3) [OF c] by (metis mset_eq_imp_distinct_iff)
    have "ht_map h = map_of (map (\<lambda>e. (e_k e, e_v e)) (e # all_entries ?g))"
      unfolding ht_map_def by (rule map_of_entries) (use ht_coreD(3) [OF c] m in simp_all)
    then have hm: "ht_map h = (ht_map ?g)(k \<mapsto> u)" using e by (simp add: ht_map_def)
    have "ht_map ?g k = None" using d e(1) by (auto simp: ht_map_def map_of_eq_None_iff image_iff)
    then have mp: "ht_map ?g = (ht_map h)(k := None)" unfolding hm by (auto simp: fun_eq_iff)
    have sub: "set fs \<subseteq> set (table h ! ?i)" using e(3) by (metis set_mset_mset set_mset_add_mset_insert subset_insertI)
    have "placed ?g (tablelength h) (table ?g)" unfolding placed_def
    proof (intro conjI allI ballI impI)
      show "length (table ?g) = tablelength h" using ht_coreD(2) [OF c] unfolding g by simp
      fix j f assume j: "j < tablelength h" "f \<in> set (table ?g ! j)"
      then have "f \<in> set (table h ! j)" using sub i unfolding g by (cases "j = ?i") auto
      then show "e_h f = hash1 ?g (e_k f)" "indexFor (tablelength h) (hash1 ?g (e_k f)) = j"
        using ht_coreD(4) [OF c j(1)] hash1_cong [of ?g h] unfolding g by simp_all
    qed
    moreover have "length (all_entries h) = Suc (length (all_entries ?g))" using m by (metis size_add_mset size_mset)
    ultimately have "ht_ok ?g" using d ok unfolding g by (auto simp: ht_ok_def ht_core_def)
    moreover have "mset (ht_values h) = add_mset u (mset (ht_values ?g))" using m e(2) by (simp add: ht_values_def)
    ultimately show ?thesis using mp hm g by auto
  qed
  then show "fst (hashtable1_remove h k) = ht_map h k" "ht_ok ?g" "ht_map ?g = (ht_map h)(k := None)" "hashfn ?g = hashfn h"
    "ht_map h k = Some v \<Longrightarrow> mset (ht_values h) = add_mset v (mset (ht_values ?g))" by blast+
qed


lemma create_ok:
  assumes "n \<le> 2 ^ 30"
  shows "\<exists>h. create_hashtable1 n f = Some h \<and> ht_ok h \<and> ht_map h = Map.empty \<and> all_entries h = []"
proof -
  have b: "prime_at_least n ps j < j + length ps" if "\<exists>p \<in> set ps. n \<le> p" for ps j
    using that
  proof (induction ps arbitrary: j)
    case (Cons p ps)
    then show ?case using Cons.IH [of "j + 1"] by (cases "n \<le> p") simp_all
  qed simp
  have "\<exists>p \<in> set table_primes. n \<le> p" using assms by (intro bexI [of _ 1610612741]) (simp_all add: table_primes_def)
  from b [OF this, of 0] have i: "prime_at_least n table_primes 0 < prime_table_length" by simp
  have "concat (replicate k []) = []" for k by (induction k) simp_all
  then show ?thesis using assms i
    by (simp add: create_hashtable1_def Let_def ht_ok_def ht_core_def placed_def ht_map_def all_entries_def)
qed

text \<open>C25: a hash table implements a map from keys to values through all its moves to a larger size: searching
  gives the value of the key, removing gives it and forgets the key, and inserting a key that is not
  in the table adds it; the table stays in order, below its load limit.\<close>

theorem hashtable_refines_map:
  assumes "ht_ok h"
  shows "hashtable1_search h k = ht_map h k \<and> fst (hashtable1_remove h k) = ht_map h k \<and>
    ht_ok (snd (hashtable1_remove h k)) \<and> ht_map (snd (hashtable1_remove h k)) = (ht_map h)(k := None) \<and>
    (ht_map h k = None \<longrightarrow> ht_ok (hashtable1_insert h k v) \<and> ht_map (hashtable1_insert h k v) = (ht_map h)(k \<mapsto> v))"
  using search_map [OF ht_ok_core [OF assms]] remove_ok [OF assms] insert_ok(1) [OF assms] insert_map [OF assms] by blast

theorem hashtable_refines_map_witness:
  "ht_map (hashtable1_insert (the (create_hashtable1 1 (\<lambda>_. 0))) (5 :: int) True) = [5 \<mapsto> True]"
proof -
  obtain h :: "(int, bool) hashtable" where h: "create_hashtable1 1 (\<lambda>_. 0) = Some h" "ht_ok h" "ht_map h = Map.empty"
    using create_ok [of 1 "\<lambda>_. 0"] by auto
  show ?thesis using hashtable_refines_map [OF h(2), of 5 True] h(1,3) by simp
qed

section \<open>Iterating over a table\<close>

text \<open>The iterator is at the first of the entries \<open>es\<close> that remain.\<close>

definition itr_at :: "('k, 'v) hashtable \<Rightarrow> ('k, 'v) hashtable_itr \<Rightarrow> ('k, 'v) entry list \<Rightarrow> bool" where
  "itr_at h itr es \<longleftrightarrow> it_e itr \<noteq> [] \<and> it_index itr < length (table h) \<and> es = it_e itr @ concat (drop (Suc (it_index itr)) (table h))"

lemma next_chain_ok:
  "next_chain ess j = (i, es) \<Longrightarrow> if es = [] then concat ess = []
     else j \<le> i \<and> i < j + length ess \<and> concat ess = es @ concat (drop (Suc i - j) ess)"
proof (induction ess arbitrary: j)
  case (Cons fs ess)
  show ?case
  proof (cases "fs = []")
    case True
    then have n: "next_chain ess (j + 1) = (i, es)" using Cons.prems by simp
    show ?thesis using Cons.IH [OF n] True by (auto simp: Suc_diff_le split: if_splits)
  next
    case False
    then show ?thesis using Cons.prems by auto
  qed
qed simp

lemma iterator_at:
  assumes ok: "ht_ok h" and n: "hashtable1_count h \<noteq> 0"
  shows "itr_at h (hashtable1_iterator h) (all_entries h)"
proof -
  obtain i es where N: "next_chain (table h) 0 = (i, es)" by (cases "next_chain (table h) 0")
  have "all_entries h \<noteq> []" using ok n by (auto simp: ht_ok_def hashtable1_count_def)
  then show ?thesis using next_chain_ok [OF N] N n
    by (auto simp: itr_at_def hashtable1_iterator_def hashtable1_count_def all_entries_def split: if_splits)
qed

lemma advance_at:
  assumes at: "itr_at h itr (e # es)" and ok: "ht_ok h"
  shows "hashtable1_iterator_value itr = e_v e"
    "fst (hashtable1_iterator_advance h itr) \<longleftrightarrow> es \<noteq> []"
    "es \<noteq> [] \<Longrightarrow> itr_at h (snd (hashtable1_iterator_advance h itr)) es"
proof -
  have len: "length (table h) = tablelength h" by (rule ht_coreD(2) [OF ht_ok_core [OF ok]])
  obtain fs where fs: "it_e itr = e # fs" "es = fs @ concat (drop (Suc (it_index itr)) (table h))"
    using at by (cases "it_e itr") (auto simp: itr_at_def)
  show "hashtable1_iterator_value itr = e_v e" using fs by (simp add: hashtable1_iterator_value_def)
  have "(fst (hashtable1_iterator_advance h itr) \<longleftrightarrow> es \<noteq> []) \<and> (es \<noteq> [] \<longrightarrow> itr_at h (snd (hashtable1_iterator_advance h itr)) es)"
  proof (cases "fs = []")
    case True
    obtain i gs where N: "next_chain (drop (Suc (it_index itr)) (table h)) (Suc (it_index itr)) = (i, gs)"
      by (cases "next_chain (drop (Suc (it_index itr)) (table h)) (Suc (it_index itr))")
    show ?thesis
    proof (cases "tablelength h \<le> Suc (it_index itr)")
      case True
      then show ?thesis using \<open>fs = []\<close> fs len by (simp add: hashtable1_iterator_advance_def Let_def)
    next
      case False
      then show ?thesis using \<open>fs = []\<close> fs N next_chain_ok [OF N] len
        by (auto simp: hashtable1_iterator_advance_def Let_def itr_at_def simp del: concat_eq_Nil_conv split: if_splits)
    qed
  next
    case False
    then show ?thesis using fs at by (simp add: hashtable1_iterator_advance_def itr_at_def)
  qed
  then show "fst (hashtable1_iterator_advance h itr) \<longleftrightarrow> es \<noteq> []"
    "es \<noteq> [] \<Longrightarrow> itr_at h (snd (hashtable1_iterator_advance h itr)) es" by blast+
qed

section \<open>The interface the call graph uses\<close>

text \<open>
  Edges are looked up, added and removed by key, and enumerated. When the key of every value
  is a function of the value, the values enumerated are distinct.
\<close>

locale edge_table =
  fixes ok :: "'t \<Rightarrow> bool" and look :: "'t \<Rightarrow> 'k \<Rightarrow> 'v option" and ins :: "'t \<Rightarrow> 'k \<Rightarrow> 'v \<Rightarrow> 't"
    and del :: "'t \<Rightarrow> 'k \<Rightarrow> 't" and vals :: "'t \<Rightarrow> 'v list"
  assumes vals_keys: "ok t \<Longrightarrow> \<exists>ks. distinct ks \<and> dom (look t) = set ks \<and> list_all2 (\<lambda>k v. look t k = Some v) ks (vals t)"
    and ins_ok: "ok t \<Longrightarrow> look t k = None \<Longrightarrow> ok (ins t k v)"
    and look_ins: "ok t \<Longrightarrow> look t k = None \<Longrightarrow> look (ins t k v) = (look t)(k \<mapsto> v)"
    and del_ok: "ok t \<Longrightarrow> ok (del t k)"
    and look_del: "ok t \<Longrightarrow> look (del t k) = (look t)(k := None)"
begin

definition keyed :: "('v \<Rightarrow> 'k) \<Rightarrow> 't \<Rightarrow> bool" where
  "keyed key t \<longleftrightarrow> ok t \<and> (\<forall>k v. look t k = Some v \<longrightarrow> key v = k)"

lemma keyed_vals:
  assumes "keyed key t"
  shows "distinct (vals t)" "v \<in> set (vals t) \<longleftrightarrow> look t (key v) = Some v"
proof -
  obtain ks where ks: "distinct ks" "dom (look t) = set ks" "list_all2 (\<lambda>k v. look t k = Some v) ks (vals t)"
    using vals_keys [of t] assms unfolding keyed_def by blast
  have "ks = map key (vals t)"
  proof (rule nth_equalityI)
    show "length ks = length (map key (vals t))" using ks(3) by (simp add: list_all2_lengthD)
    fix i assume "i < length ks"
    then have "i < length (vals t)" "look t (ks ! i) = Some (vals t ! i)" using ks(3) by (simp_all add: list_all2_conv_all_nth)
    then show "ks ! i = map key (vals t) ! i" using assms unfolding keyed_def by simp
  qed
  then show "distinct (vals t)" using ks(1) by (simp add: distinct_map)
  have "length ks = length (vals t)" using ks(3) by (rule list_all2_lengthD)
  show "v \<in> set (vals t) \<longleftrightarrow> look t (key v) = Some v"
  proof
    assume "v \<in> set (vals t)"
    then show "look t (key v) = Some v" using ks(3) \<open>ks = map key (vals t)\<close> by (auto simp: list_all2_conv_all_nth in_set_conv_nth)
  next
    assume l: "look t (key v) = Some v"
    then have "key v \<in> set ks" using ks(2) by auto
    then obtain i where i: "i < length ks" "ks ! i = key v" by (auto simp: in_set_conv_nth)
    then have "look t (key v) = Some (vals t ! i)" "i < length (vals t)" using list_all2_nthD [OF ks(3) i(1)] \<open>length ks = length (vals t)\<close> by auto
    then show "v \<in> set (vals t)" using l by (auto simp: in_set_conv_nth)
  qed
qed

lemma add_edge:
  assumes "keyed key t" "look t (key v) = None"
  shows "keyed key (ins t (key v) v)" "set (vals (ins t (key v) v)) = insert v (set (vals t))"
    "length (vals (ins t (key v) v)) = Suc (length (vals t))"
proof -
  have t: "ok t" using assms by (simp add: keyed_def)
  have l: "look (ins t (key v) v) = (look t)(key v \<mapsto> v)" by (rule look_ins [OF t assms(2)])
  have "key u = k" if "look (ins t (key v) v) k = Some u" for k u
    using that assms(1) unfolding l keyed_def by (cases "k = key v") simp_all
  then show k: "keyed key (ins t (key v) v)" using ins_ok [OF t assms(2)] by (simp add: keyed_def)
  show s: "set (vals (ins t (key v) v)) = insert v (set (vals t))"
  proof (rule set_eqI)
    fix w
    show "w \<in> set (vals (ins t (key v) v)) \<longleftrightarrow> w \<in> insert v (set (vals t))"
      using keyed_vals(2) [OF k, of w] keyed_vals(2) [OF assms(1), of w] assms(2) unfolding l by (cases "key w = key v") auto
  qed
  have "v \<notin> set (vals t)" using keyed_vals(2) [OF assms(1)] assms(2) by simp
  then show "length (vals (ins t (key v) v)) = Suc (length (vals t))"
    using s distinct_card [OF keyed_vals(1) [OF k]] distinct_card [OF keyed_vals(1) [OF assms(1)]] by simp
qed

lemma delete_edge:
  assumes "keyed key t" "look t (key v) = Some v"
  shows "keyed key (del t (key v))" "set (vals (del t (key v))) = set (vals t) - {v}"
    "length (vals t) = Suc (length (vals (del t (key v))))"
proof -
  have t: "ok t" using assms by (simp add: keyed_def)
  have l: "look (del t (key v)) = (look t)(key v := None)" by (rule look_del [OF t])
  have "key u = k" if "look (del t (key v)) k = Some u" for k u
    using that assms(1) unfolding l keyed_def by (cases "k = key v") simp_all
  then show k: "keyed key (del t (key v))" using del_ok [OF t] by (simp add: keyed_def)
  show s: "set (vals (del t (key v))) = set (vals t) - {v}"
  proof (rule set_eqI)
    fix w
    show "w \<in> set (vals (del t (key v))) \<longleftrightarrow> w \<in> set (vals t) - {v}"
      using keyed_vals(2) [OF k, of w] keyed_vals(2) [OF assms(1), of w] assms(2) unfolding l by (cases "key w = key v") auto
  qed
  have "v \<in> set (vals t)" using keyed_vals(2) [OF assms(1)] assms(2) by simp
  then show "length (vals t) = Suc (length (vals (del t (key v))))"
    unfolding distinct_card [OF keyed_vals(1) [OF k], symmetric] distinct_card [OF keyed_vals(1) [OF assms(1)], symmetric] s
    by (simp only: card_Suc_Diff1 [OF finite_set])
qed

end

interpretation ht: edge_table ht_ok hashtable1_search hashtable1_insert "\<lambda>h k. snd (hashtable1_remove h k)" ht_values
proof unfold_locales
  fix t :: "('k, 'v) hashtable" and k v
  assume ok: "ht_ok t"
  note c = ht_ok_core [OF ok]
  have s: "hashtable1_search t = ht_map t" using search_map [OF c] by (simp add: fun_eq_iff)
  have "list_all2 (\<lambda>k v. ht_map t k = Some v) (map e_k (all_entries t)) (ht_values t)"
    using ht_map_iff [OF c] by (auto simp: ht_values_def list_all2_conv_all_nth)
  moreover have "dom (ht_map t) = set (map e_k (all_entries t))" by (simp add: ht_map_def dom_map_of_conv_image_fst image_image)
  ultimately show "\<exists>ks. distinct ks \<and> dom (hashtable1_search t) = set ks \<and> list_all2 (\<lambda>k v. hashtable1_search t k = Some v) ks (ht_values t)"
    unfolding s using ht_coreD(3) [OF c] by blast
  show "ht_ok (snd (hashtable1_remove t k))" by (rule remove_ok(2) [OF ok])
  show "hashtable1_search (snd (hashtable1_remove t k)) = (hashtable1_search t)(k := None)"
    unfolding s using search_map [OF ht_ok_core [OF remove_ok(2) [OF ok]]] remove_ok(3) [OF ok] by (simp add: fun_eq_iff)
  assume k: "hashtable1_search t k = None"
  show "ht_ok (hashtable1_insert t k v)" by (rule insert_ok(1) [OF ok k [unfolded s]])
  show "hashtable1_search (hashtable1_insert t k v) = (hashtable1_search t)(k \<mapsto> v)"
    unfolding s using search_map [OF ht_ok_core [OF insert_ok(1) [OF ok k [unfolded s]]]] insert_map [OF ok k [unfolded s]] by (simp add: fun_eq_iff)
qed

end
