(* ===== verification/Callgraph.thy ===== *)
theory Callgraph imports Hashtable begin

text \<open>
  The incremental dependency graph (\<open>call_graph_xsb.c\<close>, the call nodes of \<open>tries.h\<close>): a node
  for each incremental subgoal and each dynamic leaf, with an edge from a node to every node
  that depends on it. An invalidated node marks what depends on it and counts, for each node
  marked, the marked nodes it depends on; a node that is evaluated again and has not changed
  takes its share of the counts back.

  Call nodes and the records of their outgoing edges are found by addresses, 0 is NULL. Those
  the code allocates are arguments. \<open>falsecount\<close> and \<open>outcount\<close> are bit-fields of 14 bits. The
  counters \<open>current_call_node_count_gl\<close> and so on are integers without bound.
\<close>

section \<open>Nodes and edges\<close>

record callnode =
  outedges :: nat
  inedges :: "nat list"
  goal :: nat
  no_of_answers :: nat
  deleted :: bool
  changed :: bool
  recomputable :: bool
  falsecount :: nat
  outcount :: nat
  prev_call :: nat
  aln :: nat
  cn_id :: int
  idg_dyn_leaf :: bool

record outedge =
  hasht :: "(int, nat) hashtable"
  callnode_of :: nat

record callgraph =
  cn :: "nat \<Rightarrow> callnode"
  oe :: "nat \<Rightarrow> outedge"
  call_node_count :: int
  call_edge_count :: int
  total_call_node_count :: int

definition bits14 :: "nat \<Rightarrow> nat" where
  "bits14 n = n mod 2 ^ 14"

text \<open>Decrementing a bit-field wraps around as well.\<close>

definition dec14 :: "nat \<Rightarrow> nat" where
  "dec14 n = (if n = 0 then 2 ^ 14 - 1 else n - 1)"

definition upd :: "nat \<Rightarrow> (callnode \<Rightarrow> callnode) \<Rightarrow> callgraph \<Rightarrow> callgraph" where
  "upd p f g = g\<lparr>cn := (cn g)(p := f (cn g p))\<rparr>"

definition set_hasht :: "nat \<Rightarrow> (int, nat) hashtable \<Rightarrow> callgraph \<Rightarrow> callgraph" where
  "set_hasht o' h g = g\<lparr>oe := (oe g)(o' := (oe g o')\<lparr>hasht := h\<rparr>)\<rparr>"

definition inc_falsecount :: "nat \<Rightarrow> callgraph \<Rightarrow> callgraph" where
  "inc_falsecount p g = upd p (falsecount_update (\<lambda>n. bits14 (n + 1))) g"

definition hashfromkey :: "int \<Rightarrow> 32 word" where
  "hashfromkey k = word_of_int k"

definition edge_hash :: "callgraph \<Rightarrow> nat \<Rightarrow> (int, nat) hashtable" where
  "edge_hash g p = hasht (oe g (outedges (cn g p)))"

text \<open>\<open>COMPUTE_DEPENDENCIES_FIRST\<close> is \<open>False\<close>, \<open>COMPUTE_DIRECTLY\<close> is \<open>True\<close>.\<close>

definition makecallnode :: "nat \<Rightarrow> nat \<Rightarrow> bool \<Rightarrow> nat \<Rightarrow> callgraph \<Rightarrow> callgraph" where
  "makecallnode p sf dyn_leaf tif g =
     g\<lparr>cn := (cn g)(p := \<lparr>outedges = 0, inedges = [], goal = sf, no_of_answers = 0, deleted = False, changed = False,
         recomputable = False, falsecount = 0, outcount = 0, prev_call = (if dyn_leaf then tif else 0), aln = 0,
         cn_id = total_call_node_count g, idg_dyn_leaf = dyn_leaf\<rparr>),
       total_call_node_count := total_call_node_count g + 1, call_node_count := call_node_count g + 1\<rparr>"

definition initoutedges :: "nat \<Rightarrow> nat \<Rightarrow> callgraph \<Rightarrow> callgraph option" where
  "initoutedges out p g =
     (case create_hashtable1 1 hashfromkey of
        None \<Rightarrow> None
      | Some h \<Rightarrow> Some ((upd p (outedges_update (\<lambda>_. out)) g)\<lparr>oe := (oe g)(out := \<lparr>hasht = h, callnode_of = p\<rparr>)\<rparr>))"

definition addcalledge :: "nat \<Rightarrow> nat \<Rightarrow> callgraph \<Rightarrow> callgraph" where
  "addcalledge fromcn tocn g =
     (let out = outedges (cn g fromcn); h = hasht (oe g out); k1 = cn_id (cn g tocn) in
      if hashtable1_search h k1 = None
      then (upd fromcn (outcount_update (\<lambda>n. bits14 (n + 1)))
             (upd tocn (inedges_update (\<lambda>es. out # es))
               (set_hasht out (hashtable1_insert h k1 tocn) g)))\<lparr>call_edge_count := call_edge_count g + 1\<rparr>
      else g)"

section \<open>Taking edges away\<close>

datatype graph_error = Key_not_found | Outcount_nonzero | New_table_error | Stack_moved

text \<open>
  One in-edge of the node with key \<open>ownkey\<close>: the node is removed from the table of the node it
  comes from.
\<close>

definition drop_in_edge :: "int \<Rightarrow> nat \<Rightarrow> callgraph \<Rightarrow> graph_error + callgraph" where
  "drop_in_edge ownkey out g =
     (case hashtable1_remove (hasht (oe g out)) ownkey of
        (None, _) \<Rightarrow> Inl Key_not_found
      | (Some _, h) \<Rightarrow>
          Inr ((upd (callnode_of (oe g out)) (outcount_update dec14) (set_hasht out h g))\<lparr>call_edge_count := call_edge_count g - 1\<rparr>))"

fun drop_in_edges :: "(nat \<Rightarrow> callgraph \<Rightarrow> bool) \<Rightarrow> int \<Rightarrow> nat list \<Rightarrow> callgraph \<Rightarrow> graph_error + callgraph" where
  "drop_in_edges skip ownkey [] g = Inr g"
| "drop_in_edges skip ownkey (out # es) g =
     (if skip out g then drop_in_edges skip ownkey es g
      else case drop_in_edge ownkey out g of Inl e \<Rightarrow> Inl e | Inr g1 \<Rightarrow> drop_in_edges skip ownkey es g1)"

text \<open>
  The list cells of \<open>inedges\<close> are given back to their pool and the pointer of the node is left
  as it is; the node is about to be deleted.
\<close>

definition delete_dependency_edges :: "nat \<Rightarrow> callgraph \<Rightarrow> graph_error + callgraph" where
  "delete_dependency_edges c g =
     drop_in_edges (\<lambda>out g. cn_id (cn g (callnode_of (oe g out))) = cn_id (cn g c)) (cn_id (cn g c)) (inedges (cn g c)) g"

definition deallocate_previous_call :: "nat \<Rightarrow> callgraph \<Rightarrow> graph_error + callgraph" where
  "deallocate_previous_call c g =
     drop_in_edges (\<lambda>_ _. False) (cn_id (cn g c)) (inedges (cn g c)) (g\<lparr>call_node_count := call_node_count g - 1\<rparr>)"

fun remove_from :: "callgraph \<Rightarrow> nat \<Rightarrow> nat list \<Rightarrow> nat list" where
  "remove_from g c [] = []"
| "remove_from g c (out # es) = (if callnode_of (oe g out) = c then es else out # remove_from g c es)"

text \<open>The loop of \<open>deleteoutedges\<close> over the table of \<open>c\<close>, which does not change meanwhile.\<close>

definition cut_in_edge :: "nat \<Rightarrow> nat \<Rightarrow> callgraph \<Rightarrow> callgraph" where
  "cut_in_edge c q g =
     (if q \<noteq> c then upd q (inedges_update (remove_from g c)) g else g)\<lparr>call_edge_count := call_edge_count g - 1\<rparr>"

partial_function (option) delete_out_loop :: "nat \<Rightarrow> (int, nat) hashtable \<Rightarrow> (int, nat) hashtable_itr \<Rightarrow> callgraph \<Rightarrow> callgraph option" where
  "delete_out_loop c h itr g =
     (let g1 = cut_in_edge c (hashtable1_iterator_value itr) g in
      case hashtable1_iterator_advance h itr of
        (again, itr') \<Rightarrow> if again then delete_out_loop c h itr' g1 else Some g1)"

definition deleteoutedges :: "nat \<Rightarrow> callgraph \<Rightarrow> callgraph option" where
  "deleteoutedges c g =
     (let h = edge_hash g c in
      if hashtable1_count h > 0
      then map_option (upd c (outcount_update (\<lambda>_. 0))) (delete_out_loop c h (hashtable1_iterator h) g)
      else Some g)"

definition deletecallnode :: "nat \<Rightarrow> callgraph \<Rightarrow> graph_error + callgraph" where
  "deletecallnode c g =
     (let g1 = g\<lparr>call_node_count := call_node_count g - 1\<rparr> in
      if outcount (cn g1 c) = 0 then Inr g1 else Inl Outcount_nonzero)"

section \<open>Propagating that nothing has changed\<close>

partial_function (option) propagate_loop :: "(int, nat) hashtable \<Rightarrow> (int, nat) hashtable_itr \<Rightarrow> callgraph \<Rightarrow> callgraph option" where
  "propagate_loop h itr g =
     Option.bind
       (let c = hashtable1_iterator_value itr in
        if falsecount (cn g c) > 0 then
          (let g1 = upd c (falsecount_update dec14) g in
           if falsecount (cn g1 c) = 0 then
             (let g2 = upd c (\<lambda>n. n\<lparr>deleted := False, recomputable := False\<rparr>) g1; h' = edge_hash g2 c in
              if hashtable1_count h' > 0 then propagate_loop h' (hashtable1_iterator h') g2 else Some g2)
           else Some g1)
        else Some g)
       (\<lambda>g'. case hashtable1_iterator_advance h itr of
                (again, itr') \<Rightarrow> if again then propagate_loop h itr' g' else Some g')"

definition propagate_no_change :: "nat \<Rightarrow> callgraph \<Rightarrow> callgraph option" where
  "propagate_no_change c g =
     (if c \<noteq> 0 then
        (let h = edge_hash g c in
         if hashtable1_count h > 0 then propagate_loop h (hashtable1_iterator h) g else Some g)
      else Some g)"

section \<open>Invalidation\<close>

text \<open>
  The stack of the search has 10000 frames. When it is full it is reallocated, but its new
  address is not kept, so that the search goes on in memory it may no longer own; the model
  stops there with \<open>Stack_moved\<close>.

  A frame of the search is a node and the iterator over its table, NULL at first. An
  incomplete table stops the search with an error, which leaves the graph as it is then. Which
  subgoals are completed is known to their frames: \<open>completed\<close>.
\<close>

definition check_non_completed :: "(nat \<Rightarrow> bool) \<Rightarrow> callgraph \<Rightarrow> nat \<Rightarrow> bool" where
  "check_non_completed completed g c \<longleftrightarrow> \<not> idg_dyn_leaf (cn g c) \<and> \<not> completed (goal (cn g c))"

definition dfs_size :: nat where "dfs_size = 10000"

definition push_dfs_frame :: "nat \<Rightarrow> (nat \<times> (int, nat) hashtable_itr option) list \<Rightarrow> (nat \<times> (int, nat) hashtable_itr option) list option" where
  "push_dfs_frame c fs = (if length fs = dfs_size then None else Some ((c, None) # fs))"

fun dfs_next :: "callgraph \<Rightarrow> (nat \<times> (int, nat) hashtable_itr option) list \<Rightarrow> (nat \<times> (int, nat) hashtable_itr option) list" where
  "dfs_next g [] = []"
| "dfs_next g ((c, Some itr) # fs) =
     (case hashtable1_iterator_advance (edge_hash g c) itr of
        (again, itr') \<Rightarrow> if again then (c, Some itr') # fs else dfs_next g fs)"
| "dfs_next g ((c, None) # fs) =
     (let h = edge_hash g c in
      if hashtable1_count h > 0 then (c, Some (hashtable1_iterator h)) # fs else dfs_next g fs)"

partial_function (option) dfs_loop ::
  "(nat \<Rightarrow> bool) \<Rightarrow> (nat \<times> (int, nat) hashtable_itr option) list \<Rightarrow> callgraph \<Rightarrow> ((graph_error \<times> callgraph) + callgraph) option" where
  "dfs_loop completed fs g =
     (case dfs_next g fs of
        (c, Some itr) # fs' \<Rightarrow>
          (let q = hashtable1_iterator_value itr; g1 = inc_falsecount q g in
           if deleted (cn g1 q) then dfs_loop completed ((c, Some itr) # fs') g1
           else if check_non_completed completed g1 q then Some (Inl (New_table_error, g1))
           else let g2 = upd q (deleted_update (\<lambda>_. True)) g1 in
             case push_dfs_frame q ((c, Some itr) # fs') of
               None \<Rightarrow> Some (Inl (Stack_moved, g2))
             | Some fs2 \<Rightarrow> dfs_loop completed fs2 g2)
      | _ \<Rightarrow> Some (Inr g))"

definition dfs_outedges :: "(nat \<Rightarrow> bool) \<Rightarrow> nat \<Rightarrow> callgraph \<Rightarrow> ((graph_error \<times> callgraph) + callgraph) option" where
  "dfs_outedges completed c g =
     (if check_non_completed completed g c then Some (Inl (New_table_error, g))
      else let g1 = (if idg_dyn_leaf (cn g c) then g else upd c (deleted_update (\<lambda>_. True)) g) in
           if hashtable1_count (edge_hash g1 c) > 0
           then (case push_dfs_frame c [] of
                   None \<Rightarrow> Some (Inl (Stack_moved, g1))
                 | Some fs \<Rightarrow> dfs_loop completed fs g1)
           else Some (Inr g1))"

definition invalidate_call :: "(nat \<Rightarrow> bool) \<Rightarrow> nat \<Rightarrow> callgraph \<Rightarrow> ((graph_error \<times> callgraph) + callgraph) option" where
  "invalidate_call completed c g =
     (if deleted (cn g c) then Some (Inr g)
      else dfs_outedges completed c (inc_falsecount c g))"

text \<open>
  A new evaluation of an affected call takes over the outgoing edges of the old node; the old
  node is the one from which \<open>propagate_no_change\<close> starts when the evaluation is complete and
  the answers are the same. The answers themselves, which are marked and deleted then, are not part
  of the graph: \<open>fewer_true_answers\<close> is what is found about them.
\<close>

definition take_over :: "nat \<Rightarrow> nat \<Rightarrow> callgraph \<Rightarrow> callgraph" where
  "take_over new old g =
     (let out = outedges (cn g old);
          g1 = upd new (\<lambda>n. n\<lparr>prev_call := old, outedges := out, outcount := outcount (cn g old)\<rparr>) g;
          g2 = g1\<lparr>oe := (oe g1)(out := (oe g1 out)\<lparr>callnode_of := new\<rparr>)\<rparr>
      in upd old (\<lambda>n. n\<lparr>falsecount := 0, deleted := True\<rparr>) g2)"

definition complete_recomputed :: "bool \<Rightarrow> nat \<Rightarrow> callgraph \<Rightarrow> (graph_error + callgraph) option" where
  "complete_recomputed fewer_true_answers p g =
     (let g1 = upd p (recomputable_update (\<lambda>_. False)) g; pc = prev_call (cn g1 p) in
      if pc \<noteq> 0 then
        (let g2 = (if no_of_answers (cn g1 pc) > 0 \<or> fewer_true_answers then upd pc (changed_update (\<lambda>_. True)) g1 else g1) in
         case (if \<not> changed (cn g2 pc) then propagate_no_change pc g2 else Some g2) of
           None \<Rightarrow> None
         | Some g3 \<Rightarrow> Some (deallocate_previous_call pc (upd p (prev_call_update (\<lambda>_. 0)) g3)))
      else Some (Inr g1))"

text \<open>
  A subgoal that is abolished leaves the graph; the calls that depend on it are invalidated first
  when the flag says so. The caller has found that the subgoal is incremental.
\<close>

definition maybe_detach_incremental_call_single ::
  "(nat \<Rightarrow> bool) \<Rightarrow> bool \<Rightarrow> nat \<Rightarrow> callgraph \<Rightarrow> (graph_error + callgraph) option" where
  "maybe_detach_incremental_call_single completed invalidate_flag c g =
     (case (if invalidate_flag then invalidate_call completed c g else Some (Inr g)) of
        None \<Rightarrow> None
      | Some (Inl (e, _)) \<Rightarrow> Some (Inl e)
      | Some (Inr g1) \<Rightarrow>
          (case deleteoutedges c g1 of
             None \<Rightarrow> None
           | Some g2 \<Rightarrow> Some (case delete_dependency_edges c g2 of Inl e \<Rightarrow> Inl e | Inr g3 \<Rightarrow> deletecallnode c g3)))"

section \<open>The graph of a state\<close>

definition outs :: "callgraph \<Rightarrow> nat \<Rightarrow> nat list" where
  "outs g p = ht_values (edge_hash g p)"

definition dep :: "callgraph \<Rightarrow> nat set \<Rightarrow> (nat \<times> nat) set" where
  "dep g N = {(p, q). p \<in> N \<and> q \<in> set (outs g p)}"

text \<open>What the searches rely on: the tables are in order and lead to nodes that are no leaves.\<close>

definition graph_ok :: "callgraph \<Rightarrow> nat set \<Rightarrow> bool" where
  "graph_ok g N \<longleftrightarrow> finite N \<and> 0 \<notin> N \<and>
     (\<forall>p \<in> N. ht_ok (edge_hash g p) \<and> distinct (outs g p) \<and> set (outs g p) \<subseteq> N \<and> falsecount (cn g p) < 2 ^ 14 \<and>
       (\<forall>q \<in> set (outs g p). \<not> idg_dyn_leaf (cn g q)))"

text \<open>Two states with the same edges.\<close>

definition same_edges :: "callgraph \<Rightarrow> callgraph \<Rightarrow> bool" where
  "same_edges g g' \<longleftrightarrow> oe g' = oe g \<and> call_edge_count g' = call_edge_count g \<and> call_node_count g' = call_node_count g \<and>
     (\<forall>p. outedges (cn g' p) = outedges (cn g p) \<and> goal (cn g' p) = goal (cn g p) \<and>
       idg_dyn_leaf (cn g' p) = idg_dyn_leaf (cn g p) \<and> inedges (cn g' p) = inedges (cn g p) \<and>
       outcount (cn g' p) = outcount (cn g p) \<and> cn_id (cn g' p) = cn_id (cn g p))"

lemma same_edges_refl [simp]: "same_edges g g"
  by (simp add: same_edges_def)

lemma same_edges_trans: "same_edges g g1 \<Longrightarrow> same_edges g1 g2 \<Longrightarrow> same_edges g g2"
  by (simp add: same_edges_def)

lemma same_edges_upd: "same_edges g (upd p f g) \<longleftrightarrow>
    outedges (f (cn g p)) = outedges (cn g p) \<and> goal (f (cn g p)) = goal (cn g p) \<and> idg_dyn_leaf (f (cn g p)) = idg_dyn_leaf (cn g p) \<and>
    inedges (f (cn g p)) = inedges (cn g p) \<and> outcount (f (cn g p)) = outcount (cn g p) \<and> cn_id (f (cn g p)) = cn_id (cn g p)"
  by (auto simp: same_edges_def upd_def)

lemma same_edgesD: "same_edges g g' \<Longrightarrow> edge_hash g' p = edge_hash g p" "same_edges g g' \<Longrightarrow> outs g' p = outs g p"
    "same_edges g g' \<Longrightarrow> check_non_completed cf g' p = check_non_completed cf g p"
    "same_edges g g' \<Longrightarrow> idg_dyn_leaf (cn g' p) = idg_dyn_leaf (cn g p)"
  by (simp_all add: same_edges_def edge_hash_def outs_def check_non_completed_def)

lemma bits14_simps: "bits14 n < 16384" "n < 16384 \<Longrightarrow> bits14 n = n" "bits14 (bits14 a + b) = bits14 (a + b)"
    "0 < n \<Longrightarrow> dec14 n = n - 1"
  by (simp_all add: bits14_def dec14_def mod_add_left_eq)

lemma bits14_sum: "bits14 (bits14 (a + b) + c + d) = bits14 (a + (b + c) + d)"
  using bits14_simps(3) [of "a + b" "c + d"] by (simp add: add.assoc)

lemma graph_ok_same: "graph_ok g N \<Longrightarrow> same_edges g g' \<Longrightarrow> \<forall>p \<in> N. falsecount (cn g' p) < 2 ^ 14 \<Longrightarrow> graph_ok g' N"
  by (simp add: graph_ok_def same_edgesD)

lemma graph_okD:
  assumes "graph_ok g N" "p \<in> N"
  shows "q \<in> set (outs g p) \<Longrightarrow> q \<in> N" "q \<in> set (outs g p) \<Longrightarrow> \<not> idg_dyn_leaf (cn g q)" "falsecount (cn g p) < 16384" "ht_ok (edge_hash g p)"
  using assms unfolding graph_ok_def by auto

lemma count_nonzero: "ht_ok h \<Longrightarrow> hashtable1_count h > 0 \<longleftrightarrow> ht_values h \<noteq> []"
  by (simp add: hashtable1_count_def ht_ok_def ht_values_def)

section \<open>Invalidation marks what depends on a node\<close>

text \<open>The nodes a frame still has to visit.\<close>

definition dfs_frame_at :: "callgraph \<Rightarrow> nat set \<Rightarrow> nat \<times> (int, nat) hashtable_itr option \<Rightarrow> nat list \<Rightarrow> bool" where
  "dfs_frame_at g N f r \<longleftrightarrow> fst f \<in> N \<and>
     (case snd f of None \<Rightarrow> r = outs g (fst f)
      | Some itr \<Rightarrow> \<exists>e es. itr_at (edge_hash g (fst f)) itr (e # es) \<and> r = map e_v es)"

lemma dfs_next_at:
  assumes G: "graph_ok g N" and F: "list_all2 (dfs_frame_at g N) fs rs"
  shows "if concat rs = [] then dfs_next g fs = []
    else \<exists>c itr fs' rs'. dfs_next g fs = (c, Some itr) # fs' \<and> hashtable1_iterator_value itr = hd (concat rs) \<and>
      list_all2 (dfs_frame_at g N) ((c, Some itr) # fs') rs' \<and> concat rs' = tl (concat rs)"
  using F
proof (induction fs arbitrary: rs)
  case (Cons f fs)
  obtain r rs1 where rs: "rs = r # rs1" "dfs_frame_at g N f r" "list_all2 (dfs_frame_at g N) fs rs1" using Cons.prems by (auto simp: list_all2_Cons1)
  obtain c it where f: "f = (c, it)" by (cases f)
  have c: "c \<in> N" "ht_ok (edge_hash g c)" using rs(2) f G by (auto simp: dfs_frame_at_def graph_ok_def)
  note IH = Cons.IH [OF rs(3)]
  show ?case
  proof (cases it)
    case None
    then have r: "r = outs g c" using rs(2) f by (simp add: dfs_frame_at_def)
    show ?thesis
    proof (cases "all_entries (edge_hash g c)")
      case Nil
      then have "dfs_next g (f # fs) = dfs_next g fs" "r = []"
        using f None r count_nonzero [OF c(2)] by (simp_all add: outs_def ht_values_def)
      then have "concat rs = concat rs1" using rs(1) by simp
      then show ?thesis using IH \<open>dfs_next g (f # fs) = dfs_next g fs\<close> by metis
    next
      case (Cons e es)
      then have n: "hashtable1_count (edge_hash g c) \<noteq> 0" using count_nonzero [OF c(2)] by (simp add: ht_values_def)
      let ?i = "hashtable1_iterator (edge_hash g c)"
      have at: "itr_at (edge_hash g c) ?i (e # es)" using iterator_at [OF c(2) n] Cons by simp
      have "dfs_next g (f # fs) = (c, Some ?i) # fs" using f None n by simp
      moreover have "r = e_v e # map e_v es" using r Cons by (simp add: outs_def ht_values_def)
      moreover have "dfs_frame_at g N (c, Some ?i) (map e_v es)" using at c by (auto simp: dfs_frame_at_def)
      ultimately show ?thesis using rs advance_at(1) [OF at c(2)]
        by (auto intro!: exI [of _ c] exI [of _ ?i] exI [of _ fs] exI [of _ "map e_v es # rs1"])
    qed
  next
    case (Some itr)
    then obtain e es where at: "itr_at (edge_hash g c) itr (e # es)" "r = map e_v es" using rs(2) f by (auto simp: dfs_frame_at_def)
    let ?a = "hashtable1_iterator_advance (edge_hash g c) itr"
    show ?thesis
    proof (cases es)
      case Nil
      then have "dfs_next g (f # fs) = dfs_next g fs" "r = []" using f Some at advance_at(2) [OF at(1) c(2)] by (auto split: prod.splits)
      then have "concat rs = concat rs1" using rs(1) by simp
      then show ?thesis using IH \<open>dfs_next g (f # fs) = dfs_next g fs\<close> by metis
    next
      case (Cons e' es')
      have at': "itr_at (edge_hash g c) (snd ?a) (e' # es')" "fst ?a" using advance_at(2,3) [OF at(1) c(2)] Cons by simp_all
      have "dfs_next g (f # fs) = (c, Some (snd ?a)) # fs" using f Some at'(2) by (auto split: prod.splits)
      moreover have "dfs_frame_at g N (c, Some (snd ?a)) (map e_v es')" using at'(1) c by (auto simp: dfs_frame_at_def)
      ultimately show ?thesis using rs at(2) Cons advance_at(1) [OF at'(1) c(2)]
        by (auto intro!: exI [of _ c] exI [of _ "snd ?a"] exI [of _ fs] exI [of _ "map e_v es' # rs1"])
    qed
  qed
qed simp


lemma dfs_next_length: "length (dfs_next g fs) \<le> length fs"
  by (induction g fs rule: dfs_next.induct) (fastforce simp: Let_def intro: le_SucI split: prod.splits)+

lemma same_edges_frames:
  assumes "same_edges g g'" "list_all2 (dfs_frame_at g N) fs rs"
  shows "list_all2 (dfs_frame_at g' N) fs rs"
proof -
  have "dfs_frame_at g' N f r = dfs_frame_at g N f r" for f r unfolding dfs_frame_at_def same_edgesD(1,2) [OF assms(1)] ..
  then have "dfs_frame_at g' N = dfs_frame_at g N" by (intro ext)
  then show ?thesis using assms(2) by simp
qed

definition unmarked :: "callgraph \<Rightarrow> nat set \<Rightarrow> nat set" where
  "unmarked g N = {q \<in> N. \<not> deleted (cn g q)}"

text \<open>What marking the nodes of \<open>M\<close> does: the pending visits \<open>w\<close> count as well.\<close>

definition dfs_marks :: "callgraph \<Rightarrow> nat set \<Rightarrow> nat list \<Rightarrow> callgraph \<Rightarrow> nat set \<Rightarrow> bool" where
  "dfs_marks g N w g' M \<longleftrightarrow> same_edges g g' \<and> M \<subseteq> unmarked g N \<and>
     (\<forall>q. deleted (cn g' q) \<longleftrightarrow> deleted (cn g q) \<or> q \<in> M) \<and>
     (\<forall>q \<in> N. falsecount (cn g' q) = bits14 (falsecount (cn g q) + count_list w q + card {p \<in> M. q \<in> set (outs g p)})) \<and>
     (\<forall>q \<in> set w. deleted (cn g' q)) \<and> (\<forall>p \<in> M. \<forall>q \<in> set (outs g p). deleted (cn g' q)) \<and>
     M \<subseteq> (dep g N)\<^sup>* `` set w"

lemma count_distinct: "distinct xs \<Longrightarrow> count_list xs q = (if q \<in> set xs then 1 else 0)"
  by (induction xs) auto

lemma card_insert_pred:
  "finite M \<Longrightarrow> p \<notin> M \<Longrightarrow> card {r \<in> insert p M. P r} = (if P p then 1 else 0) + card {r \<in> M. P r}"
proof -
  assume "finite M" "p \<notin> M"
  moreover have "{r \<in> insert p M. P r} = (if P p then insert p {r \<in> M. P r} else {r \<in> M. P r})" by auto
  ultimately show ?thesis by simp
qed

lemma dfs_marks:
  "graph_ok g N \<Longrightarrow> list_all2 (dfs_frame_at g N) fs rs \<Longrightarrow> set (concat rs) \<subseteq> N \<Longrightarrow> \<forall>q \<in> N. \<not> check_non_completed cf g q \<Longrightarrow>
    length fs + card (unmarked g N) \<le> dfs_size \<Longrightarrow>
    \<exists>g' M. dfs_loop cf fs g = Some (Inr g') \<and> dfs_marks g N (concat rs) g' M"
proof (induction "(card (unmarked g N), length (concat rs))" arbitrary: g fs rs rule: wf_induct_rule [OF wf_lex_prod [OF wf_less_than wf_less_than]])
  case 1
  note G = "1.prems"(1) and F = "1.prems"(2) and W = "1.prems"(3) and C = "1.prems"(4) and L = "1.prems"(5)
  have fin: "finite N" using G by (simp add: graph_ok_def)
  show ?case
  proof (cases "concat rs")
    case Nil
    then have "dfs_loop cf fs g = Some (Inr g)" using dfs_next_at [OF G F] by (subst dfs_loop.simps) simp
    moreover have "dfs_marks g N (concat rs) g {}" unfolding Nil using G by (simp add: dfs_marks_def bits14_simps graph_ok_def)
    ultimately show ?thesis by blast
  next
    case (Cons q w)
    obtain c itr fs' rs' where N: "dfs_next g fs = (c, Some itr) # fs'" "hashtable1_iterator_value itr = q"
      "list_all2 (dfs_frame_at g N) ((c, Some itr) # fs') rs'" "concat rs' = w"
      using dfs_next_at [OF G F] Cons by auto
    have len: "Suc (length fs') \<le> length fs" using dfs_next_length [of g fs] N(1) by simp
    have q: "q \<in> N" and w: "set w \<subseteq> N" using W Cons by auto
    define g1 where "g1 = inc_falsecount q g"
    have s1: "same_edges g g1" by (simp add: g1_def inc_falsecount_def same_edges_upd)
    have f1: "\<forall>p \<in> N. falsecount (cn g1 p) < 2 ^ 14" using G by (simp add: g1_def inc_falsecount_def upd_def graph_ok_def bits14_simps)
    have d1: "deleted (cn g1 p) = deleted (cn g p)" for p by (simp add: g1_def inc_falsecount_def upd_def)
    have c1: "falsecount (cn g1 p) = bits14 (falsecount (cn g p) + count_list [q] p)" if "p \<in> N" for p
      using G that by (simp add: g1_def inc_falsecount_def upd_def graph_ok_def bits14_simps)
    show ?thesis
    proof (cases "deleted (cn g q)")
      case True
      have u: "unmarked g1 N = unmarked g N" by (simp add: unmarked_def d1)
      have "((card (unmarked g1 N), length (concat rs')), (card (unmarked g N), length (concat rs))) \<in> less_than <*lex*> less_than"
        unfolding u using Cons N(4) by simp
      from "1.hyps" [OF this graph_ok_same [OF G s1 f1] same_edges_frames [OF s1 N(3)]]
      obtain g' M where R: "dfs_loop cf ((c, Some itr) # fs') g1 = Some (Inr g')" "dfs_marks g1 N w g' M"
        using w C same_edgesD(3) [OF s1] N(4) L len u by auto
      have "dfs_loop cf fs g = Some (Inr g')"
        using R(1) N(1,2) True d1 by (subst dfs_loop.simps) (simp add: Let_def g1_def)
      moreover have "falsecount (cn g' p) = bits14 (falsecount (cn g p) + count_list (q # w) p + card {r \<in> M. p \<in> set (outs g r)})" if p: "p \<in> N" for p
      proof -
        have "falsecount (cn g' p) = bits14 (falsecount (cn g1 p) + count_list w p + card {r \<in> M. p \<in> set (outs g r)})"
          using R(2) p same_edgesD(2) [OF s1] unfolding dfs_marks_def by simp
        then show ?thesis unfolding c1 [OF p] bits14_sum by simp
      qed
      moreover have "dep g1 N = dep g N" using same_edgesD(2) [OF s1] by (simp add: dep_def)
      ultimately have "dfs_loop cf fs g = Some (Inr g') \<and> dfs_marks g N (q # w) g' M"
        using R(2) True same_edgesD(2) [OF s1] same_edges_trans [OF s1] unfolding dfs_marks_def u by (auto simp: d1)
      then show ?thesis unfolding Cons by blast
    next
      case False
      define g2 where "g2 = upd q (deleted_update (\<lambda>_. True)) g1"
      have s2: "same_edges g g2" using s1 by (rule same_edges_trans) (simp add: g2_def same_edges_upd)
      have f2: "\<forall>p \<in> N. falsecount (cn g2 p) < 2 ^ 14" using f1 by (simp add: g2_def upd_def)
      have d2: "deleted (cn g2 p) \<longleftrightarrow> deleted (cn g p) \<or> p = q" for p using d1 by (simp add: g2_def upd_def)
      have c2: "falsecount (cn g2 p) = bits14 (falsecount (cn g p) + count_list [q] p)" if "p \<in> N" for p
        using c1 [OF that] by (auto simp: g2_def upd_def)
      have O: "outs g2 = outs g" "dep g2 N = dep g N" using same_edgesD(2) [OF s2] by (auto simp: dep_def)
      have u: "unmarked g2 N = unmarked g N - {q}" "q \<in> unmarked g N" using q False d2 by (auto simp: unmarked_def)
      have "card (unmarked g2 N) < card (unmarked g N)"
        unfolding u(1) by (rule card_Diff1_less) (use fin u(2) in \<open>auto simp: unmarked_def\<close>)
      then have L2: "length ((q, None) # (c, Some itr) # fs') + card (unmarked g2 N) \<le> dfs_size"
          "length ((c, Some itr) # fs') \<noteq> dfs_size"
        using L len by simp_all
      from \<open>card (unmarked g2 N) < card (unmarked g N)\<close> have less: "((card (unmarked g2 N), length (concat (outs g q # rs'))), (card (unmarked g N), length (concat rs))) \<in> less_than <*lex*> less_than"
        by simp
      have "dfs_frame_at g N (q, None) (outs g q)" using q by (simp add: dfs_frame_at_def)
      then have F2: "list_all2 (dfs_frame_at g2 N) ((q, None) # (c, Some itr) # fs') (outs g q # rs')"
        using same_edges_frames [OF s2] N(3) by blast
      have oq: "set (outs g q) \<subseteq> N" "distinct (outs g q)" using G q by (auto simp: graph_ok_def)
      from "1.hyps" [OF less graph_ok_same [OF G s2 f2] F2]
      obtain g' M where R: "dfs_loop cf ((q, None) # (c, Some itr) # fs') g2 = Some (Inr g')" "dfs_marks g2 N (outs g q @ w) g' M"
        using w oq(1) C same_edgesD(3) [OF s2] N(4) L2(1) by auto
      note R2 = R(2) [unfolded dfs_marks_def O u(1)]
      have M: "q \<notin> M" "finite M" using R2 fin finite_subset [of M N] by (auto simp: unmarked_def)
      have "dfs_loop cf fs g = Some (Inr g')"
        using R(1) N(1,2) False d1 C q same_edgesD(3) [OF s1] by (subst dfs_loop.simps) (use L2(2) in \<open>simp add: Let_def push_dfs_frame_def g1_def [symmetric] g2_def [symmetric]\<close>)
      moreover have "falsecount (cn g' p) = bits14 (falsecount (cn g p) + count_list (q # w) p + card {r \<in> insert q M. p \<in> set (outs g r)})" if p: "p \<in> N" for p
      proof -
        have "falsecount (cn g' p) = bits14 (falsecount (cn g2 p) + count_list (outs g q @ w) p + card {r \<in> M. p \<in> set (outs g r)})"
          using R2 p by blast
        then show ?thesis
          unfolding c2 [OF p] bits14_sum card_insert_pred [OF M(2,1)] count_list_append count_distinct [OF oq(2)] by (simp add: ac_simps)
      qed
      moreover have "M \<subseteq> (dep g N)\<^sup>* `` set (q # w)"
      proof
        fix p assume "p \<in> M"
        then obtain r where r: "r \<in> set (outs g q @ w)" "(r, p) \<in> (dep g N)\<^sup>*" using R2 by blast
        show "p \<in> (dep g N)\<^sup>* `` set (q # w)"
        proof (cases "r \<in> set w")
          case False
          then have "(q, r) \<in> dep g N" using r(1) q by (auto simp: dep_def)
          then show ?thesis using r(2) converse_rtrancl_into_rtrancl [of q r "dep g N" p] by auto
        qed (use r in auto)
      qed
      moreover have "deleted (cn g' p) \<longleftrightarrow> deleted (cn g p) \<or> p \<in> insert q M" for p using R2 d2 by auto
      moreover have "same_edges g g'" "insert q M \<subseteq> unmarked g N" using R2 s2 same_edges_trans u(2) by blast+
      moreover have "\<forall>p \<in> insert q M. \<forall>r \<in> set (outs g p). deleted (cn g' r)" "\<forall>r \<in> set w. deleted (cn g' r)" using R2 by auto
      ultimately have "dfs_loop cf fs g = Some (Inr g') \<and> dfs_marks g N (q # w) g' (insert q M)" unfolding dfs_marks_def by auto
      then show ?thesis unfolding Cons by blast
    qed
  qed
qed


text \<open>What depends on a marked node is marked.\<close>

definition closed_marks :: "callgraph \<Rightarrow> nat set \<Rightarrow> bool" where
  "closed_marks g N \<longleftrightarrow> (\<forall>p \<in> N. deleted (cn g p) \<longrightarrow> (\<forall>q \<in> set (outs g p). deleted (cn g q)))"

lemma dep_in: "graph_ok g N \<Longrightarrow> (c, q) \<in> (dep g N)\<^sup>+ \<Longrightarrow> q \<in> N"
  by (erule trancl.cases) (auto simp: dep_def graph_ok_def)

text \<open>The search that an invalidation starts, from the node itself.\<close>

definition entered :: "nat \<Rightarrow> callgraph \<Rightarrow> callgraph" where
  "entered c g = (let g0 = inc_falsecount c g in if idg_dyn_leaf (cn g0 c) then g0 else upd c (deleted_update (\<lambda>_. True)) g0)"

lemma entered:
  assumes G: "graph_ok g N"
  shows "same_edges g (entered c g)"
    "q \<in> N \<Longrightarrow> falsecount (cn (entered c g) q) = bits14 (falsecount (cn g q) + (if q = c then 1 else 0))"
    "deleted (cn (entered c g) q) \<longleftrightarrow> deleted (cn g q) \<or> q = c \<and> \<not> idg_dyn_leaf (cn g c)"
    "graph_ok (entered c g) N"
proof -
  show s1: "same_edges g (entered c g)" by (auto simp: entered_def inc_falsecount_def Let_def upd_def same_edges_def)
  show f1: "falsecount (cn (entered c g) q) = bits14 (falsecount (cn g q) + (if q = c then 1 else 0))" if "q \<in> N" for q
    using G that by (auto simp: entered_def inc_falsecount_def Let_def upd_def graph_ok_def bits14_simps)
  show "deleted (cn (entered c g) q) \<longleftrightarrow> deleted (cn g q) \<or> q = c \<and> \<not> idg_dyn_leaf (cn g c)"
    by (auto simp: entered_def inc_falsecount_def Let_def upd_def)
  show "graph_ok (entered c g) N" using f1 bits14_simps(1) by (intro graph_ok_same [OF G s1]) simp
qed

lemma invalidate_visits:
  assumes G: "graph_ok g N" and c: "c \<in> N" "\<not> deleted (cn g c)" and C: "\<forall>q \<in> N. \<not> check_non_completed cf g q"
    and K: "card N < dfs_size"
  shows "\<exists>g' M. invalidate_call cf c g = Some (Inr g') \<and> dfs_marks (entered c g) N (outs g c) g' M"
proof -
  let ?g1 = "entered c g"
  note E = entered [OF G, of c]
  have oc: "set (outs g c) \<subseteq> N" "ht_ok (edge_hash g c)" using G c(1) by (auto simp: graph_ok_def)
  have O: "outs ?g1 c = outs g c" "edge_hash ?g1 c = edge_hash g c" using same_edgesD [OF E(1)] by auto
  have n0: "\<not> check_non_completed cf (inc_falsecount c g) c" using c C by (simp add: inc_falsecount_def upd_def check_non_completed_def)
  have i: "invalidate_call cf c g = (if hashtable1_count (edge_hash ?g1 c) > 0 then dfs_loop cf [(c, None)] ?g1 else Some (Inr ?g1))"
    using c(2) n0 by (simp add: invalidate_call_def dfs_outedges_def entered_def Let_def push_dfs_frame_def dfs_size_def)
  have C1: "\<forall>q \<in> N. \<not> check_non_completed cf ?g1 q" using C same_edgesD(3) [OF E(1)] by simp
  show ?thesis
  proof (cases "hashtable1_count (edge_hash ?g1 c) > 0")
    case True
    have fr: "list_all2 (dfs_frame_at ?g1 N) [(c, None)] [outs g c]" using c O by (simp add: dfs_frame_at_def)
    have "card (unmarked ?g1 N) \<le> card N"
      using G by (intro card_mono) (auto simp: unmarked_def graph_ok_def)
    then show ?thesis using dfs_marks [OF E(4) fr _ C1] K True i oc(1) by auto
  next
    case False
    then have "outs g c = []" using count_nonzero [OF oc(2)] O by (simp add: outs_def)
    then have "dfs_marks ?g1 N (outs g c) ?g1 {}" using E(4) by (simp add: dfs_marks_def graph_ok_def bits14_simps)
    then show ?thesis using False i by auto
  qed
qed

lemma invalidate_ok:
  assumes G: "graph_ok g N" and c: "c \<in> N" "\<not> deleted (cn g c)" and C: "\<forall>q \<in> N. \<not> check_non_completed cf g q" and cl: "closed_marks g N"
    and K: "card N < dfs_size"
  shows "\<exists>g' M. invalidate_call cf c g = Some (Inr g') \<and> same_edges g g' \<and> c \<notin> M \<and> M \<subseteq> unmarked g N \<and>
    (\<forall>q. deleted (cn g' q) \<longleftrightarrow> deleted (cn g q) \<or> q \<in> M \<or> q = c \<and> \<not> idg_dyn_leaf (cn g c)) \<and>
    (\<forall>q \<in> N. (c, q) \<in> (dep g N)\<^sup>+ \<longrightarrow> deleted (cn g' q)) \<and> M \<subseteq> (dep g N)\<^sup>+ `` {c} \<and>
    (\<forall>q \<in> N. falsecount (cn g' q) = bits14 (falsecount (cn g q) + (if q = c then 1 else 0) + card {p \<in> insert c M. q \<in> set (outs g p)}))"
proof -
  define g1 where "g1 = entered c g"
  note s1 = entered(1) [OF G, of c, folded g1_def] and f1 = entered(2) [OF G, of _ c, folded g1_def]
    and d1 = entered(3) [OF G, of c, folded g1_def]
  have O: "outs g1 = outs g" "edge_hash g1 = edge_hash g" "dep g1 N = dep g N" using same_edgesD [OF s1] by (auto simp: dep_def)
  have oc: "set (outs g c) \<subseteq> N" "distinct (outs g c)" using G c(1) by (auto simp: graph_ok_def)
  obtain g' M where R: "invalidate_call cf c g = Some (Inr g')" "dfs_marks g1 N (outs g c) g' M"
    using invalidate_visits [OF G c C K] unfolding g1_def by blast
  note R2 = R(2) [unfolded dfs_marks_def O]
  have cM: "c \<notin> M"
  proof
    assume cm: "c \<in> M"
    then have leaf: "idg_dyn_leaf (cn g c)" using R2 d1 by (auto simp: unmarked_def)
    obtain r where "r \<in> set (outs g c)" "(r, c) \<in> (dep g N)\<^sup>*" using R2 cm by blast
    then have "(c, c) \<in> (dep g N)\<^sup>+" using c(1) by (auto simp: dep_def intro: rtrancl_into_trancl2)
    then obtain p where "(p, c) \<in> dep g N" by (metis tranclE)
    then show False using leaf G by (auto simp: dep_def graph_ok_def)
  qed
  have fin: "finite M" using R2 G finite_subset [of M N] by (auto simp: unmarked_def graph_ok_def)
  have "falsecount (cn g' q) = bits14 (falsecount (cn g q) + (if q = c then 1 else 0) + card {p \<in> insert c M. q \<in> set (outs g p)})" if q: "q \<in> N" for q
  proof -
    have "falsecount (cn g' q) = bits14 (falsecount (cn g1 q) + count_list (outs g c) q + card {p \<in> M. q \<in> set (outs g p)})" using R2 q by blast
    then show ?thesis unfolding f1 [OF q] bits14_sum card_insert_pred [OF fin cM] count_distinct [OF oc(2)] by (simp add: ac_simps)
  qed
  moreover have M: "M \<subseteq> (dep g N)\<^sup>+ `` {c}"
  proof
    fix p assume "p \<in> M"
    then obtain r where "r \<in> set (outs g c)" "(r, p) \<in> (dep g N)\<^sup>*" using R2 by blast
    then show "p \<in> (dep g N)\<^sup>+ `` {c}" using c(1) by (auto simp: dep_def intro: rtrancl_into_trancl2)
  qed
  moreover have del: "deleted (cn g' q) \<longleftrightarrow> deleted (cn g q) \<or> q \<in> M \<or> q = c \<and> \<not> idg_dyn_leaf (cn g c)" for q using R2 d1 by auto
  moreover have "deleted (cn g' q)" if "(c, q) \<in> (dep g N)\<^sup>+" for q
    using that
  proof (induction rule: trancl_induct)
    case (base q)
    then show ?case using R2 by (auto simp: dep_def)
  next
    case (step p q)
    then have p: "p \<in> N" "q \<in> set (outs g p)" by (auto simp: dep_def)
    consider "deleted (cn g p)" | "p \<in> M" | "p = c" using step.IH del by blast
    then show ?case
    proof cases
      case 1
      then show ?thesis using cl p del unfolding closed_marks_def by blast
    next
      case 2
      then show ?thesis using R2 p(2) by blast
    next
      case 3
      then show ?thesis using R2 p(2) by blast
    qed
  qed
  moreover have "M \<subseteq> unmarked g N" using R2 d1 by (auto simp: unmarked_def)
  ultimately show ?thesis using R(1) R2 s1 same_edges_trans cM by blast
qed

text \<open>C21: invalidating a call that is not marked ends; it marks exactly the nodes that depend on the
  call, directly or not, and counts for every node the newly marked nodes it depends on, in 14
  bits; a leaf itself is not marked. The tables of the graph are in order, every call in it is
  completed, what depends on a marked node is marked already (an invalidation that stopped with
  an error can leave a graph where this is not so), and there are less than 10000 nodes, so
  that the stack of the search is never reallocated.\<close>

theorem invalidate_marks:
  assumes "graph_ok g N" "c \<in> N" "\<not> deleted (cn g c)" "\<forall>q \<in> N. \<not> check_non_completed cf g q" "closed_marks g N"
    "card N < dfs_size"
  shows "\<exists>g'. invalidate_call cf c g = Some (Inr g') \<and> same_edges g g' \<and> closed_marks g' N \<and>
    (\<forall>q \<in> N. deleted (cn g' q) \<longleftrightarrow> deleted (cn g q) \<or> (c, q) \<in> (dep g N)\<^sup>+ \<or> q = c \<and> \<not> idg_dyn_leaf (cn g c)) \<and>
    (\<forall>q \<in> N. falsecount (cn g' q) = bits14 (falsecount (cn g q) + (if q = c then 1 else 0) +
       card {p \<in> insert c {p \<in> N. deleted (cn g' p) \<and> \<not> deleted (cn g p)}. q \<in> set (outs g p)}))"
proof -
  obtain g' M where R: "invalidate_call cf c g = Some (Inr g')" "same_edges g g'" "c \<notin> M" "M \<subseteq> unmarked g N"
    "\<And>q. deleted (cn g' q) \<longleftrightarrow> deleted (cn g q) \<or> q \<in> M \<or> q = c \<and> \<not> idg_dyn_leaf (cn g c)"
    "\<forall>q \<in> N. (c, q) \<in> (dep g N)\<^sup>+ \<longrightarrow> deleted (cn g' q)" "M \<subseteq> (dep g N)\<^sup>+ `` {c}"
    "\<forall>q \<in> N. falsecount (cn g' q) = bits14 (falsecount (cn g q) + (if q = c then 1 else 0) + card {p \<in> insert c M. q \<in> set (outs g p)})"
    using invalidate_ok [OF assms] by blast
  have e: "insert c {p \<in> N. deleted (cn g' p) \<and> \<not> deleted (cn g p)} = insert c M" using R(4,5) assms(2,3) by (auto simp: unmarked_def)
  have D: "deleted (cn g' q) \<longleftrightarrow> deleted (cn g q) \<or> (c, q) \<in> (dep g N)\<^sup>+ \<or> q = c \<and> \<not> idg_dyn_leaf (cn g c)" if "q \<in> N" for q
    using R(5-7) that by blast
  have "closed_marks g' N"
    unfolding closed_marks_def same_edgesD(2) [OF R(2)]
  proof (intro ballI impI)
    fix p q assume p: "p \<in> N" "deleted (cn g' p)" "q \<in> set (outs g p)"
    then have d: "(p, q) \<in> dep g N" and q: "q \<in> N" using assms(1) by (auto simp: dep_def graph_ok_def)
    consider "deleted (cn g p)" | "(c, p) \<in> (dep g N)\<^sup>+" | "p = c" using D p by blast
    then show "deleted (cn g' q)"
    proof cases
      case 1
      then show ?thesis using assms(5) p D [OF q] unfolding closed_marks_def by blast
    qed (use d D [OF q] in \<open>auto intro: trancl_into_trancl\<close>)
  qed
  moreover have "\<forall>q \<in> N. falsecount (cn g' q) = bits14 (falsecount (cn g q) + (if q = c then 1 else 0) +
       card {p \<in> insert c {p \<in> N. deleted (cn g' p) \<and> \<not> deleted (cn g p)}. q \<in> set (outs g p)})"
    unfolding e by (rule R(8))
  ultimately show ?thesis using R(1,2) D by blast
qed


section \<open>A call that has not changed\<close>

definition affected :: "callgraph \<Rightarrow> nat set \<Rightarrow> nat set" where
  "affected g N = {q \<in> N. 0 < falsecount (cn g q)}"

text \<open>The falsecount of a node is the number of affected nodes it depends on, and \<open>K\<close> more.\<close>

definition counted :: "callgraph \<Rightarrow> nat set \<Rightarrow> (nat \<Rightarrow> nat) \<Rightarrow> bool" where
  "counted g N K \<longleftrightarrow> (\<forall>q \<in> N. falsecount (cn g q) = card {p \<in> affected g N. q \<in> set (outs g p)} + K q)"

text \<open>What taking back falsecounts does: nodes whose count gets 0 are valid again.\<close>

definition takes_back :: "callgraph \<Rightarrow> nat set \<Rightarrow> (nat \<Rightarrow> nat) \<Rightarrow> callgraph \<Rightarrow> bool" where
  "takes_back g N K g' \<longleftrightarrow> same_edges g g' \<and> graph_ok g' N \<and> counted g' N K \<and> affected g' N \<subseteq> affected g N \<and>
     (\<forall>q. deleted (cn g' q) \<longleftrightarrow> deleted (cn g q) \<and> q \<notin> affected g N - affected g' N)"

lemma takes_back_trans: "takes_back g N K g1 \<Longrightarrow> takes_back g1 N L g2 \<Longrightarrow> takes_back g N L g2"
  unfolding takes_back_def using same_edges_trans by blast

text \<open>One node loses one of its counts, to which the tables of the nodes made valid add theirs.\<close>

lemma visit_node:
  assumes G: "graph_ok g N" and q: "q \<in> N" and K: "counted g N (\<lambda>r. (if r = q then 1 else 0) + K r)"
  defines "g1 \<equiv> upd q (falsecount_update dec14) g"
  shows "falsecount (cn g q) > 0"
    "falsecount (cn g1 q) \<noteq> 0 \<Longrightarrow> takes_back g N K g1"
    "falsecount (cn g1 q) = 0 \<Longrightarrow> takes_back g N (\<lambda>r. count_list (outs g q) r + K r) (upd q (\<lambda>n. n\<lparr>deleted := False, recomputable := False\<rparr>) g1) \<and>
      card (affected (upd q (\<lambda>n. n\<lparr>deleted := False, recomputable := False\<rparr>) g1) N) < card (affected g N)"
proof -
  have fin: "finite N" using G by (simp add: graph_ok_def)
  show f: "falsecount (cn g q) > 0" using K q by (auto simp: counted_def)
  have f1: "falsecount (cn g1 r) = falsecount (cn g r) - (if r = q then 1 else 0)" for r
    using f by (simp add: g1_def upd_def bits14_simps)
  have s1: "same_edges g g1" by (simp add: g1_def same_edges_upd)
  have lt: "\<forall>r \<in> N. falsecount (cn g r) < 2 ^ 14" using G by (simp add: graph_ok_def)
  show "falsecount (cn g1 q) \<noteq> 0 \<Longrightarrow> takes_back g N K g1"
  proof -
    assume "falsecount (cn g1 q) \<noteq> 0"
    then have a: "affected g1 N = affected g N" using f1 by (auto simp: affected_def)
    have "counted g1 N K" using K f unfolding counted_def a same_edgesD(2) [OF s1] by (auto simp: f1)
    moreover have "graph_ok g1 N" using lt f1 by (intro graph_ok_same [OF G s1]) (auto intro: le_less_trans)
    moreover have "deleted (cn g1 r) = deleted (cn g r)" for r by (simp add: g1_def upd_def)
    ultimately show ?thesis using s1 a by (auto simp: takes_back_def)
  qed
  assume z: "falsecount (cn g1 q) = 0"
  define g2 where "g2 = upd q (\<lambda>n. n\<lparr>deleted := False, recomputable := False\<rparr>) g1"
  have s2: "same_edges g g2" using s1 by (rule same_edges_trans) (simp add: g2_def same_edges_upd)
  have f2: "falsecount (cn g2 r) = falsecount (cn g r) - (if r = q then 1 else 0)" for r using f1 by (simp add: g2_def upd_def)
  have a: "affected g2 N = affected g N - {q}" using f2 z f1 by (auto simp: affected_def)
  have qa: "q \<in> affected g N" "finite (affected g N)" using q f fin by (auto simp: affected_def)
  have "falsecount (cn g2 r) = card {p \<in> affected g2 N. r \<in> set (outs g2 p)} + (count_list (outs g q) r + K r)" if r: "r \<in> N" for r
  proof -
    have "{p \<in> affected g N. r \<in> set (outs g p)} = {p \<in> insert q (affected g N - {q}). r \<in> set (outs g p)}" using qa by auto
    then have "card {p \<in> affected g N. r \<in> set (outs g p)} = (if r \<in> set (outs g q) then 1 else 0) + card {p \<in> affected g N - {q}. r \<in> set (outs g p)}"
      using card_insert_pred [of "affected g N - {q}" q "\<lambda>p. r \<in> set (outs g p)"] qa(2) by simp
    moreover have "distinct (outs g q)" using G q by (simp add: graph_ok_def)
    moreover have "falsecount (cn g r) = card {p \<in> affected g N. r \<in> set (outs g p)} + ((if r = q then 1 else 0) + K r)"
      using K r unfolding counted_def by blast
    ultimately show ?thesis unfolding a same_edgesD(2) [OF s2] f2 by (simp add: count_distinct)
  qed
  then have "counted g2 N (\<lambda>r. count_list (outs g q) r + K r)" unfolding counted_def by blast
  moreover have "graph_ok g2 N" using lt f2 by (intro graph_ok_same [OF G s2]) (auto intro: le_less_trans)
  moreover have "deleted (cn g2 r) \<longleftrightarrow> deleted (cn g r) \<and> r \<noteq> q" for r by (simp add: g1_def g2_def upd_def)
  moreover have "card (affected g2 N) < card (affected g N)" unfolding a by (rule card_Diff1_less [OF qa(2,1)])
  ultimately show "takes_back g N (\<lambda>r. count_list (outs g q) r + K r) g2 \<and> card (affected g2 N) < card (affected g N)"
    using s2 a qa(1) by (auto simp: takes_back_def)
qed

lemma propagate_loop_ok:
  "graph_ok g N \<Longrightarrow> ht_ok h \<Longrightarrow> itr_at h itr es \<Longrightarrow> e_v ` set es \<subseteq> N \<Longrightarrow> counted g N (\<lambda>r. count_list (map e_v es) r + K r) \<Longrightarrow>
    \<exists>g'. propagate_loop h itr g = Some g' \<and> takes_back g N K g'"
proof (induction "(card (affected g N), length es)" arbitrary: g h itr es K rule: wf_induct_rule [OF wf_lex_prod [OF wf_less_than wf_less_than]])
  case 1
  note G = "1.prems"(1)
  have fin: "finite (affected g N)" using G by (auto simp: affected_def graph_ok_def)
  obtain e es' where es: "es = e # es'" using "1.prems"(3) by (cases es) (auto simp: itr_at_def)
  let ?q = "e_v e" and ?a = "hashtable1_iterator_advance h itr"
  note A = advance_at [OF "1.prems"(3) [unfolded es] "1.prems"(2)]
  have q: "?q \<in> N" using "1.prems"(4) es by simp
  let ?K = "\<lambda>r. count_list (map e_v es') r + K r"
  have "counted g N (\<lambda>r. (if r = ?q then 1 else 0) + ?K r)" using "1.prems"(5) es unfolding counted_def by (auto split: if_splits)
  note V = visit_node [OF G q this]
  let ?g1 = "upd ?q (falsecount_update dec14) g"
  let ?g2 = "upd ?q (\<lambda>n. n\<lparr>deleted := False, recomputable := False\<rparr>) ?g1"
  let ?visit = "if falsecount (cn ?g1 ?q) = 0 then
      (let h' = edge_hash ?g2 ?q in if hashtable1_count h' > 0 then propagate_loop h' (hashtable1_iterator h') ?g2 else Some ?g2)
    else Some ?g1"
  have visit: "\<exists>g3. ?visit = Some g3 \<and> takes_back g N ?K g3"
  proof (cases "falsecount (cn ?g1 ?q) = 0")
    case True
    note T = V(3) [OF True]
    have eh: "edge_hash ?g2 ?q = edge_hash g ?q" and G2: "graph_ok ?g2 N" using T same_edgesD(1) by (auto simp: takes_back_def)
    have h: "ht_ok (edge_hash g ?q)" "set (outs g ?q) \<subseteq> N" using G q by (auto simp: graph_ok_def)
    show ?thesis
    proof (cases "hashtable1_count (edge_hash g ?q) > 0")
      case False
      then have "outs g ?q = []" using count_nonzero [OF h(1)] by (simp add: outs_def)
      then show ?thesis using True False T eh by (simp add: Let_def)
    next
      case c: True
      let ?h = "edge_hash g ?q"
      have at: "itr_at ?h (hashtable1_iterator ?h) (all_entries ?h)" using iterator_at [OF h(1)] c by simp
      have "((card (affected ?g2 N), length (all_entries ?h)), (card (affected g N), length es)) \<in> less_than <*lex*> less_than" using T by simp
      from "1.hyps" [OF this G2 h(1) at, of ?K] obtain g3 where "propagate_loop ?h (hashtable1_iterator ?h) ?g2 = Some g3" "takes_back ?g2 N ?K g3"
        using h(2) T by (auto simp: outs_def ht_values_def takes_back_def)
      then show ?thesis using True c T eh takes_back_trans by (auto simp: Let_def)
    qed
  next
    case False
    then show ?thesis using V(2) by simp
  qed
  then obtain g3 where g3: "?visit = Some g3" "takes_back g N ?K g3" by blast
  have step: "propagate_loop h itr g = (if fst ?a then propagate_loop h (snd ?a) g3 else Some g3)"
  proof -
    have "propagate_loop h itr g = Option.bind (if falsecount (cn g ?q) > 0 then ?visit else Some g)
      (\<lambda>g'. case ?a of (again, itr') \<Rightarrow> if again then propagate_loop h itr' g' else Some g')"
      by (subst propagate_loop.simps) (simp only: A(1) Let_def)
    then show ?thesis unfolding g3(1) using V(1) by (simp split: prod.splits)
  qed
  show ?case
  proof (cases "es' = []")
    case True
    then show ?thesis using step A(2) g3(2) by simp
  next
    case False
    have "card (affected g3 N) \<le> card (affected g N)" using g3(2) fin by (auto simp: takes_back_def intro: card_mono)
    then have "((card (affected g3 N), length es'), (card (affected g N), length es)) \<in> less_than <*lex*> less_than" using es by auto
    from "1.hyps" [OF this _ "1.prems"(2) A(3) [OF False], of K] obtain g' where "propagate_loop h (snd ?a) g3 = Some g'" "takes_back g3 N K g'"
      using g3(2) "1.prems"(4) es by (auto simp: takes_back_def)
    then show ?thesis using step A(2) False g3(2) takes_back_trans by auto
  qed
qed


lemma propagate_ok:
  assumes G: "graph_ok g N" and c: "c \<in> N" and K: "counted g N (\<lambda>r. count_list (outs g c) r + K r)"
  shows "\<exists>g'. propagate_no_change c g = Some g' \<and> takes_back g N K g'"
proof -
  have h: "ht_ok (edge_hash g c)" "set (outs g c) \<subseteq> N" using G c by (auto simp: graph_ok_def)
  have c0: "c \<noteq> 0" using G c unfolding graph_ok_def by metis
  show ?thesis
  proof (cases "hashtable1_count (edge_hash g c) > 0")
    case True
    have "itr_at (edge_hash g c) (hashtable1_iterator (edge_hash g c)) (all_entries (edge_hash g c))" using iterator_at [OF h(1)] True by simp
    from propagate_loop_ok [OF G h(1) this, of K] show ?thesis
      using K h(2) True c0 by (auto simp: outs_def ht_values_def propagate_no_change_def Let_def)
  next
    case False
    then have "outs g c = []" using count_nonzero [OF h(1)] by (simp add: outs_def)
    then have "takes_back g N K g" using K G by (simp add: takes_back_def)
    then show ?thesis using False by (auto simp: propagate_no_change_def Let_def)
  qed
qed

text \<open>In a graph without cycles, counts that come from affected nodes alone are all 0.\<close>

lemma counted_acyclic:
  assumes G: "graph_ok g N" and K: "counted g N (\<lambda>_. 0)" and ac: "acyclic (dep g N)"
  shows "affected g N = {}"
proof (rule ccontr)
  assume ne: "affected g N \<noteq> {}"
  have fin: "finite N" using G by (simp add: graph_ok_def)
  have "dep g N \<subseteq> N \<times> N" using G by (auto simp: dep_def graph_ok_def)
  then have "finite (dep g N)" using finite_subset fin by (metis finite_cartesian_product)
  then have w: "wf (dep g N)" using ac by (rule finite_acyclic_wf)
  obtain x where "x \<in> affected g N" using ne by blast
  from wfE_min [OF w this] obtain q where q: "q \<in> affected g N" "\<And>p. (p, q) \<in> dep g N \<Longrightarrow> p \<notin> affected g N" by blast
  have "p \<in> affected g N \<Longrightarrow> q \<notin> set (outs g p)" for p using q(2) [of p] by (auto simp: dep_def affected_def)
  then have e: "{p \<in> affected g N. q \<in> set (outs g p)} = {}" by blast
  have "q \<in> N" using q(1) by (simp add: affected_def)
  then have "falsecount (cn g q) = 0" using K unfolding counted_def by (simp add: e)
  then show False using q(1) by (simp add: affected_def)
qed

text \<open>No node is affected or marked.\<close>

definition all_valid :: "callgraph \<Rightarrow> nat set \<Rightarrow> bool" where
  "all_valid g N \<longleftrightarrow> (\<forall>q \<in> N. falsecount (cn g q) = 0 \<and> \<not> deleted (cn g q))"

text \<open>
  The state in which a new evaluation of \<open>c\<close> ends: its new node has taken over the edges. Only nodes
  that depend on \<open>c\<close> are affected.
\<close>

lemma take_over_new:
  fixes g :: callgraph and sf tif :: nat
  assumes "c \<noteq> n"
  defines "g' \<equiv> take_over n c (makecallnode n sf False tif g)"
  shows "edge_hash g' p = edge_hash g (if p = n then c else p)" "idg_dyn_leaf (cn g' p) = (p \<noteq> n \<and> idg_dyn_leaf (cn g p))"
    "falsecount (cn g' p) = (if p = n \<or> p = c then 0 else falsecount (cn g p))"
    "deleted (cn g' p) = (p = c \<or> p \<noteq> n \<and> deleted (cn g p))"
  using assms(1) by (auto simp: g'_def take_over_def makecallnode_def upd_def edge_hash_def Let_def)

lemma dep_below:
  assumes "graph_ok g N" "c \<in> N" "M = (dep g N)\<^sup>+ `` {c}" "acyclic (dep g N)"
  shows "M \<subseteq> N" "c \<notin> M" "finite M" "(\<exists>p \<in> insert c M. q \<in> set (outs g p)) \<longleftrightarrow> q \<in> M"
proof -
  show MN: "M \<subseteq> N" using dep_in [OF assms(1)] assms(3) by blast
  show "c \<notin> M" using assms(3,4) by (simp add: acyclic_def)
  show "finite M" using MN assms(1) finite_subset [of M N] by (simp add: graph_ok_def)
  have M: "q \<in> M \<longleftrightarrow> (c, q) \<in> (dep g N)\<^sup>+" for q using assms(3) by blast
  show "(\<exists>p \<in> insert c M. q \<in> set (outs g p)) \<longleftrightarrow> q \<in> M"
  proof
    assume "\<exists>p \<in> insert c M. q \<in> set (outs g p)"
    then show "q \<in> M" using MN assms(2) by (auto simp: dep_def M intro: trancl_into_trancl)
  next
    assume "q \<in> M"
    then obtain p where "(c, p) \<in> (dep g N)\<^sup>*" "(p, q) \<in> dep g N" unfolding M by (meson tranclD2)
    then show "\<exists>p \<in> insert c M. q \<in> set (outs g p)" by (auto simp: rtrancl_eq_or_trancl dep_def M)
  qed
qed

lemma recompute_unchanged:
  assumes G: "graph_ok g N" and c: "c \<in> N" and ac: "acyclic (dep g N)" and cN: "card N < 2 ^ 14" and n: "n \<notin> N" "n \<noteq> 0"
    and s: "same_edges g g1" and M: "M = (dep g N)\<^sup>+ `` {c}"
    and F: "\<forall>q \<in> N. q \<noteq> c \<longrightarrow> falsecount (cn g1 q) = card {p \<in> insert c M. q \<in> set (outs g p)}"
    and D: "\<forall>q \<in> N. q \<noteq> c \<longrightarrow> deleted (cn g1 q) \<longrightarrow> q \<in> M"
  shows "\<exists>g2. propagate_no_change c (take_over n c (makecallnode n sf False tif g1)) = Some g2 \<and> all_valid g2 (insert n (N - {c}))"
proof -
  note B = dep_below [OF G c M ac]
  have cn: "c \<noteq> n" using c n(1) by blast
  define g' where "g' = take_over n c (makecallnode n sf False tif g1)"
  note T = take_over_new [OF cn, of sf tif g1, folded g'_def]
  have eh: "edge_hash g' p = edge_hash g (if p = n then c else p)" for p by (simp add: T(1) same_edgesD [OF s])
  then have os: "outs g' p = outs g (if p = n then c else p)" for p by (simp add: outs_def)
  have fin: "finite N" using G by (simp add: graph_ok_def)
  have le: "card {p \<in> insert c M. q \<in> set (outs g p)} < 2 ^ 14" for q
    using card_mono [OF fin, of "{p \<in> insert c M. q \<in> set (outs g p)}"] B(1) c cN by force
  have f: "falsecount (cn g' q) = (if q = c \<or> q = n then 0 else card {p \<in> insert c M. q \<in> set (outs g p)})" if "q \<in> insert n N" for q
    using that F by (auto simp: T(3))
  have a: "affected g' (insert n N) = M"
  proof (rule set_eqI)
    fix q
    have "0 < card {p \<in> insert c M. q \<in> set (outs g p)} \<longleftrightarrow> q \<in> M" using B(3) B(4) [of q] by (auto simp: card_gt_0_iff)
    moreover have "q \<in> affected g' (insert n N) \<longleftrightarrow> q \<in> N \<and> q \<noteq> c \<and> 0 < card {p \<in> insert c M. q \<in> set (outs g p)}"
    proof (cases "q \<in> insert n N")
      case True
      then show ?thesis using f [OF True] n(1) unfolding affected_def by auto
    qed (simp add: affected_def)
    ultimately show "q \<in> affected g' (insert n N) \<longleftrightarrow> q \<in> M" using B(1,2) by (metis subsetD)
  qed
  have G': "graph_ok g' (insert n N)"
    unfolding graph_ok_def
  proof (intro conjI ballI)
    fix p assume p: "p \<in> insert n N"
    then have p': "(if p = n then c else p) \<in> N" using c by auto
    show "ht_ok (edge_hash g' p)" unfolding eh by (rule graph_okD(4) [OF G p'])
    show "distinct (outs g' p)" unfolding os using G p' unfolding graph_ok_def by blast
    show "set (outs g' p) \<subseteq> insert n N" unfolding os using graph_okD(1) [OF G p'] by blast
    show "falsecount (cn g' p) < 2 ^ 14" using f [OF p] le by simp
    fix q assume "q \<in> set (outs g' p)"
    then show "\<not> idg_dyn_leaf (cn g' q)" using graph_okD(2) [OF G p', of q] by (simp add: os T(2) same_edgesD [OF s])
  qed (use fin n(2) G in \<open>simp_all add: graph_ok_def\<close>)
  have "falsecount (cn g' q) = card {p \<in> M. q \<in> set (outs g' p)} + (count_list (outs g' c) q + 0)" if q: "q \<in> insert n N" for q
  proof -
    have d: "distinct (outs g c)" using G c unfolding graph_ok_def by blast
    have nM: "n \<notin> M" using B(1) n(1) by blast
    then have e: "{p \<in> M. q \<in> set (outs g' p)} = {p \<in> M. q \<in> set (outs g p)}" by (auto simp: os)
    show ?thesis
    proof (cases "q = c \<or> q = n")
      case True
      then have "q \<notin> M" using B(2) nM by blast
      then have "\<not> (\<exists>p \<in> insert c M. q \<in> set (outs g p))" using B(4) by blast
      then have e': "{p \<in> M. q \<in> set (outs g p)} = {}" "q \<notin> set (outs g c)" by auto
      show ?thesis using f [OF q] True e'(2) cn unfolding e e'(1) by (simp add: os)
    next
      case False
      then show ?thesis using f [OF q] card_insert_pred [OF B(3,2), of "\<lambda>p. q \<in> set (outs g p)"] cn unfolding e
        by (simp add: count_distinct [OF d] os)
    qed
  qed
  then have K: "counted g' (insert n N) (\<lambda>r. count_list (outs g' c) r + 0)" unfolding counted_def a by blast
  obtain g2 where P: "propagate_no_change c g' = Some g2" "takes_back g' (insert n N) (\<lambda>_. 0) g2"
    using propagate_ok [OF G' _ K] c by blast
  have an: "affected g2 (insert n N) = affected g2 N" and aM: "affected g2 N \<subseteq> M"
    using P(2) n(1) B(1) unfolding takes_back_def a by (auto simp: affected_def)
  have os2: "outs g2 p = outs g p" if "p \<in> N" for p
    using same_edgesD(2) [of g' g2 p] P(2) that n(1) by (auto simp: takes_back_def os)
  have "counted g2 N (\<lambda>_. 0)" using P(2) unfolding takes_back_def counted_def an by blast
  moreover have "graph_ok g2 N"
    unfolding graph_ok_def
  proof (intro conjI ballI)
    fix p assume p: "p \<in> N"
    show "ht_ok (edge_hash g2 p)" using P(2) p unfolding takes_back_def by (meson graph_okD(4) insertI2)
    show "distinct (outs g2 p)" unfolding os2 [OF p] using G p unfolding graph_ok_def by blast
    show "set (outs g2 p) \<subseteq> N" unfolding os2 [OF p] using graph_okD(1) [OF G p] by blast
    show "falsecount (cn g2 p) < 2 ^ 14" using P(2) p graph_okD(3) [of g2 "insert n N" p] by (simp add: takes_back_def)
    fix q assume "q \<in> set (outs g2 p)"
    then show "\<not> idg_dyn_leaf (cn g2 q)" using P(2) p graph_okD(2) [of g2 "insert n N" p q] by (simp add: takes_back_def)
  qed (use fin G in \<open>simp_all add: graph_ok_def\<close>)
  moreover have "dep g2 N = dep g N" using os2 by (auto simp: dep_def)
  ultimately have z: "affected g2 (insert n N) = {}" using counted_acyclic [of g2 N] ac an by simp
  have "\<not> deleted (cn g2 q)" if "q \<in> insert n (N - {c})" for q
  proof
    assume "deleted (cn g2 q)"
    then have "deleted (cn g' q)" "q \<notin> M" using P(2) unfolding takes_back_def a z by blast+
    then show False using D that cn by (auto simp: T(4))
  qed
  then have "all_valid g2 (insert n (N - {c}))" using z by (auto simp: all_valid_def affected_def)
  then show ?thesis using P(1) unfolding g'_def by blast
qed

text \<open>The nodes below a leaf with one successor are those below the successor, and the successor.\<close>

lemma below_leaf:
  assumes G: "graph_ok g N" and l: "l \<in> N" "idg_dyn_leaf (cn g l)" "set (outs g l) = {c}"
  shows "(l, q) \<in> (dep g N)\<^sup>+ \<longleftrightarrow> q = c \<or> (c, q) \<in> (dep g (N - {l}))\<^sup>+"
proof
  have sub: "dep g (N - {l}) \<subseteq> dep g N" by (auto simp: dep_def)
  have lc: "(l, c) \<in> dep g N" using l by (simp add: dep_def)
  show "q = c \<or> (c, q) \<in> (dep g (N - {l}))\<^sup>+ \<Longrightarrow> (l, q) \<in> (dep g N)\<^sup>+"
    using lc trancl_mono [OF _ sub] by (blast intro: trancl_into_trancl2)
  show "(l, q) \<in> (dep g N)\<^sup>+ \<Longrightarrow> q = c \<or> (c, q) \<in> (dep g (N - {l}))\<^sup>+"
  proof (induction rule: trancl_induct)
    case (base y)
    then show ?case using l(3) by (simp add: dep_def)
  next
    case (step y z)
    have "\<exists>p \<in> N. y \<in> set (outs g p)" using step.hyps(1) by (metis (no_types, lifting) case_prodD dep_def mem_Collect_eq tranclE)
    then have "y \<noteq> l" using graph_okD(2) [OF G] l(2) by blast
    then have yz: "(y, z) \<in> dep g (N - {l})" using step.hyps(2) by (simp add: dep_def)
    from step.IH show ?case
    proof
      assume "y = c"
      then show ?thesis using yz by blast
    next
      assume "(c, y) \<in> (dep g (N - {l}))\<^sup>+"
      then show ?thesis using yz trancl_into_trancl by metis
    qed
  qed
qed

lemma graph_ok_no_leaf:
  assumes G: "graph_ok g N" and l: "idg_dyn_leaf (cn g l)"
  shows "graph_ok g (N - {l})"
proof -
  have "set (outs g p) \<subseteq> N - {l}" if "p \<in> N" for p using graph_okD(1,2) [OF G that] l by blast
  then show ?thesis using G unfolding graph_ok_def by blast
qed

text \<open>C22: a dynamic leaf is invalidated, and the call that depends on it is evaluated again with a new node that
  takes over its edges. When its answers are the same, propagating this ends, and every call is
  valid again: the counts the invalidation added have all been taken back. Before, no call is
  marked and all are completed, the leaf leads to this call alone and no call depends on itself;
  and there are less than 10000 nodes, so that the stack of the search is not reallocated and no
  count wraps around.\<close>

theorem unchanged_call_revalidates:
  assumes "graph_ok g N" "l \<in> N" "idg_dyn_leaf (cn g l)" "set (outs g l) = {c}" "all_valid g N" "\<forall>q \<in> N. \<not> check_non_completed cf g q"
    "acyclic (dep g N)" "card N < dfs_size" "n \<notin> N" "n \<noteq> 0"
  shows "\<exists>g1 g2. invalidate_call cf l g = Some (Inr g1) \<and> falsecount (cn g1 c) = 1 \<and>
    propagate_no_change c (take_over n c (makecallnode n sf False tif g1)) = Some g2 \<and> all_valid g2 (insert n (N - {l, c}))"
proof -
  let ?N = "N - {l}" and ?M = "(dep g (N - {l}))\<^sup>+ `` {c}"
  have fin: "finite N" using assms(1) by (simp add: graph_ok_def)
  have cl: "closed_marks g N" and l: "\<not> deleted (cn g l)" using assms(2,5) by (auto simp: closed_marks_def all_valid_def)
  have c: "c \<in> ?N" using graph_okD(1,2) [OF assms(1,2), of c] assms(3,4) by auto
  obtain g1 M where R: "invalidate_call cf l g = Some (Inr g1)" "same_edges g g1" "l \<notin> M" "M \<subseteq> unmarked g N"
    "\<And>q. deleted (cn g1 q) \<longleftrightarrow> deleted (cn g q) \<or> q \<in> M \<or> q = l \<and> \<not> idg_dyn_leaf (cn g l)" "M \<subseteq> (dep g N)\<^sup>+ `` {l}"
    "\<forall>q \<in> N. falsecount (cn g1 q) = bits14 (falsecount (cn g q) + (if q = l then 1 else 0) + card {p \<in> insert l M. q \<in> set (outs g p)})"
    "\<forall>q \<in> N. (l, q) \<in> (dep g N)\<^sup>+ \<longrightarrow> deleted (cn g1 q)"
    using invalidate_ok [OF assms(1,2) l assms(6) cl assms(8)] by blast
  have M: "q \<in> M \<longleftrightarrow> (l, q) \<in> (dep g N)\<^sup>+" for q
  proof
    assume d: "(l, q) \<in> (dep g N)\<^sup>+"
    then have "q \<in> N" by (rule dep_in [OF assms(1)])
    then have "deleted (cn g1 q)" "\<not> deleted (cn g q)" using R(8) d assms(5) by (auto simp: all_valid_def)
    then show "q \<in> M" using R(5) assms(3) by blast
  qed (use R(6) in blast)
  then have M: "M = insert c ?M" using below_leaf [OF assms(1-4)] by auto
  note G = graph_ok_no_leaf [OF assms(1,3)]
  have "dep g ?N \<subseteq> dep g N" by (auto simp: dep_def)
  then have ac: "acyclic (dep g ?N)" using assms(7) acyclic_subset by blast
  note B = dep_below [OF G c refl ac]
  have F: "falsecount (cn g1 q) = card {p \<in> insert l M. q \<in> set (outs g p)}" if q: "q \<in> ?N" for q
  proof -
    have "insert l M \<subseteq> N" using assms(2) R(4) by (auto simp: unmarked_def)
    then have "card {p \<in> insert l M. q \<in> set (outs g p)} \<le> card N" using fin by (intro card_mono) auto
    then show ?thesis using R(7) q assms(5,8) by (simp add: all_valid_def bits14_simps dfs_size_def)
  qed
  have F': "\<forall>q \<in> ?N. q \<noteq> c \<longrightarrow> falsecount (cn g1 q) = card {p \<in> insert c ?M. q \<in> set (outs g p)}"
  proof (intro ballI impI)
    fix q assume "q \<in> ?N" "q \<noteq> c"
    moreover from this have "{p \<in> insert l M. q \<in> set (outs g p)} = {p \<in> M. q \<in> set (outs g p)}" using assms(4) by blast
    ultimately show "falsecount (cn g1 q) = card {p \<in> insert c ?M. q \<in> set (outs g p)}" using F unfolding M by simp
  qed
  have D: "\<forall>q \<in> ?N. q \<noteq> c \<longrightarrow> deleted (cn g1 q) \<longrightarrow> q \<in> ?M" using R(5) M assms(5) unfolding all_valid_def by blast
  have "\<not> (\<exists>p \<in> M. c \<in> set (outs g p))" using B(2) B(4) [of c] unfolding M by blast
  then have "{p \<in> insert l M. c \<in> set (outs g p)} = {l}" using assms(4) by auto
  then have "falsecount (cn g1 c) = 1" using F [OF c] by simp
  moreover have "card ?N < 2 ^ 14" using card_mono [OF fin, of ?N] assms(8) by (auto simp: dfs_size_def)
  moreover have "n \<notin> ?N" using assms(9) by blast
  moreover have "N - {l, c} = ?N - {c}" by blast
  ultimately show ?thesis using recompute_unchanged [OF G c ac _ _ assms(10) R(2) refl F' D, of sf tif] R(1) by auto
qed

section \<open>The falsecount has 14 bits\<close>

text \<open>The test of a call for which there is a completed table: is the table to be computed again?\<close>

definition needs_recomputation :: "callgraph \<Rightarrow> nat \<Rightarrow> bool" where
  "needs_recomputation g c \<longleftrightarrow> c \<noteq> 0 \<and> falsecount (cn g c) \<noteq> 0"

fun invalidate_times :: "(nat \<Rightarrow> bool) \<Rightarrow> nat \<Rightarrow> nat \<Rightarrow> callgraph \<Rightarrow> callgraph option" where
  "invalidate_times cf 0 c g = Some g"
| "invalidate_times cf (Suc n) c g =
     (case invalidate_call cf c g of Some (Inr g1) \<Rightarrow> invalidate_times cf n c g1 | _ \<Rightarrow> None)"

lemma invalidate_times_ok:
  "graph_ok g N \<Longrightarrow> c \<in> N \<Longrightarrow> \<not> deleted (cn g c) \<Longrightarrow> idg_dyn_leaf (cn g c) \<Longrightarrow> \<forall>r \<in> N. \<not> check_non_completed cf g r \<Longrightarrow> closed_marks g N \<Longrightarrow> card N < dfs_size \<Longrightarrow>
    q \<in> set (outs g c) \<Longrightarrow> \<forall>p \<in> N. q \<in> set (outs g p) \<longrightarrow> p = c \<Longrightarrow>
    \<exists>g'. invalidate_times cf n c g = Some g' \<and> falsecount (cn g' q) = bits14 (falsecount (cn g q) + n) \<and> (0 < n \<longrightarrow> deleted (cn g' q)) \<and>
      (deleted (cn g q) \<longrightarrow> deleted (cn g' q))"
proof (induction n arbitrary: g)
  case 0
  then have "q \<in> N" by (blast intro: graph_okD(1))
  then show ?case using graph_okD(3) [OF 0(1)] by (simp add: bits14_simps)
next
  case (Suc n)
  note G = Suc.prems(1)
  have q: "q \<in> N" "q \<noteq> c" using graph_okD(1,2) [OF G Suc.prems(2,8)] Suc.prems(4) by auto
  obtain g1 M where R: "invalidate_call cf c g = Some (Inr g1)" "same_edges g g1" "c \<notin> M" "M \<subseteq> unmarked g N"
    "\<And>q. deleted (cn g1 q) \<longleftrightarrow> deleted (cn g q) \<or> q \<in> M \<or> q = c \<and> \<not> idg_dyn_leaf (cn g c)"
    "\<forall>q \<in> N. (c, q) \<in> (dep g N)\<^sup>+ \<longrightarrow> deleted (cn g1 q)" "M \<subseteq> (dep g N)\<^sup>+ `` {c}"
    "\<forall>q \<in> N. falsecount (cn g1 q) = bits14 (falsecount (cn g q) + (if q = c then 1 else 0) + card {p \<in> insert c M. q \<in> set (outs g p)})"
    using invalidate_ok [OF G Suc.prems(2,3,5,6,7)] by blast
  have MN: "M \<subseteq> N" using R(4) unfolding unmarked_def by blast
  have e: "{p \<in> insert c M. q \<in> set (outs g p)} = {c}"
  proof (rule set_eqI, rule iffI)
    fix p assume "p \<in> {p \<in> insert c M. q \<in> set (outs g p)}"
    then show "p \<in> {c}" using MN Suc.prems(9) by blast
  next
    fix p assume "p \<in> {c}"
    then show "p \<in> {p \<in> insert c M. q \<in> set (outs g p)}" using Suc.prems(8) by blast
  qed
  have f: "falsecount (cn g1 q) = bits14 (falsecount (cn g q) + 1)" using bspec [OF R(8) q(1)] q(2) unfolding e by simp
  have "(c, q) \<in> dep g N" using Suc.prems(2,8) by (simp add: dep_def)
  then have d: "deleted (cn g1 q)" using R(6) q(1) by blast
  have nd: "\<not> deleted (cn g1 c)" using R(3,5) Suc.prems(3,4) by blast
  have cl: "closed_marks g1 N" unfolding closed_marks_def same_edgesD(2) [OF R(2)]
  proof (intro ballI impI)
    fix p r assume p: "p \<in> N" "deleted (cn g1 p)" "r \<in> set (outs g p)"
    have r: "r \<in> N" "(p, r) \<in> dep g N" using graph_okD(1) [OF G p(1,3)] p(1,3) by (auto simp: dep_def)
    have "deleted (cn g p) \<or> p \<in> M" using p(2) R(5) Suc.prems(4) by blast
    then show "deleted (cn g1 r)"
    proof
      assume "deleted (cn g p)"
      then show ?thesis using Suc.prems(6) p r R(5) unfolding closed_marks_def by blast
    next
      assume "p \<in> M"
      then have "(c, p) \<in> (dep g N)\<^sup>+" using R(7) by blast
      then have "(c, r) \<in> (dep g N)\<^sup>+" using r(2) by (rule trancl_into_trancl)
      then show ?thesis using R(6) r(1) by blast
    qed
  qed
  have G1: "graph_ok g1 N"
  proof (rule graph_ok_same [OF G R(2)], rule ballI)
    fix r assume "r \<in> N"
    then show "falsecount (cn g1 r) < 2 ^ 14" using R(8) bits14_simps(1) by simp
  qed
  have "\<forall>r \<in> N. \<not> check_non_completed cf g1 r" "idg_dyn_leaf (cn g1 c)" "q \<in> set (outs g1 c)" "\<forall>p \<in> N. q \<in> set (outs g1 p) \<longrightarrow> p = c"
    using Suc.prems(4,5,8,9) by (simp_all add: same_edgesD [OF R(2)])
  then obtain g' where "invalidate_times cf n c g1 = Some g'" "falsecount (cn g' q) = bits14 (falsecount (cn g1 q) + n)"
      "deleted (cn g1 q) \<longrightarrow> deleted (cn g' q)"
    using Suc.IH [OF G1 Suc.prems(2) nd _ _ cl Suc.prems(7)] by blast
  then show ?case using R(1) f d bits14_simps(3) [of "falsecount (cn g q) + 1" n] by auto
qed

text \<open>C40: a valid call whose only predecessor in the graph is a dynamic leaf is taken for valid again
  after the leaf has been invalidated 16384 times, while it is still marked: the falsecount has
  wrapped around, and the old table is used. All calls are valid and completed before, and there
  are less than 10000 nodes, so that no search runs out of its stack.\<close>

theorem falsecount_wraps_around:
  assumes "graph_ok g N" "c \<in> N" "idg_dyn_leaf (cn g c)" "all_valid g N" "\<forall>r \<in> N. \<not> check_non_completed cf g r"
    "q \<in> set (outs g c)" "\<forall>p \<in> N. q \<in> set (outs g p) \<longrightarrow> p = c" "card N < dfs_size"
  shows "\<exists>g'. invalidate_times cf (2 ^ 14) c g = Some g' \<and> deleted (cn g' q) \<and> \<not> needs_recomputation g' q"
proof -
  have "\<not> deleted (cn g c)" "closed_marks g N" "falsecount (cn g q) = 0"
    using graph_okD(1) [OF assms(1,2,6)] assms(2,4) by (auto simp: all_valid_def closed_marks_def)
  then show ?thesis using invalidate_times_ok [OF assms(1,2) _ assms(3,5) _ assms(8,6,7), of "2 ^ 14"]
    by (auto simp: needs_recomputation_def bits14_def)
qed

section \<open>Adding and removing edges\<close>

text \<open>
  The table of a node has its successors under their identifiers, and the list of a node the
  records of its predecessors, except for the nodes of \<open>X\<close>, whose lists are stale.
\<close>

definition edges_ok :: "callgraph \<Rightarrow> nat set \<Rightarrow> nat set \<Rightarrow> bool" where
  "edges_ok g N X \<longleftrightarrow> graph_ok g N \<and> inj_on (\<lambda>p. cn_id (cn g p)) N \<and> inj_on (\<lambda>p. outedges (cn g p)) N \<and>
     (\<forall>p \<in> N. callnode_of (oe g (outedges (cn g p))) = p \<and> ht.keyed (\<lambda>q. cn_id (cn g q)) (edge_hash g p) \<and>
       outcount (cn g p) = bits14 (length (outs g p))) \<and>
     (\<forall>q \<in> N - X. distinct (inedges (cn g q)) \<and> set (inedges (cn g q)) = (\<lambda>p. outedges (cn g p)) ` {p \<in> N. q \<in> set (outs g p)}) \<and>
     call_edge_count g = (\<Sum>p \<in> N. int (length (outs g p)))"

lemma edge_hash_set:
  assumes "inj_on (\<lambda>p. outedges (cn g p)) N" "p \<in> N" "r \<in> N"
  shows "hasht (oe (set_hasht (outedges (cn g p)) h g) (outedges (cn g r))) = (if r = p then h else edge_hash g r)"
  using inj_onD [OF assms(1), of r p] assms(2,3) by (auto simp: set_hasht_def edge_hash_def)

lemma addcalledge_ok:
  assumes E: "edges_ok g N {}" and a: "a \<in> N" and b: "b \<in> N" "\<not> idg_dyn_leaf (cn g b)"
  shows "edges_ok (addcalledge a b g) N {} \<and> dep (addcalledge a b g) N = insert (a, b) (dep g N)"
proof (cases "b \<in> set (outs g a)")
  case True
  have k: "ht.keyed (\<lambda>q. cn_id (cn g q)) (edge_hash g a)" using E a by (simp add: edges_ok_def)
  have "hashtable1_search (edge_hash g a) (cn_id (cn g b)) = Some b" using True ht.keyed_vals(2) [OF k, of b] by (simp add: outs_def)
  then have "addcalledge a b g = g" by (simp add: addcalledge_def edge_hash_def Let_def)
  then show ?thesis using True E a by (auto simp: dep_def)
next
  case False
  note E' = E [unfolded edges_ok_def]
  let ?id = "\<lambda>q. cn_id (cn g q)" and ?h = "edge_hash g a" and ?g = "addcalledge a b g"
  let ?h' = "hashtable1_insert ?h (?id b) b"
  have k: "ht.keyed ?id ?h" using E' a by blast
  have no: "hashtable1_search ?h (?id b) = None"
  proof (cases "hashtable1_search ?h (?id b)")
    case (Some v)
    then have v: "?id v = ?id b" using k by (auto simp: ht.keyed_def)
    then have "v \<in> set (outs g a)" using ht.keyed_vals(2) [OF k, of v] Some by (simp add: outs_def)
    moreover from this have "v \<in> N" using graph_okD(1) [of g N a v] E' a by blast
    then have "v = b" using v inj_onD [of ?id N v b] E' b by blast
    ultimately show ?thesis using False by simp
  qed
  note A = ht.add_edge [OF k, of b, OF no]
  have g: "cn ?g p = (let n = cn g p; n1 = (if p = b then n\<lparr>inedges := outedges (cn g a) # inedges n\<rparr> else n) in
      if p = a then n1\<lparr>outcount := bits14 (outcount n1 + 1)\<rparr> else n1)" for p
    using no by (auto simp: addcalledge_def Let_def upd_def edge_hash_def set_hasht_def)
  have oe: "hasht (oe ?g (outedges (cn g r))) = (if r = a then ?h' else edge_hash g r)" if "r \<in> N" for r
    using no edge_hash_set [of g N a r ?h'] E' a that by (auto simp: addcalledge_def Let_def upd_def edge_hash_def set_hasht_def)
  have cn: "outedges (cn ?g p) = outedges (cn g p)" "cn_id (cn ?g p) = cn_id (cn g p)" "idg_dyn_leaf (cn ?g p) = idg_dyn_leaf (cn g p)"
      "falsecount (cn ?g p) = falsecount (cn g p)" "callnode_of (oe ?g r) = callnode_of (oe g r)" for p r
    using no by (auto simp: g Let_def addcalledge_def upd_def set_hasht_def edge_hash_def)
  have eh: "edge_hash ?g r = (if r = a then ?h' else edge_hash g r)" if "r \<in> N" for r
    using oe [OF that] cn(1) by (simp add: edge_hash_def)
  have os: "set (outs ?g r) = (if r = a then insert b (set (outs g r)) else set (outs g r))"
      "length (outs ?g r) = length (outs g r) + (if r = a then 1 else 0)" if "r \<in> N" for r
    using A eh [OF that] by (auto simp: outs_def)
  have key: "ht.keyed ?id (edge_hash ?g r)" if "r \<in> N" for r using A(1) E' eh [OF that] that by auto
  have "graph_ok ?g N"
    unfolding graph_ok_def
  proof (intro conjI ballI)
    fix p assume p: "p \<in> N"
    show "ht_ok (edge_hash ?g p)" using key [OF p] by (simp add: ht.keyed_def)
    show "distinct (outs ?g p)" using ht.keyed_vals(1) [OF key [OF p]] by (simp add: outs_def)
    show "set (outs ?g p) \<subseteq> N" using os(1) [OF p] E' b p by (auto simp: graph_ok_def)
    show "falsecount (cn ?g p) < 2 ^ 14" using E' p cn(4) by (simp add: graph_ok_def)
    show "\<not> idg_dyn_leaf (cn ?g q)" if "q \<in> set (outs ?g p)" for q
      using that os(1) [OF p] E' b(2) p cn(3) by (auto simp: graph_ok_def split: if_splits)
  qed (use E' in \<open>auto simp: graph_ok_def\<close>)
  moreover have "distinct (inedges (cn ?g q)) \<and> set (inedges (cn ?g q)) = (\<lambda>p. outedges (cn ?g p)) ` {p \<in> N. q \<in> set (outs ?g p)}" if q: "q \<in> N" for q
  proof -
    have I: "distinct (inedges (cn g q))" "set (inedges (cn g q)) = (\<lambda>p. outedges (cn g p)) ` {p \<in> N. q \<in> set (outs g p)}" using E' q by auto
    have e: "inedges (cn ?g q) = (if q = b then outedges (cn g a) # inedges (cn g q) else inedges (cn g q))" by (simp add: g Let_def)
    show ?thesis
    proof (cases "q = b")
      case True
      have "outedges (cn g a) \<notin> set (inedges (cn g q))"
      proof
        assume "outedges (cn g a) \<in> set (inedges (cn g q))"
        then obtain p where p: "p \<in> N" "q \<in> set (outs g p)" "outedges (cn g a) = outedges (cn g p)" unfolding I by blast
        then have "p = a" using inj_onD [of "\<lambda>p. outedges (cn g p)" N a p] E' a by auto
        then show False using p(2) \<open>b \<notin> set (outs g a)\<close> True by simp
      qed
      moreover have "{p \<in> N. q \<in> set (outs ?g p)} = insert a {p \<in> N. q \<in> set (outs g p)}" using os(1) a True by auto
      ultimately show ?thesis using I e True unfolding cn(1) by simp
    next
      case qb: False
      then have "{p \<in> N. q \<in> set (outs ?g p)} = {p \<in> N. q \<in> set (outs g p)}" using os(1) by (auto split: if_splits)
      then show ?thesis using I e qb unfolding cn(1) by simp
    qed
  qed
  moreover have "outcount (cn ?g p) = bits14 (length (outs ?g p))" if p: "p \<in> N" for p
    using E' p os(2) [OF p] bits14_simps(3) [of "length (outs g a)" 1] by (auto simp: g Let_def)
  moreover have "call_edge_count ?g = (\<Sum>p \<in> N. int (length (outs ?g p)))"
  proof -
    have fin: "finite N" using E' by (simp add: graph_ok_def)
    have "(\<Sum>p \<in> N. int (length (outs ?g p))) = (\<Sum>p \<in> N. int (length (outs g p)) + (if p = a then 1 else 0))"
      by (rule sum.cong) (simp_all add: os(2))
    also have "\<dots> = (\<Sum>p \<in> N. int (length (outs g p))) + 1" using fin a by (simp add: sum.distrib)
    also have "\<dots> = call_edge_count ?g" using E' no by (simp add: addcalledge_def Let_def edge_hash_def)
    finally show ?thesis by simp
  qed
  moreover have "dep ?g N = insert (a, b) (dep g N)" using os(1) a by (auto simp: dep_def split: if_splits)
  ultimately show ?thesis using E' key cn by (simp add: edges_ok_def)
qed

text \<open>C24: recording that a call depends on another keeps the graph consistent - the table of the successors,
  the lists of the predecessors, the counters of the nodes and of the edges - and adds exactly that
  dependency; recording it again changes nothing.\<close>

theorem addcalledge_adds:
  assumes "edges_ok g N {}" "a \<in> N" "b \<in> N" "\<not> idg_dyn_leaf (cn g b)"
  shows "edges_ok (addcalledge a b g) N {} \<and> dep (addcalledge a b g) N = insert (a, b) (dep g N) \<and>
    addcalledge a b (addcalledge a b g) = addcalledge a b g"
proof -
  note A = addcalledge_ok [OF assms]
  then have b: "b \<in> set (outs (addcalledge a b g) a)" by (auto simp: dep_def)
  have k: "ht.keyed (\<lambda>q. cn_id (cn (addcalledge a b g) q)) (edge_hash (addcalledge a b g) a)" using A assms(2) by (simp add: edges_ok_def)
  have "hashtable1_search (edge_hash (addcalledge a b g) a) (cn_id (cn (addcalledge a b g) b)) = Some b"
    using b ht.keyed_vals(2) [OF k, of b] by (simp add: outs_def)
  then have "addcalledge a b (addcalledge a b g) = addcalledge a b g" by (simp add: addcalledge_def [of a b "addcalledge a b g"] edge_hash_def Let_def)
  then show ?thesis using A by blast
qed

lemma addcalledge_frame:
  "falsecount (cn (addcalledge a b g) p) = falsecount (cn g p)" "deleted (cn (addcalledge a b g) p) = deleted (cn g p)"
  "idg_dyn_leaf (cn (addcalledge a b g) p) = idg_dyn_leaf (cn g p)" "cn_id (cn (addcalledge a b g) p) = cn_id (cn g p)"
  "outedges (cn (addcalledge a b g) p) = outedges (cn g p)"
  by (simp_all add: addcalledge_def Let_def upd_def set_hasht_def)

section \<open>Making nodes\<close>

text \<open>A new node has no edges; its identifier is one that no node has had.\<close>

lemma new_node_ok:
  assumes E: "edges_ok g N {}" and p: "p \<notin> N" "p \<noteq> 0" and out: "\<forall>q \<in> N. outedges (cn g q) \<noteq> out"
    and ids: "\<forall>q \<in> N. cn_id (cn g q) < total_call_node_count g"
  shows "\<exists>g'. initoutedges out p (makecallnode p sf leaf tif g) = Some g' \<and> edges_ok g' (insert p N) {} \<and> dep g' (insert p N) = dep g N \<and>
    (\<forall>q \<in> insert p N. cn_id (cn g' q) < total_call_node_count g') \<and> (\<forall>q. q \<noteq> p \<longrightarrow> cn g' q = cn g q) \<and>
    outedges (cn g' p) = out \<and> idg_dyn_leaf (cn g' p) = leaf \<and> falsecount (cn g' p) = 0 \<and> \<not> deleted (cn g' p)"
proof -
  note E' = E [unfolded edges_ok_def]
  have G: "graph_ok g N" and fin: "finite N" using E' by (simp_all add: graph_ok_def)
  obtain h :: "(int, nat) hashtable" where h: "create_hashtable1 1 hashfromkey = Some h" "ht_ok h" "ht_map h = Map.empty" "all_entries h = []"
    using create_ok [of 1 hashfromkey] by auto
  define g' where "g' = (upd p (outedges_update (\<lambda>_. out)) (makecallnode p sf leaf tif g))\<lparr>oe := (oe g)(out := \<lparr>hasht = h, callnode_of = p\<rparr>)\<rparr>"
  have R: "initoutedges out p (makecallnode p sf leaf tif g) = Some g'" using h(1) by (simp add: initoutedges_def g'_def makecallnode_def)
  have c: "cn g' q = cn g q" if "q \<noteq> p" for q using that by (simp add: g'_def upd_def makecallnode_def)
  have cp: "outedges (cn g' p) = out" "inedges (cn g' p) = []" "idg_dyn_leaf (cn g' p) = leaf" "falsecount (cn g' p) = 0" "\<not> deleted (cn g' p)"
      "outcount (cn g' p) = 0" "cn_id (cn g' p) = total_call_node_count g" "total_call_node_count g' = total_call_node_count g + 1"
      "call_edge_count g' = call_edge_count g" "oe g' out = \<lparr>hasht = h, callnode_of = p\<rparr>"
    by (simp_all add: g'_def upd_def makecallnode_def)
  have o': "oe g' r = oe g r" if "r \<noteq> out" for r using that by (simp add: g'_def upd_def makecallnode_def)
  have ne: "q \<noteq> p" if "q \<in> N" for q using that p(1) by blast
  have eh: "edge_hash g' q = edge_hash g q" if q: "q \<in> N" for q
    using c [OF ne [OF q]] o' [of "outedges (cn g q)"] out q by (simp add: edge_hash_def)
  have ehp: "edge_hash g' p = h" by (simp add: edge_hash_def cp)
  have os: "outs g' q = outs g q" if "q \<in> N" for q using eh [OF that] by (simp add: outs_def)
  have osp: "outs g' p = []" using h(4) by (simp add: outs_def ehp ht_values_def)
  have nin: "p \<notin> set (outs g q)" if "q \<in> N" for q using graph_okD(1) [OF G that] p(1) by blast
  have G': "graph_ok g' (insert p N)"
    unfolding graph_ok_def
  proof (intro conjI ballI)
    fix q assume q: "q \<in> insert p N"
    show "ht_ok (edge_hash g' q)" using q h(2) ehp eh graph_okD(4) [OF G] by auto
    show "distinct (outs g' q)" using q osp os G unfolding graph_ok_def by auto
    show "set (outs g' q) \<subseteq> insert p N" using q osp os graph_okD(1) [OF G] by auto
    show "falsecount (cn g' q) < 2 ^ 14" using q cp(4) c [of q] graph_okD(3) [OF G, of q] by (cases "q = p") auto
    fix r assume r: "r \<in> set (outs g' q)"
    then have qN: "q \<in> N" using q osp by auto
    then have "r \<noteq> p" using r os nin by auto
    then show "\<not> idg_dyn_leaf (cn g' r)" using r qN os c graph_okD(2) [OF G qN, of r] by simp
  qed (use fin p(2) G in \<open>simp_all add: graph_ok_def\<close>)
  have key: "ht.keyed (\<lambda>q. cn_id (cn g' q)) (edge_hash g' q)" if q: "q \<in> insert p N" for q
  proof (cases "q = p")
    case True
    have "hashtable1_search h k = None" for k using search_map [OF ht_ok_core [OF h(2)]] h(3) by simp
    then show ?thesis using h(2) by (simp add: True ehp ht.keyed_def)
  next
    case False
    then have qN: "q \<in> N" using q by blast
    have k: "ht.keyed (\<lambda>q. cn_id (cn g q)) (edge_hash g q)" using E' qN by blast
    have "cn_id (cn g' r) = i" if s: "hashtable1_search (edge_hash g q) i = Some r" for i r
    proof -
      have i: "cn_id (cn g r) = i" using k s by (simp add: ht.keyed_def)
      then have "r \<in> set (outs g q)" using s ht.keyed_vals(2) [OF k, of r] by (simp add: outs_def)
      then show ?thesis using i c nin [OF qN] by (metis)
    qed
    then show ?thesis using k eh [OF qN] by (simp add: ht.keyed_def)
  qed
  have "inj_on (\<lambda>q. cn_id (cn g' q)) (insert p N)"
  proof (rule inj_onI)
    fix q r assume a: "q \<in> insert p N" "r \<in> insert p N" "cn_id (cn g' q) = cn_id (cn g' r)"
    have "inj_on (\<lambda>q. cn_id (cn g q)) N" using E' by blast
    then show "q = r" using a ids cp(7) c by (cases "q = p"; cases "r = p") (auto dest: inj_onD)
  qed
  moreover have "inj_on (\<lambda>q. outedges (cn g' q)) (insert p N)"
  proof (rule inj_onI)
    fix q r assume a: "q \<in> insert p N" "r \<in> insert p N" "outedges (cn g' q) = outedges (cn g' r)"
    have "inj_on (\<lambda>q. outedges (cn g q)) N" using E' by blast
    then show "q = r" using a out cp(1) c by (cases "q = p"; cases "r = p") (auto dest: inj_onD)
  qed
  moreover have "callnode_of (oe g' (outedges (cn g' q))) = q \<and> outcount (cn g' q) = bits14 (length (outs g' q))" if q: "q \<in> insert p N" for q
  proof (cases "q = p")
    case True
    then show ?thesis using cp osp by (simp add: bits14_def)
  next
    case False
    then have qN: "q \<in> N" using q by blast
    then show ?thesis using E' out c [OF False] o' [of "outedges (cn g q)"] os [OF qN] by auto
  qed
  moreover have "distinct (inedges (cn g' q)) \<and> set (inedges (cn g' q)) = (\<lambda>r. outedges (cn g' r)) ` {r \<in> insert p N. q \<in> set (outs g' r)}"
    if q: "q \<in> insert p N" for q
  proof -
    have e: "{r \<in> insert p N. q \<in> set (outs g' r)} = {r \<in> N. q \<in> set (outs g r)}" using osp os ne by auto
    have "outedges (cn g' r) = outedges (cn g r)" if "r \<in> N" for r using c [OF ne [OF that]] by simp
    then have im: "(\<lambda>r. outedges (cn g' r)) ` {r \<in> N. q \<in> set (outs g r)} = (\<lambda>r. outedges (cn g r)) ` {r \<in> N. q \<in> set (outs g r)}"
      by (intro image_cong) auto
    show ?thesis
    proof (cases "q = p")
      case True
      then have "{r \<in> N. q \<in> set (outs g r)} = {}" using nin by blast
      then show ?thesis using True cp(2) unfolding e by simp
    next
      case False
      then have "q \<in> N" using q by blast
      then show ?thesis using E' c [OF False] unfolding e im by auto
    qed
  qed
  moreover have "call_edge_count g' = (\<Sum>q \<in> insert p N. int (length (outs g' q)))"
    using E' fin p(1) os osp cp(9) by simp
  ultimately have ok: "edges_ok g' (insert p N) {}" using G' key by (simp add: edges_ok_def)
  have "dep g' (insert p N) = dep g N" using osp os by (auto simp: dep_def)
  moreover have "\<forall>q \<in> insert p N. cn_id (cn g' q) < total_call_node_count g'" using ids cp(7,8) c ne by auto
  ultimately show ?thesis using R ok c cp(1,3-5) by blast
qed

text \<open>Taking a node out: the state of all other nodes while its edges go.\<close>

definition nodes_ok :: "callgraph \<Rightarrow> nat set \<Rightarrow> nat \<Rightarrow> bool" where
  "nodes_ok g N c \<longleftrightarrow> finite N \<and> inj_on (\<lambda>p. cn_id (cn g p)) N \<and> inj_on (\<lambda>p. outedges (cn g p)) N \<and>
     (\<forall>p \<in> N. callnode_of (oe g (outedges (cn g p))) = p \<and> ht.keyed (\<lambda>q. cn_id (cn g q)) (edge_hash g p)) \<and>
     (\<forall>p \<in> N - {c}. outcount (cn g p) = bits14 (length (outs g p))) \<and>
     call_edge_count g = (\<Sum>p \<in> N - {c}. int (length (outs g p)))"

definition edge_frame :: "callgraph \<Rightarrow> callgraph \<Rightarrow> bool" where
  "edge_frame g g' \<longleftrightarrow> (\<forall>p. outedges (cn g' p) = outedges (cn g p) \<and> cn_id (cn g' p) = cn_id (cn g p) \<and>
     idg_dyn_leaf (cn g' p) = idg_dyn_leaf (cn g p) \<and> falsecount (cn g' p) = falsecount (cn g p) \<and>
     deleted (cn g' p) = deleted (cn g p) \<and>
     inedges (cn g' p) = inedges (cn g p) \<and> callnode_of (oe g' p) = callnode_of (oe g p))"

lemma dec14_bits14: "dec14 (bits14 (Suc n)) = bits14 n"
  by (simp add: dec14_def bits14_def mod_Suc)

lemma drop_step:
  assumes I: "nodes_ok g N c" and c: "c \<in> N" and p: "p \<in> N" "p \<noteq> c" "c \<in> set (outs g p)"
  shows "\<exists>g1. drop_in_edge (cn_id (cn g c)) (outedges (cn g p)) g = Inr g1 \<and> nodes_ok g1 N c \<and> edge_frame g g1 \<and>
    outcount (cn g1 c) = outcount (cn g c) \<and> (\<forall>r \<in> N. set (outs g1 r) = (if r = p then set (outs g p) - {c} else set (outs g r)))"
proof -
  let ?id = "\<lambda>q. cn_id (cn g q)" and ?h = "edge_hash g p"
  let ?h1 = "snd (hashtable1_remove ?h (?id c))"
  note I' = I [unfolded nodes_ok_def]
  have k: "ht.keyed ?id ?h" and cp: "callnode_of (oe g (outedges (cn g p))) = p" using I' p(1) by blast+
  have look: "hashtable1_search ?h (?id c) = Some c" using ht.keyed_vals(2) [OF k, of c] p(3) by (simp add: outs_def)
  note A = ht.delete_edge [OF k, of c, OF look]
  have ok: "ht_ok ?h" using k by (simp add: ht.keyed_def)
  have "fst (hashtable1_remove ?h (?id c)) = Some c" using remove_ok(1) [OF ok] search_map [OF ht_ok_core [OF ok]] look by simp
  then have rm: "hashtable1_remove ?h (?id c) = (Some c, ?h1)" by (metis prod.collapse)
  define g1 where "g1 = (upd p (outcount_update dec14) (set_hasht (outedges (cn g p)) ?h1 g))\<lparr>call_edge_count := call_edge_count g - 1\<rparr>"
  have R: "drop_in_edge (?id c) (outedges (cn g p)) g = Inr g1"
    unfolding drop_in_edge_def g1_def edge_hash_def [symmetric] cp by (subst rm) simp
  have fr: "edge_frame g g1" by (auto simp: edge_frame_def g1_def upd_def set_hasht_def)
  have cn: "cn_id (cn g1 q) = cn_id (cn g q)" "outedges (cn g1 q) = outedges (cn g q)" "callnode_of (oe g1 q) = callnode_of (oe g q)"
      "outcount (cn g1 q) = (if q = p then dec14 (outcount (cn g q)) else outcount (cn g q))" for q
    by (simp_all add: g1_def upd_def set_hasht_def)
  have eh: "edge_hash g1 r = (if r = p then ?h1 else edge_hash g r)" if "r \<in> N" for r
  proof -
    have "oe g1 = oe (set_hasht (outedges (cn g p)) ?h1 g)" by (simp add: g1_def upd_def)
    then have "edge_hash g1 r = hasht (oe (set_hasht (outedges (cn g p)) ?h1 g) (outedges (cn g r)))" by (simp add: edge_hash_def cn(2))
    then show ?thesis using edge_hash_set [of g N p r ?h1] I' p(1) that by simp
  qed
  have os: "set (outs g1 r) = (if r = p then set (outs g p) - {c} else set (outs g r))"
      "length (outs g r) = (if r = p then Suc (length (outs g1 r)) else length (outs g1 r))" if "r \<in> N" for r
    using A(2,3) eh [OF that] by (cases "r = p"; simp add: outs_def)+
  have key: "ht.keyed ?id (edge_hash g1 r)" if "r \<in> N" for r using A(1) I' eh [OF that] that by simp
  have "outcount (cn g1 r) = bits14 (length (outs g1 r))" if "r \<in> N - {c}" for r
  proof -
    have "outcount (cn g r) = bits14 (length (outs g r))" using I' that by blast
    then show ?thesis using os(2) [of r] that by (cases "r = p") (simp_all add: cn(4) dec14_bits14)
  qed
  moreover have "call_edge_count g1 = (\<Sum>r \<in> N - {c}. int (length (outs g1 r)))"
  proof -
    have fin: "finite (N - {c})" and pN: "p \<in> N - {c}" using I' p by simp_all
    have "(\<Sum>r \<in> N - {c}. int (length (outs g r))) = (\<Sum>r \<in> N - {c}. int (length (outs g1 r)) + (if r = p then 1 else 0))"
      by (rule sum.cong) (simp_all add: os(2))
    also have "\<dots> = (\<Sum>r \<in> N - {c}. int (length (outs g1 r))) + 1" using fin pN by (simp add: sum.distrib)
    finally show ?thesis using I' by (simp add: g1_def)
  qed
  ultimately have "nodes_ok g1 N c" using I' key unfolding nodes_ok_def by (simp add: cn(1-3))
  moreover have "outcount (cn g1 c) = outcount (cn g c)" using p(2) by (simp add: cn(4))
  ultimately show ?thesis using R fr os(1) by blast
qed

lemma edge_frame_trans: "edge_frame g g1 \<Longrightarrow> edge_frame g1 g2 \<Longrightarrow> edge_frame g g2"
  by (simp add: edge_frame_def)

lemma drop_all:
  "nodes_ok g N c \<Longrightarrow> c \<in> N \<Longrightarrow> distinct es \<Longrightarrow> set es \<subseteq> (\<lambda>p. outedges (cn g p)) ` {p \<in> N. c \<in> set (outs g p)} \<Longrightarrow> i = cn_id (cn g c) \<Longrightarrow>
    \<exists>g1. drop_in_edges (\<lambda>out g. cn_id (cn g (callnode_of (oe g out))) = cn_id (cn g c)) i es g = Inr g1 \<and> nodes_ok g1 N c \<and>
      edge_frame g g1 \<and> outcount (cn g1 c) = outcount (cn g c) \<and>
      (\<forall>r \<in> N. set (outs g1 r) = (if r \<noteq> c \<and> outedges (cn g r) \<in> set es then set (outs g r) - {c} else set (outs g r)))"
proof (induction es arbitrary: g)
  case Nil
  then show ?case by (auto simp: edge_frame_def)
next
  case (Cons out es)
  note I = Cons.prems(1) [unfolded nodes_ok_def]
  let ?skip = "\<lambda>out g. cn_id (cn g (callnode_of (oe g out))) = cn_id (cn g c)"
  obtain p where p: "p \<in> N" "c \<in> set (outs g p)" "out = outedges (cn g p)" using Cons.prems(4) by auto
  have cp: "callnode_of (oe g out) = p" using I p by blast
  have inj: "outedges (cn g r) = out \<longleftrightarrow> r = p" if "r \<in> N" for r
    using inj_onD [of "\<lambda>p. outedges (cn g p)" N r p] I that p by auto
  show ?case
  proof (cases "p = c")
    case True
    obtain g1 where "drop_in_edges ?skip i es g = Inr g1" "nodes_ok g1 N c" "edge_frame g g1" "outcount (cn g1 c) = outcount (cn g c)"
      "\<forall>r \<in> N. set (outs g1 r) = (if r \<noteq> c \<and> outedges (cn g r) \<in> set es then set (outs g r) - {c} else set (outs g r))"
      using Cons.IH [OF Cons.prems(1,2) _ _ Cons.prems(5)] Cons.prems(3,4) by auto
    then show ?thesis using cp True inj by (auto simp: p(3) [symmetric])
  next
    case False
    obtain g1 where D: "drop_in_edge i out g = Inr g1" "nodes_ok g1 N c" "edge_frame g g1" "outcount (cn g1 c) = outcount (cn g c)"
      "\<forall>r \<in> N. set (outs g1 r) = (if r = p then set (outs g p) - {c} else set (outs g r))"
      using drop_step [OF Cons.prems(1,2) p(1) False p(2)] unfolding p(3) Cons.prems(5) by blast
    have skip: "\<not> ?skip out g" using cp False inj_onD [of "\<lambda>p. cn_id (cn g p)" N p c] I p(1) Cons.prems(2) by auto
    have oe: "outedges (cn g1 r) = outedges (cn g r)" "cn_id (cn g1 r) = cn_id (cn g r)" for r using D(3) by (simp_all add: edge_frame_def)
    have "set es \<subseteq> (\<lambda>p. outedges (cn g1 p)) ` {p \<in> N. c \<in> set (outs g1 p)}"
    proof
      fix o' assume o': "o' \<in> set es"
      then obtain r where r: "r \<in> N" "c \<in> set (outs g r)" "o' = outedges (cn g r)" using Cons.prems(4) by auto
      then have "r \<noteq> p" using o' Cons.prems(3) p(3) by auto
      then have "c \<in> set (outs g1 r)" using D(5) r by simp
      then show "o' \<in> (\<lambda>p. outedges (cn g1 p)) ` {p \<in> N. c \<in> set (outs g1 p)}" using r by (auto simp: oe)
    qed
    then obtain g2 where R: "drop_in_edges ?skip i es g1 = Inr g2" "nodes_ok g2 N c"
      "edge_frame g1 g2" "outcount (cn g2 c) = outcount (cn g1 c)"
      "\<forall>r \<in> N. set (outs g2 r) = (if r \<noteq> c \<and> outedges (cn g1 r) \<in> set es then set (outs g1 r) - {c} else set (outs g1 r))"
      using Cons.IH [OF D(2) Cons.prems(2)] Cons.prems(3,5) oe(2) by auto
    have "set (outs g2 r) = (if r \<noteq> c \<and> outedges (cn g r) \<in> set (out # es) then set (outs g r) - {c} else set (outs g r))" if r: "r \<in> N" for r
      using R(5) D(5) r inj [OF r] False Cons.prems(3) by (auto simp: oe split: if_splits)
    then show ?thesis using R D(1,4) skip edge_frame_trans [OF D(3) R(3)] by (simp add: oe)
  qed
qed

lemma drop_node_count: "drop_in_edges skip i es g = Inr g' \<Longrightarrow> call_node_count g' = call_node_count g"
proof (induction es arbitrary: g)
  case (Cons out es)
  have "drop_in_edge i out g = Inr g1 \<Longrightarrow> call_node_count g1 = call_node_count g" for g1
    by (auto simp: drop_in_edge_def upd_def set_hasht_def split: prod.splits option.splits)
  then show ?case using Cons by (auto split: if_splits sum.splits)
qed simp

text \<open>The loop of \<open>deleteoutedges\<close> takes the node out of the lists of its successors.\<close>

lemma delete_out_loop_fold:
  "ht_ok h \<Longrightarrow> itr_at h itr es \<Longrightarrow> delete_out_loop c h itr g = Some (fold (cut_in_edge c) (map e_v es) g)"
proof (induction es arbitrary: itr g)
  case Nil
  then show ?case by (auto simp: itr_at_def)
next
  case (Cons e es)
  note A = advance_at [OF Cons.prems(2,1)]
  show ?case
    using A Cons.IH [OF Cons.prems(1) A(3)] by (subst delete_out_loop.simps) (auto simp: Let_def split: prod.splits)
qed

lemma remove_from_cong: "oe g' = oe g \<Longrightarrow> remove_from g' c es = remove_from g c es"
  by (induction es) simp_all

lemma fold_cut:
  "distinct qs \<Longrightarrow> oe (fold (cut_in_edge c) qs g) = oe g \<and> call_edge_count (fold (cut_in_edge c) qs g) = call_edge_count g - int (length qs) \<and>
    cn (fold (cut_in_edge c) qs g) q =
      (cn g q)\<lparr>inedges := if q \<in> set qs \<and> q \<noteq> c then remove_from g c (inedges (cn g q)) else inedges (cn g q)\<rparr>"
proof (induction qs arbitrary: g)
  case (Cons r qs)
  have o': "oe (cut_in_edge c r g) = oe g" by (simp add: cut_in_edge_def upd_def)
  show ?case using Cons.IH [of "cut_in_edge c r g"] Cons.prems remove_from_cong [OF o']
    by (auto simp: cut_in_edge_def upd_def)
qed simp

lemma remove_from_set:
  "distinct es \<Longrightarrow> \<forall>out \<in> set es. callnode_of (oe g out) = c \<longleftrightarrow> out = o' \<Longrightarrow> distinct (remove_from g c es) \<and> set (remove_from g c es) = set es - {o'}"
  by (induction es) auto

lemma deleteoutedges_ok:
  assumes E: "edges_ok g N {}" and c: "c \<in> N"
  shows "\<exists>g1. deleteoutedges c g = Some g1 \<and> nodes_ok g1 N c \<and> oe g1 = oe g \<and> call_node_count g1 = call_node_count g \<and>
    (\<forall>q. outedges (cn g1 q) = outedges (cn g q) \<and> cn_id (cn g1 q) = cn_id (cn g q) \<and> idg_dyn_leaf (cn g1 q) = idg_dyn_leaf (cn g q) \<and>
       falsecount (cn g1 q) = falsecount (cn g q) \<and> deleted (cn g1 q) = deleted (cn g q)) \<and> outcount (cn g1 c) = 0 \<and> inedges (cn g1 c) = inedges (cn g c) \<and>
    (\<forall>q \<in> N - {c}. distinct (inedges (cn g1 q)) \<and> set (inedges (cn g1 q)) = (\<lambda>p. outedges (cn g p)) ` {p \<in> N - {c}. q \<in> set (outs g p)})"
proof -
  note E' = E [unfolded edges_ok_def]
  let ?h = "edge_hash g c"
  have G: "graph_ok g N" using E' by blast
  have fin: "finite N" using G by (simp add: graph_ok_def)
  have ok: "ht_ok ?h" and d: "distinct (outs g c)" using G c by (simp_all add: graph_ok_def)
  define g1 where "g1 = upd c (outcount_update (\<lambda>_. 0)) (fold (cut_in_edge c) (outs g c) g)"
  note F = fold_cut [OF d, of c g]
  have R: "\<exists>g'. deleteoutedges c g = Some g' \<and> oe g' = oe g1 \<and> call_node_count g' = call_node_count g1 \<and> call_edge_count g' = call_edge_count g1 \<and> cn g' = cn g1"
  proof (cases "hashtable1_count ?h > 0")
    case True
    have "itr_at ?h (hashtable1_iterator ?h) (all_entries ?h)" using iterator_at [OF ok] True by simp
    then show ?thesis using True delete_out_loop_fold [OF ok] by (simp add: deleteoutedges_def Let_def g1_def outs_def ht_values_def)
  next
    case False
    then have e: "outs g c = []" using count_nonzero [OF ok] by (simp add: outs_def)
    have "outcount (cn g c) = 0" using E' c e by (simp add: bits14_def)
    then have "cn g1 = cn g" by (auto simp: g1_def e upd_def)
    then show ?thesis using False e by (simp add: deleteoutedges_def g1_def upd_def)
  qed
  have cnc: "call_node_count (fold (cut_in_edge c) qs g) = call_node_count g" for qs
    by (induction qs arbitrary: g) (simp_all add: cut_in_edge_def upd_def)
  have g1: "oe g1 = oe g" "call_node_count g1 = call_node_count g" "call_edge_count g1 = call_edge_count g - int (length (outs g c))"
      "outedges (cn g1 q) = outedges (cn g q)" "cn_id (cn g1 q) = cn_id (cn g q)" "idg_dyn_leaf (cn g1 q) = idg_dyn_leaf (cn g q)"
      "falsecount (cn g1 q) = falsecount (cn g q)" "deleted (cn g1 q) = deleted (cn g q)" "outcount (cn g1 q) = (if q = c then 0 else outcount (cn g q))"
      "inedges (cn g1 q) = (if q \<in> set (outs g c) \<and> q \<noteq> c then remove_from g c (inedges (cn g q)) else inedges (cn g q))" for q
    using F [of q] cnc by (auto simp: g1_def upd_def)
  have eh: "edge_hash g1 p = edge_hash g p" for p by (simp add: edge_hash_def g1)
  then have os: "outs g1 p = outs g p" for p by (simp add: outs_def)
  have "call_edge_count g = int (length (outs g c)) + (\<Sum>p \<in> N - {c}. int (length (outs g p)))"
    using E' sum.remove [OF fin c, of "\<lambda>p. int (length (outs g p))"] by simp
  then have n: "nodes_ok g1 N c" using E' fin by (simp add: nodes_ok_def g1 eh os)
  have "distinct (inedges (cn g1 q)) \<and> set (inedges (cn g1 q)) = (\<lambda>p. outedges (cn g p)) ` {p \<in> N - {c}. q \<in> set (outs g p)}" if q: "q \<in> N - {c}" for q
  proof -
    have I: "distinct (inedges (cn g q))" "set (inedges (cn g q)) = (\<lambda>p. outedges (cn g p)) ` {p \<in> N. q \<in> set (outs g p)}" using E' q by blast+
    have co: "callnode_of (oe g (outedges (cn g p))) = p" if "p \<in> N" for p using E' that by blast
    show ?thesis
    proof (cases "q \<in> set (outs g c)")
      case True
      have "\<forall>out \<in> set (inedges (cn g q)). callnode_of (oe g out) = c \<longleftrightarrow> out = outedges (cn g c)"
      proof
        fix out assume "out \<in> set (inedges (cn g q))"
        then obtain p where p: "p \<in> N" "out = outedges (cn g p)" unfolding I(2) by blast
        have "callnode_of (oe g out) = p" unfolding p(2) by (rule co [OF p(1)])
        moreover have "callnode_of (oe g (outedges (cn g c))) = c" by (rule co [OF c])
        ultimately show "callnode_of (oe g out) = c \<longleftrightarrow> out = outedges (cn g c)" unfolding p(2) by metis
      qed
      from remove_from_set [OF I(1) this] have "distinct (inedges (cn g1 q))" "set (inedges (cn g1 q)) = set (inedges (cn g q)) - {outedges (cn g c)}"
        using True q by (simp_all add: g1)
      moreover have "(\<lambda>p. outedges (cn g p)) ` {p \<in> N. q \<in> set (outs g p)} - {outedges (cn g c)} = (\<lambda>p. outedges (cn g p)) ` {p \<in> N - {c}. q \<in> set (outs g p)}"
      proof -
        have i: "inj_on (\<lambda>p. outedges (cn g p)) N" using E' by blast
        have "{p \<in> N. q \<in> set (outs g p)} - {c} = {p \<in> N - {c}. q \<in> set (outs g p)}" by blast
        moreover have "{p \<in> N. q \<in> set (outs g p)} - {c} \<subseteq> N" "{c} \<subseteq> N" using c by blast+
        ultimately show ?thesis using inj_on_image_set_diff [OF i, of "{p \<in> N. q \<in> set (outs g p)}" "{c}"] by simp
      qed
      ultimately show ?thesis using I(2) by simp
    next
      case False
      then have "{p \<in> N. q \<in> set (outs g p)} = {p \<in> N - {c}. q \<in> set (outs g p)}" by auto
      then show ?thesis using False I by (simp add: g1)
    qed
  qed
  moreover obtain g' where g': "deleteoutedges c g = Some g'" "oe g' = oe g1" "call_node_count g' = call_node_count g1"
    "call_edge_count g' = call_edge_count g1" "cn g' = cn g1" using R by blast
  moreover have "nodes_ok g' N c" using n g' by (simp add: nodes_ok_def outs_def edge_hash_def)
  ultimately show ?thesis by (simp add: g1)
qed

text \<open>Taking a node out, once its dependents are invalidated.\<close>

lemma detach_node:
  assumes E: "edges_ok g N {}" and c: "c \<in> N"
  shows "\<exists>g1 g2 g'. deleteoutedges c g = Some g1 \<and> delete_dependency_edges c g1 = Inr g2 \<and> deletecallnode c g2 = Inr g' \<and>
    edges_ok g' (N - {c}) {} \<and> dep g' (N - {c}) = dep g N - {(p, q). p = c \<or> q = c} \<and>
    call_node_count g' = call_node_count g - 1 \<and> (\<forall>q. deleted (cn g' q) = deleted (cn g q) \<and> falsecount (cn g' q) = falsecount (cn g q))"
proof -
  note E' = E [unfolded edges_ok_def]
  have G: "graph_ok g N" using E' by blast
  obtain g1 where D: "deleteoutedges c g = Some g1" "nodes_ok g1 N c" "oe g1 = oe g" "call_node_count g1 = call_node_count g"
    "\<And>q. outedges (cn g1 q) = outedges (cn g q)" "\<And>q. cn_id (cn g1 q) = cn_id (cn g q)" "\<And>q. idg_dyn_leaf (cn g1 q) = idg_dyn_leaf (cn g q)"
    "\<And>q. falsecount (cn g1 q) = falsecount (cn g q)" "outcount (cn g1 c) = 0" "inedges (cn g1 c) = inedges (cn g c)"
    "\<And>q. deleted (cn g1 q) = deleted (cn g q)"
    "\<And>q. q \<in> N - {c} \<Longrightarrow> distinct (inedges (cn g1 q)) \<and> set (inedges (cn g1 q)) = (\<lambda>p. outedges (cn g p)) ` {p \<in> N - {c}. q \<in> set (outs g p)}"
    using deleteoutedges_ok [OF E c] by blast
  have os: "outs g1 p = outs g p" for p by (simp add: outs_def edge_hash_def D)
  have I: "distinct (inedges (cn g1 c))" "set (inedges (cn g1 c)) = (\<lambda>p. outedges (cn g1 p)) ` {p \<in> N. c \<in> set (outs g1 p)}"
    using E' c by (simp_all add: D os)
  obtain g2 where R: "delete_dependency_edges c g1 = Inr g2" "nodes_ok g2 N c" "edge_frame g1 g2" "outcount (cn g2 c) = 0"
    "\<forall>r \<in> N. set (outs g2 r) = (if r \<noteq> c \<and> outedges (cn g1 r) \<in> set (inedges (cn g1 c)) then set (outs g1 r) - {c} else set (outs g1 r))"
    using drop_all [OF D(2) c I(1) equalityD1 [OF I(2)] refl] D(9) by (auto simp: delete_dependency_edges_def)
  have f: "outedges (cn g2 q) = outedges (cn g q)" "cn_id (cn g2 q) = cn_id (cn g q)" "idg_dyn_leaf (cn g2 q) = idg_dyn_leaf (cn g q)"
      "falsecount (cn g2 q) = falsecount (cn g q)" "inedges (cn g2 q) = inedges (cn g1 q)" for q
    using R(3) by (simp_all add: edge_frame_def D)
  have o2: "set (outs g2 r) = set (outs g r) - {c}" if r: "r \<in> N - {c}" for r
  proof (cases "c \<in> set (outs g r)")
    case True
    then have "outedges (cn g1 r) \<in> set (inedges (cn g1 c))" unfolding I(2) using r by (auto simp: os)
    then show ?thesis using R(5) r by (simp add: os)
  next
    case False
    then show ?thesis using R(5) r by (auto simp: os)
  qed
  define g' where "g' = g2\<lparr>call_node_count := call_node_count g2 - 1\<rparr>"
  have v: "cn g' = cn g2" "oe g' = oe g2" "call_edge_count g' = call_edge_count g2" "edge_hash g' = edge_hash g2" "outs g' = outs g2"
    by (simp_all add: g'_def outs_def edge_hash_def fun_eq_iff)
  have key: "ht.keyed (\<lambda>q. cn_id (cn g2 q)) (edge_hash g2 p)" if "p \<in> N" for p using R(2) that unfolding nodes_ok_def by blast
  have "graph_ok g' (N - {c})"
    unfolding graph_ok_def
  proof (intro conjI ballI)
    fix p assume p: "p \<in> N - {c}"
    then have pN: "p \<in> N" by blast
    show "ht_ok (edge_hash g' p)" using key [OF pN] by (simp add: v ht.keyed_def)
    show "distinct (outs g' p)" using ht.keyed_vals(1) [OF key [OF pN]] by (simp add: v outs_def)
    show "set (outs g' p) \<subseteq> N - {c}" unfolding v(5) o2 [OF p] using graph_okD(1) [OF G pN] by blast
    show "falsecount (cn g' p) < 2 ^ 14" using graph_okD(3) [OF G pN] by (simp add: v f)
    show "\<not> idg_dyn_leaf (cn g' q)" if "q \<in> set (outs g' p)" for q using that o2 [OF p] graph_okD(2) [OF G pN] by (simp add: v f)
  qed (use G in \<open>simp_all add: graph_ok_def\<close>)
  moreover have "distinct (inedges (cn g' q)) \<and> set (inedges (cn g' q)) = (\<lambda>p. outedges (cn g' p)) ` {p \<in> N - {c}. q \<in> set (outs g' p)}"
    if q: "q \<in> N - {c}" for q
  proof -
    have "{p \<in> N - {c}. q \<in> set (outs g2 p)} = {p \<in> N - {c}. q \<in> set (outs g p)}" using o2 q by auto
    then show ?thesis using D(12) [OF q] by (simp add: v f)
  qed
  moreover have "inj_on (\<lambda>p. cn_id (cn g' p)) (N - {c})" "inj_on (\<lambda>p. outedges (cn g' p)) (N - {c})"
    using R(2) by (auto simp: v nodes_ok_def intro: inj_on_subset)
  ultimately have ok: "edges_ok g' (N - {c}) {}" using R(2) unfolding edges_ok_def nodes_ok_def v by blast
  have "call_node_count g2 = call_node_count g" using R(1) D(4) drop_node_count by (simp add: delete_dependency_edges_def)
  moreover have "dep g' (N - {c}) = dep g N - {(p, q). p = c \<or> q = c}" using o2 by (auto simp: dep_def v)
  moreover have "deletecallnode c g2 = Inr g'" using R(4) by (simp add: deletecallnode_def g'_def Let_def)
  moreover have "deleted (cn g' q) = deleted (cn g q) \<and> falsecount (cn g' q) = falsecount (cn g q)" for q
    using R(3) D(8,11) by (simp add: v edge_frame_def)
  ultimately show ?thesis using ok D(1) R(1) by (intro exI [of _ g1] exI [of _ g2] exI [of _ g']) (simp add: g'_def)
qed

lemma edges_ok_same:
  assumes "edges_ok g N X" "same_edges g g'" "\<forall>p \<in> N. falsecount (cn g' p) < 2 ^ 14"
  shows "edges_ok g' N X"
proof -
  have f: "cn_id (cn g' p) = cn_id (cn g p)" "outedges (cn g' p) = outedges (cn g p)" "outcount (cn g' p) = outcount (cn g p)"
      "inedges (cn g' p) = inedges (cn g p)" "oe g' = oe g" "call_edge_count g' = call_edge_count g" for p
    using assms(2) by (simp_all add: same_edges_def)
  have "graph_ok g' N" using assms by (intro graph_ok_same [OF _ assms(2,3)]) (simp add: edges_ok_def)
  with assms(1) show ?thesis unfolding edges_ok_def f same_edgesD(1,2) [OF assms(2)] by simp
qed

text \<open>C23: a subgoal that is abolished is taken out of the graph without an error: the rest of the graph is
  consistent again and has the dependencies it had between its nodes, and the counts of nodes
  and edges fit it. Without the invalidation flag no mark and no falsecount changes. With it, and
  when the subgoal is not marked, the nodes that depend on it are marked first, and no others;
  for this every call is completed, what depends on a marked node is marked already, and there
  are less than 10000 nodes.\<close>

theorem detach_removes:
  assumes E: "edges_ok g N {}" and c: "c \<in> N"
    and I: "invalidate_flag \<longrightarrow> (\<forall>q \<in> N. \<not> check_non_completed cf g q) \<and> closed_marks g N \<and> card N < dfs_size"
  shows "\<exists>g'. maybe_detach_incremental_call_single cf invalidate_flag c g = Some (Inr g') \<and> edges_ok g' (N - {c}) {} \<and>
    dep g' (N - {c}) = dep g N - {(p, q). p = c \<or> q = c} \<and> call_node_count g' = call_node_count g - 1 \<and>
    (\<forall>q \<in> N - {c}. deleted (cn g' q) \<longleftrightarrow>
      deleted (cn g q) \<or> invalidate_flag \<and> \<not> deleted (cn g c) \<and> (c, q) \<in> (dep g N)\<^sup>+) \<and>
    (\<not> invalidate_flag \<longrightarrow> (\<forall>q. falsecount (cn g' q) = falsecount (cn g q)))"
proof (cases "invalidate_flag \<and> \<not> deleted (cn g c)")
  case False
  then have "(if invalidate_flag then invalidate_call cf c g else Some (Inr g)) = Some (Inr g)"
    by (auto simp: invalidate_call_def)
  then show ?thesis using detach_node [OF E c] False
    by (fastforce simp: maybe_detach_incremental_call_single_def)
next
  case True
  have G: "graph_ok g N" using E by (simp add: edges_ok_def)
  obtain g1 M where R: "invalidate_call cf c g = Some (Inr g1)" "same_edges g g1" "M \<subseteq> unmarked g N"
    "\<And>q. deleted (cn g1 q) \<longleftrightarrow> deleted (cn g q) \<or> q \<in> M \<or> q = c \<and> \<not> idg_dyn_leaf (cn g c)"
    "\<forall>q \<in> N. (c, q) \<in> (dep g N)\<^sup>+ \<longrightarrow> deleted (cn g1 q)" "M \<subseteq> (dep g N)\<^sup>+ `` {c}"
    "\<forall>q \<in> N. falsecount (cn g1 q) = bits14 (falsecount (cn g q) + (if q = c then 1 else 0) + card {p \<in> insert c M. q \<in> set (outs g p)})"
    using invalidate_ok [OF G c] True I by blast
  have "\<forall>q \<in> N. falsecount (cn g1 q) < 2 ^ 14" using R(7) bits14_simps(1) by simp
  then have E1: "edges_ok g1 N {}" using edges_ok_same [OF E R(2)] by blast
  have d: "dep g1 N = dep g N" using same_edgesD(2) [OF R(2)] by (simp add: dep_def)
  have n: "call_node_count g1 = call_node_count g" using R(2) by (simp add: same_edges_def)
  have m: "deleted (cn g1 q) \<longleftrightarrow> deleted (cn g q) \<or> (c, q) \<in> (dep g N)\<^sup>+" if "q \<in> N - {c}" for q
    using that R(4-6) by blast
  from detach_node [OF E1 c] show ?thesis using True R(1) m unfolding d n
    by (fastforce simp: maybe_detach_incremental_call_single_def)
qed

section \<open>A chain of three nodes\<close>

text \<open>A dynamic leaf 1, a call 2 that depends on it and a call 3 that depends on 2.\<close>

definition empty_graph :: callgraph where
  "empty_graph = \<lparr>cn = \<lambda>_. \<lparr>outedges = 0, inedges = [], goal = 0, no_of_answers = 0, deleted = False, changed = False, recomputable = False,
       falsecount = 0, outcount = 0, prev_call = 0, aln = 0, cn_id = 0, idg_dyn_leaf = False\<rparr>,
     oe = \<lambda>_. \<lparr>hasht = \<lparr>table = [], tablelength = 0, entrycount = 0, loadlimit = 0, primeindex = 0, hashfn = hashfromkey\<rparr>, callnode_of = 0\<rparr>,
     call_node_count = 0, call_edge_count = 0, total_call_node_count = 0\<rparr>"

definition new_node :: "nat \<Rightarrow> bool \<Rightarrow> callgraph \<Rightarrow> callgraph" where
  "new_node p leaf g = the (initoutedges (10 + p) p (makecallnode p p leaf 0 g))"

definition three_nodes :: callgraph where
  "three_nodes = new_node 3 False (new_node 2 False (new_node 1 True empty_graph))"

definition chain_graph :: callgraph where
  "chain_graph = addcalledge 2 3 (addcalledge 1 2 three_nodes)"

text \<open>A graph with the nodes \<open>N\<close> whose tables are numbered like the nodes, and the edges \<open>E\<close>.\<close>

definition numbered :: "callgraph \<Rightarrow> nat set \<Rightarrow> (nat \<times> nat) set \<Rightarrow> bool" where
  "numbered g N E \<longleftrightarrow> edges_ok g N {} \<and> dep g N = E \<and> all_valid g N \<and> (\<forall>q \<in> N. cn_id (cn g q) < total_call_node_count g) \<and>
     (\<forall>q \<in> N. outedges (cn g q) = 10 + q \<and> (idg_dyn_leaf (cn g q) \<longleftrightarrow> q = 1))"

lemma numbered_new:
  assumes "numbered g N E" "p \<notin> N" "p \<noteq> 0" "leaf = (p = 1)"
  shows "numbered (new_node p leaf g) (insert p N) E"
proof -
  have "\<forall>q \<in> N. outedges (cn g q) \<noteq> 10 + p" using assms(1,2) by (auto simp: numbered_def)
  then obtain g' where R: "initoutedges (10 + p) p (makecallnode p p leaf 0 g) = Some g'" "edges_ok g' (insert p N) {}" "dep g' (insert p N) = dep g N"
    "\<forall>q \<in> insert p N. cn_id (cn g' q) < total_call_node_count g'" "\<forall>q. q \<noteq> p \<longrightarrow> cn g' q = cn g q"
    "outedges (cn g' p) = 10 + p" "idg_dyn_leaf (cn g' p) = leaf" "falsecount (cn g' p) = 0" "\<not> deleted (cn g' p)"
    using new_node_ok [of g N p "10 + p" p leaf 0] assms(1-3) unfolding numbered_def by blast
  have "q \<noteq> p" if "q \<in> N" for q using that assms(2) by blast
  then have "all_valid g' (insert p N)" "\<forall>q \<in> insert p N. outedges (cn g' q) = 10 + q \<and> (idg_dyn_leaf (cn g' q) \<longleftrightarrow> q = 1)"
    using R(5-9) assms(1,4) by (auto simp: numbered_def all_valid_def)
  then show ?thesis using R(1-4) assms(1) by (simp add: numbered_def new_node_def)
qed

lemma numbered_edge:
  assumes "numbered g N E" "a \<in> N" "b \<in> N" "b \<noteq> 1"
  shows "numbered (addcalledge a b g) N (insert (a, b) E)"
proof -
  have "\<not> idg_dyn_leaf (cn g b)" "edges_ok g N {}" using assms by (simp_all add: numbered_def)
  moreover have "total_call_node_count (addcalledge a b g) = total_call_node_count g" by (simp add: addcalledge_def Let_def upd_def set_hasht_def)
  ultimately show ?thesis using addcalledge_ok [of g N a b] assms by (simp add: numbered_def all_valid_def addcalledge_frame)
qed

lemma three_nodes_ok: "numbered three_nodes {1, 2, 3} {}"
proof -
  have "numbered empty_graph {} {}" by (simp add: numbered_def edges_ok_def graph_ok_def dep_def all_valid_def empty_graph_def)
  then have "numbered (new_node 1 True empty_graph) {1} {}" by (rule numbered_new) simp_all
  then have "numbered (new_node 2 False (new_node 1 True empty_graph)) {2, 1} {}" by (rule numbered_new) simp_all
  then have "numbered three_nodes {3, 2, 1} {}" unfolding three_nodes_def by (rule numbered_new) simp_all
  then show ?thesis by (simp add: insert_commute)
qed

lemma chain_ok: "numbered chain_graph {1, 2, 3} {(1, 2), (2, 3)}"
proof -
  have "numbered (addcalledge 1 2 three_nodes) {1, 2, 3} {(1, 2)}" using numbered_edge [OF three_nodes_ok] by simp
  from numbered_edge [OF this, of 2 3] show ?thesis unfolding chain_graph_def by (simp add: insert_commute)
qed

lemma chainD:
  shows "graph_ok chain_graph {1, 2, 3}" "all_valid chain_graph {1, 2, 3}" "closed_marks chain_graph {1, 2, 3}" "acyclic (dep chain_graph {1, 2, 3})"
    "idg_dyn_leaf (cn chain_graph 1)" "\<forall>q \<in> {1, 2, 3}. \<not> check_non_completed (\<lambda>_. True) chain_graph q" "set (outs chain_graph 1) = {2}"
    "\<forall>p \<in> {1, 2, 3}. 2 \<in> set (outs chain_graph p) \<longrightarrow> p = 1" "card {1, 2, 3 :: nat} < dfs_size"
proof -
  show "card {1, 2, 3 :: nat} < dfs_size" by (simp add: dfs_size_def)
  note C = chain_ok [unfolded numbered_def]
  show "graph_ok chain_graph {1, 2, 3}" "all_valid chain_graph {1, 2, 3}" using C by (simp_all add: edges_ok_def)
  then show "closed_marks chain_graph {1, 2, 3}" by (simp add: closed_marks_def all_valid_def)
  have "dep chain_graph {1, 2, 3} \<subseteq> less_than" using C by simp
  then show "acyclic (dep chain_graph {1, 2, 3})" using wf_acyclic [OF wf_less_than] acyclic_subset by blast
  show "idg_dyn_leaf (cn chain_graph 1)" using C by simp
  show "\<forall>q \<in> {1, 2, 3}. \<not> check_non_completed (\<lambda>_. True) chain_graph q" by (simp add: check_non_completed_def)
  have d: "q \<in> set (outs chain_graph p) \<longleftrightarrow> (p, q) \<in> {(1, 2), (2, 3)}" if "p \<in> {1, 2, 3}" for p q using C that unfolding dep_def by blast
  show "set (outs chain_graph 1) = {2}" using d [of 1] by auto
  show "\<forall>p \<in> {1, 2, 3}. 2 \<in> set (outs chain_graph p) \<longrightarrow> p = 1" using d by auto
qed

theorem invalidate_marks_witness:
  "\<exists>g'. invalidate_call (\<lambda>_. True) 1 chain_graph = Some (Inr g') \<and> deleted (cn g' 2) \<and> deleted (cn g' 3) \<and> \<not> deleted (cn g' 1)"
proof -
  have v: "\<not> deleted (cn chain_graph q)" if "q \<in> {1, 2, 3}" for q using chainD(2) that unfolding all_valid_def by blast
  have d: "dep chain_graph {1, 2, 3} = {(1, 2), (2, 3)}" using chain_ok by (simp add: numbered_def)
  have t: "(1, 2) \<in> {(1, 2), (2, 3)}\<^sup>+" "(1, 3) \<in> {(1, 2), (2, 3 :: nat)}\<^sup>+" by (auto intro: trancl_into_trancl)
  have n: "(1, 1) \<notin> {(1, 2), (2, 3 :: nat)}\<^sup>+"
    using chainD(4) unfolding d by (simp add: acyclic_def)
  have one: "(1 :: nat) \<in> {1, 2, 3}" by simp
  show ?thesis using invalidate_marks [OF chainD(1) one v [OF one] chainD(6,3,9)] v chainD(5) t n unfolding d by auto
qed

theorem unchanged_call_revalidates_witness:
  "\<exists>g1 g2. invalidate_call (\<lambda>_. True) 1 chain_graph = Some (Inr g1) \<and> falsecount (cn g1 2) = 1 \<and>
    propagate_no_change 2 (take_over 4 2 (makecallnode 4 2 False 0 g1)) = Some g2 \<and> all_valid g2 {3, 4}"
proof -
  have e: "insert 4 ({1, 2, 3} - {1, 2}) = {3, 4 :: nat}" by auto
  have one: "(1 :: nat) \<in> {1, 2, 3}" by simp
  show ?thesis using unchanged_call_revalidates [OF chainD(1) one chainD(5,7,2,6,4,9), of 4 2 0] unfolding e by simp
qed

theorem falsecount_wraps_around_witness:
  "\<exists>g'. invalidate_times (\<lambda>_. True) (2 ^ 14) 1 chain_graph = Some g' \<and> deleted (cn g' 2) \<and> \<not> needs_recomputation g' 2"
proof -
  have one: "(1 :: nat) \<in> {1, 2, 3}" and two: "2 \<in> set (outs chain_graph 1)" using chainD(7) by simp_all
  show ?thesis by (rule falsecount_wraps_around [OF chainD(1) one chainD(5,2,6) two chainD(8,9)])
qed

theorem addcalledge_adds_witness:
  "edges_ok (addcalledge 1 2 three_nodes) {1, 2, 3} {} \<and> dep (addcalledge 1 2 three_nodes) {1, 2, 3} = {(1, 2)}"
  using addcalledge_adds [of three_nodes "{1, 2, 3}" 1 2] three_nodes_ok by (simp add: numbered_def)

theorem detach_removes_witness:
  "\<exists>g'. maybe_detach_incremental_call_single (\<lambda>_. True) True 2 chain_graph = Some (Inr g') \<and> edges_ok g' {1, 3} {} \<and>
    dep g' {1, 3} = {} \<and> deleted (cn g' 3) \<and> \<not> deleted (cn g' 1)"
proof -
  have e: "{1, 2, 3} - {2 :: nat} = {1, 3}" "{(1, 2), (2, 3)} - {(p, q). p = 2 \<or> q = (2 :: nat)} = {}" by auto
  have d: "dep chain_graph {1, 2, 3} = {(1, 2), (2, 3)}" and ok: "edges_ok chain_graph {1, 2, 3} {}"
    using chain_ok by (simp_all add: numbered_def)
  have v: "\<not> deleted (cn chain_graph q)" if "q \<in> {1, 2, 3}" for q using chainD(2) that unfolding all_valid_def by blast
  have "(2, 3) \<in> {(1, 2), (2, 3 :: nat)}\<^sup>+" by auto
  moreover have "(2, 1) \<notin> {(1, 2), (2, 3 :: nat)}\<^sup>+"
  proof
    assume "(2, 1) \<in> {(1, 2), (2, 3 :: nat)}\<^sup>+"
    then show False by (rule tranclE) simp_all
  qed
  ultimately show ?thesis
    using detach_removes [OF ok, of 2 True "\<lambda>_. True"] chainD(3,6,9) v unfolding e d by auto
qed

end
