(* ===== verification/Codec.thy ===== *)
theory Codec imports Prelude "HOL-Library.Code_Target_Nat" begin

text \<open>
  The Base64 builtins (\<open>base64_enc.c\<close>) and the URL coder (\<open>url_encode.c\<close>), byte by byte.
  A C string is a list of bytes without its terminator. What the code reads from memory it
  has not initialised, the parts of \<open>decoding_table\<close> never written and the tail of a file
  shorter than its size, is a parameter. Reading before or behind an array is the error
  \<open>Out_of_bounds\<close>, a null result \<open>Null_result\<close>.
\<close>

type_synonym byte = "8 word"

definition strlen_prefix :: "byte list \<Rightarrow> byte list" where
  "strlen_prefix s = takeWhile (\<lambda>c. c \<noteq> 0) s"

section \<open>Base64\<close>

definition encoding_table :: "byte list" where
  "encoding_table = map (word_of_nat :: nat \<Rightarrow> byte) ([65..<91] @ [97..<123] @ [48..<58] @ [43, 47])"

definition mod_table :: "nat list" where
  "mod_table = [0, 2, 1]"

definition pad_char :: byte where "pad_char = 61"

fun next_octet :: "byte list \<Rightarrow> byte \<times> byte list" where
  "next_octet [] = (0, [])"
| "next_octet (x # xs) = (x, xs)"

definition encode_triple :: "byte \<Rightarrow> byte \<Rightarrow> byte \<Rightarrow> byte list" where
  "encode_triple a b c =
     (let triple = (push_bit 16 (ucast a) + push_bit 8 (ucast b) + ucast c :: 32 word)
      in map (\<lambda>k. encoding_table ! unat (and (drop_bit k triple) 0x3F)) [18, 12, 6, 0])"

fun encode_loop :: "byte list \<Rightarrow> byte list" where
  "encode_loop [] = []"
| "encode_loop (a # xs) =
     (let b = fst (next_octet xs); c = fst (next_octet (drop 1 xs))
      in encode_triple a b c @ encode_loop (drop 2 xs))"

text \<open>The loop that overwrites the last characters with padding, from the end.\<close>

definition pad_output :: "nat \<Rightarrow> nat \<Rightarrow> byte list \<Rightarrow> byte list" where
  "pad_output input_length output_length enc =
     fold (\<lambda>i e. e[output_length - 1 - i := pad_char]) [0..<mod_table ! (input_length mod 3)] enc"

definition base64_encode_string :: "byte list \<Rightarrow> byte list" where
  "base64_encode_string data =
     pad_output (length data) (4 * ((length data + 2) div 3)) (encode_loop data)"

datatype codec_error = Null_result | Out_of_bounds

definition build_decoding_table :: "(byte \<Rightarrow> byte) \<Rightarrow> byte \<Rightarrow> byte" where
  "build_decoding_table junk =
     fold (\<lambda>i t. t(encoding_table ! i := word_of_nat i)) [0..<64] junk"

text \<open>
  One sextet: padding gives 0, and the index is a signed \<open>char\<close>, so bytes from 128 on read
  before the table.
\<close>

definition decode_sextet :: "(byte \<Rightarrow> byte) \<Rightarrow> byte \<Rightarrow> 32 word option" where
  "decode_sextet tab c =
     (if c = pad_char then Some 0
      else if 128 \<le> unat c then None
      else Some (signed_take_bit 7 (ucast (tab c))))"

definition decode_quad :: "(byte \<Rightarrow> byte) \<Rightarrow> byte \<Rightarrow> byte \<Rightarrow> byte \<Rightarrow> byte \<Rightarrow> byte list option" where
  "decode_quad tab a b c d =
     (case (decode_sextet tab a, decode_sextet tab b, decode_sextet tab c, decode_sextet tab d) of
        (Some sa, Some sb, Some sc, Some sd) \<Rightarrow>
          (let triple = push_bit 18 sa + push_bit 12 sb + push_bit 6 sc + sd
           in Some (map (\<lambda>k. ucast (and (drop_bit k triple) 0xFF)) [16, 8, 0]))
      | _ \<Rightarrow> None)"

text \<open>The loop; \<open>room\<close> is what is left of the output.\<close>

fun decode_loop :: "(byte \<Rightarrow> byte) \<Rightarrow> nat \<Rightarrow> byte list \<Rightarrow> byte list option" where
  "decode_loop tab room (a # b # c # d # xs) =
     (case decode_quad tab a b c d of
        None \<Rightarrow> None
      | Some out \<Rightarrow> map_option (\<lambda>r. take room out @ r) (decode_loop tab (room - 3) xs))"
| "decode_loop tab room xs = Some []"

definition base64_decode_string :: "(byte \<Rightarrow> byte) \<Rightarrow> byte list \<Rightarrow> codec_error + byte list" where
  "base64_decode_string junk data =
     (let n = length data in
      if n mod 4 \<noteq> 0 then Inl Null_result
      else if n = 0 then Inl Out_of_bounds
      else
        (let out = n div 4 * 3;
             out = (if data ! (n - 1) = pad_char then out - 1 else out);
             out = (if data ! (n - 2) = pad_char then out - 1 else out)
         in case decode_loop (build_decoding_table junk) out data of
              None \<Rightarrow> Inl Out_of_bounds
            | Some r \<Rightarrow> Inr r))"

text \<open>
  The inputs of the builtin: an atom, a file with its size and contents (each missing when
  \<open>stat\<close> or \<open>fopen\<close> fails), and a list, whose elements are integers or not. The result
  \<open>None\<close> is the builtin's failure.
\<close>

datatype b64_term =
    B_atom "byte list" | B_file "nat option" "byte list option" | B_list "int option list" | B_other

fun list_bytes :: "int option list \<Rightarrow> byte list option" where
  "list_bytes [] = Some []"
| "list_bytes (None # ts) = None"
| "list_bytes (Some k # ts) = map_option ((#) (word_of_int k)) (list_bytes ts)"

fun base64_input :: "(nat \<Rightarrow> byte) \<Rightarrow> b64_term \<Rightarrow> byte list option" where
  "base64_input junk (B_atom s) = Some (strlen_prefix s)"
| "base64_input junk (B_file None c) = None"
| "base64_input junk (B_file (Some sz) None) = None"
| "base64_input junk (B_file (Some sz) (Some cs)) =
     Some (map (\<lambda>i. if i < length cs then cs ! i else junk i) [0..<sz])"
| "base64_input junk (B_list ts) = list_bytes ts"
| "base64_input junk B_other = None"

text \<open>The atom \<open>base64_encode\<close> unifies with its output.\<close>

definition base64_encode :: "(nat \<Rightarrow> byte) \<Rightarrow> b64_term \<Rightarrow> byte list option" where
  "base64_encode junk t = map_option (\<lambda>s. strlen_prefix (base64_encode_string s)) (base64_input junk t)"

text \<open>
  The outputs of \<open>base64_decode\<close>: an atom, which ends at the first null byte, or a file or
  list of all bytes.
\<close>

datatype b64_out = Out_atom | Out_file | Out_list

fun base64_decode :: "(byte \<Rightarrow> byte) \<Rightarrow> byte list \<Rightarrow> b64_out \<Rightarrow> codec_error + byte list" where
  "base64_decode junk s Out_atom = map_sum id strlen_prefix (base64_decode_string junk (strlen_prefix s))"
| "base64_decode junk s Out_file = base64_decode_string junk (strlen_prefix s)"
| "base64_decode junk s Out_list = base64_decode_string junk (strlen_prefix s)"

section \<open>URL encoding\<close>

definition byte_of :: "nat \<Rightarrow> byte" where "byte_of n = word_of_nat n"

definition is_digit :: "byte \<Rightarrow> bool" where
  "is_digit c \<longleftrightarrow> 48 \<le> unat c \<and> unat c \<le> 57"

definition to_lower :: "byte \<Rightarrow> byte" where
  "to_lower c = (if 65 \<le> unat c \<and> unat c \<le> 90 then c + 32 else c)"

definition is_alnum :: "byte \<Rightarrow> bool" where
  "is_alnum c \<longleftrightarrow> is_digit c \<or> 97 \<le> unat (to_lower c) \<and> unat (to_lower c) \<le> 122"

definition from_hex :: "byte \<Rightarrow> byte" where
  "from_hex ch = (if is_digit ch then ch - 48 else to_lower ch - 97 + 10)"

definition to_hex :: "byte \<Rightarrow> byte" where
  "to_hex code = map byte_of ([48..<58] @ [97..<103]) ! unat (and code 15)"

text \<open>\<open>*pstr >> 4\<close> shifts a signed \<open>char\<close>.\<close>

definition url_char :: "byte \<Rightarrow> byte list" where
  "url_char c =
     (if is_alnum c \<or> c = 45 \<or> c = 95 \<or> c = 46 \<or> c = 126 then [c]
      else if c = 32 then [43]
      else [37, to_hex (signed_drop_bit 4 c), to_hex (and c 15)])"

definition url_encode :: "byte list \<Rightarrow> byte list" where
  "url_encode s = concat (map url_char (strlen_prefix s))"

fun url_decode_loop :: "byte list \<Rightarrow> byte list" where
  "url_decode_loop [] = []"
| "url_decode_loop (c # s) =
     (if c = 37 then
        (case s of
           h # l # r \<Rightarrow> or (push_bit 4 (from_hex h)) (from_hex l) # url_decode_loop r
         | _ \<Rightarrow> url_decode_loop s)
      else if c = 43 then 32 # url_decode_loop s
      else c # url_decode_loop s)"

definition url_decode :: "byte list \<Rightarrow> byte list" where
  "url_decode s = strlen_prefix (url_decode_loop (strlen_prefix s))"

section \<open>Six bits and a character\<close>

definition table_codes :: "nat list" where
  "table_codes = [65..<91] @ [97..<123] @ [48..<58] @ [43, 47]"

lemma encoding_table_codes: "encoding_table = map word_of_nat table_codes"
  by (simp add: encoding_table_def table_codes_def)

lemma table_codes_ok:
  "length table_codes = 64" "distinct table_codes" "\<forall>n \<in> set table_codes. n < 128 \<and> n \<noteq> 61 \<and> 0 < n"
  by (auto simp: table_codes_def)

lemma encoding_table_length [simp]: "length encoding_table = 64"
  by (simp add: encoding_table_codes table_codes_ok)

lemma unat_byte: "n < 256 \<Longrightarrow> unat (word_of_nat n :: byte) = n"
  by (simp add: unat_of_nat)

lemma encoding_table_ok:
  assumes "i < 64"
  shows "unat (encoding_table ! i) < 128" "encoding_table ! i \<noteq> pad_char" "encoding_table ! i \<noteq> 0"
proof -
  have n: "table_codes ! i < 128" "table_codes ! i \<noteq> 61" "0 < table_codes ! i"
    using table_codes_ok assms nth_mem [of i table_codes] by auto
  have e: "encoding_table ! i = word_of_nat (table_codes ! i)"
    using assms by (simp add: encoding_table_codes table_codes_ok)
  have u: "unat (encoding_table ! i) = table_codes ! i" using n(1) by (simp add: e unat_byte)
  show "unat (encoding_table ! i) < 128" using n(1) u by simp
  have "unat pad_char = 61" by (simp add: pad_char_def)
  then show "encoding_table ! i \<noteq> pad_char" using n(2) u by metis
  show "encoding_table ! i \<noteq> 0" using n(3) u by (metis less_irrefl unat_0)
qed

lemma table_distinct: "distinct encoding_table"
proof -
  have "inj_on (word_of_nat :: nat \<Rightarrow> byte) (set table_codes)"
    by (rule inj_on_inverseI [where g = unat]) (use table_codes_ok(3) in \<open>force intro: unat_byte\<close>)
  then show ?thesis by (simp add: encoding_table_codes distinct_map table_codes_ok)
qed

lemma fold_table:
  "i < n \<Longrightarrow> n \<le> 64 \<Longrightarrow>
    fold (\<lambda>i t. t(encoding_table ! i := word_of_nat i)) [0..<n] junk (encoding_table ! i) = (word_of_nat i :: byte)"
proof (induction n)
  case (Suc n)
  show ?case
  proof (cases "i = n")
    case False
    then have "encoding_table ! i \<noteq> encoding_table ! n"
      using Suc.prems table_distinct by (simp add: nth_eq_iff_index_eq)
    with Suc False show ?thesis by simp
  qed simp
qed simp

lemma sextet_char: "i < 64 \<Longrightarrow> signed_take_bit 7 (ucast (word_of_nat i :: byte)) = (word_of_nat i :: 32 word)"
proof -
  assume i: "i < 64"
  have u: "ucast (word_of_nat i :: byte) = (word_of_nat i :: 32 word)"
    using i of_nat_unat [of "word_of_nat i :: byte", where 'a = "32 word"] by (simp add: unat_byte)
  have t: "take_bit k (word_of_nat i :: 32 word) = word_of_nat i" if "6 \<le> k" for k
  proof -
    have "i < 2 ^ k" using i power_increasing [of 6 k "2 :: nat"] that by simp
    then show ?thesis by (simp add: take_bit_of_nat take_bit_nat_eq_self)
  qed
  have "\<not> bit (take_bit 6 (word_of_nat i :: 32 word)) 7" by (simp add: bit_take_bit_iff)
  then have "\<not> bit (word_of_nat i :: 32 word) 7" by (simp add: t)
  then show ?thesis using t [of 7] by (simp add: u signed_take_bit_eq_if_positive)
qed

lemma decode_sextet_table:
  assumes "i < 64"
  shows "decode_sextet (build_decoding_table junk) (encoding_table ! i) = Some (word_of_nat i)"
proof -
  have "build_decoding_table junk (encoding_table ! i) = word_of_nat i"
    using fold_table [of i 64] assms by (simp add: build_decoding_table_def)
  then show ?thesis using encoding_table_ok [OF assms] sextet_char [OF assms]
    by (simp add: decode_sextet_def)
qed

lemma decode_sextet_pad: "decode_sextet tab pad_char = Some 0"
  by (simp add: decode_sextet_def)

section \<open>Three octets and four sextets\<close>

definition octets :: "byte \<Rightarrow> byte \<Rightarrow> byte \<Rightarrow> nat" where
  "octets a b c = unat a * 65536 + unat b * 256 + unat c"

lemma unat_byte_less: "unat (a :: byte) < 256"
  using unsigned_less [of a] by simp

lemma byte_unat: "word_of_nat (unat a) = (a :: byte)"
  by (simp add: of_nat_unat)

lemma octets_less: "octets a b c < 16777216"
  using unat_byte_less [of a] unat_byte_less [of b] unat_byte_less [of c] unfolding octets_def by linarith

lemma field_of:
  "unat (and (drop_bit k t) 0x3F) = unat t div 2 ^ k mod 64" (is ?six)
  "unat (and (drop_bit k t) 0xFF) = unat t div 2 ^ k mod 256" (is ?eight) for t :: "32 word"
proof -
  have m: "(0x3F :: 32 word) = mask 6" "(0xFF :: 32 word) = mask 8" by (simp_all add: mask_eq_exp_minus_1)
  have "unat t < 4294967296" using unsigned_less [of t] by simp
  then show ?six ?eight
    unfolding m take_bit_eq_mask [symmetric] unsigned_take_bit_eq unsigned_drop_bit_eq
    by (simp_all add: take_bit_eq_mod drop_bit_eq_div)
qed

lemma encode_triple_octets:
  "encode_triple a b c = map (\<lambda>k. encoding_table ! (octets a b c div 2 ^ k mod 64)) [18, 12, 6, 0]"
proof -
  let ?t = "push_bit 16 (ucast a) + push_bit 8 (ucast b) + ucast c :: 32 word"
  have "?t = word_of_nat (octets a b c)"
    by (simp add: octets_def push_bit_eq_mult of_nat_unat)
  then have "unat ?t = octets a b c" using octets_less [of a b c] by (simp add: unat_of_nat)
  then show ?thesis unfolding encode_triple_def Let_def field_of(1) by simp
qed

lemma octets_parts:
  "octets a b c div 2 ^ 16 mod 256 = unat a" "octets a b c div 2 ^ 8 mod 256 = unat b"
  "octets a b c div 2 ^ 0 mod 256 = unat c"
proof -
  note l = unat_byte_less [of a] unat_byte_less [of b] unat_byte_less [of c]
  have "octets a b c div 2 ^ 16 = unat a" "octets a b c div 2 ^ 8 = unat a * 256 + unat b"
    using l by (auto simp: octets_def intro!: div_nat_eqI)
  then show "octets a b c div 2 ^ 16 mod 256 = unat a" "octets a b c div 2 ^ 8 mod 256 = unat b"
    using l by simp_all
  have "octets a b c = (unat a * 256 + unat b) * 256 + unat c" by (simp add: octets_def)
  then have "octets a b c mod 256 = unat c mod 256" by (simp only: mod_mult_self3)
  then show "octets a b c div 2 ^ 0 mod 256 = unat c" using l by simp
qed

lemma sextets_sum:
  "n < 16777216 \<Longrightarrow>
    n div 2 ^ 18 mod 64 * 262144 + n div 2 ^ 12 mod 64 * 4096 + n div 2 ^ 6 mod 64 * 64 + n div 2 ^ 0 mod 64 = (n :: nat)"
proof -
  assume n: "n < 16777216"
  let ?a = "n div 64" and ?b = "n div 64 div 64" and ?c = "n div 64 div 64 div 64"
  have d: "n div 2 ^ 12 = ?b" "n div 2 ^ 18 = ?c" "n div 2 ^ 6 = ?a" "n div 2 ^ 0 = n" by (simp_all add: div_mult2_eq [symmetric])
  have "?c < 64" using n by (simp add: div_mult2_eq [symmetric] less_mult_imp_div_less)
  then have "?c mod 64 = ?c" by simp
  moreover have "64 * ?a + n mod 64 = n" "64 * ?b + ?a mod 64 = ?a" "64 * ?c + ?b mod 64 = ?b"
    by (simp_all only: mult_div_mod_eq)
  ultimately show ?thesis unfolding d by linarith
qed

text \<open>Four characters that decode to the sextets of three octets give the octets.\<close>

definition decodes :: "(byte \<Rightarrow> byte) \<Rightarrow> byte \<Rightarrow> nat \<Rightarrow> bool" where
  "decodes tab c n \<longleftrightarrow> decode_sextet tab c = Some (word_of_nat (n mod 64))"

lemma decode_quad_octets:
  assumes "decodes tab c1 (octets a b c div 2 ^ 18)" "decodes tab c2 (octets a b c div 2 ^ 12)"
    "decodes tab c3 (octets a b c div 2 ^ 6)" "decodes tab c4 (octets a b c div 2 ^ 0)"
  shows "decode_quad tab c1 c2 c3 c4 = Some [a, b, c]"
proof -
  let ?n = "octets a b c"
  let ?t = "push_bit 18 (word_of_nat (?n div 2 ^ 18 mod 64)) + push_bit 12 (word_of_nat (?n div 2 ^ 12 mod 64))
     + push_bit 6 (word_of_nat (?n div 2 ^ 6 mod 64)) + word_of_nat (?n div 2 ^ 0 mod 64) :: 32 word"
  have "?t = word_of_nat (?n div 2 ^ 18 mod 64 * 262144 + ?n div 2 ^ 12 mod 64 * 4096
      + ?n div 2 ^ 6 mod 64 * 64 + ?n div 2 ^ 0 mod 64)"
    by (simp only: push_bit_eq_mult of_nat_add of_nat_mult of_nat_numeral) simp
  also have "\<dots> = word_of_nat ?n" by (simp only: sextets_sum [OF octets_less])
  finally have "unat ?t = ?n" using octets_less [of a b c] by (simp add: unat_of_nat)
  then have "ucast (and (drop_bit k ?t) 0xFF) = (word_of_nat (?n div 2 ^ k mod 256) :: byte)" for k
    using field_of(2) [of k ?t] of_nat_unat [of "and (drop_bit k ?t) 0xFF", where 'a = byte] by metis
  then have "map (\<lambda>k. ucast (and (drop_bit k ?t) 0xFF)) [16, 8, 0] = [a, b, c]"
    by (simp only: list.map octets_parts byte_unat)
  then show ?thesis using assms by (simp only: decodes_def decode_quad_def option.case prod.case Let_def)
qed

lemma decodes_table: "decodes (build_decoding_table junk) (encoding_table ! (n mod 64)) n"
  by (simp add: decodes_def decode_sextet_table)

lemma decodes_pad: "n mod 64 = 0 \<Longrightarrow> decodes tab pad_char n"
  by (simp add: decodes_def decode_sextet_pad)

section \<open>The encoding by groups of three\<close>

fun encode_groups :: "byte list \<Rightarrow> byte list" where
  "encode_groups [] = []"
| "encode_groups [a] = take 2 (encode_triple a 0 0) @ [pad_char, pad_char]"
| "encode_groups [a, b] = take 3 (encode_triple a b 0) @ [pad_char]"
| "encode_groups (a # b # c # xs) = encode_triple a b c @ encode_groups xs"

lemma length_encode_triple [simp]: "length (encode_triple a b c) = 4"
  by (simp add: encode_triple_def Let_def)

lemma length_encode_loop: "length (encode_loop xs) = 4 * ((length xs + 2) div 3)"
proof (induction xs rule: encode_groups.induct)
  case (4 a b c xs)
  moreover have "(length (a # b # c # xs) + 2) div 3 = Suc ((length xs + 2) div 3)" by simp
  ultimately show ?case by (simp add: Let_def)
qed simp_all

lemma upt2: "[0..<2] = [0, 1 :: nat]" "[0..<1] = [0 :: nat]"
  by (simp_all add: numeral_2_eq_2)

lemma pad_output_append:
  assumes "length q = 4" "length r = out" "xs \<noteq> [] \<Longrightarrow> 2 \<le> out" "xs = [] \<Longrightarrow> out = 0"
  shows "pad_output (Suc (Suc (Suc (length xs)))) (4 + out) (q @ r) = q @ pad_output (length xs) out r"
proof (cases "xs = []")
  case False
  have m: "Suc (Suc (Suc (length xs))) mod 3 = length xs mod 3" by simp
  have "length xs mod 3 = 0 \<or> length xs mod 3 = 1 \<or> length xs mod 3 = 2" by presburger
  then show ?thesis
    using assms False upt2 unfolding pad_output_def m by (auto simp: mod_table_def list_update_append numeral_2_eq_2)
qed (use assms in \<open>simp add: pad_output_def mod_table_def\<close>)

lemma base64_encode_groups: "base64_encode_string xs = encode_groups xs"
proof (induction xs rule: encode_groups.induct)
  case (4 a b c xs)
  have "(length (a # b # c # xs) + 2) div 3 = Suc ((length xs + 2) div 3)" by simp
  moreover have "pad_output (Suc (Suc (Suc (length xs)))) (4 + 4 * ((length xs + 2) div 3))
      (encode_triple a b c @ encode_loop xs) =
      encode_triple a b c @ pad_output (length xs) (4 * ((length xs + 2) div 3)) (encode_loop xs)"
    by (rule pad_output_append) (simp_all add: length_encode_loop, cases xs, simp_all)
  ultimately show ?case using 4 by (simp add: base64_encode_string_def Let_def)
qed (simp_all add: base64_encode_string_def pad_output_def mod_table_def encode_triple_def Let_def upt2)

lemma decode_groups:
  "decode_loop (build_decoding_table junk) (length xs) (encode_groups xs) = Some xs"
proof (induction xs rule: encode_groups.induct)
  case (2 a)
  have "octets a 0 0 div 2 ^ 6 mod 64 = 0" "octets a 0 0 div 2 ^ 0 mod 64 = 0"
    by (simp_all add: octets_def)
  then have "decode_quad (build_decoding_table junk) (encoding_table ! (octets a 0 0 div 2 ^ 18 mod 64))
      (encoding_table ! (octets a 0 0 div 2 ^ 12 mod 64)) pad_char pad_char = Some [a, 0, 0]"
    by (intro decode_quad_octets decodes_table decodes_pad)
  then show ?case by (simp add: encode_triple_octets)
next
  case (3 a b)
  have "octets a b 0 div 2 ^ 0 mod 64 = 0" by (simp add: octets_def)
  then have "decode_quad (build_decoding_table junk) (encoding_table ! (octets a b 0 div 2 ^ 18 mod 64))
      (encoding_table ! (octets a b 0 div 2 ^ 12 mod 64)) (encoding_table ! (octets a b 0 div 2 ^ 6 mod 64)) pad_char
      = Some [a, b, 0]"
    by (intro decode_quad_octets decodes_table decodes_pad)
  then show ?case by (simp add: encode_triple_octets)
next
  case (4 a b c xs)
  have "decode_quad (build_decoding_table junk) (encoding_table ! (octets a b c div 2 ^ 18 mod 64))
      (encoding_table ! (octets a b c div 2 ^ 12 mod 64)) (encoding_table ! (octets a b c div 2 ^ 6 mod 64))
      (encoding_table ! (octets a b c div 2 ^ 0 mod 64)) = Some [a, b, c]"
    by (intro decode_quad_octets decodes_table)
  then show ?case using 4 by (simp add: encode_triple_octets)
qed simp

lemma length_encode_groups: "length (encode_groups xs) = 4 * ((length xs + 2) div 3)"
proof (induction xs rule: encode_groups.induct)
  case (4 a b c xs)
  moreover have "(length (a # b # c # xs) + 2) div 3 = Suc ((length xs + 2) div 3)" by simp
  ultimately show ?case by simp
qed simp_all

lemma encode_groups_Cons: "xs \<noteq> [] \<Longrightarrow> 4 \<le> length (encode_groups xs)"
  unfolding length_encode_groups by (cases xs) simp_all

text \<open>Where the padding is.\<close>

lemma encode_triple_nth:
  "encode_triple a b c ! 2 \<noteq> pad_char" "encode_triple a b c ! 3 \<noteq> pad_char"
  by (simp_all add: encode_triple_octets encoding_table_ok numeral_2_eq_2 numeral_3_eq_3)

lemma padding_groups:
  "xs \<noteq> [] \<Longrightarrow>
    (encode_groups xs ! (length (encode_groups xs) - 1) = pad_char \<longleftrightarrow> length xs mod 3 \<noteq> 0) \<and>
    (encode_groups xs ! (length (encode_groups xs) - 2) = pad_char \<longleftrightarrow> length xs mod 3 = 1)"
proof (induction xs rule: encode_groups.induct)
  case (3 a b)
  then show ?case using encode_triple_nth(1) [of a b 0] by (simp add: nth_append)
next
  case (4 a b c xs)
  have m: "length (a # b # c # xs) mod 3 = length xs mod 3" by simp
  show ?case
  proof (cases "xs = []")
    case True
    then show ?thesis using encode_triple_nth [of a b c] by simp
  next
    case False
    have "length (encode_triple a b c @ encode_groups xs) - 1 = 4 + (length (encode_groups xs) - 1)"
      "length (encode_triple a b c @ encode_groups xs) - 2 = 4 + (length (encode_groups xs) - 2)"
      using encode_groups_Cons [OF False] by simp_all
    moreover have "encode_groups xs \<noteq> []" using encode_groups_Cons [OF False] by auto
    ultimately show ?thesis using 4 False m by (simp only: encode_groups.simps nth_append length_encode_triple) simp
  qed
qed (simp_all add: nth_append)

lemma decoded_length:
  assumes "xs \<noteq> []"
  shows "(let n = length (encode_groups xs); out = n div 4 * 3;
      out = (if encode_groups xs ! (n - 1) = pad_char then out - 1 else out)
    in if encode_groups xs ! (n - 2) = pad_char then out - 1 else out) = length xs"
proof -
  define q where "q = length xs div 3"
  have "length xs = 3 * q \<or> length xs = 3 * q + 1 \<or> length xs = 3 * q + 2"
    unfolding q_def by presburger
  moreover have "Suc (Suc (3 * q)) mod 3 = 2" by presburger
  ultimately show ?thesis
    using padding_groups [OF assms] length_encode_groups [of xs] assms by (elim disjE) (simp_all add: Let_def)
qed

lemma encode_groups_nonzero: "0 \<notin> set (encode_groups xs)"
proof -
  have e: "0 \<notin> set (encode_triple a b c)" for a b c
    using encoding_table_ok(3) by (auto simp: encode_triple_octets dest: sym)
  have "pad_char \<noteq> 0" by (simp add: pad_char_def)
  then show ?thesis
  proof (induction xs rule: encode_groups.induct)
    case (2 a)
    then show ?case using e [of a 0 0] by (auto dest: in_set_takeD)
  next
    case (3 a b)
    then show ?case using e [of a b 0] by (auto dest: in_set_takeD)
  qed (use e in auto)
qed

lemma strlen_prefix_id: "0 \<notin> set s \<Longrightarrow> strlen_prefix s = s"
  by (auto simp: strlen_prefix_def takeWhile_eq_all_conv)

lemma base64_decode_encode:
  "xs \<noteq> [] \<Longrightarrow> base64_decode_string junk (base64_encode_string xs) = Inr xs"
  using decoded_length [of xs] decode_groups [of junk xs] length_encode_groups [of xs] encode_groups_Cons [of xs]
  by (simp add: base64_decode_string_def base64_encode_groups Let_def cong: if_cong)

section \<open>Properties\<close>

text \<open>C31: encoding any data that are not empty and decoding the text gives the data back,
  byte for byte, whatever the decoding table held before it was filled in.\<close>

theorem base64_roundtrip:
  assumes "data \<noteq> []"
  shows "base64_decode_string junk (base64_encode_string data) = Inr data"
  using assms by (rule base64_decode_encode)

theorem base64_roundtrip_witness:
  "base64_decode_string (\<lambda>_. 99) (base64_encode_string [88, 0, 255, 66]) = Inr [88, 0, 255, 66]"
  by (rule base64_roundtrip) simp

text \<open>At the builtin, encoding a list of byte values to an atom and decoding the atom to a
  list gives the bytes back; decoding to an atom gives those before the first null byte.\<close>

theorem base64_builtin_roundtrip:
  assumes "ks \<noteq> []"
  shows "\<exists>a. base64_encode junk (B_list (map Some ks)) = Some a \<and> length a = 4 * ((length ks + 2) div 3) \<and>
    base64_decode junk' a Out_list = Inr (map word_of_int ks) \<and>
    base64_decode junk' a Out_atom = Inr (strlen_prefix (map word_of_int ks))"
proof -
  let ?b = "map word_of_int ks :: byte list"
  have "list_bytes (map Some ks) = Some ?b" by (induction ks) auto
  moreover have "strlen_prefix (base64_encode_string ?b) = base64_encode_string ?b"
    using encode_groups_nonzero by (simp add: base64_encode_groups strlen_prefix_id)
  moreover have "base64_decode_string junk' (base64_encode_string ?b) = Inr ?b"
    using assms by (intro base64_decode_encode) simp
  ultimately show ?thesis using length_encode_groups [of ?b] by (simp add: base64_encode_def base64_encode_groups)
qed

theorem base64_builtin_roundtrip_witness:
  "\<exists>a. base64_encode (\<lambda>_. 0) (B_list (map Some [72, 0, 300])) = Some a \<and> length a = 4 * ((length [72, 0, 300 :: int] + 2) div 3) \<and>
    base64_decode (\<lambda>_. 0) a Out_list = Inr (map word_of_int [72, 0, 300]) \<and>
    base64_decode (\<lambda>_. 0) a Out_atom = Inr (strlen_prefix (map word_of_int [72, 0, 300]))"
  by (rule base64_builtin_roundtrip) simp

text \<open>The decoder checks the length but neither the empty text, for which it reads the two
  bytes before it, nor bytes from 128 on, which index before its table.\<close>

theorem base64_decode_unchecked:
  "base64_decode_string junk [] = Inl Out_of_bounds \<and>
   base64_decode_string junk [65, 65, 65, 200] = Inl Out_of_bounds \<and>
   base64_decode_string junk [65, 65, 65] = Inl Null_result"
  by (simp add: base64_decode_string_def decode_quad_def decode_sextet_def pad_char_def Let_def
      split: option.split)

lemma from_hex_digits:
  "list_all (\<lambda>n. from_hex (map byte_of ([48..<58] @ [97..<103]) ! n) = word_of_nat n \<and>
     map byte_of ([48..<58] @ [97..<103]) ! n \<noteq> 0) [0..<16]"
  by code_simp

lemma low_nibble: "unat (and c 15) < 16" for c :: byte
proof -
  have m: "(15 :: byte) = mask 4" by (simp add: mask_eq_exp_minus_1)
  show ?thesis
    unfolding m take_bit_eq_mask [symmetric] unsigned_take_bit_eq by (simp add: take_bit_eq_mod)
qed

lemma from_hex_to_hex: "from_hex (to_hex c) = and c 15" "to_hex c \<noteq> 0"
  using from_hex_digits low_nibble [of c] by (auto simp: list_all_iff to_hex_def byte_unat)

lemma nibbles:
  "or (push_bit 4 (and (signed_drop_bit 4 c) 15)) (and (and c 15) 15) = (c :: byte)"
proof -
  have m: "(15 :: byte) = mask 4" by (simp add: mask_eq_exp_minus_1)
  show ?thesis
    unfolding m
    by (rule bit_word_eqI)
      (auto simp: bit_or_iff bit_push_bit_iff bit_and_iff bit_mask_iff bit_signed_drop_bit_iff)
qed

definition plain_char :: "byte \<Rightarrow> bool" where
  "plain_char c \<longleftrightarrow> is_alnum c \<or> c = 45 \<or> c = 95 \<or> c = 46 \<or> c = 126"

lemma plain_char_not: "plain_char c \<Longrightarrow> c \<noteq> 37 \<and> c \<noteq> 43"
  by (auto simp: plain_char_def is_alnum_def is_digit_def to_lower_def)

lemma url_decode_char: "c \<noteq> 0 \<Longrightarrow> url_decode_loop (url_char c @ s) = c # url_decode_loop s"
  using plain_char_not [of c] nibbles [of c]
  by (auto simp: url_char_def plain_char_def [symmetric] from_hex_to_hex)

lemma url_char_nonzero: "c \<noteq> 0 \<Longrightarrow> 0 \<notin> set (url_char c)"
  using from_hex_to_hex(2) by (auto simp: url_char_def dest: sym)

lemma url_decode_concat:
  "0 \<notin> set s \<Longrightarrow> url_decode_loop (concat (map url_char s)) = s"
  by (induction s) (auto simp: url_decode_char)

lemma strlen_prefix_nonzero: "0 \<notin> set (strlen_prefix s)"
  by (auto simp: strlen_prefix_def dest: set_takeWhileD)

text \<open>Decoding an encoded URL gives the C string back, whatever bytes it holds.\<close>

theorem url_roundtrip: "url_decode (url_encode s) = strlen_prefix s"
proof -
  let ?s = "strlen_prefix s"
  have "0 \<notin> set (url_encode s)"
  proof
    assume "0 \<in> set (url_encode s)"
    then obtain c where "c \<in> set ?s" "0 \<in> set (url_char c)" by (auto simp: url_encode_def)
    then show False using strlen_prefix_nonzero [of s] url_char_nonzero [of c] by metis
  qed
  moreover have "url_decode_loop (url_encode s) = ?s"
    using url_decode_concat [OF strlen_prefix_nonzero] by (simp add: url_encode_def)
  ultimately show ?thesis
    using strlen_prefix_nonzero [of s] by (simp add: url_decode_def strlen_prefix_id)
qed

lemma url_decode_loop_length: "length (url_decode_loop t) \<le> length t"
proof (induction t rule: length_induct)
  case (1 t)
  show ?case
  proof (cases t)
    case (Cons c s)
    have h: "length (url_decode_loop u) \<le> length u" if "length u \<le> length s" for u
      using 1 Cons that by auto
    show ?thesis using Cons h [of s] h [of "tl (tl s)"] by (auto split: list.splits)
  qed simp
qed

text \<open>The encoder's output, with its terminator, fits the buffer it allocates, three bytes
  for each character and one more, and the decoder's the one it allocates; a percent sign
  without two characters after it is dropped.\<close>

theorem url_buffers:
  "length (url_encode s) + 1 \<le> length (strlen_prefix s) * 3 + 1 \<and>
   length (url_decode s) \<le> length (strlen_prefix s) \<and> url_decode [97, 37] = [97]"
proof -
  have "length (url_char c) \<le> 3" for c by (simp add: url_char_def)
  then have "length (concat (map url_char t)) \<le> length t * 3" for t
    by (induction t) (auto intro: add_mono)
  moreover note url_decode_loop_length
  moreover have "length (strlen_prefix t) \<le> length t" for t by (simp add: strlen_prefix_def length_takeWhile_le)
  moreover have "url_decode [97, 37] = [97]" by (simp add: url_decode_def strlen_prefix_def)
  ultimately show ?thesis unfolding url_encode_def url_decode_def by (meson add_le_mono1 order_trans)
qed

end
