(* ===== verification/Compare.thy ===== *)
theory Compare imports Eval begin

text \<open>
  The standard order of terms and the identity of terms (\<open>compare\<close>, \<open>key_compare\<close> and
  \<open>are_identical_terms\<close> of \<open>subp.c\<close>) on the emulator's memory, and the order on trees they
  compute.

  The recursion of the code is bounded by a fuel argument; \<open>None\<close> is a comparison that has
  not returned within it, follows a circular reference chain, or reads the first element of
  a list as a predicate symbol.
\<close>

section \<open>Comparing strings\<close>

text \<open>\<open>strcmp\<close>: by the first bytes that differ, as unsigned characters.\<close>

fun strcmp :: "string \<Rightarrow> string \<Rightarrow> int" where
  "strcmp [] [] = 0"
| "strcmp [] (y # ys) = -1"
| "strcmp (x # xs) [] = 1"
| "strcmp (x # xs) (y # ys) =
     (if x = y then strcmp xs ys else if (of_char x :: nat) < of_char y then -1 else 1)"

section \<open>compare\<close>

record tenv = aenv +
  psc_mod :: "nat \<Rightarrow> string option"

definition sign_of :: "int \<Rightarrow> int" where "sign_of i = sgn i"

definition flt_sign :: "fops \<Rightarrow> fbits \<Rightarrow> int" where
  "flt_sign F x = (if f_eq F x (f_zero F) then 0 else if f_lt F (f_zero F) x then 1 else -1)"

definition flt_cmp :: "fops \<Rightarrow> fbits \<Rightarrow> fbits \<Rightarrow> int" where
  "flt_cmp F x y = flt_sign F (f_sub F x y)"

definition mod_name :: "tenv \<Rightarrow> nat \<Rightarrow> string" where
  "mod_name T p = (case psc_mod T p of Some m \<Rightarrow> m | None \<Rightarrow> ''usermod'')"

text \<open>Moving a variable of the local stack to the heap.\<close>

definition globalize :: "iaddr \<Rightarrow> wam \<Rightarrow> iaddr \<times> wam" where
  "globalize a s =
     (if top_of_localstk s \<le> a \<and> a \<le> gl_high (wenv s) - 1
      then (hreg s, bind_copy a (Ref (hreg s)) (new_heap_free s)) else (a, s))"

definition compare_vars :: "iaddr \<Rightarrow> iaddr \<Rightarrow> wam \<Rightarrow> int \<times> wam" where
  "compare_vars a b s =
     (case globalize a s of (a', s1) \<Rightarrow> (case globalize b s1 of (b', s2) \<Rightarrow> (sign_of (a' - b'), s2)))"

definition isvar_cell :: "cell \<Rightarrow> bool" where
  "isvar_cell c \<longleftrightarrow> isref c \<or> isattv c"

definition compare_ints :: "wam \<Rightarrow> cell \<Rightarrow> cell \<Rightarrow> int" where
  "compare_ints s c d = sign_of (wrap64 (oint_val s c - oint_val s d))"

text \<open>All cases but two compound terms.\<close>

definition compare_simple :: "tenv \<Rightarrow> cell \<Rightarrow> cell \<Rightarrow> wam \<Rightarrow> (int \<times> wam) option" where
  "compare_simple T v1 v2 s =
     (case v1 of
        Ref a \<Rightarrow>
          (case v2 of
             CAttv b \<Rightarrow> Some (sign_of (a - b), s)
           | Ref b \<Rightarrow> Some (compare_vars a b s)
           | _ \<Rightarrow> Some (-1, s))
      | CFlt _ \<Rightarrow>
          Some (if isvar_cell v2 then 1
                else if isofloat s v2 then flt_cmp (fl T) (ofloat_val (fl T) s v1) (ofloat_val (fl T) s v2)
                else -1, s)
      | CInt _ \<Rightarrow>
          Some (if isvar_cell v2 \<or> isofloat s v2 then 1
                else if isointeger s v2 then compare_ints s v1 v2 else -1, s)
      | CStr x \<Rightarrow>
          Some (if isvar_cell v2 \<or> isofloat s v2 \<or> isointeger s v2 then 1
                else (case v2 of CStr y \<Rightarrow> strcmp (str_chars T x) (str_chars T y) | _ \<Rightarrow> -1), s)
      | CStruct _ \<Rightarrow>
          Some (if isboxedinteger s v1 then
                  (if isvar_cell v2 \<or> isofloat s v2 then 1
                   else if isointeger s v2 then compare_ints s v1 v2 else -1)
                else if isboxedfloat s v1 then
                  (if isvar_cell v2 then 1
                   else if isofloat s v2 then flt_cmp (fl T) (ofloat_val (fl T) s v1) (ofloat_val (fl T) s v2)
                   else -1)
                else 1, s)
      | CList _ \<Rightarrow> Some (1, s)
      | CAttv a \<Rightarrow>
          Some (case v2 of CAttv b \<Rightarrow> sign_of (a - b) | Ref b \<Rightarrow> sign_of (a - b) | _ \<Rightarrow> -1, s)
      | _ \<Rightarrow> None)"

definition plain_struct :: "wam \<Rightarrow> cell \<Rightarrow> bool" where
  "plain_struct s c \<longleftrightarrow> isconstr c \<and> \<not> isboxedinteger s c \<and> \<not> isboxedfloat s c"

definition compare_names :: "tenv \<Rightarrow> nat \<Rightarrow> nat \<Rightarrow> int" where
  "compare_names T p q = strcmp (psc_chars T p) (psc_chars T q)"

text \<open>
  The functors of two compound terms: \<open>Some r\<close> decides the comparison, \<open>None\<close> goes on with
  the arguments. A list has arity 2 and the name \<open>.\<close>.
\<close>

definition compare_functors :: "tenv \<Rightarrow> wam \<Rightarrow> nat \<Rightarrow> nat \<Rightarrow> int option" where
  "compare_functors T s p q =
     (let a1 = psc_arity (wenv s) p; a2 = psc_arity (wenv s) q; c = compare_names T p q
      in if a1 \<noteq> a2 then Some (int a1 - int a2)
         else if c \<noteq> 0 \<or> a1 = 0 then Some c
         else if p \<noteq> q then Some (strcmp (mod_name T p) (mod_name T q))
         else None)"

definition compare_functor_list :: "tenv \<Rightarrow> wam \<Rightarrow> nat \<Rightarrow> int option" where
  "compare_functor_list T s p =
     (let a1 = psc_arity (wenv s) p; c = strcmp (psc_chars T p) ''.''
      in if a1 \<noteq> 2 then Some (int a1 - 2) else if c \<noteq> 0 then Some c else None)"

fun compare :: "nat \<Rightarrow> tenv \<Rightarrow> cell \<Rightarrow> cell \<Rightarrow> wam \<Rightarrow> (int \<times> wam) option"
  and compare_args :: "nat \<Rightarrow> tenv \<Rightarrow> iaddr \<Rightarrow> iaddr \<Rightarrow> nat \<Rightarrow> wam \<Rightarrow> (int \<times> wam) option" where
  "compare 0 T c1 c2 s = None"
| "compare (Suc n) T c1 c2 s =
     (case (deref (mem s) c1, deref (mem s) c2) of
        (Some v1, Some v2) \<Rightarrow>
          if v1 = v2 then Some (0, s)
          else if \<not> ((plain_struct s v1 \<or> islist v1) \<and> (plain_struct s v2 \<or> islist v2)) then
            (if islist v1 \<and> isconstr v2
             then map_option (\<lambda>(r, s'). (- r, s')) (compare_simple T v2 v1 s)
             else compare_simple T v1 v2 s)
          else (case (v1, v2) of
              (CList a, CList b) \<Rightarrow> compare_args n T a b 2 s
            | (CStruct a, CList b) \<Rightarrow>
                (case mem s a of
                   CPsc p \<Rightarrow> map_option (\<lambda>r. (r, s)) (compare_functor_list T s p) | _ \<Rightarrow> None)
            | (CList a, CStruct b) \<Rightarrow>
                (case mem s b of
                   CPsc p \<Rightarrow> map_option (\<lambda>r. (- r, s)) (compare_functor_list T s p) | _ \<Rightarrow> None)
            | (CStruct a, CStruct b) \<Rightarrow>
                (case (mem s a, mem s b) of
                   (CPsc p, CPsc q) \<Rightarrow>
                     (case compare_functors T s p q of
                        Some r \<Rightarrow> Some (r, s)
                      | None \<Rightarrow> compare_args n T (a + 1) (b + 1) (psc_arity (wenv s) p) s)
                 | _ \<Rightarrow> None)
            | _ \<Rightarrow> None)
      | _ \<Rightarrow> None)"
| "compare_args n T a b 0 s = Some (0, s)"
| "compare_args 0 T a b (Suc k) s = None"
| "compare_args (Suc n) T a b (Suc k) s =
     (case compare n T (mem s a) (mem s b) s of
        None \<Rightarrow> None
      | Some (r, s') \<Rightarrow> if r \<noteq> 0 then Some (r, s') else compare_args n T (a + 1) (b + 1) k s')"

definition key_compare :: "nat \<Rightarrow> tenv \<Rightarrow> cell \<Rightarrow> cell \<Rightarrow> wam \<Rightarrow> (int \<times> wam) option" where
  "key_compare n T c1 c2 s =
     (case (deref (mem s) c1, deref (mem s) c2) of
        (Some v1, Some v2) \<Rightarrow> compare n T (get_str_arg (mem s) v1 1) (get_str_arg (mem s) v2 1) s
      | _ \<Rightarrow> None)"

section \<open>are_identical_terms\<close>

fun are_identical_terms :: "nat \<Rightarrow> cell \<Rightarrow> cell \<Rightarrow> wam \<Rightarrow> bool option"
  and identical_args :: "nat \<Rightarrow> iaddr \<Rightarrow> iaddr \<Rightarrow> nat \<Rightarrow> wam \<Rightarrow> bool option" where
  "are_identical_terms 0 c1 c2 s = None"
| "are_identical_terms (Suc n) c1 c2 s =
     (case (deref (mem s) c1, deref (mem s) c2) of
        (Some v1, Some v2) \<Rightarrow>
          if v1 = v2 then Some True
          else if \<not> cell_tag_eq v1 v2 then Some False
          else (case (v1, v2) of
              (CStruct a, CStruct b) \<Rightarrow>
                if mem s a \<noteq> mem s b then Some False
                else identical_args n (a + 1) (b + 1) (eval_arity s v1 - 1) s
            | (CList a, CList b) \<Rightarrow> identical_args n a b 1 s
            | _ \<Rightarrow> Some False)
      | _ \<Rightarrow> None)"
| "identical_args 0 a b k s = None"
| "identical_args (Suc n) a b 0 s = are_identical_terms n (mem s a) (mem s b) s"
| "identical_args (Suc n) a b (Suc k) s =
     (case are_identical_terms n (mem s a) (mem s b) s of
        None \<Rightarrow> None
      | Some True \<Rightarrow> identical_args n (a + 1) (b + 1) k s
      | Some False \<Rightarrow> Some False)"


section \<open>The order on trees\<close>

text \<open>
  A compound term has the symbol of a structure, or \<open>None\<close> for a list cell. Free and
  attributed variables are ordered by their addresses.
\<close>

datatype pterm = PVar iaddr | PFlt fbits | PInt int | PAtom nat | PComp "nat option" "pterm list"

definition comp_name :: "tenv \<Rightarrow> nat option \<Rightarrow> string" where
  "comp_name T f = (case f of Some p \<Rightarrow> psc_chars T p | None \<Rightarrow> ''.'')"

definition comp_mod :: "tenv \<Rightarrow> nat option \<Rightarrow> string" where
  "comp_mod T f = (case f of Some p \<Rightarrow> mod_name T p | None \<Rightarrow> [])"

definition or_else :: "int \<Rightarrow> int \<Rightarrow> int" where
  "or_else c d = (if c \<noteq> 0 then c else d)"

definition functor_cmp :: "tenv \<Rightarrow> nat option \<times> nat \<Rightarrow> nat option \<times> nat \<Rightarrow> int" where
  "functor_cmp T = (\<lambda>(f, m) (g, n).
     or_else (int m - int n) (or_else (strcmp (comp_name T f) (comp_name T g)) (strcmp (comp_mod T f) (comp_mod T g))))"

fun term_rank :: "pterm \<Rightarrow> int" where
  "term_rank (PVar _) = 0"
| "term_rank (PFlt _) = 1"
| "term_rank (PInt _) = 2"
| "term_rank (PAtom _) = 3"
| "term_rank (PComp _ _) = 4"

fun leaf_cmp :: "tenv \<Rightarrow> pterm \<Rightarrow> pterm \<Rightarrow> int" where
  "leaf_cmp T (PVar a) (PVar b) = sgn (a - b)"
| "leaf_cmp T (PFlt x) (PFlt y) = flt_cmp (fl T) x y"
| "leaf_cmp T (PInt i) (PInt j) = sgn (i - j)"
| "leaf_cmp T (PAtom x) (PAtom y) = strcmp (str_chars T x) (str_chars T y)"
| "leaf_cmp T t u = 0"

fun tcmp :: "tenv \<Rightarrow> pterm \<Rightarrow> pterm \<Rightarrow> int"
  and tcmps :: "tenv \<Rightarrow> pterm list \<Rightarrow> pterm list \<Rightarrow> int" where
  "tcmp T (PComp f ts) u =
     (case u of
        PComp g us \<Rightarrow> or_else (functor_cmp T (f, length ts) (g, length us)) (tcmps T ts us)
      | _ \<Rightarrow> 1)"
| "tcmp T t u = or_else (sgn (term_rank t - term_rank u)) (leaf_cmp T t u)"
| "tcmps T [] us = 0"
| "tcmps T (t # ts) us =
     (case us of [] \<Rightarrow> 0 | u # us' \<Rightarrow> or_else (tcmp T t u) (tcmps T ts us'))"

section \<open>Comparators\<close>

text \<open>
  What a three-way comparison on a set of values promises, and that lexicographic
  composition and pointwise comparison of lists keep it.
\<close>

locale comparator =
  fixes A :: "'a set" and cmp :: "'a \<Rightarrow> 'a \<Rightarrow> int"
  assumes cmp_flip: "x \<in> A \<Longrightarrow> y \<in> A \<Longrightarrow> sgn (cmp y x) = - sgn (cmp x y)"
    and cmp_trans: "x \<in> A \<Longrightarrow> y \<in> A \<Longrightarrow> z \<in> A \<Longrightarrow> cmp x y \<le> 0 \<Longrightarrow> cmp y z \<le> 0 \<Longrightarrow> cmp x z \<le> 0"
begin

lemma cmp_flip_sign:
  assumes "x \<in> A" "y \<in> A"
  shows "cmp y x \<le> 0 \<longleftrightarrow> 0 \<le> cmp x y" "cmp y x < 0 \<longleftrightarrow> 0 < cmp x y" "cmp y x = 0 \<longleftrightarrow> cmp x y = 0"
  using cmp_flip [OF assms] by (auto simp: sgn_if split: if_splits)

lemma cmp_refl: "x \<in> A \<Longrightarrow> cmp x x = 0"
  using cmp_flip [of x x] by (auto simp: sgn_if split: if_splits)

lemma cmp_zero_trans:
  assumes "x \<in> A" "y \<in> A" "z \<in> A" "cmp x y \<le> 0" "cmp y z \<le> 0" "cmp x z = 0"
  shows "cmp x y = 0" "cmp y z = 0"
proof -
  have zx: "cmp z x \<le> 0" using cmp_flip_sign(1) [OF assms(1,3)] assms(6) by simp
  have "cmp y x \<le> 0" by (rule cmp_trans [OF assms(2,3,1,5) zx])
  then show "cmp x y = 0" using cmp_flip_sign(1) [OF assms(1,2)] assms(4) by linarith
  have "cmp z y \<le> 0" by (rule cmp_trans [OF assms(3,1,2) zx assms(4)])
  then show "cmp y z = 0" using cmp_flip_sign(1) [OF assms(2,3)] assms(5) by linarith
qed

end

lemma or_else_le: "or_else c d \<le> 0 \<longleftrightarrow> c < 0 \<or> c = 0 \<and> d \<le> 0"
  by (auto simp: or_else_def)

text \<open>The second comparison need only behave where the first is zero.\<close>

lemma comparator_lex:
  assumes "comparator A c"
    "\<And>x y. x \<in> A \<Longrightarrow> y \<in> A \<Longrightarrow> c x y = 0 \<Longrightarrow> sgn (d y x) = - sgn (d x y)"
    "\<And>x y z. x \<in> A \<Longrightarrow> y \<in> A \<Longrightarrow> z \<in> A \<Longrightarrow> c x y = 0 \<Longrightarrow> c y z = 0 \<Longrightarrow> d x y \<le> 0 \<Longrightarrow> d y z \<le> 0 \<Longrightarrow> d x z \<le> 0"
  shows "comparator A (\<lambda>x y. or_else (c x y) (d x y))"
proof
  fix x y assume xy: "x \<in> A" "y \<in> A"
  show "sgn (or_else (c y x) (d y x)) = - sgn (or_else (c x y) (d x y))"
    using comparator.cmp_flip [OF assms(1) xy] comparator.cmp_flip_sign(3) [OF assms(1) xy] assms(2) [OF xy]
    by (auto simp: or_else_def)
next
  fix x y z assume xyz: "x \<in> A" "y \<in> A" "z \<in> A"
    and le: "or_else (c x y) (d x y) \<le> 0" "or_else (c y z) (d y z) \<le> 0"
  then have c: "c x y \<le> 0" "c y z \<le> 0" by (auto simp: or_else_le)
  then have xz: "c x z \<le> 0" by (rule comparator.cmp_trans [OF assms(1) xyz])
  show "or_else (c x z) (d x z) \<le> 0"
  proof (cases "c x z = 0")
    case True
    note z = comparator.cmp_zero_trans [OF assms(1) xyz c True]
    have "d x z \<le> 0" by (rule assms(3) [OF xyz z]) (use le z in \<open>simp_all add: or_else_le\<close>)
    then show ?thesis using True by (simp add: or_else_le)
  qed (use xz in \<open>simp add: or_else_le\<close>)
qed

lemma comparator_lex2:
  assumes "comparator A c" "comparator A d"
  shows "comparator A (\<lambda>x y. or_else (c x y) (d x y))"
proof (rule comparator_lex [OF assms(1)])
  show "sgn (d y x) = - sgn (d x y)" if "x \<in> A" "y \<in> A" for x y
    by (rule comparator.cmp_flip [OF assms(2) that])
  show "d x z \<le> 0" if "x \<in> A" "y \<in> A" "z \<in> A" "d x y \<le> 0" "d y z \<le> 0" for x y z
    by (rule comparator.cmp_trans [OF assms(2) that])
qed

lemma comparator_cong:
  assumes "comparator A c" "\<And>x y. x \<in> A \<Longrightarrow> y \<in> A \<Longrightarrow> d x y = c x y"
  shows "comparator A d"
proof
  fix x y assume "x \<in> A" "y \<in> A"
  then show "sgn (d y x) = - sgn (d x y)"
    using comparator.cmp_flip [OF assms(1), of x y] by (simp only: assms(2))
next
  fix x y z assume "x \<in> A" "y \<in> A" "z \<in> A" "d x y \<le> 0" "d y z \<le> 0"
  then show "d x z \<le> 0" using comparator.cmp_trans [OF assms(1), of x y z] assms(2) by simp
qed

lemma comparator_map:
  assumes "comparator B c" "\<And>x. x \<in> A \<Longrightarrow> f x \<in> B"
  shows "comparator A (\<lambda>x y. c (f x) (f y))"
proof
  fix x y z assume "x \<in> A" "y \<in> A" "z \<in> A" "c (f x) (f y) \<le> 0" "c (f y) (f z) \<le> 0"
  then show "c (f x) (f z) \<le> 0" using comparator.cmp_trans [OF assms(1)] assms(2) by metis
qed (rule comparator.cmp_flip [OF assms(1) assms(2) assms(2)])

lemma sgn_diff_flip: "sgn (j - i) = - sgn (i - j :: int)"
  using sgn_minus [of "i - j"] by simp

lemma comparator_diff: "comparator UNIV (\<lambda>i j :: int. i - j)"
proof
  show "sgn (j - i) = - sgn (i - j)" for i j :: int by (rule sgn_diff_flip)
qed simp

lemma comparator_sgn_diff: "comparator UNIV (\<lambda>i j :: int. sgn (i - j))"
proof
  show "sgn (sgn (j - i)) = - sgn (sgn (i - j))" for i j :: int
    unfolding sgn_sgn by (rule sgn_diff_flip)
next
  fix i j k :: int
  have "sgn n \<le> 0 \<longleftrightarrow> n \<le> 0" for n :: int by (simp add: sgn_if)
  then show "sgn (i - j) \<le> 0 \<Longrightarrow> sgn (j - k) \<le> 0 \<Longrightarrow> sgn (i - k) \<le> 0" by simp
qed

lemma strcmp_flip: "strcmp ys xs = - strcmp xs ys"
  by (induction xs ys rule: strcmp.induct) auto

lemma strcmp_range: "strcmp xs ys = -1 \<or> strcmp xs ys = 0 \<or> strcmp xs ys = 1"
  by (induction xs ys rule: strcmp.induct) auto

lemma strcmp_zero: "strcmp xs ys = 0 \<longleftrightarrow> xs = ys"
  by (induction xs ys rule: strcmp.induct) auto

lemma strcmp_trans: "strcmp xs ys \<le> 0 \<Longrightarrow> strcmp ys zs \<le> 0 \<Longrightarrow> strcmp xs zs \<le> 0"
proof (induction xs ys arbitrary: zs rule: strcmp.induct)
  case (1 zs)
  then show ?case by simp
next
  case (2 y ys)
  then show ?case by (cases zs) auto
next
  case (3 x xs)
  then show ?case by simp
next
  case (4 x xs y ys)
  then show ?case by (cases zs) (auto split: if_splits)
qed

interpretation names: comparator UNIV strcmp
proof
  show "sgn (strcmp ys xs) = - sgn (strcmp xs ys)" for xs ys by (subst strcmp_flip) simp
qed (rule strcmp_trans)


section \<open>The order on trees is a comparison\<close>

fun floats_in :: "pterm \<Rightarrow> fbits set" where
  "floats_in (PFlt x) = {x}"
| "floats_in (PComp f ts) = (\<Union>t \<in> set ts. floats_in t)"
| "floats_in t = {}"

lemma functor_comparator: "comparator UNIV (functor_cmp T)"
proof -
  have n: "comparator UNIV (\<lambda>x y :: nat option \<times> nat. int (snd x) - int (snd y))"
    by (rule comparator_map [OF comparator_diff]) simp
  have s: "comparator UNIV (\<lambda>x y :: nat option \<times> nat. strcmp (comp_name T (fst x)) (comp_name T (fst y)))"
    by (rule comparator_map [OF names.comparator_axioms]) simp
  have m: "comparator UNIV (\<lambda>x y :: nat option \<times> nat. strcmp (comp_mod T (fst x)) (comp_mod T (fst y)))"
    by (rule comparator_map [OF names.comparator_axioms]) simp
  from comparator_lex2 [OF n comparator_lex2 [OF s m]] show ?thesis
    by (rule comparator_cong) (simp add: functor_cmp_def case_prod_unfold)
qed

lemma tcmps_comparator:
  assumes "comparator A (tcmp T)"
  shows "comparator {ts. set ts \<subseteq> A \<and> length ts = m} (tcmps T)"
proof (induction m)
  case 0
  show ?case by unfold_locales auto
next
  case (Suc m)
  let ?B = "{ts. set ts \<subseteq> A \<and> length ts = Suc m}"
  have hd: "comparator ?B (\<lambda>ts us. tcmp T (hd ts) (hd us))"
    by (rule comparator_map [OF assms]) (auto simp: length_Suc_conv)
  have tl: "comparator ?B (\<lambda>ts us. tcmps T (tl ts) (tl us))"
    by (rule comparator_map [OF Suc]) (auto simp: length_Suc_conv)
  from comparator_lex2 [OF hd tl] show ?case
    by (rule comparator_cong) (auto simp: length_Suc_conv)
qed

text \<open>The comparison once the ranks agree.\<close>

fun same_rank_cmp :: "tenv \<Rightarrow> pterm \<Rightarrow> pterm \<Rightarrow> int" where
  "same_rank_cmp T (PComp f ts) (PComp g us) =
     or_else (functor_cmp T (f, length ts) (g, length us)) (tcmps T ts us)"
| "same_rank_cmp T t u = leaf_cmp T t u"

lemma tcmp_rank: "tcmp T t u = or_else (sgn (term_rank t - term_rank u)) (same_rank_cmp T t u)"
  by (cases t; cases u) (auto simp: or_else_def)

text \<open>Leaves of one kind.\<close>

lemma leaf_comparators:
  assumes "comparator B (flt_cmp (fl T))"
  shows "comparator (range PVar) (same_rank_cmp T)" "comparator (PFlt ` B) (same_rank_cmp T)"
    "comparator (range PInt) (same_rank_cmp T)" "comparator (range PAtom) (same_rank_cmp T)"
proof -
  have "comparator (range PVar) (\<lambda>x y. sgn ((case x of PVar a \<Rightarrow> a) - (case y of PVar a \<Rightarrow> a)))"
    by (rule comparator_map [OF comparator_sgn_diff]) simp
  then show "comparator (range PVar) (same_rank_cmp T)" by (rule comparator_cong) auto
  have "comparator (PFlt ` B) (\<lambda>x y. flt_cmp (fl T) (case x of PFlt a \<Rightarrow> a) (case y of PFlt a \<Rightarrow> a))"
    by (rule comparator_map [OF assms]) auto
  then show "comparator (PFlt ` B) (same_rank_cmp T)" by (rule comparator_cong) auto
  have "comparator (range PInt) (\<lambda>x y. sgn ((case x of PInt a \<Rightarrow> a) - (case y of PInt a \<Rightarrow> a)))"
    by (rule comparator_map [OF comparator_sgn_diff]) simp
  then show "comparator (range PInt) (same_rank_cmp T)" by (rule comparator_cong) auto
  have "comparator (range PAtom) (\<lambda>x y. strcmp (str_chars T (case x of PAtom a \<Rightarrow> a)) (str_chars T (case y of PAtom a \<Rightarrow> a)))"
    by (rule comparator_map [OF names.comparator_axioms]) simp
  then show "comparator (range PAtom) (same_rank_cmp T)" by (rule comparator_cong) auto
qed

definition comps_over :: "pterm set \<Rightarrow> pterm set" where
  "comps_over A = {PComp f ts | f ts. set ts \<subseteq> A}"

lemma comp_comparator:
  assumes "comparator A (tcmp T)"
  shows "comparator (comps_over A) (same_rank_cmp T)"
proof -
  let ?args = "\<lambda>t. case t of PComp f ts \<Rightarrow> ts" and ?key = "\<lambda>t. case t of PComp f ts \<Rightarrow> (f, length ts)"
  have k: "comparator (comps_over A) (\<lambda>x y. functor_cmp T (?key x) (?key y))"
    by (rule comparator_map [OF functor_comparator]) simp
  have len: "length (?args x) = length (?args y)"
    if "x \<in> comps_over A" "y \<in> comps_over A" "functor_cmp T (?key x) (?key y) = 0" for x y
    using that by (auto simp: comps_over_def functor_cmp_def or_else_def split: if_splits)
  note l = tcmps_comparator [OF assms]
  have "comparator (comps_over A) (\<lambda>x y. or_else (functor_cmp T (?key x) (?key y)) (tcmps T (?args x) (?args y)))"
  proof (rule comparator_lex [OF k])
    fix x y assume xy: "x \<in> comps_over A" "y \<in> comps_over A" "functor_cmp T (?key x) (?key y) = 0"
    show "sgn (tcmps T (?args y) (?args x)) = - sgn (tcmps T (?args x) (?args y))"
      by (rule comparator.cmp_flip [OF l [of "length (?args x)"]]) (use xy len [OF xy] in \<open>auto simp: comps_over_def\<close>)
  next
    fix x y z assume xyz: "x \<in> comps_over A" "y \<in> comps_over A" "z \<in> comps_over A"
      "functor_cmp T (?key x) (?key y) = 0" "functor_cmp T (?key y) (?key z) = 0"
      and le: "tcmps T (?args x) (?args y) \<le> 0" "tcmps T (?args y) (?args z) \<le> 0"
    show "tcmps T (?args x) (?args z) \<le> 0"
      by (rule comparator.cmp_trans [OF l [of "length (?args x)"] _ _ _ le])
        (use xyz len [OF xyz(1,2,4)] len [OF xyz(2,3,5)] in \<open>auto simp: comps_over_def\<close>)
  qed
  then show ?thesis by (rule comparator_cong) (auto simp: comps_over_def)
qed


text \<open>The terms of one rank.\<close>

definition rank_class :: "fbits set \<Rightarrow> pterm set \<Rightarrow> int \<Rightarrow> pterm set" where
  "rank_class B A r =
     (if r = 0 then range PVar else if r = 1 then PFlt ` B else if r = 2 then range PInt
      else if r = 3 then range PAtom else comps_over A)"

lemma rank_class_comparator:
  "comparator B (flt_cmp (fl T)) \<Longrightarrow> comparator A (tcmp T) \<Longrightarrow> comparator (rank_class B A r) (same_rank_cmp T)"
  using leaf_comparators comp_comparator by (simp add: rank_class_def)

lemma rank_comparator: "comparator A (\<lambda>t u. sgn (term_rank t - term_rank u))"
  by (rule comparator_map [OF comparator_sgn_diff]) simp

lemma tcmp_from_classes:
  assumes c: "\<And>r. comparator (K r) (same_rank_cmp T)" and k: "\<And>t. t \<in> A \<Longrightarrow> t \<in> K (term_rank t)"
  shows "comparator A (tcmp T)"
proof -
  have r: "term_rank x = term_rank y" if "sgn (term_rank x - term_rank y) = 0" for x y
    using that by (simp add: sgn_0_0)
  have "comparator A (\<lambda>t u. or_else (sgn (term_rank t - term_rank u)) (same_rank_cmp T t u))"
  proof (rule comparator_lex [OF rank_comparator])
    fix x y assume "x \<in> A" "y \<in> A" "sgn (term_rank x - term_rank y) = 0"
    then show "sgn (same_rank_cmp T y x) = - sgn (same_rank_cmp T x y)"
      using comparator.cmp_flip [OF c k, of x y] k [of y] r [of x y] by simp
  next
    fix x y z assume "x \<in> A" "y \<in> A" "z \<in> A" "sgn (term_rank x - term_rank y) = 0"
      "sgn (term_rank y - term_rank z) = 0" "same_rank_cmp T x y \<le> 0" "same_rank_cmp T y z \<le> 0"
    then show "same_rank_cmp T x z \<le> 0"
      using comparator.cmp_trans [OF c k, of x y z] k [of y] k [of z] r [of x y] r [of y z] by simp
  qed
  then show ?thesis by (rule comparator_cong) (rule tcmp_rank)
qed

lemma tcmp_comparator_size:
  assumes "comparator B (flt_cmp (fl T))"
  shows "comparator {t. size t < n \<and> floats_in t \<subseteq> B} (tcmp T)"
proof (induction n)
  case 0
  show ?case by unfold_locales auto
next
  case (Suc n)
  let ?A = "{t. size t < n \<and> floats_in t \<subseteq> B}"
  show ?case
  proof (rule tcmp_from_classes [OF rank_class_comparator [OF assms Suc]])
    fix t assume t: "t \<in> {t. size t < Suc n \<and> floats_in t \<subseteq> B}"
    show "t \<in> rank_class B ?A (term_rank t)"
    proof (cases t)
      case (PComp f ts)
      have "u \<in> ?A" if "u \<in> set ts" for u
      proof -
        have "size u \<le> size_list size ts" using that by (simp add: size_list_estimation')
        then show ?thesis using t that PComp by auto
      qed
      then show ?thesis using PComp by (auto simp: rank_class_def comps_over_def)
    qed (use t in \<open>auto simp: rank_class_def\<close>)
  qed
qed

lemma tcmp_comparator:
  assumes "comparator B (flt_cmp (fl T))"
  shows "comparator {t. floats_in t \<subseteq> B} (tcmp T)"
proof
  fix x y assume "x \<in> {t. floats_in t \<subseteq> B}" "y \<in> {t. floats_in t \<subseteq> B}"
  then show "sgn (tcmp T y x) = - sgn (tcmp T x y)"
    using comparator.cmp_flip [OF tcmp_comparator_size [OF assms, of "Suc (size x + size y)"], of x y] by simp
next
  fix x y z assume "x \<in> {t. floats_in t \<subseteq> B}" "y \<in> {t. floats_in t \<subseteq> B}" "z \<in> {t. floats_in t \<subseteq> B}"
    "tcmp T x y \<le> 0" "tcmp T y z \<le> 0"
  then show "tcmp T x z \<le> 0"
    using comparator.cmp_trans [OF tcmp_comparator_size [OF assms, of "Suc (size x + size y + size z)"], of x y z] by simp
qed


section \<open>Terms in memory\<close>

text \<open>
  The tree a cell stands for. An integer is boxed only when it does not fit a cell. Structures
  without arguments are left out: the code compares them by name alone.
\<close>

inductive term_rep :: "tenv \<Rightarrow> wam \<Rightarrow> cell \<Rightarrow> pterm \<Rightarrow> bool" for T s where
  tr_var: "deref (mem s) c = Some (Ref a) \<Longrightarrow> term_rep T s c (PVar a)"
| tr_attv: "deref (mem s) c = Some (CAttv a) \<Longrightarrow> term_rep T s c (PVar a)"
| tr_int: "deref (mem s) c = Some d \<Longrightarrow> isointeger s d \<Longrightarrow> isinteger d = (\<not> cint_overflow (oint_val s d)) \<Longrightarrow>
    term_rep T s c (PInt (oint_val s d))"
| tr_flt: "deref (mem s) c = Some d \<Longrightarrow> isofloat s d \<Longrightarrow> term_rep T s c (PFlt (ofloat_val (fl T) s d))"
| tr_atom: "deref (mem s) c = Some (CStr n) \<Longrightarrow> term_rep T s c (PAtom n)"
| tr_struct: "deref (mem s) c = Some (CStruct a) \<Longrightarrow> plain_struct s (CStruct a) \<Longrightarrow> mem s a = CPsc p \<Longrightarrow>
    length ts = psc_arity (wenv s) p \<Longrightarrow> ts \<noteq> [] \<Longrightarrow> \<not> (length ts = 2 \<and> psc_chars T p = ''.'') \<Longrightarrow>
    (\<And>i. i < length ts \<Longrightarrow> term_rep T s (mem s (a + 1 + int i)) (ts ! i)) \<Longrightarrow>
    term_rep T s c (PComp (Some p) ts)"
| tr_list: "deref (mem s) c = Some (CList a) \<Longrightarrow> term_rep T s (mem s a) t \<Longrightarrow>
    term_rep T s (mem s (a + 1)) u \<Longrightarrow> term_rep T s c (PComp None [t, u])"

lemma box_kinds:
  "isboxedinteger s c \<Longrightarrow> \<not> isboxedfloat s c"
  "isboxedinteger s c \<Longrightarrow> isconstr c" "isboxedfloat s c \<Longrightarrow> isconstr c"
  by (auto simp: isboxedinteger_def isboxedfloat_def isboxed_def cell_box_has_id_def split: cell.splits)

lemma term_rep_kinds:
  assumes "term_rep T s c t" "deref (mem s) c = Some d"
  obtains (var) a where "d = Ref a" "t = PVar a"
  | (attv) a where "d = CAttv a" "t = PVar a"
  | (int) i where "d = CInt i" "t = PInt i" "\<not> cint_overflow i"
  | (box) a where "d = CStruct a" "isboxedinteger s d" "\<not> isboxedfloat s d" "t = PInt (oint_val s d)" "cint_overflow (oint_val s d)"
  | (flt) w where "d = CFlt w" "t = PFlt (ofloat_val (fl T) s d)"
  | (dbl) a where "d = CStruct a" "isboxedfloat s d" "\<not> isboxedinteger s d" "t = PFlt (ofloat_val (fl T) s d)"
  | (atom) n where "d = CStr n" "t = PAtom n"
  | (struct) a p ts where "d = CStruct a" "plain_struct s d" "mem s a = CPsc p" "length ts = psc_arity (wenv s) p"
      "ts \<noteq> []" "\<not> (length ts = 2 \<and> psc_chars T p = ''.'')"
      "\<And>i. i < length ts \<Longrightarrow> term_rep T s (mem s (a + 1 + int i)) (ts ! i)" "t = PComp (Some p) ts"
  | (list) a u v where "d = CList a" "term_rep T s (mem s a) u" "term_rep T s (mem s (a + 1)) v" "t = PComp None [u, v]"
  using assms(1)
proof (cases rule: term_rep.cases)
  case (tr_int d')
  then have d: "d' = d" using assms(2) by simp
  show ?thesis
  proof (cases d)
    case (CInt i)
    then show ?thesis using int tr_int d by (simp add: oint_val_def)
  next
    case (CStruct a)
    then show ?thesis using box [of a] tr_int d box_kinds(1) [of s d] by (auto simp: isointeger_def)
  qed (use tr_int d box_kinds(2) [of s d] in \<open>auto simp: isointeger_def\<close>)
next
  case (tr_flt d')
  then have d: "d' = d" using assms(2) by simp
  show ?thesis
  proof (cases d)
    case (CFlt w)
    then show ?thesis using flt tr_flt d by simp
  next
    case (CStruct a)
    then show ?thesis using dbl [of a] tr_flt d box_kinds(1) [of s d] by (auto simp: isofloat_def)
  qed (use tr_flt d box_kinds(3) [of s d] in \<open>auto simp: isofloat_def\<close>)
qed (use assms(2) that in auto)


lemma term_rep_unique: "term_rep T s c t \<Longrightarrow> term_rep T s c t' \<Longrightarrow> t = t'"
proof (induction arbitrary: t' rule: term_rep.induct)
  case (tr_struct c a p ts)
  from tr_struct.prems tr_struct.hyps(1) show ?case
  proof (cases rule: term_rep_kinds)
    case (struct a' p' ts')
    then have "a' = a" "p' = p" "length ts' = length ts" using tr_struct.hyps by auto
    moreover have "ts ! i = ts' ! i" if "i < length ts" for i
      using tr_struct.IH [OF that] struct(7) [of i] that calculation by simp
    ultimately show ?thesis using struct by (simp add: nth_equalityI)
  qed (use tr_struct.hyps in \<open>auto simp: plain_struct_def\<close>)
next
  case (tr_int c d)
  from tr_int.prems tr_int.hyps(1) show ?case
    by (cases rule: term_rep_kinds)
      (use tr_int.hyps in \<open>auto simp: isointeger_def oint_val_def plain_struct_def dest: box_kinds\<close>)
next
  case (tr_flt c d)
  from tr_flt.prems tr_flt.hyps(1) show ?case
    by (cases rule: term_rep_kinds) (use tr_flt.hyps in \<open>auto simp: isofloat_def plain_struct_def dest: box_kinds\<close>)
next
  case (tr_list c a t u)
  from tr_list.prems tr_list.hyps(1) show ?case
    by (cases rule: term_rep_kinds) (use tr_list.IH in auto)
qed (erule (1) term_rep_kinds; auto)+

text \<open>
  What the comparison needs: no variable on the local stack, which it would move, integers
  whose differences fit 64 bits, and one symbol per name, arity and module.
\<close>

fun leaves_ok :: "wam \<Rightarrow> pterm \<Rightarrow> bool" where
  "leaves_ok s (PVar a) = (\<not> (top_of_localstk s \<le> a \<and> a \<le> gl_high (wenv s) - 1))"
| "leaves_ok s (PInt i) = (- (2 ^ 62) \<le> i \<and> i < 2 ^ 62)"
| "leaves_ok s (PComp f ts) = (\<forall>t \<in> set ts. leaves_ok s t)"
| "leaves_ok s t = True"

definition psc_unique :: "tenv \<Rightarrow> wam \<Rightarrow> bool" where
  "psc_unique T s \<longleftrightarrow> (\<forall>p q. psc_arity (wenv s) p = psc_arity (wenv s) q \<longrightarrow>
     psc_chars T p = psc_chars T q \<longrightarrow> mod_name T p = mod_name T q \<longrightarrow> p = q)"

lemma compare_ints_sgn:
  assumes "- (2 ^ 62) \<le> oint_val s c" "oint_val s c < 2 ^ 62" "- (2 ^ 62) \<le> oint_val s d" "oint_val s d < 2 ^ 62"
  shows "compare_ints s c d = sgn (oint_val s c - oint_val s d)"
proof -
  have "in64 (oint_val s c - oint_val s d)" using assms by (simp add: in64_def)
  then show ?thesis by (simp add: compare_ints_def sign_of_def)
qed

definition is_comp :: "pterm \<Rightarrow> bool" where
  "is_comp t \<longleftrightarrow> term_rank t = 4"

lemma oint_CInt [simp]: "oint_val s (CInt i) = i" "isointeger s (CInt i)"
  by (simp_all add: oint_val_def isointeger_def)

lemma not_number [simp]:
  "\<not> isointeger s (CStr n)" "\<not> isointeger s (CList a)" "\<not> isointeger s (CFlt w)" "\<not> isofloat s (CStr n)"
  "\<not> isofloat s (CList a)" "\<not> isofloat s (CInt i)" "isofloat s (CFlt w)"
  "isointeger s (CStruct a) = isboxedinteger s (CStruct a)" "isofloat s (CStruct a) = isboxedfloat s (CStruct a)"
  by (auto simp: isointeger_def isofloat_def dest: box_kinds)

lemma simple_cmp:
  assumes r: "term_rep T s c1 t" "term_rep T s c2 u" and d: "deref (mem s) c1 = Some v1" "deref (mem s) c2 = Some v2"
    and ok: "leaves_ok s t" "leaves_ok s u" and k: "\<not> (is_comp t \<and> is_comp u)"
  shows "\<not> (islist v1 \<and> isconstr v2) \<Longrightarrow>
      \<exists>w. compare_simple T v1 v2 s = Some (w, s) \<and> sgn w = sgn (tcmp T t u)"
    "islist v1 \<Longrightarrow> isconstr v2 \<Longrightarrow>
      \<exists>w. compare_simple T v2 v1 s = Some (- w, s) \<and> sgn w = sgn (tcmp T t u)"
proof -
  have comp: "tcmp T t u = (if is_comp t then 1 else or_else (sgn (term_rank t - term_rank u)) (leaf_cmp T t u))"
    using k by (cases t; cases u) (auto simp: is_comp_def or_else_def)
  note defs = compare_simple_def compare_vars_def globalize_def sign_of_def isvar_cell_def compare_ints_sgn
    or_else_def is_comp_def plain_struct_def comp
  show "\<exists>w. compare_simple T v1 v2 s = Some (w, s) \<and> sgn w = sgn (tcmp T t u)" if "\<not> (islist v1 \<and> isconstr v2)"
    using r(1) d(1)
  proof (cases rule: term_rep_kinds)
    case (var a)
    from r(2) d(2) show ?thesis by (cases rule: term_rep_kinds) (use var ok k in \<open>auto simp: defs\<close>)
  next
    case (attv a)
    from r(2) d(2) show ?thesis by (cases rule: term_rep_kinds) (use attv ok k in \<open>auto simp: defs\<close>)
  next
    case (int i)
    from r(2) d(2) show ?thesis by (cases rule: term_rep_kinds) (use int ok k in \<open>auto simp: defs\<close>)
  next
    case (box a)
    from r(2) d(2) show ?thesis by (cases rule: term_rep_kinds) (use box ok k in \<open>auto simp: defs\<close>)
  next
    case (flt w)
    from r(2) d(2) show ?thesis by (cases rule: term_rep_kinds) (use flt ok k in \<open>auto simp: defs\<close>)
  next
    case (dbl a)
    from r(2) d(2) show ?thesis by (cases rule: term_rep_kinds) (use dbl ok k in \<open>auto simp: defs\<close>)
  next
    case (atom n)
    from r(2) d(2) show ?thesis by (cases rule: term_rep_kinds) (use atom ok k in \<open>auto simp: defs\<close>)
  next
    case (struct a p ts)
    from r(2) d(2) show ?thesis by (cases rule: term_rep_kinds) (use struct ok k in \<open>auto simp: defs\<close>)
  next
    case (list a h tl)
    from r(2) d(2) show ?thesis by (cases rule: term_rep_kinds) (use list that ok k in \<open>auto simp: defs\<close>)
  qed
  show "\<exists>w. compare_simple T v2 v1 s = Some (- w, s) \<and> sgn w = sgn (tcmp T t u)" if l: "islist v1" "isconstr v2"
  proof -
    from r(1) d(1) have t: "is_comp t" by (cases rule: term_rep_kinds) (use l in \<open>auto simp: is_comp_def\<close>)
    obtain a where a: "v1 = CList a" using l by (cases v1) auto
    have one: "\<not> is_comp u \<Longrightarrow> tcmp T t u = 1" using t comp by simp
    from r(2) d(2) show ?thesis
      by (cases rule: term_rep_kinds) (use a t l k one in \<open>auto simp: compare_simple_def is_comp_def isvar_cell_def plain_struct_def\<close>)
  qed
qed


section \<open>compare computes the order\<close>

text \<open>With enough fuel, a fuelled function returns one value.\<close>

definition settles :: "(nat \<Rightarrow> 'a option) \<Rightarrow> 'a \<Rightarrow> bool" where
  "settles f v \<longleftrightarrow> (\<exists>N. \<forall>n \<ge> N. f n = Some v)"

lemma settles_Suc: "settles (\<lambda>n. f (Suc n)) v \<Longrightarrow> settles f v"
  unfolding settles_def
proof (elim exE)
  fix N assume a: "\<forall>n \<ge> N. f (Suc n) = Some v"
  have "f n = Some v" if "Suc N \<le> n" for n using a that by (cases n) auto
  then show "\<exists>N. \<forall>n \<ge> N. f n = Some v" by blast
qed

lemma settles_const: "(\<And>n. f (Suc n) = Some v) \<Longrightarrow> settles f v"
  by (rule settles_Suc) (simp add: settles_def)

lemma settles_bind:
  assumes "settles f v" "settles (g v) w"
  shows "settles (\<lambda>n. case f n of None \<Rightarrow> None | Some x \<Rightarrow> g x n) w"
proof -
  obtain N M where "\<forall>n \<ge> N. f n = Some v" "\<forall>n \<ge> M. g v n = Some w" using assms by (auto simp: settles_def)
  then have "\<forall>n \<ge> max N M. (case f n of None \<Rightarrow> None | Some x \<Rightarrow> g x n) = Some w" by simp
  then show ?thesis unfolding settles_def by blast
qed

lemma settles_unique: "settles f v \<Longrightarrow> settles f w \<Longrightarrow> v = w"
  unfolding settles_def by (metis nle_le option.inject)

definition compares_as :: "tenv \<Rightarrow> cell \<Rightarrow> cell \<Rightarrow> wam \<Rightarrow> int \<Rightarrow> bool" where
  "compares_as T c d s k \<longleftrightarrow> (\<exists>r. settles (\<lambda>n. compare n T c d s) (r, s) \<and> sgn r = sgn k)"

lemma sgn_or_else: "sgn (or_else c d) = (if c = 0 then sgn d else sgn c)"
  by (simp add: or_else_def)

lemma compare_args_settle:
  assumes "\<And>i. i < length ts \<Longrightarrow> compares_as T (mem s (a + int i)) (mem s (b + int i)) s (tcmp T (ts ! i) (us ! i))"
    and "length us = length ts"
  shows "\<exists>r. settles (\<lambda>n. compare_args n T a b (length ts) s) (r, s) \<and> sgn r = sgn (tcmps T ts us)"
  using assms
proof (induction ts arbitrary: us a b)
  case Nil
  have "settles (\<lambda>n. compare_args n T a b 0 s) (0, s)" by (rule settles_const) simp
  then show ?case by auto
next
  case (Cons t ts)
  obtain u us' where us: "us = u # us'" using Cons.prems(2) by (cases us) auto
  obtain r where r: "settles (\<lambda>n. compare n T (mem s a) (mem s b) s) (r, s)" "sgn r = sgn (tcmp T t u)"
    using Cons.prems(1) [of 0] us by (auto simp: compares_as_def)
  have "\<exists>q. settles (\<lambda>n. compare_args n T (a + 1) (b + 1) (length ts) s) (q, s) \<and> sgn q = sgn (tcmps T ts us')"
  proof (rule Cons.IH)
    show "compares_as T (mem s (a + 1 + int i)) (mem s (b + 1 + int i)) s (tcmp T (ts ! i) (us' ! i))"
      if "i < length ts" for i
      using Cons.prems(1) [of "Suc i"] that us by (simp add: algebra_simps)
  qed (use Cons.prems(2) us in simp)
  then obtain q where q: "settles (\<lambda>n. compare_args n T (a + 1) (b + 1) (length ts) s) (q, s)" "sgn q = sgn (tcmps T ts us')"
    by blast
  have z: "r = 0 \<longleftrightarrow> tcmp T t u = 0" using r(2) by (metis sgn_0_0)
  let ?g = "\<lambda>p n. case p of (x, s') \<Rightarrow> if x \<noteq> 0 then Some (x, s') else compare_args n T (a + 1) (b + 1) (length ts) s'"
  define w where "w = (if r \<noteq> 0 then r else q)"
  have "settles (?g (r, s)) (w, s)" using q(1) by (auto simp: settles_def w_def)
  from settles_bind [where g = ?g, OF r(1) this] have "settles (\<lambda>n. compare_args n T a b (length (t # ts)) s) (w, s)"
    by - (rule settles_Suc, simp)
  moreover have "sgn w = sgn (tcmps T (t # ts) us)" using r(2) q(2) z by (simp add: us sgn_or_else w_def)
  ultimately show ?case by blast
qed

text \<open>A cell that dereferences to the same value stands for the same tree.\<close>

lemma term_rep_deref: "deref (mem s) c = deref (mem s) d \<Longrightarrow> term_rep T s c t \<Longrightarrow> term_rep T s d t"
  by (erule term_rep.cases; simp; rule term_rep.intros; simp)


lemma term_rep_value: "term_rep T s c t \<Longrightarrow> \<exists>v. deref (mem s) c = Some v"
  by (erule term_rep.cases) auto

lemma rep_comp: "term_rep T s c t \<Longrightarrow> deref (mem s) c = Some v \<Longrightarrow> is_comp t \<longleftrightarrow> plain_struct s v \<or> islist v"
  by (erule (1) term_rep_kinds) (auto simp: is_comp_def plain_struct_def)

lemma compare_leaf:
  assumes r: "term_rep T s c t" "term_rep T s d u" and ok: "leaves_ok s t" "leaves_ok s u"
    and k: "\<not> (is_comp t \<and> is_comp u)" and v: "deref (mem s) c = Some v" "deref (mem s) d = Some w" "v \<noteq> w"
  shows "compares_as T c d s (tcmp T t u)"
proof -
  have nk: "\<not> ((plain_struct s v \<or> islist v) \<and> (plain_struct s w \<or> islist w))"
    using k rep_comp [OF r(1) v(1)] rep_comp [OF r(2) v(2)] by simp
  have c: "compare (Suc n) T c d s =
      (if islist v \<and> isconstr w then map_option (\<lambda>(r, s'). (- r, s')) (compare_simple T w v s)
       else compare_simple T v w s)" for n
    using nk v by simp
  show ?thesis
  proof (cases "islist v \<and> isconstr w")
    case True
    then obtain r where "compare_simple T w v s = Some (- r, s)" "sgn r = sgn (tcmp T t u)"
      using simple_cmp(2) [OF r v(1,2) ok k] by blast
    then show ?thesis using c True by (auto simp: compares_as_def intro!: exI [of _ r] settles_const)
  next
    case False
    then obtain r where "compare_simple T v w s = Some (r, s)" "sgn r = sgn (tcmp T t u)"
      using simple_cmp(1) [OF r v(1,2) ok k] by blast
    then show ?thesis using c False by (auto simp: compares_as_def intro!: exI [of _ r] settles_const)
  qed
qed

lemma compare_functors_cmp:
  assumes "psc_unique T s" "length ts = psc_arity (wenv s) p" "length us = psc_arity (wenv s) q" "ts \<noteq> []"
  shows "(case compare_functors T s p q of
      Some r \<Rightarrow> sgn r = sgn (functor_cmp T (Some p, length ts) (Some q, length us)) \<and>
        functor_cmp T (Some p, length ts) (Some q, length us) \<noteq> 0
    | None \<Rightarrow> p = q)"
proof -
  have "0 < psc_arity (wenv s) p" using assms by (metis length_greater_0_conv)
  then show ?thesis using assms
  by (auto simp: compare_functors_def functor_cmp_def or_else_def comp_name_def comp_mod_def compare_names_def Let_def
      strcmp_zero psc_unique_def)
qed

lemma compare_functor_list_cmp:
  assumes "length ts = psc_arity (wenv s) p" "\<not> (length ts = 2 \<and> psc_chars T p = ''.'')"
  obtains r where "compare_functor_list T s p = Some r" "r \<noteq> 0"
    "sgn r = sgn (functor_cmp T (Some p, length ts) (None, 2))" "sgn (- r) = sgn (functor_cmp T (None, 2) (Some p, length ts))"
proof -
  let ?r = "if length ts \<noteq> 2 then int (length ts) - 2 else strcmp (psc_chars T p) ''.''"
  have f: "sgn (strcmp x y) = - sgn (strcmp y x)" for x y using strcmp_flip [of x y] by simp
  have "compare_functor_list T s p = Some ?r" "?r \<noteq> 0" using assms by (auto simp: compare_functor_list_def strcmp_zero)
  moreover have "sgn ?r = sgn (functor_cmp T (Some p, length ts) (None, 2))"
    using assms by (auto simp: functor_cmp_def or_else_def comp_name_def strcmp_zero)
  moreover have "sgn (functor_cmp T (None, 2) (Some p, length ts)) = - sgn (functor_cmp T (Some p, length ts) (None, 2))"
    using comparator.cmp_flip [OF functor_comparator] by blast
  ultimately show ?thesis using that by simp
qed


lemma compare_tree:
  assumes "term_rep T s c t" "term_rep T s d u" "leaves_ok s t" "leaves_ok s u" "floats_in t \<subseteq> B"
    and B: "comparator B (flt_cmp (fl T))" and uq: "psc_unique T s"
  shows "compares_as T c d s (tcmp T t u)"
  using assms(1-5)
proof (induction t arbitrary: c d u rule: measure_induct_rule [of size])
  case (less t)
  note r = less.prems(1,2)
  obtain v w where v: "deref (mem s) c = Some v" "deref (mem s) d = Some w" using r term_rep_value by blast
  have go: "compares_as T x y s (tcmp T t' u')"
    if "size t' < size t" "term_rep T s x t'" "term_rep T s y u'" "leaves_ok s t'" "leaves_ok s u'" "floats_in t' \<subseteq> B"
    for t' u' x y using less.IH that by blast
  show ?case
  proof (cases "v = w")
    case True
    then have "t = u" using term_rep_deref [of s c d T] term_rep_unique r v by metis
    then have "tcmp T t u = 0" using comparator.cmp_refl [OF tcmp_comparator [OF B], of t] less.prems by simp
    then show ?thesis using v True by (auto simp: compares_as_def intro!: exI [of _ 0] settles_const)
  next
    case vw: False
    show ?thesis
    proof (cases "is_comp t \<and> is_comp u")
      case False
      then show ?thesis using compare_leaf [OF r less.prems(3,4)] v vw by blast
    next
      case True
      have pl: "plain_struct s v \<or> islist v" "plain_struct s w \<or> islist w"
        using True rep_comp [OF r(1) v(1)] rep_comp [OF r(2) v(2)] by auto
      have done_by: "compares_as T c d s (tcmp T t u)"
        if "\<And>n. compare (Suc n) T c d s = Some (q, s)" "sgn q = sgn (tcmp T t u)" for q
        using that by (auto simp: compares_as_def intro!: exI [of _ q] settles_const)
      have by_args: "compares_as T c d s (tcmp T t u)"
        if eq: "\<And>n. compare (Suc n) T c d s = compare_args n T a b (length ts) s" and len: "length us = length ts"
          and args: "\<And>i. i < length ts \<Longrightarrow> compares_as T (mem s (a + int i)) (mem s (b + int i)) s (tcmp T (ts ! i) (us ! i))"
          and tc: "tcmp T t u = tcmps T ts us" for a b ts us
      proof -
        obtain q where q: "settles (\<lambda>n. compare_args n T a b (length ts) s) (q, s)" "sgn q = sgn (tcmps T ts us)"
          using compare_args_settle [OF args len] by blast
        have "settles (\<lambda>n. compare (Suc n) T c d s) (q, s)" using q(1) by (simp only: eq)
        then have "settles (\<lambda>n. compare n T c d s) (q, s)" by (rule settles_Suc)
        then show ?thesis using q(2) tc unfolding compares_as_def by auto
      qed
      have ff: "functor_cmp T (f, m) (f, m) = 0" for f m by (rule comparator.cmp_refl [OF functor_comparator]) simp
      from r(1) v(1) show ?thesis
      proof (cases rule: term_rep_kinds)
        case (struct a p ts)
        note t = this
        from r(2) v(2) show ?thesis
        proof (cases rule: term_rep_kinds)
          case (struct b q us)
          show ?thesis
          proof (cases "compare_functors T s p q")
            case None
            then have pq: "p = q" using compare_functors_cmp [OF uq t(4) struct(4) t(5)] by simp
            show ?thesis
            proof (rule by_args)
              show "compare (Suc n) T c d s = compare_args n T (a + 1) (b + 1) (length ts) s" for n
                using v vw t struct None by simp
              show "compares_as T (mem s (a + 1 + int i)) (mem s (b + 1 + int i)) s (tcmp T (ts ! i) (us ! i))"
                if i: "i < length ts" for i
              proof (rule go)
                have "ts ! i \<in> set ts" using i by simp
                then show "size (ts ! i) < size t" using t(8) size_list_estimation' [OF \<open>ts ! i \<in> set ts\<close> order_refl, of size] by simp
                have "floats_in (ts ! i) \<subseteq> floats_in t" using t(8) \<open>ts ! i \<in> set ts\<close> by auto
                then show "floats_in (ts ! i) \<subseteq> B" using less.prems(5) by blast
              qed (use i t struct pq less.prems in auto)
            qed (use t struct pq ff in \<open>simp_all add: or_else_def\<close>)
          next
            case (Some k)
            then show ?thesis
              using compare_functors_cmp [OF uq t(4) struct(4) t(5)]
              by (intro done_by [of k]) (use v vw t struct in \<open>simp_all add: or_else_def\<close>)
          qed
        next
          case (list b x y)
          obtain k where k: "compare_functor_list T s p = Some k" "k \<noteq> 0"
            "sgn k = sgn (functor_cmp T (Some p, length ts) (None, 2))"
            using compare_functor_list_cmp [OF t(4,6)] by blast
          then have "functor_cmp T (Some p, length ts) (None, 2) \<noteq> 0" by (metis sgn_0_0)
          then show ?thesis by (intro done_by [of k]) (use v vw t list k in \<open>simp_all add: or_else_def numeral_2_eq_2\<close>)
        qed (use True in \<open>auto simp: is_comp_def\<close>)
      next
        case (list a h tl)
        note t = this
        from r(2) v(2) show ?thesis
        proof (cases rule: term_rep_kinds)
          case (struct b q us)
          obtain k where k: "compare_functor_list T s q = Some k" "k \<noteq> 0"
            "sgn (- k) = sgn (functor_cmp T (None, 2) (Some q, length us))"
            using compare_functor_list_cmp [OF struct(4,6)] by blast
          then have "functor_cmp T (None, 2) (Some q, length us) \<noteq> 0" by (metis neg_equal_0_iff_equal sgn_0_0)
          then show ?thesis by (intro done_by [of "- k"]) (use v vw t struct k in \<open>simp_all add: or_else_def numeral_2_eq_2\<close>)
        next
          case (list b x y)
          show ?thesis
          proof (rule by_args [of a b "[h, tl]" "[x, y]"])
            show "compares_as T (mem s (a + int i)) (mem s (b + int i)) s (tcmp T ([h, tl] ! i) ([x, y] ! i))"
              if "i < length [h, tl]" for i
            proof -
              have "i = 0 \<or> i = 1" using that by auto
              then show ?thesis by (intro go) (use t list less.prems in auto)
            qed
          qed (use v vw t list ff in \<open>simp_all add: or_else_def plain_struct_def numeral_2_eq_2\<close>)
        qed (use True in \<open>auto simp: is_comp_def\<close>)
      qed (use True in \<open>auto simp: is_comp_def\<close>)
    qed
  qed
qed


section \<open>Properties of compare\<close>


definition compare_is :: "tenv \<Rightarrow> wam \<Rightarrow> cell \<Rightarrow> cell \<Rightarrow> int \<Rightarrow> bool" where
  "compare_is T s c d r \<longleftrightarrow> settles (\<lambda>n. compare n T c d s) (r, s)"



text \<open>C10: \<open>compare\<close> returns the order of the trees its arguments stand for: variables by
  address, floats, integers by value, atoms by name, then compound terms by arity, name,
  module and arguments from left to right, a list as a structure named \<open>.\<close> with two arguments.
  This is for finite terms whose integers are within 62 bits, the range in which the
  difference the code computes cannot overflow, and boxed only when they do not fit a cell, whose
  variables are not on the local stack, and whose structures have arguments and are not themselves
  named \<open>.\<close> with two of them; a module has one symbol record for a name and an arity, and the
  comparison of floats, a parameter, is a comparison on the floats that occur.
\<close>

theorem compare_on_trees:
  assumes "comparator B (flt_cmp (fl T))" "psc_unique T s"
    "term_rep T s c t" "term_rep T s d u" "leaves_ok s t" "leaves_ok s u" "floats_in t \<subseteq> B"
  shows "\<exists>r. compare_is T s c d r \<and> sgn r = sgn (tcmp T t u)"
  using compare_tree [OF assms(3-7,1,2)] by (auto simp: compares_as_def compare_is_def)

lemma wrap64_over:
  assumes "2 ^ 63 \<le> k" "k < 2 ^ 64"
  shows "wrap64 k = k - 2 ^ 64"
proof -
  have "(k + 2 ^ 63) mod 2 ^ 64 = (k + 2 ^ 63 - 2 ^ 64) mod (2 ^ 64 :: int)" by (rule minus_mod_self2 [symmetric])
  also have "\<dots> = k + 2 ^ 63 - 2 ^ 64" using assms by (intro mod_pos_pos_trivial) auto
  finally show ?thesis by (simp add: wrap64_def signed_take_bit_eq_take_bit_shift take_bit_eq_mod)
qed

text \<open>The difference \<open>compare\<close> takes of two integers is kept in 64 bits: a cell integer that
  exceeds a boxed integer by \<open>2 ^ 63\<close> or more is reported to be the smaller one.
\<close>

theorem compare_overflow:
  assumes "deref (mem s) c = Some (CInt i)" "deref (mem s) d = Some (CStruct a)" "isboxedinteger s (CStruct a)"
    "j = oint_val s (CStruct a)" "in64 j" "i < 2 ^ 62" "2 ^ 63 \<le> i - j"
  shows "i > j \<and> compare (Suc n) T c d s = Some (-1, s)"
proof -
  have "wrap64 (i - j) = i - j - 2 ^ 64" using assms by (intro wrap64_over) (auto simp: in64_def)
  then have "compare_ints s (CInt i) (CStruct a) = -1" using assms by (simp add: compare_ints_def sign_of_def in64_def)
  moreover have "i > j" using assms by simp
  ultimately show ?thesis using assms box_kinds(1) [OF assms(3)]
    by (auto simp: compare_simple_def isvar_cell_def plain_struct_def)
qed


section \<open>Identity\<close>

text \<open>
  Trees on which identity is decided by the cells: every number is one cell. A variable is
  identical to itself only when both sides reach it by the same kind of cell.
\<close>

fun one_cell_leaves :: "pterm \<Rightarrow> bool" where
  "one_cell_leaves (PFlt x) = False"
| "one_cell_leaves (PInt i) = (\<not> cint_overflow i)"
| "one_cell_leaves (PComp f ts) = (\<forall>t \<in> set ts. one_cell_leaves t)"
| "one_cell_leaves t = True"

fun var_free :: "pterm \<Rightarrow> bool" where
  "var_free (PVar a) = False"
| "var_free (PComp f ts) = (\<forall>t \<in> set ts. var_free t)"
| "var_free t = True"

definition identical_settles :: "(nat \<Rightarrow> bool option) \<Rightarrow> pterm list \<Rightarrow> pterm list \<Rightarrow> bool" where
  "identical_settles f ts us \<longleftrightarrow>
     (\<exists>b. settles f b \<and> (b \<longrightarrow> ts = us) \<and> (ts = us \<and> list_all var_free ts \<longrightarrow> b))"

lemma identical_settlesE:
  assumes "identical_settles f ts us"
  obtains b where "settles f b" "b \<longrightarrow> ts = us" "ts = us \<and> list_all var_free ts \<longrightarrow> b"
  using assms unfolding identical_settles_def by (elim exE conjE) (rule that)

lemma identical_settlesI:
  "settles f b \<Longrightarrow> b \<longrightarrow> ts = us \<Longrightarrow> ts = us \<and> list_all var_free ts \<longrightarrow> b \<Longrightarrow> identical_settles f ts us"
  unfolding identical_settles_def by (intro exI conjI)

lemma identical_args_settle:
  assumes "\<And>i. i < length ts \<Longrightarrow>
      identical_settles (\<lambda>n. are_identical_terms n (mem s (a + int i)) (mem s (b + int i)) s) [ts ! i] [us ! i]"
    and "length us = length ts" "ts \<noteq> []"
  shows "identical_settles (\<lambda>n. identical_args n a b (length ts - 1) s) ts us"
  using assms
proof (induction ts arbitrary: us a b)
  case Nil
  then show ?case by simp
next
  case (Cons t ts)
  obtain u us' where us: "us = u # us'" "length us' = length ts" using Cons.prems(2) by (cases us) auto
  have "identical_settles (\<lambda>n. are_identical_terms n (mem s a) (mem s b) s) [t] [u]"
    using Cons.prems(1) [of 0] us by simp
  then obtain h where h0: "settles (\<lambda>n. are_identical_terms n (mem s a) (mem s b) s) h"
    "h \<longrightarrow> [t] = [u]" "[t] = [u] \<and> list_all var_free [t] \<longrightarrow> h" by (rule identical_settlesE)
  note h = h0(1) h0(2,3) [unfolded list.inject list.pred_inject simp_thms]
  show ?case
  proof (cases ts)
    case Nil
    have "settles (\<lambda>n. identical_args n a b 0 s) h" by (rule settles_Suc) (use h(1) in simp)
    then have "identical_settles (\<lambda>n. identical_args n a b 0 s) [t] [u]" using h0(2,3) by (rule identical_settlesI)
    then show ?thesis using us Nil by simp
  next
    case xs: (Cons x xs)
    have "identical_settles (\<lambda>n. identical_args n (a + 1) (b + 1) (length ts - 1) s) ts us'"
    proof (rule Cons.IH)
      show "identical_settles (\<lambda>n. are_identical_terms n (mem s (a + 1 + int i)) (mem s (b + 1 + int i)) s) [ts ! i] [us' ! i]"
        if "i < length ts" for i
        using Cons.prems(1) [of "Suc i"] that us by (simp add: algebra_simps)
    qed (use us xs in simp_all)
    then obtain k where k0: "settles (\<lambda>n. identical_args n (a + 1) (b + 1) (length ts - 1) s) k" "k \<longrightarrow> ts = us'"
      "ts = us' \<and> list_all var_free ts \<longrightarrow> k" by (rule identical_settlesE)
    have "length ts - 1 = length xs" using xs by simp
    then have k: "settles (\<lambda>n. identical_args n (a + 1) (b + 1) (length xs) s) k" using k0(1) by (simp only:)
    let ?g = "\<lambda>x n. case x of True \<Rightarrow> identical_args n (a + 1) (b + 1) (length xs) s | False \<Rightarrow> Some False"
    have "settles (?g h) (h \<and> k)" using k by (cases h) (auto simp: settles_def)
    from settles_bind [where g = ?g, OF h(1) this]
    have "settles (\<lambda>n. identical_args n a b (length (t # ts) - 1) s) (h \<and> k)"
      using xs by - (rule settles_Suc, simp)
    moreover have "h \<and> k \<longrightarrow> t # ts = us" using h(2) k0(2) unfolding us(1) list.inject by blast
    moreover have "t # ts = us \<and> list_all var_free (t # ts) \<longrightarrow> h \<and> k"
      using h(3) k0(3) list.pred_inject(1) [of var_free] unfolding us(1) list.inject list.pred_inject by blast
    ultimately show ?thesis by (rule identical_settlesI)
  qed
qed


text \<open>C12: \<open>are_identical_terms\<close> terminates on finite terms whose numbers are integers of
  one cell, so that there are no floats and no boxed integers, and whose structures have
  arguments and are not named \<open>.\<close> with two of them; it answers true only for equal trees, and
  answers true for equal trees without variables.
\<close>

theorem identical_terms:
  assumes "term_rep T s c t" "term_rep T s d u" "one_cell_leaves t" "one_cell_leaves u"
  shows "\<exists>b. settles (\<lambda>n. are_identical_terms n c d s) b \<and> (b \<longrightarrow> t = u) \<and> (t = u \<and> var_free t \<longrightarrow> b)"
proof -
  have "identical_settles (\<lambda>n. are_identical_terms n c d s) [t] [u]"
    using assms
  proof (induction t arbitrary: c d u rule: measure_induct_rule [of size])
    case (less t)
    note r = less.prems(1,2)
    obtain v w where v: "deref (mem s) c = Some v" "deref (mem s) d = Some w" using r term_rep_value by blast
    have go: "identical_settles (\<lambda>n. are_identical_terms n x y s) [t'] [u']"
      if "size t' < size t" "term_rep T s x t'" "term_rep T s y u'" "one_cell_leaves t'" "one_cell_leaves u'"
      for t' u' x y using less.IH that by blast
    have by_bool: "identical_settles (\<lambda>n. are_identical_terms n c d s) [t] [u]"
      if "\<And>n. are_identical_terms (Suc n) c d s = Some b" "b \<longrightarrow> t = u" "t = u \<and> var_free t \<longrightarrow> b" for b
    proof (rule identical_settlesI)
      show "settles (\<lambda>n. are_identical_terms n c d s) b" by (rule settles_const) (rule that(1))
      show "b \<longrightarrow> [t] = [u]" using that(2) by blast
      show "[t] = [u] \<and> list_all var_free [t] \<longrightarrow> b" using that(3) unfolding list.inject list.pred_inject by blast
    qed
    show ?case
    proof (cases "v = w")
      case True
      then have "t = u" using term_rep_deref [of s c d T] term_rep_unique r v by metis
      then show ?thesis by (intro by_bool [of True]) (use v True in simp_all)
    next
      case vw: False
      have by_args: "identical_settles (\<lambda>n. are_identical_terms n c d s) [t] [u]"
        if eq: "\<And>n. are_identical_terms (Suc n) c d s = identical_args n a b (length ts - 1) s" and "length us = length ts"
          "ts \<noteq> []" and t: "t = PComp f ts" "u = PComp f us"
          and args: "\<And>i. i < length ts \<Longrightarrow> term_rep T s (mem s (a + int i)) (ts ! i)"
            "\<And>i. i < length ts \<Longrightarrow> term_rep T s (mem s (b + int i)) (us ! i)" for a b f ts us
      proof -
        have "identical_settles (\<lambda>n. identical_args n a b (length ts - 1) s) ts us"
        proof (rule identical_args_settle)
          fix i assume i: "i < length ts"
          then have m: "ts ! i \<in> set ts" "us ! i \<in> set us" using \<open>length us = length ts\<close> by simp_all
          have "size (ts ! i) < size t" using t size_list_estimation' [OF m(1) order_refl, of size] by simp
          then show "identical_settles (\<lambda>n. are_identical_terms n (mem s (a + int i)) (mem s (b + int i)) s) [ts ! i] [us ! i]"
            using go args [OF i] less.prems(3,4) m t by simp
        qed fact+
        then obtain h where h: "settles (\<lambda>n. identical_args n a b (length ts - 1) s) h" "h \<longrightarrow> ts = us"
          "ts = us \<and> list_all var_free ts \<longrightarrow> h" by (rule identical_settlesE)
        from h(1) have "settles (\<lambda>n. are_identical_terms (Suc n) c d s) h" by (simp only: eq)
        then have "settles (\<lambda>n. are_identical_terms n c d s) h" by (rule settles_Suc)
        then show ?thesis
        proof (rule identical_settlesI)
          show "h \<longrightarrow> [t] = [u]" using h(2) t by blast
          show "[t] = [u] \<and> list_all var_free [t] \<longrightarrow> h" using h(3) t by (auto simp: list_all_iff)
        qed
      qed
      have diff: "identical_settles (\<lambda>n. are_identical_terms n c d s) [t] [u]"
        if "\<And>n. are_identical_terms (Suc n) c d s = Some False" "\<not> (t = u \<and> var_free t)"
        using by_bool [of False] that by blast
      from r(1) v(1) show ?thesis
      proof (cases rule: term_rep_kinds)
        case (var a)
        from r(2) v(2) show ?thesis
          by (cases rule: term_rep_kinds) (intro diff; use var v vw less.prems(3,4) in auto)+
      next
        case (attv a)
        from r(2) v(2) show ?thesis
          by (cases rule: term_rep_kinds) (intro diff; use attv v vw less.prems(3,4) in auto)+
      next
        case (int i)
        from r(2) v(2) show ?thesis
          by (cases rule: term_rep_kinds) (intro diff; use int v vw less.prems(3,4) in auto)+
      next
        case (box a)
        then show ?thesis using less.prems(3) by simp
      next
        case (flt w)
        then show ?thesis using less.prems(3) by simp
      next
        case (dbl a)
        then show ?thesis using less.prems(3) by simp
      next
        case (atom n)
        from r(2) v(2) show ?thesis
          by (cases rule: term_rep_kinds) (intro diff; use atom v vw less.prems(3,4) in auto)+
      next
        case (struct a p ts)
        note t = this
        from r(2) v(2) show ?thesis
        proof (cases rule: term_rep_kinds)
          case (struct b q us)
          show ?thesis
          proof (cases "p = q")
            case True
            show ?thesis
              by (rule by_args [where a = "a + 1" and b = "b + 1" and ts = ts and us = us])
                (use True t struct v vw in \<open>auto simp: eval_arity_def get_str_psc_def\<close>)
          qed (intro diff; use t struct v vw in simp)
        qed (intro diff; use t v vw less.prems(3,4) in \<open>auto simp: plain_struct_def\<close>)+
      next
        case (list a h tl)
        note t = this
        from r(2) v(2) show ?thesis
        proof (cases rule: term_rep_kinds)
          case (list b x y)
          show ?thesis
            by (rule by_args [where a = a and b = b and ts = "[h, tl]" and us = "[x, y]"])
              (use t list v vw in \<open>auto simp: less_Suc_eq\<close>)
        qed (intro diff; use t v vw in auto)+
      qed
    qed
  qed
  then obtain b where "settles (\<lambda>n. are_identical_terms n c d s) b" "b \<longrightarrow> [t] = [u]"
    "[t] = [u] \<and> list_all var_free [t] \<longrightarrow> b" by (rule identical_settlesE)
  then show ?thesis using list.pred_inject(1) [of var_free] unfolding list.inject list.pred_inject(2) by blast
qed


section \<open>Instances\<close>

text \<open>Symbol \<open>p\<close> is named by \<open>p\<close> letters.\<close>

definition demo_tenv :: tenv where
  "demo_tenv = \<lparr>str_chars = (\<lambda>n. replicate n CHR ''a''), psc_chars = (\<lambda>p. replicate p CHR ''a''), fl = demo_fops,
     psc_mod = (\<lambda>_. None)\<rparr>"

lemma demo_psc_unique: "psc_unique demo_tenv demo_eval_wam"
  by (auto simp: psc_unique_def demo_tenv_def dest: arg_cong [where f = length])

lemma demo_comparator: "comparator {0} (flt_cmp (fl demo_tenv))"
  by unfold_locales (auto simp: demo_tenv_def demo_fops_def flt_cmp_def flt_sign_def f_zero_def)

lemma demo_term_int: "cint_overflow i = False \<Longrightarrow> term_rep demo_tenv demo_eval_wam (CInt i) (PInt i)"
  using tr_int [of demo_eval_wam "CInt i" "CInt i" demo_tenv] by (simp add: deref_nonvar)

lemma demo_term_struct:
  assumes "demo_eval_mem a = CPsc p" "p \<noteq> 3" "p \<noteq> 9"
    "term_rep demo_tenv demo_eval_wam (demo_eval_mem (a + 1)) t"
    "term_rep demo_tenv demo_eval_wam (demo_eval_mem (a + 2)) u"
  shows "term_rep demo_tenv demo_eval_wam (CStruct a) (PComp (Some p) [t, u])"
proof (rule tr_struct)
  show "plain_struct demo_eval_wam (CStruct a)"
    using assms by (simp add: plain_struct_def isboxedinteger_def isboxedfloat_def isboxed_def get_str_psc_def)
  show "\<not> (length [t, u] = 2 \<and> psc_chars demo_tenv p = ''.'')" by (cases p) (auto simp: demo_tenv_def)
  show "term_rep demo_tenv demo_eval_wam (mem demo_eval_wam (a + 1 + int i)) ([t, u] ! i)" if "i < length [t, u]" for i
    using that assms by (auto simp: less_Suc_eq add.assoc)
qed (use assms in \<open>simp_all add: deref_nonvar\<close>)

lemma demo_terms:
  "term_rep demo_tenv demo_eval_wam (CStruct 13) (PComp (Some 2) [PInt 2, PInt 3])"
  "term_rep demo_tenv demo_eval_wam (CStruct 10) (PComp (Some 1) [PInt 1, PComp (Some 2) [PInt 2, PInt 3]])"
proof -
  show a: "term_rep demo_tenv demo_eval_wam (CStruct 13) (PComp (Some 2) [PInt 2, PInt 3])"
    by (rule demo_term_struct) (simp_all add: demo_eval_mem_def demo_term_int cint_overflow_def)
  show "term_rep demo_tenv demo_eval_wam (CStruct 10) (PComp (Some 1) [PInt 1, PComp (Some 2) [PInt 2, PInt 3]])"
    by (rule demo_term_struct) (use a in \<open>simp_all add: demo_eval_mem_def demo_term_int cint_overflow_def\<close>)
qed



theorem compare_on_trees_witness:
  "\<exists>r. compare_is demo_tenv demo_eval_wam (CStruct 10) (CStruct 13) r \<and> sgn r = -1"
proof -
  have "strcmp ''a'' (replicate 2 CHR ''a'') = -1" by (simp add: numeral_2_eq_2)
  then have "tcmp demo_tenv (PComp (Some 1) [PInt 1, PComp (Some 2) [PInt 2, PInt 3]]) (PComp (Some 2) [PInt 2, PInt 3]) = -1"
    by (simp add: functor_cmp_def or_else_def comp_name_def demo_tenv_def)
  with compare_on_trees [OF demo_comparator demo_psc_unique demo_terms(2,1)] show ?thesis by simp
qed

theorem identical_terms_witness:
  "\<exists>b. settles (\<lambda>n. are_identical_terms n (CStruct 10) (CStruct 13) demo_eval_wam) b \<and> \<not> b"
  using identical_terms [OF demo_terms(2,1)] by (auto simp: cint_overflow_def)

definition demo_big :: wam where
  "demo_big = demo_eval_wam\<lparr>mem := demo_eval_mem(60 := CPsc 9, 61 := CInt (2 ^ 16), 62 := CInt (- (2 ^ 39)), 63 := CInt 0)\<rparr>"

theorem compare_overflow_witness:
  "oint_val demo_big (CStruct 60) = - (2 ^ 63) \<and> compare 1 demo_tenv (CInt 1) (CStruct 60) demo_big = Some (-1, demo_big)"
proof -
  have b: "isboxedinteger demo_big (CStruct 60)"
    by (simp add: isboxedinteger_def isboxed_def get_str_psc_def cell_box_has_id_def get_str_arg_def demo_big_def)
  have o: "oint_val demo_big (CStruct 60) = - (2 ^ 63)"
    using b by (simp add: oint_val_def cell_boxedint_val_def get_str_arg_def demo_big_def wrap64_def)
  show ?thesis
    using o compare_overflow [of demo_big "CInt 1" 1 "CStruct 60" 60 "- (2 ^ 63)" 0 demo_tenv] b
    by (simp add: deref_nonvar in64_def)
qed

end
