(* ===== verification/Dynstack.thy ===== *)
theory Dynstack imports Prelude begin

text \<open>
  The growing stacks of frames that the subsumptive tries are traversed with
  (\<open>dynamic_stack.c\<close>, \<open>dynamic_stack.h\<close>). Addresses are byte addresses, 0 the null pointer,
  and sizes are \<open>size_t\<close>, so products and sums of them wrap. The address an allocation
  returns is a parameter; \<open>None\<close> is the resource error raised when it is null.
\<close>

section \<open>The stack\<close>

record dynstack =
  ds_top :: nat
  ds_base :: nat
  ds_ceiling :: nat
  ds_frame :: nat
  ds_init :: nat
  ds_cur :: nat

type_synonym bytes = "nat \<Rightarrow> 8 word"

definition size_t :: "nat \<Rightarrow> nat" where "size_t n = n mod 2 ^ 64"

text \<open>\<open>mem_realloc\<close>: the shorter of the two sizes is copied to the new place.\<close>

definition realloc_copy :: "nat \<Rightarrow> nat \<Rightarrow> nat \<Rightarrow> nat \<Rightarrow> bytes \<Rightarrow> bytes" where
  "realloc_copy old oldsize newsize new m =
     (\<lambda>a. if new \<le> a \<and> a < new + min oldsize newsize then m (a - new + old) else m a)"

definition dsInit :: "nat \<Rightarrow> nat \<Rightarrow> nat \<Rightarrow> dynstack option" where
  "dsInit new stack_size frame_size =
     (let total_bytes = size_t (stack_size * frame_size)
      in if total_bytes > 0 \<and> new = 0 then None
         else (let base = (if total_bytes > 0 then new else 0)
               in Some \<lparr>ds_top = base, ds_base = base, ds_ceiling = base + total_bytes,
                        ds_frame = frame_size, ds_init = stack_size, ds_cur = stack_size\<rparr>))"

definition move_to :: "nat \<Rightarrow> nat \<Rightarrow> dynstack \<times> bytes \<Rightarrow> (dynstack \<times> bytes) option" where
  "move_to new new_size = (\<lambda>(ds, m).
     (let total_bytes = size_t (new_size * ds_frame ds);
          m' = realloc_copy (ds_base ds) (size_t (ds_cur ds * ds_frame ds)) total_bytes new m
      in if new = 0 \<and> total_bytes > 0 then None
         else Some (ds\<lparr>ds_top := new + (ds_top ds - ds_base ds), ds_base := new,
                       ds_ceiling := new + total_bytes, ds_cur := new_size\<rparr>, m')))"

definition expanded_size :: "nat \<Rightarrow> dynstack \<Rightarrow> nat" where
  "expanded_size num_frames ds =
     (let new_size = (if ds_cur ds > 0 then size_t (2 * ds_cur ds) else ds_init ds)
      in if new_size < size_t (ds_cur ds + num_frames) then size_t (new_size + num_frames)
         else new_size)"

definition dsExpand :: "nat \<Rightarrow> nat \<Rightarrow> dynstack \<times> bytes \<Rightarrow> (dynstack \<times> bytes) option" where
  "dsExpand new num_frames s =
     (if num_frames < 1 then Some s else move_to new (expanded_size num_frames (fst s)) s)"

definition dsShrink :: "nat \<Rightarrow> dynstack \<times> bytes \<Rightarrow> (dynstack \<times> bytes) option" where
  "dsShrink new s =
     (if ds_cur (fst s) \<le> ds_init (fst s) then Some s else move_to new (ds_init (fst s)) s)"

definition DynStk_NumFrames :: "dynstack \<Rightarrow> nat" where
  "DynStk_NumFrames ds = (ds_top ds - ds_base ds) div ds_frame ds"

definition DynStk_NextFrame :: "dynstack \<Rightarrow> nat" where
  "DynStk_NextFrame ds = ds_top ds + ds_frame ds"

definition DynStk_PrevFrame :: "dynstack \<Rightarrow> nat" where
  "DynStk_PrevFrame ds = ds_top ds - ds_frame ds"

definition DynStk_ResetTOS :: "dynstack \<Rightarrow> dynstack" where
  "DynStk_ResetTOS ds = ds\<lparr>ds_top := ds_base ds\<rparr>"

definition DynStk_IsEmpty :: "dynstack \<Rightarrow> bool" where
  "DynStk_IsEmpty ds \<longleftrightarrow> ds_top ds = ds_base ds"

definition DynStk_IsFull :: "dynstack \<Rightarrow> bool" where
  "DynStk_IsFull ds \<longleftrightarrow> ds_top ds \<ge> ds_ceiling ds"

definition DynStk_WillOverflow :: "nat \<Rightarrow> dynstack \<Rightarrow> bool" where
  "DynStk_WillOverflow n ds \<longleftrightarrow> ds_top ds + n * ds_frame ds > ds_ceiling ds"

definition DynStk_ExpandIfFull :: "nat \<Rightarrow> dynstack \<times> bytes \<Rightarrow> (dynstack \<times> bytes) option" where
  "DynStk_ExpandIfFull new s = (if DynStk_IsFull (fst s) then dsExpand new 1 s else Some s)"

definition DynStk_ExpandIfOverflow :: "nat \<Rightarrow> nat \<Rightarrow> dynstack \<times> bytes \<Rightarrow> (dynstack \<times> bytes) option" where
  "DynStk_ExpandIfOverflow new n s =
     (if DynStk_WillOverflow n (fst s) then dsExpand new n s else Some s)"

definition DynStk_BlindPush :: "dynstack \<Rightarrow> nat \<times> dynstack" where
  "DynStk_BlindPush ds = (ds_top ds, ds\<lparr>ds_top := DynStk_NextFrame ds\<rparr>)"

definition DynStk_BlindPop :: "dynstack \<Rightarrow> nat \<times> dynstack" where
  "DynStk_BlindPop ds = (DynStk_PrevFrame ds, ds\<lparr>ds_top := DynStk_PrevFrame ds\<rparr>)"

definition DynStk_BlindPeek :: "dynstack \<Rightarrow> nat" where
  "DynStk_BlindPeek ds = DynStk_PrevFrame ds"

definition DynStk_Push :: "nat \<Rightarrow> dynstack \<times> bytes \<Rightarrow> (nat \<times> dynstack \<times> bytes) option" where
  "DynStk_Push new s =
     map_option (\<lambda>(ds, m). let (f, ds') = DynStk_BlindPush ds in (f, ds', m)) (DynStk_ExpandIfFull new s)"

definition DynStk_Pop :: "dynstack \<Rightarrow> nat \<times> dynstack" where
  "DynStk_Pop ds = (if \<not> DynStk_IsEmpty ds then DynStk_BlindPop ds else (0, ds))"

definition DynStk_Peek :: "dynstack \<Rightarrow> nat" where
  "DynStk_Peek ds = (if \<not> DynStk_IsEmpty ds then DynStk_BlindPeek ds else 0)"

section \<open>The frames on the stack\<close>

definition frame_at :: "bytes \<Rightarrow> nat \<Rightarrow> nat \<Rightarrow> 8 word list" where
  "frame_at m len a = map (\<lambda>i. m (a + i)) [0..<len]"

definition ds_items :: "dynstack \<times> bytes \<Rightarrow> 8 word list list" where
  "ds_items s =
     (case s of (ds, m) \<Rightarrow>
       map (\<lambda>k. frame_at m (ds_frame ds) (ds_base ds + k * ds_frame ds)) [0..<DynStk_NumFrames ds])"

definition ds_ok :: "dynstack \<Rightarrow> bool" where
  "ds_ok ds \<longleftrightarrow> 0 < ds_frame ds \<and> ds_ceiling ds = ds_base ds + ds_cur ds * ds_frame ds \<and>
     ds_cur ds * ds_frame ds < 2 ^ 64 \<and> (0 < ds_cur ds \<longrightarrow> 0 < ds_base ds) \<and>
     (\<exists>k \<le> ds_cur ds. ds_top ds = ds_base ds + k * ds_frame ds)"

text \<open>The stack can double and grow by a frame without a size wrapping.\<close>

definition ds_room :: "dynstack \<Rightarrow> bool" where
  "ds_room ds \<longleftrightarrow> 2 * ds_cur ds * ds_frame ds + ds_init ds * ds_frame ds + ds_frame ds < 2 ^ 64"

text \<open>The client's use of a push: a whole frame is stored where the macro points it.\<close>

definition store_frame :: "nat \<Rightarrow> 8 word list \<Rightarrow> bytes \<Rightarrow> bytes" where
  "store_frame f v m = (\<lambda>a. if f \<le> a \<and> a < f + length v then v ! (a - f) else m a)"

definition ds_push :: "nat \<Rightarrow> 8 word list \<Rightarrow> dynstack \<times> bytes \<Rightarrow> (dynstack \<times> bytes) option" where
  "ds_push new v s = map_option (\<lambda>(f, ds, m). (ds, store_frame f v m)) (DynStk_Push new s)"

definition ds_pop :: "dynstack \<times> bytes \<Rightarrow> (8 word list \<times> dynstack \<times> bytes) option" where
  "ds_pop s =
     (case s of (ds, m) \<Rightarrow>
       (case DynStk_Pop ds of (f, ds') \<Rightarrow>
         if f = 0 then None else Some (frame_at m (ds_frame ds) f, ds', m)))"

lemma size_t_small: "n < 2 ^ 64 \<Longrightarrow> size_t n = n"
  by (simp add: size_t_def)

lemma length_frame_at [simp]: "length (frame_at m len a) = len"
  by (simp add: frame_at_def)

lemma num_frames: "0 < ds_frame ds \<Longrightarrow> ds_top ds = ds_base ds + k * ds_frame ds \<Longrightarrow> DynStk_NumFrames ds = k"
  by (simp add: DynStk_NumFrames_def)

lemma ds_items_at:
  assumes "0 < ds_frame ds" "ds_top ds = ds_base ds + k * ds_frame ds"
  shows "ds_items (ds, m) = map (\<lambda>j. frame_at m (ds_frame ds) (ds_base ds + j * ds_frame ds)) [0..<k]"
  using num_frames [OF assms] by (simp add: ds_items_def)

lemma frame_in:
  assumes "j < k" "i < (f::nat)"
  shows "j * f + i < k * f"
proof -
  have "j * f + i < Suc j * f" using assms(2) by simp
  also have "\<dots> \<le> k * f" using assms(1) by (intro mult_le_mono1) simp
  finally show ?thesis .
qed

text \<open>Moving the block, to as many frames as are used or more, keeps the frames.\<close>

lemma move_to_items:
  assumes ok: "ds_ok ds" and new: "0 < new" and size: "n * ds_frame ds < 2 ^ 64"
    and fits: "ds_top ds - ds_base ds \<le> n * ds_frame ds"
  shows "\<exists>ds' m'. move_to new n (ds, m) = Some (ds', m') \<and> ds_ok ds' \<and> ds_items (ds', m') = ds_items (ds, m) \<and>
    ds_base ds' = new \<and> ds_cur ds' = n \<and> ds_frame ds' = ds_frame ds \<and> ds_init ds' = ds_init ds \<and>
    DynStk_NumFrames ds' = DynStk_NumFrames ds"
proof -
  from ok obtain k where k: "k \<le> ds_cur ds" "ds_top ds = ds_base ds + k * ds_frame ds"
    and f: "0 < ds_frame ds" and c: "ds_cur ds * ds_frame ds < 2 ^ 64" by (auto simp: ds_ok_def)
  let ?f = "ds_frame ds"
  let ?m = "realloc_copy (ds_base ds) (ds_cur ds * ?f) (n * ?f) new m"
  let ?d = "ds\<lparr>ds_top := new + k * ?f, ds_base := new, ds_ceiling := new + n * ?f, ds_cur := n\<rparr>"
  have kn: "k \<le> n" using fits k(2) f by simp
  have kc: "k * ?f \<le> ds_cur ds * ?f" "k * ?f \<le> n * ?f" using k(1) kn by (simp_all add: mult_le_mono1)
  have "move_to new n (ds, m) = Some (?d, ?m)"
    using new size c k(2) by (simp add: move_to_def size_t_small Let_def)
  moreover have "ds_ok ?d" using f new size kn by (auto simp: ds_ok_def)
  moreover have "frame_at ?m ?f (new + j * ?f) = frame_at m ?f (ds_base ds + j * ?f)" if "j < k" for j
    unfolding frame_at_def
  proof (rule map_cong [OF refl])
    fix i assume "i \<in> set [0..<?f]"
    then have "j * ?f + i < k * ?f" using frame_in that by simp
    then have "j * ?f + i < min (ds_cur ds * ?f) (n * ?f)" using kc by linarith
    then show "?m (new + j * ?f + i) = m (ds_base ds + j * ?f + i)"
      by (simp add: realloc_copy_def add.assoc [symmetric] add.commute)
  qed
  then have "ds_items (?d, ?m) = ds_items (ds, m)"
    using ds_items_at [of ?d k ?m] ds_items_at [OF f k(2), of m] f by (simp cong: map_cong)
  moreover have "DynStk_NumFrames ?d = DynStk_NumFrames ds"
    using num_frames [of ?d k] num_frames [OF f k(2)] f by simp
  ultimately show ?thesis by (intro exI [of _ ?d] exI [of _ ?m]) simp
qed

lemma expanded_size_bounds:
  assumes "ds_ok ds" "ds_room ds" "num * ds_frame ds \<le> ds_frame ds" "1 \<le> num"
  shows "ds_cur ds + num \<le> expanded_size num ds \<and> expanded_size num ds * ds_frame ds < 2 ^ 64"
proof -
  let ?f = "ds_frame ds"
  have f: "1 \<le> ?f" and num: "num = 1" using assms by (auto simp: ds_ok_def)
  have le: "x * ?f < 2 ^ 64 \<Longrightarrow> x < 2 ^ 64" for x :: nat
    using f by (metis le_less_trans mult.right_neutral mult_le_mono2)
  have R: "(2 * ds_cur ds + ds_init ds + 1) * ?f < 2 ^ 64"
    using assms(2) by (simp add: ds_room_def algebra_simps)
  have r: "2 * ds_cur ds + ds_init ds + 1 < 2 ^ 64" by (rule le [OF R])
  have "expanded_size num ds \<le> 2 * ds_cur ds + ds_init ds + 1"
    using r num by (auto simp: expanded_size_def size_t_small Let_def)
  then have "expanded_size num ds * ?f \<le> (2 * ds_cur ds + ds_init ds + 1) * ?f" by (rule mult_le_mono1)
  moreover have "ds_cur ds + num \<le> expanded_size num ds"
    using r num by (auto simp: expanded_size_def size_t_small Let_def)
  ultimately show ?thesis using R by simp
qed

text \<open>Making room for one frame.\<close>

lemma expand_if_full:
  assumes ok: "ds_ok ds" and room: "ds_room ds" and new: "0 < new"
  shows "\<exists>ds' m'. DynStk_ExpandIfFull new (ds, m) = Some (ds', m') \<and> ds_ok ds' \<and>
    ds_items (ds', m') = ds_items (ds, m) \<and> DynStk_NumFrames ds' < ds_cur ds' \<and> ds_frame ds' = ds_frame ds"
proof -
  from ok obtain k where k: "k \<le> ds_cur ds" "ds_top ds = ds_base ds + k * ds_frame ds"
    and f: "0 < ds_frame ds" and c: "ds_ceiling ds = ds_base ds + ds_cur ds * ds_frame ds" by (auto simp: ds_ok_def)
  note nk = num_frames [OF f k(2)]
  show ?thesis
  proof (cases "DynStk_IsFull ds")
    case False
    then have "k < ds_cur ds" using k c by (auto simp: DynStk_IsFull_def)
    with False ok nk show ?thesis by (simp add: DynStk_ExpandIfFull_def)
  next
    case True
    have b: "ds_cur ds + 1 \<le> expanded_size (Suc 0) ds"
      "expanded_size (Suc 0) ds * ds_frame ds < 2 ^ 64"
      using expanded_size_bounds [OF ok room, of 1] by simp_all
    have "k * ds_frame ds \<le> expanded_size (Suc 0) ds * ds_frame ds"
      using b k(1) by (intro mult_le_mono1) simp
    then have "ds_top ds - ds_base ds \<le> expanded_size (Suc 0) ds * ds_frame ds" using k(2) by simp
    from move_to_items [OF ok new b(2) this, of m] obtain ds' m' where
      "move_to new (expanded_size (Suc 0) ds) (ds, m) = Some (ds', m')" "ds_ok ds'"
      "ds_items (ds', m') = ds_items (ds, m)" "ds_cur ds' = expanded_size (Suc 0) ds"
      "ds_frame ds' = ds_frame ds" "DynStk_NumFrames ds' = k" using nk by auto
    with True b k(1) show ?thesis by (auto simp: DynStk_ExpandIfFull_def dsExpand_def)
  qed
qed

text \<open>Storing a frame at the top and moving the top up.\<close>

lemma store_items:
  assumes ok: "ds_ok ds" and lt: "DynStk_NumFrames ds < ds_cur ds" and v: "length v = ds_frame ds"
  shows "ds_ok (snd (DynStk_BlindPush ds)) \<and>
    ds_items (snd (DynStk_BlindPush ds), store_frame (ds_top ds) v m) = ds_items (ds, m) @ [v] \<and>
    ds_base ds \<le> ds_top ds \<and> ds_top ds + ds_frame ds \<le> ds_ceiling ds"
proof -
  from ok obtain k where k: "k \<le> ds_cur ds" "ds_top ds = ds_base ds + k * ds_frame ds"
    and f: "0 < ds_frame ds" and c: "ds_ceiling ds = ds_base ds + ds_cur ds * ds_frame ds" by (auto simp: ds_ok_def)
  let ?f = "ds_frame ds" and ?d = "snd (DynStk_BlindPush ds)"
  have kc: "Suc k \<le> ds_cur ds" using lt num_frames [OF f k(2)] by simp
  have top: "ds_top ?d = ds_base ds + Suc k * ?f" and same: "ds_frame ?d = ?f" "ds_base ?d = ds_base ds"
    "ds_cur ?d = ds_cur ds" "ds_ceiling ?d = ds_ceiling ds"
    using k(2) by (simp_all add: DynStk_BlindPush_def DynStk_NextFrame_def)
  have "ds_ok ?d" using ok kc top same unfolding ds_ok_def by metis
  moreover have "ds_items (?d, store_frame (ds_top ds) v m) = ds_items (ds, m) @ [v]"
  proof -
    have "frame_at (store_frame (ds_top ds) v m) ?f (ds_base ds + j * ?f) = frame_at m ?f (ds_base ds + j * ?f)"
      if "j < k" for j
      unfolding frame_at_def
    proof (rule map_cong [OF refl])
      fix i assume "i \<in> set [0..<?f]"
      then have "j * ?f + i < k * ?f" using frame_in that by simp
      then show "store_frame (ds_top ds) v m (ds_base ds + j * ?f + i) = m (ds_base ds + j * ?f + i)"
        using k(2) by (simp add: store_frame_def)
    qed
    moreover have "frame_at (store_frame (ds_top ds) v m) ?f (ds_base ds + k * ?f) = v"
      using k(2) v by (auto simp: frame_at_def store_frame_def intro!: nth_equalityI)
    ultimately show ?thesis
      using ds_items_at [of ?d "Suc k"] ds_items_at [OF f k(2)] f top same by (simp cong: map_cong)
  qed
  moreover have "k * ?f + ?f \<le> ds_cur ds * ?f" using kc mult_le_mono1 [OF kc, of ?f] by simp
  ultimately show ?thesis using k(2) c by simp
qed

section \<open>A stack\<close>

text \<open>Pushing a list of values and popping a number of them.\<close>

fun pushes :: "('v \<Rightarrow> 's \<Rightarrow> 's \<Rightarrow> bool) \<Rightarrow> 'v list \<Rightarrow> 's \<Rightarrow> 's \<Rightarrow> bool" where
  "pushes push [] s s' = (s' = s)"
| "pushes push (v # vs) s s' = (\<exists>s1. push v s s1 \<and> pushes push vs s1 s')"

fun pops :: "('s \<Rightarrow> ('v \<times> 's) option) \<Rightarrow> nat \<Rightarrow> 's \<Rightarrow> 'v list \<times> 's" where
  "pops pop 0 s = ([], s)"
| "pops pop (Suc n) s = (case pop s of None \<Rightarrow> ([], s)
     | Some (v, s') \<Rightarrow> (case pops pop n s' of (vs, t) \<Rightarrow> (v # vs, t)))"

text \<open>The contract of a stack, and what its clients make of it.\<close>

locale lifo =
  fixes ok :: "'s \<Rightarrow> bool" and items :: "'s \<Rightarrow> 'v list"
    and push :: "'v \<Rightarrow> 's \<Rightarrow> 's \<Rightarrow> bool" and pop :: "'s \<Rightarrow> ('v \<times> 's) option"
  assumes push_items: "ok s \<Longrightarrow> push v s s' \<Longrightarrow> ok s' \<and> items s' = items s @ [v]"
    and pop_items: "ok s \<Longrightarrow> items s = vs @ [v] \<Longrightarrow> \<exists>s'. pop s = Some (v, s') \<and> ok s' \<and> items s' = vs"
    and pop_empty: "ok s \<Longrightarrow> items s = [] \<Longrightarrow> pop s = None"
begin

lemma pushes_items: "pushes push vs s s' \<Longrightarrow> ok s \<Longrightarrow> ok s' \<and> items s' = items s @ vs"
proof (induction vs arbitrary: s)
  case (Cons v vs)
  then obtain s1 where "push v s s1" "pushes push vs s1 s'" by auto
  with Cons.IH [of s1] push_items [OF Cons.prems(2), of v s1] show ?case by simp
qed simp

lemma pops_items:
  "ok s \<Longrightarrow> items s = us @ vs \<Longrightarrow> fst (pops pop (length vs) s) = rev vs \<and> items (snd (pops pop (length vs) s)) = us"
proof (induction vs arbitrary: s rule: rev_induct)
  case (snoc v vs)
  then obtain s' where "pop s = Some (v, s')" "ok s'" "items s' = us @ vs"
    using pop_items [of s "us @ vs" v] by auto
  with snoc.IH [of s'] show ?case by (auto split: prod.splits)
qed simp

lemma push_pop_all:
  "pushes push vs s s' \<Longrightarrow> ok s \<Longrightarrow>
    fst (pops pop (length vs) s') = rev vs \<and> items (snd (pops pop (length vs) s')) = items s"
  using pushes_items pops_items by blast

end

definition ds_pushed :: "8 word list \<Rightarrow> dynstack \<times> bytes \<Rightarrow> dynstack \<times> bytes \<Rightarrow> bool" where
  "ds_pushed v s s' \<longleftrightarrow> ds_room (fst s) \<and> length v = ds_frame (fst s) \<and>
     (\<exists>new > 0. ds_push new v s = Some s')"

lemma ds_push_items:
  assumes "ds_ok (fst s)" "ds_room (fst s)" "length v = ds_frame (fst s)" "0 < new"
  shows "\<exists>s'. ds_push new v s = Some s' \<and> ds_ok (fst s') \<and> ds_items s' = ds_items s @ [v] \<and>
    (\<exists>f. ds_base (fst s') \<le> f \<and> f + ds_frame (fst s') = ds_top (fst s') \<and> ds_top (fst s') \<le> ds_ceiling (fst s'))"
proof -
  obtain ds m where s: "s = (ds, m)" by fastforce
  from expand_if_full [of ds new m] assms s obtain ds1 m1 where
    1: "DynStk_ExpandIfFull new (ds, m) = Some (ds1, m1)" "ds_ok ds1" "ds_items (ds1, m1) = ds_items (ds, m)"
    "DynStk_NumFrames ds1 < ds_cur ds1" "ds_frame ds1 = ds_frame ds" by auto
  let ?s = "(snd (DynStk_BlindPush ds1), store_frame (ds_top ds1) v m1)"
  have "ds_push new v s = Some ?s"
    using 1(1) s by (simp add: ds_push_def DynStk_Push_def DynStk_BlindPush_def Let_def)
  moreover have "length v = ds_frame ds1" using assms(3) s 1(5) by simp
  ultimately show ?thesis using store_items [OF 1(2,4), of v m1] 1(3) s
    by (intro exI [of _ ?s]) (auto simp: DynStk_BlindPush_def DynStk_NextFrame_def)
qed

lemma ds_pop_items:
  assumes "ds_ok (fst s)" "ds_items s = vs @ [v]"
  shows "\<exists>s'. ds_pop s = Some (v, s') \<and> ds_ok (fst s') \<and> ds_items s' = vs"
proof -
  obtain ds m where s: "s = (ds, m)" by fastforce
  from assms(1) s obtain k where k: "k \<le> ds_cur ds" "ds_top ds = ds_base ds + k * ds_frame ds"
    and f: "0 < ds_frame ds" and b: "0 < ds_cur ds \<longrightarrow> 0 < ds_base ds" by (auto simp: ds_ok_def)
  note it = ds_items_at [OF f k(2), of m]
  from assms(2) s it obtain j where j: "k = Suc j" by (cases k) auto
  let ?d = "ds\<lparr>ds_top := ds_base ds + j * ds_frame ds\<rparr>"
  have top: "DynStk_PrevFrame ds = ds_base ds + j * ds_frame ds" using k(2) j by (simp add: DynStk_PrevFrame_def)
  have ne: "\<not> DynStk_IsEmpty ds" using k(2) j f by (simp add: DynStk_IsEmpty_def)
  have "0 < ds_base ds" using b k(1) j by simp
  then have "ds_pop s = Some (frame_at m (ds_frame ds) (ds_base ds + j * ds_frame ds), ?d, m)"
    using s ne top by (simp add: ds_pop_def DynStk_Pop_def DynStk_BlindPop_def)
  moreover have "ds_ok ?d" using assms(1) s k(1) j by (auto simp: ds_ok_def)
  moreover have "ds_items (?d, m) = vs" "frame_at m (ds_frame ds) (ds_base ds + j * ds_frame ds) = v"
    using assms(2) s it j ds_items_at [of ?d j m] f by auto
  ultimately show ?thesis by auto
qed

lemma ds_pop_empty:
  assumes "ds_ok (fst s)" "ds_items s = []"
  shows "ds_pop s = None"
proof -
  obtain ds m where s: "s = (ds, m)" by fastforce
  from assms(1) s obtain k where k: "ds_top ds = ds_base ds + k * ds_frame ds" and f: "0 < ds_frame ds"
    by (auto simp: ds_ok_def)
  have "k = 0" using assms(2) s ds_items_at [OF f k, of m] by simp
  then show ?thesis using s k by (simp add: ds_pop_def DynStk_Pop_def DynStk_IsEmpty_def)
qed

interpretation ds: lifo "\<lambda>s. ds_ok (fst s)" ds_items ds_pushed ds_pop
proof unfold_locales
  fix s s' :: "dynstack \<times> bytes" and v
  assume "ds_ok (fst s)" "ds_pushed v s s'"
  then obtain new where "0 < new" "ds_push new v s = Some s'" "ds_room (fst s)"
    "length v = ds_frame (fst s)" "ds_ok (fst s)" unfolding ds_pushed_def by blast
  with ds_push_items [of s v new] show "ds_ok (fst s') \<and> ds_items s' = ds_items s @ [v]" by simp
qed (use ds_pop_items ds_pop_empty in blast)+

section \<open>Properties\<close>

text \<open>A push always succeeds while sizes do not wrap and memory is granted, whether or
  not it has to enlarge and move the stack: the frame it hands out lies inside the
  allocated block, and storing a value there puts it on top of the frames that were there.\<close>

theorem push_frame:
  assumes "ds_ok (fst s)" "ds_room (fst s)" "length v = ds_frame (fst s)" "0 < new"
  shows "\<exists>s'. ds_push new v s = Some s' \<and> ds_ok (fst s') \<and> ds_items s' = ds_items s @ [v] \<and>
    (\<exists>f. ds_base (fst s') \<le> f \<and> f + ds_frame (fst s') = ds_top (fst s') \<and> ds_top (fst s') \<le> ds_ceiling (fst s'))"
  by (rule ds_push_items [OF assms])

definition demo_ds :: dynstack where
  "demo_ds = \<lparr>ds_top = 116, ds_base = 100, ds_ceiling = 116, ds_frame = 8, ds_init = 2, ds_cur = 2\<rparr>"

lemma demo_ds_ok: "ds_ok demo_ds"
  by (auto simp: ds_ok_def demo_ds_def intro!: exI [of _ 2])

theorem push_frame_witness:
  "\<exists>s'. ds_push 500 (replicate 8 7) (demo_ds, \<lambda>_. 0) = Some s' \<and> ds_ok (fst s') \<and>
    ds_items s' = ds_items (demo_ds, \<lambda>_. 0) @ [replicate 8 7] \<and>
    (\<exists>f. ds_base (fst s') \<le> f \<and> f + ds_frame (fst s') = ds_top (fst s') \<and> ds_top (fst s') \<le> ds_ceiling (fst s'))"
  by (rule push_frame) (simp_all add: demo_ds_ok, simp_all add: ds_room_def demo_ds_def)

text \<open>C32: any sequence of pushes, with all the moves of the stack it takes, followed by as
  many pops gives the frames back in reverse order and leaves those below as they were.\<close>

theorem stack_lifo:
  assumes "pushes ds_pushed vs s s'" "ds_ok (fst s)"
  shows "fst (pops ds_pop (length vs) s') = rev vs \<and> ds_items (snd (pops ds_pop (length vs) s')) = ds_items s"
  by (rule ds.push_pop_all [OF assms])

theorem stack_lifo_witness:
  "\<exists>s'. pushes ds_pushed [replicate 8 7] (demo_ds, \<lambda>_. 0) s' \<and> fst (pops ds_pop 1 s') = [replicate 8 7] \<and>
    ds_items (snd (pops ds_pop 1 s')) = ds_items (demo_ds, \<lambda>_. 0)"
proof -
  have "ds_room demo_ds" "length (replicate 8 (7 :: 8 word)) = ds_frame demo_ds"
    by (simp_all add: ds_room_def demo_ds_def)
  moreover from this obtain s' where s': "ds_push 500 (replicate 8 7) (demo_ds, \<lambda>_. 0) = Some s'"
    using ds_push_items [of "(demo_ds, \<lambda>_. 0)" "replicate 8 7" 500] demo_ds_ok by auto
  ultimately have "ds_pushed (replicate 8 7) (demo_ds, \<lambda>_. 0) s'"
    unfolding ds_pushed_def using s' by (metis fst_conv zero_less_numeral)
  then have "pushes ds_pushed [replicate 8 7] (demo_ds, \<lambda>_. 0) s'" by (simp only: pushes.simps simp_thms) blast
  from this stack_lifo [OF this] demo_ds_ok show ?thesis by (intro exI [of _ s']) simp
qed

end
