(* ===== verification/Scc.thy ===== *)
theory Scc imports Prelude begin

text \<open>
  Finding an independent SCC of the subgoals that are still incomplete, for batched
  scheduling (\<open>wfs_xsb_i.h\<close>, \<open>scc_xsb.c\<close>): the dependency graph and its transpose are
  built over the frames of the completion stack, the transpose is searched depth first from
  the leader down, and the graph from the last root found.

  Frames are numbered by their addresses, which go down from the leader to \<open>openreg\<close>;
  subgoals are numbered on their own. Both searches recurse; the model counts the depth in
  a fuel argument, and \<open>None\<close> is a search that has not returned within it.
\<close>

section \<open>The completion stack\<close>

datatype visited = Unvisited | Visited | Delayed

record susp =
  su_ptcp :: "nat option"
  su_neg :: bool

record asubgoal =
  sg_completed :: bool
  sg_frame :: int
  sg_gen :: "nat option"
  sg_cons :: "nat option list"
  sg_susp :: "susp list"

record cstack =
  subg :: "nat \<Rightarrow> asubgoal"
  compl_subgoal :: "int \<Rightarrow> nat"
  leader :: int
  openreg :: int
  dg :: "int \<Rightarrow> int list"
  dgt :: "int \<Rightarrow> int list"
  vis :: "int \<Rightarrow> visited"

definition frames :: "cstack \<Rightarrow> int list" where
  "frames s = rev [openreg s .. leader s]"

section \<open>The dependency graph\<close>

text \<open>\<open>add_ascc_edges\<close>: new edges go to the heads of the two edge lists.\<close>

definition add_ascc_edges :: "nat \<Rightarrow> int \<Rightarrow> cstack \<Rightarrow> cstack" where
  "add_ascc_edges p csf s =
     (let csf2 = sg_frame (subg s p)
      in if leader s \<ge> csf2 \<and> \<not> sg_completed (subg s p) then
           s\<lparr>dgt := (dgt s)(csf := csf2 # dgt s csf), dg := (dg s)(csf2 := csf # dg s csf2)\<rparr>
         else s)"

definition add_edge_of :: "int \<Rightarrow> nat option \<Rightarrow> cstack \<Rightarrow> cstack" where
  "add_edge_of csf p s = (case p of Some q \<Rightarrow> add_ascc_edges q csf s | None \<Rightarrow> s)"

definition frame_edges :: "int \<Rightarrow> cstack \<Rightarrow> cstack" where
  "frame_edges csf s =
     (let g = subg s (compl_subgoal s csf)
      in if \<not> sg_completed g then
           fold (add_edge_of csf) (map su_ptcp (sg_susp g))
             (fold (add_edge_of csf) (sg_cons g) (add_edge_of csf (sg_gen g) s))
         else s)"

definition construct_dep_graph :: "cstack \<Rightarrow> cstack" where
  "construct_dep_graph s = fold frame_edges (frames s) s"

section \<open>Depth-first search\<close>

text \<open>\<open>DFS_DGT_visit\<close> and the loop over its edge list.\<close>

fun DFS_DGT_visit :: "nat \<Rightarrow> (int \<Rightarrow> int list) \<Rightarrow> int \<Rightarrow> (int \<Rightarrow> visited) \<Rightarrow> (int \<Rightarrow> visited) option"
  and DFS_DGT_edges :: "nat \<Rightarrow> (int \<Rightarrow> int list) \<Rightarrow> int list \<Rightarrow> (int \<Rightarrow> visited) \<Rightarrow> (int \<Rightarrow> visited) option" where
  "DFS_DGT_visit 0 E u v = None"
| "DFS_DGT_visit (Suc n) E u v = DFS_DGT_edges n E (E u) (v(u := Visited))"
| "DFS_DGT_edges n E [] v = Some v"
| "DFS_DGT_edges n E (w # ws) v =
     (if v w = Unvisited then
        (case DFS_DGT_visit n E w v of None \<Rightarrow> None | Some v' \<Rightarrow> DFS_DGT_edges n E ws v')
      else DFS_DGT_edges n E ws v)"

text \<open>The loop of \<open>DFS_DGT\<close> over the frames, with the last root it started from.\<close>

fun DFS_DGT_roots :: "nat \<Rightarrow> (int \<Rightarrow> int list) \<Rightarrow> int list \<Rightarrow> int option \<Rightarrow> (int \<Rightarrow> visited) \<Rightarrow>
    (int option \<times> (int \<Rightarrow> visited)) option" where
  "DFS_DGT_roots n E [] max_u v = Some (max_u, v)"
| "DFS_DGT_roots n E (u # us) max_u v =
     (if v u = Unvisited then
        (case DFS_DGT_visit n E u v of None \<Rightarrow> None | Some v' \<Rightarrow> DFS_DGT_roots n E us (Some u) v')
      else DFS_DGT_roots n E us max_u v)"

definition DFS_DGT :: "nat \<Rightarrow> cstack \<Rightarrow> (int option \<times> cstack) option" where
  "DFS_DGT n s =
     map_option (\<lambda>(m, v). (m, s\<lparr>vis := v\<rparr>)) (DFS_DGT_roots n (dgt s) (frames s) None (vis s))"

definition unvisit :: "cstack \<Rightarrow> cstack" where
  "unvisit s = s\<lparr>vis := fold (\<lambda>csf v. v(csf := Unvisited)) (frames s) (vis s)\<rparr>"

fun find_independent_scc :: "nat \<Rightarrow> (int \<Rightarrow> int list) \<Rightarrow> int \<Rightarrow> (int \<Rightarrow> visited) \<Rightarrow> (int \<Rightarrow> visited) option"
  and find_independent_edges :: "nat \<Rightarrow> (int \<Rightarrow> int list) \<Rightarrow> int list \<Rightarrow> (int \<Rightarrow> visited) \<Rightarrow> (int \<Rightarrow> visited) option" where
  "find_independent_scc 0 E u v = None"
| "find_independent_scc (Suc n) E u v = find_independent_edges n E (E u) (v(u := Visited))"
| "find_independent_edges n E [] v = Some v"
| "find_independent_edges n E (w # ws) v =
     (if v w = Unvisited then
        (case find_independent_scc n E w v of None \<Rightarrow> None | Some v' \<Rightarrow> find_independent_edges n E ws v')
      else find_independent_edges n E ws v)"

text \<open>
  The part of \<open>batched_compute_wfs\<close> that finds the SCC to complete; a null \<open>max_finish_csf\<close>,
  no frame at all, would be dereferenced: \<open>None\<close>.
\<close>

definition independent_scc :: "nat \<Rightarrow> cstack \<Rightarrow> (int \<times> cstack) option" where
  "independent_scc n s =
     (case DFS_DGT n (construct_dep_graph s) of
        Some (Some m, s1) \<Rightarrow>
          (let s2 = unvisit s1
           in map_option (\<lambda>v. (m, s2\<lparr>vis := v\<rparr>)) (find_independent_scc n (dg s2) m (vis s2)))
      | _ \<Rightarrow> None)"

section \<open>The check for a loop through negation\<close>

text \<open>One suspension of the subgoal at \<open>csf\<close>: \<open>mark_delayed\<close> when it waits in the SCC.\<close>

definition check_susp :: "int \<Rightarrow> susp \<Rightarrow> cstack \<Rightarrow> susp \<times> bool \<times> cstack" where
  "check_susp csf su s =
     (case su_ptcp su of
        None \<Rightarrow> (su, False, s)
      | Some q \<Rightarrow>
          (let susp_csf = sg_frame (subg s q)
           in if \<not> sg_completed (subg s q) \<and> susp_csf \<le> leader s \<and> vis s susp_csf \<noteq> Unvisited then
                (su\<lparr>su_neg := True\<rparr>, True, s\<lparr>vis := (vis s)(csf := Delayed, susp_csf := Delayed)\<rparr>)
              else (su, False, s)))"

fun check_susps :: "int \<Rightarrow> susp list \<Rightarrow> cstack \<Rightarrow> susp list \<times> bool \<times> cstack" where
  "check_susps csf [] s = ([], False, s)"
| "check_susps csf (su # sus) s =
     (case check_susp csf su s of (su', b, s1) \<Rightarrow>
       (case check_susps csf sus s1 of (sus', b', s2) \<Rightarrow> (su' # sus', b \<or> b', s2)))"

definition check_frame :: "int \<Rightarrow> bool \<times> cstack \<Rightarrow> bool \<times> cstack" where
  "check_frame csf = (\<lambda>(non_lrd, s).
     (let c = compl_subgoal s csf; g = subg s c
      in if \<not> sg_completed g \<and> vis s csf \<noteq> Unvisited then
           (case check_susps csf (sg_susp g) s of (sus, b, s1) \<Rightarrow>
              (non_lrd \<or> b, s1\<lparr>subg := (subg s1)(c := (subg s1 c)\<lparr>sg_susp := sus\<rparr>)\<rparr>))
         else (non_lrd, s)))"

definition lrd_check :: "cstack \<Rightarrow> bool \<times> cstack" where
  "lrd_check s = fold check_frame (frames s) (False, s)"

text \<open>
  The partition of a delayed subgoal's suspensions: two lists built at their tails while the
  list is walked.
\<close>

fun partition_susps :: "susp list \<Rightarrow> susp list \<Rightarrow> susp list \<Rightarrow> susp list \<times> susp list" where
  "partition_susps [] d nd = (d, nd)"
| "partition_susps (su # sus) d nd =
     (if \<not> su_neg su then partition_susps sus d (nd @ [su]) else partition_susps sus (d @ [su]) nd)"

section \<open>What a depth-first search marks\<close>

definition white :: "(int \<Rightarrow> int list) \<Rightarrow> (int \<Rightarrow> visited) \<Rightarrow> (int \<times> int) set" where
  "white E v = {(a, b). b \<in> set (E a) \<and> v b = Unvisited}"

text \<open>
  From \<open>v\<close> to \<open>v'\<close> only unvisited nodes were marked, each reached from one of \<open>S\<close> through
  unvisited nodes; \<open>S\<close> is marked and so are the successors of all newly marked nodes.
\<close>

definition marks :: "(int \<Rightarrow> int list) \<Rightarrow> int set \<Rightarrow> (int \<Rightarrow> visited) \<Rightarrow> (int \<Rightarrow> visited) \<Rightarrow> bool" where
  "marks E S v v' \<longleftrightarrow>
     (\<forall>x. v' x = v x \<or> (v x = Unvisited \<and> v' x = Visited \<and>
            (\<exists>w \<in> S. v w = Unvisited \<and> (w, x) \<in> (white E v)\<^sup>*))) \<and>
     (\<forall>w \<in> S. v' w \<noteq> Unvisited) \<and>
     (\<forall>x. v x = Unvisited \<and> v' x = Visited \<longrightarrow> (\<forall>y \<in> set (E x). v' y \<noteq> Unvisited))"

lemma marksD:
  assumes "marks E S v v'"
  shows "v' x = v x \<or> v x = Unvisited \<and> v' x = Visited"
    and "v' x \<noteq> v x \<Longrightarrow> \<exists>w \<in> S. v w = Unvisited \<and> (w, x) \<in> (white E v)\<^sup>*"
    and "w \<in> S \<Longrightarrow> v' w \<noteq> Unvisited"
    and "v x = Unvisited \<Longrightarrow> v' x = Visited \<Longrightarrow> y \<in> set (E x) \<Longrightarrow> v' y \<noteq> Unvisited"
  using assms unfolding marks_def by metis+

lemma marks_unvisited: "marks E S v v' \<Longrightarrow> v' x = Unvisited \<Longrightarrow> v x = Unvisited"
  using marksD(1) [of E S v v' x] by auto

lemma marks_nil: "marks E {} v v"
  by (auto simp: marks_def)

lemma marks_skip: "v w \<noteq> Unvisited \<Longrightarrow> marks E S v v' \<Longrightarrow> marks E (insert w S) v v'"
  unfolding marks_def by (metis insert_iff)

lemma white_mono: "marks E S v v' \<Longrightarrow> (white E v')\<^sup>* \<subseteq> (white E v)\<^sup>*"
  by (intro rtrancl_mono) (auto simp: white_def dest: marks_unvisited)

lemma marks_join:
  assumes 1: "marks E {w} v v1" and 2: "marks E S v1 v2" and w: "v w = Unvisited"
  shows "marks E (insert w S) v v2"
  unfolding marks_def
proof (intro conjI allI ballI impI)
  fix x
  show "v2 x = v x \<or> v x = Unvisited \<and> v2 x = Visited \<and>
      (\<exists>w' \<in> insert w S. v w' = Unvisited \<and> (w', x) \<in> (white E v)\<^sup>*)"
  proof (cases "v1 x = v x")
    case True
    show ?thesis
    proof (cases "v2 x = v1 x")
      case False
      with marksD(2) [OF 2] obtain w' where "w' \<in> S" "v1 w' = Unvisited" "(w', x) \<in> (white E v1)\<^sup>*"
        by blast
      moreover from this have "v w' = Unvisited" using marksD(1) [OF 1, of w'] by auto
      ultimately show ?thesis using False True marksD(1) [OF 2, of x] white_mono [OF 1] by auto
    qed (simp add: True)
  next
    case False
    then show ?thesis using marksD(1,2) [OF 1, of x] marksD(1) [OF 2, of x] w by auto
  qed
next
  fix w' assume "w' \<in> insert w S"
  then show "v2 w' \<noteq> Unvisited" using marksD(3) [OF 1] marksD(3) [OF 2] marksD(1) [OF 2] by force
next
  fix x y assume x: "v x = Unvisited \<and> v2 x = Visited" and y: "y \<in> set (E x)"
  show "v2 y \<noteq> Unvisited"
  proof (cases "v1 x = Visited")
    case True
    then have "v1 y \<noteq> Unvisited" using marksD(4) [OF 1 _ True y] x by simp
    then show ?thesis using marksD(1) [OF 2, of y] by auto
  next
    case False
    then have "v1 x = Unvisited" using marksD(1) [OF 1, of x] x by auto
    then show ?thesis using marksD(4) [OF 2 _ _ y] x by simp
  qed
qed

lemma marks_node:
  assumes m: "marks E (set (E u)) (v(u := Visited)) v'" and u: "v u = Unvisited"
  shows "marks E {u} v v'"
  unfolding marks_def
proof (intro conjI allI ballI impI)
  let ?v = "v(u := Visited)"
  have vu: "v' u = Visited" using marksD(1) [OF m, of u] by auto
  fix x
  show "v' x = v x \<or> v x = Unvisited \<and> v' x = Visited \<and>
      (\<exists>w \<in> {u}. v w = Unvisited \<and> (w, x) \<in> (white E v)\<^sup>*)"
  proof (cases "x = u")
    case False
    show ?thesis
    proof (cases "v' x = v x")
      case F: False
      then obtain w where w: "w \<in> set (E u)" "?v w = Unvisited" "(w, x) \<in> (white E ?v)\<^sup>*"
        using marksD(2) [OF m, of x] False by auto
      have "white E ?v \<subseteq> white E v" by (auto simp: white_def split: if_splits)
      then have "(w, x) \<in> (white E v)\<^sup>*" using w(3) rtrancl_mono by blast
      moreover have "(u, w) \<in> white E v" using w(1,2) by (auto simp: white_def split: if_splits)
      ultimately show ?thesis using F False marksD(1) [OF m, of x] u
        by (auto intro: converse_rtrancl_into_rtrancl)
    qed simp
  qed (use vu u in simp)
next
  fix w assume "w \<in> {u}" then show "v' w \<noteq> Unvisited" using marksD(1) [OF m, of u] by auto
next
  fix x y assume "v x = Unvisited \<and> v' x = Visited" "y \<in> set (E x)"
  then show "v' y \<noteq> Unvisited"
    using marksD(3) [OF m, of y] marksD(4) [OF m, of x y] by (cases "x = u") auto
qed

lemma DFS_DGT_marks:
  "DFS_DGT_visit n E u v = Some v' \<Longrightarrow> v u = Unvisited \<Longrightarrow> marks E {u} v v'"
  "DFS_DGT_edges n E ws v = Some v' \<Longrightarrow> marks E (set ws) v v'"
proof (induction n E u v and n E ws v arbitrary: v' and v' rule: DFS_DGT_visit_DFS_DGT_edges.induct)
  case (2 n E u v)
  then have "DFS_DGT_edges n E (E u) (v(u := Visited)) = Some v'" by simp
  from 2(1) [OF this] 2(3) show ?case by (rule marks_node)
next
  case (4 n E w ws v)
  then show ?case
    by (auto split: if_splits option.splits intro: marks_join marks_skip)
qed (simp_all add: marks_nil)

lemma find_independent_marks:
  "find_independent_scc n E u v = Some v' \<Longrightarrow> v u = Unvisited \<Longrightarrow> marks E {u} v v'"
  "find_independent_edges n E ws v = Some v' \<Longrightarrow> marks E (set ws) v v'"
proof (induction n E u v and n E ws v arbitrary: v' and v'
    rule: find_independent_scc_find_independent_edges.induct)
  case (2 n E u v)
  then have "find_independent_edges n E (E u) (v(u := Visited)) = Some v'" by simp
  from 2(1) [OF this] 2(3) show ?case by (rule marks_node)
next
  case (4 n E w ws v)
  then show ?case
    by (auto split: if_splits option.splits intro: marks_join marks_skip)
qed (simp_all add: marks_nil)

text \<open>Enough fuel: one level for each node not yet visited.\<close>

definition unvisited_in :: "int set \<Rightarrow> (int \<Rightarrow> visited) \<Rightarrow> int set" where
  "unvisited_in V v = {x \<in> V. v x = Unvisited}"

lemma unvisited_in_le:
  assumes "finite V" "marks E S v v'"
  shows "card (unvisited_in V v') \<le> card (unvisited_in V v)"
proof (rule card_mono)
  show "unvisited_in V v' \<subseteq> unvisited_in V v"
    using marks_unvisited [OF assms(2)] by (auto simp: unvisited_in_def)
qed (use assms(1) in \<open>simp add: unvisited_in_def\<close>)

lemma unvisited_in_less:
  assumes "finite V" "u \<in> V" "v u = Unvisited"
  shows "Suc (card (unvisited_in V (v(u := Visited)))) = card (unvisited_in V v)"
proof -
  have "unvisited_in V v = insert u (unvisited_in V (v(u := Visited)))"
    using assms by (auto simp: unvisited_in_def)
  moreover have "u \<notin> unvisited_in V (v(u := Visited))" by (simp add: unvisited_in_def)
  ultimately show ?thesis using assms(1) by (simp add: unvisited_in_def)
qed

definition edges_in :: "int set \<Rightarrow> (int \<Rightarrow> int list) \<Rightarrow> bool" where
  "edges_in V E \<longleftrightarrow> (\<forall>x \<in> V. set (E x) \<subseteq> V)"

lemma DFS_DGT_total:
  "finite V \<Longrightarrow> edges_in V E \<Longrightarrow> u \<in> V \<Longrightarrow> v u = Unvisited \<Longrightarrow> card (unvisited_in V v) \<le> n \<Longrightarrow>
    \<exists>v'. DFS_DGT_visit n E u v = Some v'"
  "finite V \<Longrightarrow> edges_in V E \<Longrightarrow> set ws \<subseteq> V \<Longrightarrow> card (unvisited_in V v) \<le> n \<Longrightarrow>
    \<exists>v'. DFS_DGT_edges n E ws v = Some v'"
proof (induction n E u v and n E ws v rule: DFS_DGT_visit_DFS_DGT_edges.induct)
  case (1 E u v)
  then show ?case by (auto simp: unvisited_in_def)
next
  case (2 n E u v)
  have "card (unvisited_in V (v(u := Visited))) \<le> n"
    using unvisited_in_less [of V u v] 2(2-6) by simp
  moreover have "set (E u) \<subseteq> V" using 2(3,4) by (simp add: edges_in_def)
  ultimately have "\<exists>v'. DFS_DGT_edges n E (E u) (v(u := Visited)) = Some v'"
    using 2(1) 2(2,3) by blast
  then show ?case by simp
next
  case (4 n E w ws v)
  show ?case
  proof (cases "v w = Unvisited")
    case True
    with 4 obtain v1 where v1: "DFS_DGT_visit n E w v = Some v1" by auto
    have "card (unvisited_in V v1) \<le> n"
      using unvisited_in_le [OF 4(4) DFS_DGT_marks(1) [OF v1 True]] 4 by simp
    with 4 True v1 show ?thesis by simp
  qed (use 4 in simp)
qed simp

lemma find_independent_total:
  "finite V \<Longrightarrow> edges_in V E \<Longrightarrow> u \<in> V \<Longrightarrow> v u = Unvisited \<Longrightarrow> card (unvisited_in V v) \<le> n \<Longrightarrow>
    \<exists>v'. find_independent_scc n E u v = Some v'"
  "finite V \<Longrightarrow> edges_in V E \<Longrightarrow> set ws \<subseteq> V \<Longrightarrow> card (unvisited_in V v) \<le> n \<Longrightarrow>
    \<exists>v'. find_independent_edges n E ws v = Some v'"
proof (induction n E u v and n E ws v rule: find_independent_scc_find_independent_edges.induct)
  case (1 E u v)
  then show ?case by (auto simp: unvisited_in_def)
next
  case (2 n E u v)
  have "card (unvisited_in V (v(u := Visited))) \<le> n"
    using unvisited_in_less [of V u v] 2(2-6) by simp
  moreover have "set (E u) \<subseteq> V" using 2(3,4) by (simp add: edges_in_def)
  ultimately have "\<exists>v'. find_independent_edges n E (E u) (v(u := Visited)) = Some v'"
    using 2(1) 2(2,3) by blast
  then show ?case by simp
next
  case (4 n E w ws v)
  show ?case
  proof (cases "v w = Unvisited")
    case True
    with 4 obtain v1 where v1: "find_independent_scc n E w v = Some v1" by auto
    have "card (unvisited_in V v1) \<le> n"
      using unvisited_in_le [OF 4(4) find_independent_marks(1) [OF v1 True]] 4 by simp
    with 4 True v1 show ?thesis by simp
  qed (use 4 in simp)
qed simp

section \<open>The interface of a marking search\<close>

text \<open>
  What the two searches have in common, and all that the SCC argument uses: from an
  unvisited node a search marks unvisited nodes, those it marks are reached through such
  nodes, it marks all successors of what it marks, and with fuel for every unvisited node
  it returns.
\<close>

locale marking =
  fixes visit :: "nat \<Rightarrow> (int \<Rightarrow> int list) \<Rightarrow> int \<Rightarrow> (int \<Rightarrow> visited) \<Rightarrow> (int \<Rightarrow> visited) option"
  assumes visit_marks: "visit n E u v = Some v' \<Longrightarrow> v u = Unvisited \<Longrightarrow> marks E {u} v v'"
    and visit_total: "finite V \<Longrightarrow> edges_in V E \<Longrightarrow> u \<in> V \<Longrightarrow> v u = Unvisited \<Longrightarrow>
      card (unvisited_in V v) \<le> n \<Longrightarrow> \<exists>v'. visit n E u v = Some v'"
begin

text \<open>A search marks exactly what it reaches through unvisited nodes.\<close>

lemma visit_exact:
  assumes r: "visit n E u v = Some v'" and u: "v u = Unvisited"
  shows "v' = (\<lambda>x. if (u, x) \<in> (white E v)\<^sup>* then Visited else v x)"
proof (rule ext)
  note m = visit_marks [OF r u]
  have reach: "v' x = Visited \<and> v x = Unvisited" if "(u, x) \<in> (white E v)\<^sup>*" for x
    using that
  proof (induction rule: rtrancl_induct)
    case base
    then show ?case using marksD(3) [OF m, of u] marksD(1) [OF m, of u] u by auto
  next
    case (step y z)
    then have "v' z \<noteq> Unvisited" using marksD(4) [OF m, of y z] by (auto simp: white_def)
    with step marksD(1) [OF m, of z] show ?case by (auto simp: white_def)
  qed
  fix x
  show "v' x = (if (u, x) \<in> (white E v)\<^sup>* then Visited else v x)"
  proof (cases "(u, x) \<in> (white E v)\<^sup>*")
    case False
    then have "v' x = v x" using marksD(2) [OF m, of x] by blast
    then show ?thesis by (simp only: False if_False)
  qed (simp add: reach)
qed

text \<open>With nothing visited it marks exactly the reachable nodes.\<close>

lemma visit_reachable:
  assumes "visit n E u (\<lambda>_. Unvisited) = Some v'"
  shows "v' = (\<lambda>x. if (u, x) \<in> {(a, b). b \<in> set (E a)}\<^sup>* then Visited else Unvisited)"
  unfolding visit_exact [OF assms refl] by (simp only: white_def simp_thms)

end

interpretation dgt: marking DFS_DGT_visit
  by unfold_locales (use DFS_DGT_marks(1) DFS_DGT_total(1) in blast)+

interpretation ind: marking find_independent_scc
  by unfold_locales (use find_independent_marks(1) find_independent_total(1) in blast)+

section \<open>The dependency graph is the dependency relation\<close>

text \<open>
  The subgoals a frame's subgoal was called from: its generator's parent, the parents of
  its consumers, and of the completion suspensions waiting on it.
\<close>

definition callers :: "cstack \<Rightarrow> int \<Rightarrow> nat option list" where
  "callers s csf =
     (let g = subg s (compl_subgoal s csf) in sg_gen g # sg_cons g @ map su_ptcp (sg_susp g))"

text \<open>
  A pair: the first frame's subgoal is incomplete, in the scope of the leader, and called
  the incomplete subgoal of the second.
\<close>

definition depends :: "cstack \<Rightarrow> (int \<times> int) set" where
  "depends s =
     {(a, b). b \<in> set (frames s) \<and> \<not> sg_completed (subg s (compl_subgoal s b)) \<and>
        (\<exists>q. Some q \<in> set (callers s b) \<and> sg_frame (subg s q) = a \<and> a \<le> leader s \<and>
          \<not> sg_completed (subg s q))}"

definition same_stack :: "cstack \<Rightarrow> cstack \<Rightarrow> bool" where
  "same_stack s s' \<longleftrightarrow> subg s' = subg s \<and> compl_subgoal s' = compl_subgoal s \<and>
     leader s' = leader s \<and> openreg s' = openreg s \<and> vis s' = vis s"

definition dg_of :: "cstack \<Rightarrow> (int \<times> int) set" where
  "dg_of s = {(a, b). b \<in> set (dg s a)}"

definition dgt_of :: "cstack \<Rightarrow> (int \<times> int) set" where
  "dgt_of s = {(a, b). b \<in> set (dgt s a)}"

text \<open>The edges one list of callers of \<open>csf\<close> gives.\<close>

definition edges_by :: "cstack \<Rightarrow> int \<Rightarrow> nat option set \<Rightarrow> (int \<times> int) set" where
  "edges_by s csf P =
     {(a, b). b = csf \<and> (\<exists>q. Some q \<in> P \<and> sg_frame (subg s q) = a \<and> a \<le> leader s \<and>
        \<not> sg_completed (subg s q))}"

lemma edges_by_simps [simp]:
  "edges_by s csf {} = {}"
  "edges_by s csf (P \<union> Q) = edges_by s csf P \<union> edges_by s csf Q"
  by (auto simp: edges_by_def)

lemma edges_by_insert: "edges_by s csf (insert p P) = edges_by s csf {p} \<union> edges_by s csf P"
  by (auto simp: edges_by_def)

definition grows :: "(int \<times> int) set \<Rightarrow> cstack \<Rightarrow> cstack \<Rightarrow> bool" where
  "grows D s s' \<longleftrightarrow> same_stack s s' \<and> dg_of s' = D \<union> dg_of s \<and> dgt_of s' = D\<inverse> \<union> dgt_of s"

lemma grows_refl: "grows {} s s"
  by (simp add: grows_def same_stack_def)

lemma grows_trans: "grows D s s1 \<Longrightarrow> grows D' s1 s2 \<Longrightarrow> grows (D \<union> D') s s2"
  by (auto simp: grows_def same_stack_def)

lemma edges_by_grows: "grows D s s1 \<Longrightarrow> edges_by s1 = edges_by s"
  by (intro ext) (simp add: edges_by_def grows_def same_stack_def)

lemma add_edge_of_grows: "grows (edges_by s csf {p}) s (add_edge_of csf p s)"
  by (cases p)
    (auto simp: grows_def same_stack_def add_edge_of_def add_ascc_edges_def edges_by_def Let_def
      dg_of_def dgt_of_def split: if_splits)

lemma fold_edges_grow: "grows (edges_by s csf (set ps)) s (fold (add_edge_of csf) ps s)"
proof (induction ps arbitrary: s)
  case Nil
  then show ?case by (simp add: grows_refl)
next
  case (Cons p ps)
  note 1 = add_edge_of_grows [of s csf p]
  from grows_trans [OF 1 Cons [of "add_edge_of csf p s"]] edges_by_grows [OF 1]
  show ?case by (simp add: edges_by_insert [of s csf p "set ps"])
qed

definition frame_deps :: "cstack \<Rightarrow> int \<Rightarrow> (int \<times> int) set" where
  "frame_deps s csf =
     (if sg_completed (subg s (compl_subgoal s csf)) then {} else edges_by s csf (set (callers s csf)))"

lemma frame_deps_grows: "grows D s s1 \<Longrightarrow> frame_deps s1 = frame_deps s"
  by (intro ext) (auto simp: frame_deps_def edges_by_def callers_def grows_def same_stack_def)

lemma frame_edges_grows: "grows (frame_deps s csf) s (frame_edges csf s)"
proof (cases "sg_completed (subg s (compl_subgoal s csf))")
  case True
  then show ?thesis by (simp add: frame_deps_def frame_edges_def Let_def grows_refl)
next
  case False
  let ?g = "subg s (compl_subgoal s csf)"
  have "frame_edges csf s = fold (add_edge_of csf) (callers s csf) s"
    using False by (simp add: frame_edges_def callers_def Let_def)
  then show ?thesis using fold_edges_grow [of s csf "callers s csf"] False
    by (simp add: frame_deps_def)
qed

lemma fold_frames_grow: "grows (\<Union>csf \<in> set us. frame_deps s csf) s (fold frame_edges us s)"
proof (induction us arbitrary: s)
  case Nil
  then show ?case by (simp add: grows_refl)
next
  case (Cons u us)
  note 1 = frame_edges_grows [of s u]
  from grows_trans [OF 1 Cons [of "frame_edges u s"]] frame_deps_grows [OF 1]
  show ?case by simp
qed

lemma depends_frames: "depends s = (\<Union>csf \<in> set (frames s). frame_deps s csf)"
  by (auto simp: depends_def frame_deps_def edges_by_def split: if_splits)

lemma construct_dep_graph_grows: "grows (depends s) s (construct_dep_graph s)"
  unfolding construct_dep_graph_def depends_frames by (rule fold_frames_grow)

section \<open>The last root of the search\<close>

definition closed :: "(int \<Rightarrow> int list) \<Rightarrow> (int \<Rightarrow> visited) \<Rightarrow> bool" where
  "closed E v \<longleftrightarrow> (\<forall>x. v x \<noteq> Unvisited \<longrightarrow> (\<forall>y \<in> set (E x). v y \<noteq> Unvisited))"

lemma closed_marks: "closed E v \<Longrightarrow> marks E {u} v v' \<Longrightarrow> closed E v'"
  unfolding closed_def by (metis marksD(1) marksD(4) visited.distinct(1))

lemma closed_reach:
  assumes "closed E v" and "(x, y) \<in> {(a, b). b \<in> set (E a)}\<^sup>*" and "v x \<noteq> Unvisited"
  shows "v y \<noteq> Unvisited"
  using assms(2,3)
proof (induction rule: rtrancl_induct)
  case (step y z)
  then show ?case using assms(1) unfolding closed_def by blast
qed

lemma DFS_DGT_roots_last:
  assumes "DFS_DGT_roots n E us m0 v = Some (m, v')" "closed E v"
  shows "(\<forall>u \<in> set us. v' u \<noteq> Unvisited) \<and>
    (m = m0 \<and> v' = v \<or>
     (\<exists>r vr. m = Some r \<and> r \<in> set us \<and> vr r = Unvisited \<and> closed E vr \<and> marks E {r} vr v' \<and>
        (\<forall>x. v x \<noteq> Unvisited \<longrightarrow> vr x \<noteq> Unvisited)))"
  using assms
proof (induction us arbitrary: m0 v)
  case (Cons u us)
  show ?case
  proof (cases "v u = Unvisited")
    case False
    with Cons.prems have r: "DFS_DGT_roots n E us m0 v = Some (m, v')" by simp
    note ih = Cons.IH [OF r Cons.prems(2)]
    have "v' u \<noteq> Unvisited"
      using ih False marksD(1) by (metis visited.distinct(1))
    with ih show ?thesis by auto
  next
    case True
    with Cons.prems obtain v1 where v1: "DFS_DGT_visit n E u v = Some v1"
      and r: "DFS_DGT_roots n E us (Some u) v1 = Some (m, v')" by (auto split: option.splits)
    note mk = dgt.visit_marks [OF v1 True]
    have mono: "v1 x \<noteq> Unvisited" if "v x \<noteq> Unvisited" for x
      using marks_unvisited [OF mk] that by blast
    have vu: "v1 u \<noteq> Unvisited" using marksD(3) [OF mk] by simp
    from Cons.IH [OF r closed_marks [OF Cons.prems(2) mk]] show ?thesis
    proof (elim conjE disjE exE)
      assume "\<forall>u \<in> set us. v' u \<noteq> Unvisited" "m = Some u" "v' = v1"
      then show ?thesis using mk True Cons.prems(2) vu by auto
    next
      fix r vr
      assume h: "\<forall>u \<in> set us. v' u \<noteq> Unvisited" "m = Some r" "r \<in> set us" "vr r = Unvisited"
        "closed E vr" "marks E {r} vr v'" "\<forall>x. v1 x \<noteq> Unvisited \<longrightarrow> vr x \<noteq> Unvisited"
      have "v' u \<noteq> Unvisited" using h(7) vu marks_unvisited [OF h(6)] by blast
      with h mono show ?thesis by auto
    qed
  qed
qed simp

lemma DFS_DGT_roots_total:
  assumes "finite V" "edges_in V E" "set us \<subseteq> V" "card (unvisited_in V v) \<le> n"
  shows "\<exists>m' v'. DFS_DGT_roots n E us m v = Some (m', v')"
  using assms(3,4)
proof (induction us arbitrary: m v)
  case (Cons u us)
  show ?case
  proof (cases "v u = Unvisited")
    case True
    obtain v1 where v1: "DFS_DGT_visit n E u v = Some v1"
      using dgt.visit_total [OF assms(1,2) _ True Cons.prems(2)] Cons.prems(1) by auto
    have "card (unvisited_in V v1) \<le> n"
      using unvisited_in_le [OF assms(1) dgt.visit_marks [OF v1 True]] Cons.prems(2) by simp
    then show ?thesis using Cons.IH Cons.prems(1) v1 True by simp
  qed (use Cons in simp)
qed simp

section \<open>The independent SCC\<close>

text \<open>
  Before the search nothing is visited and no edge is kept; the callers in the scope of the
  leader that are not completed have their frames on the part of the stack searched.
\<close>

definition cstack_ok :: "cstack \<Rightarrow> bool" where
  "cstack_ok s \<longleftrightarrow> openreg s \<le> leader s \<and> dg s = (\<lambda>_. []) \<and> dgt s = (\<lambda>_. []) \<and>
     vis s = (\<lambda>_. Unvisited) \<and> depends s \<subseteq> set (frames s) \<times> set (frames s)"

lemma set_frames: "set (frames s) = {openreg s .. leader s}"
  by (simp add: frames_def)

lemma marks_in: "marks E {u} v v' \<Longrightarrow> edges_in V E \<Longrightarrow> u \<in> V \<Longrightarrow> v' x \<noteq> v x \<Longrightarrow> x \<in> V"
proof -
  assume m: "marks E {u} v v'" and e: "edges_in V E" and u: "u \<in> V" and x: "v' x \<noteq> v x"
  have "(u, x) \<in> (white E v)\<^sup>*" using marksD(2) [OF m x] by blast
  then show "x \<in> V" using u e by (induction rule: rtrancl_induct) (auto simp: white_def edges_in_def)
qed

lemma DFS_DGT_roots_in:
  "DFS_DGT_roots n E us m v = Some (m', v') \<Longrightarrow> edges_in V E \<Longrightarrow> set us \<subseteq> V \<Longrightarrow> v' x \<noteq> v x \<Longrightarrow> x \<in> V"
proof (induction us arbitrary: m v)
  case (Cons u us)
  show ?case
  proof (cases "v u = Unvisited")
    case True
    with Cons.prems(1) obtain v1 where v1: "DFS_DGT_visit n E u v = Some v1"
      and r: "DFS_DGT_roots n E us (Some u) v1 = Some (m', v')" by (auto split: option.splits)
    show ?thesis
    proof (cases "v1 x = v x")
      case True
      then show ?thesis using Cons.IH [OF r Cons.prems(2)] Cons.prems(3,4) by simp
    next
      case False
      then show ?thesis using marks_in [OF dgt.visit_marks [OF v1 True] Cons.prems(2)] Cons.prems(3) by auto
    qed
  qed (use Cons in simp)
qed simp

lemma fold_unvisit: "fold (\<lambda>csf v. v(csf := Unvisited)) us v x = (if x \<in> set us then Unvisited else v x)"
  by (induction us arbitrary: v) auto

lemma edges_in_rel: "{(a, b). b \<in> set (E a)} \<subseteq> V \<times> V \<Longrightarrow> edges_in V E"
  by (auto simp: edges_in_def)

lemma independent_scc_marks:
  assumes ok: "cstack_ok s" and n: "length (frames s) \<le> n"
  shows "\<exists>m s'. independent_scc n s = Some (m, s') \<and> m \<in> set (frames s) \<and>
     same_stack s (s'\<lparr>vis := vis s\<rparr>) \<and>
     (\<forall>x. vis s' x = (if (m, x) \<in> (depends s)\<^sup>* then Visited else Unvisited)) \<and>
     (\<forall>x. (m, x) \<in> (depends s)\<^sup>* \<longrightarrow> (x, m) \<in> (depends s)\<^sup>*)"
proof -
  let ?V = "set (frames s)"
  let ?c = "construct_dep_graph s"
  note okD = ok [unfolded cstack_ok_def]
  have same: "same_stack s ?c" and dg: "{(a, b). b \<in> set (dg ?c a)} = depends s"
    and dgt: "{(a, b). b \<in> set (dgt ?c a)} = (depends s)\<inverse>"
    using construct_dep_graph_grows [of s] okD by (auto simp: grows_def dg_of_def dgt_of_def)
  have e: "edges_in ?V (dg ?c)" "edges_in ?V (dgt ?c)"
    using okD dg dgt by (auto intro!: edges_in_rel)
  have fr: "frames ?c = frames s" and vis: "vis ?c = (\<lambda>_. Unvisited)"
    using same okD by (simp_all add: same_stack_def frames_def)
  have cV: "card (unvisited_in ?V v) \<le> n" for v
  proof -
    have "card (unvisited_in ?V v) \<le> card ?V" by (intro card_mono) (auto simp: unvisited_in_def)
    also have "\<dots> \<le> n" using card_length [of "frames s"] n by simp
    finally show ?thesis .
  qed
  obtain mo v where r: "DFS_DGT_roots n (dgt ?c) (frames s) None (\<lambda>_. Unvisited) = Some (mo, v)"
    using DFS_DGT_roots_total [OF finite_set e(2) subset_refl cV, of None] by blast
  have ne: "openreg s \<in> ?V" using okD by (simp add: set_frames)
  from DFS_DGT_roots_last [OF r] have all: "\<forall>u \<in> ?V. v u \<noteq> Unvisited"
    and "mo = None \<and> v = (\<lambda>_. Unvisited) \<or>
     (\<exists>m vr. mo = Some m \<and> m \<in> ?V \<and> vr m = Unvisited \<and> closed (dgt ?c) vr \<and> marks (dgt ?c) {m} vr v)"
    by (auto simp: closed_def)
  then obtain m vr where m: "mo = Some m" "m \<in> ?V" "vr m = Unvisited" "closed (dgt ?c) vr"
    "marks (dgt ?c) {m} vr v" using ne by fastforce
  have out: "v x = Unvisited" if "x \<notin> ?V" for x
    using DFS_DGT_roots_in [OF r e(2) subset_refl, of x] that by auto
  have rev: "(x, m) \<in> (depends s)\<^sup>*" if x: "(m, x) \<in> (depends s)\<^sup>*" for x
  proof -
    have xV: "x \<in> ?V" using x m(2) okD by (induction rule: rtrancl_induct) auto
    have "vr x = Unvisited"
    proof (rule ccontr)
      assume "vr x \<noteq> Unvisited"
      moreover have "(x, m) \<in> ((depends s)\<inverse>)\<^sup>*" using x by (simp add: rtrancl_converse)
      ultimately have "vr m \<noteq> Unvisited" using closed_reach [OF m(4), of x m] unfolding dgt by blast
      with m(3) show False by simp
    qed
    then have "v x \<noteq> vr x" using all xV by auto
    then have "(m, x) \<in> (white (dgt ?c) vr)\<^sup>*" using marksD(2) [OF m(5)] by blast
    moreover have "white (dgt ?c) vr \<subseteq> (depends s)\<inverse>" unfolding dgt [symmetric] by (auto simp: white_def)
    ultimately have "(m, x) \<in> ((depends s)\<inverse>)\<^sup>*" using rtrancl_mono by blast
    then show ?thesis by (simp add: rtrancl_converse)
  qed
  let ?s2 = "unvisit (?c\<lparr>vis := v\<rparr>)"
  have fr2: "frames (?c\<lparr>vis := v\<rparr>) = frames ?c" by (simp add: frames_def)
  have v2: "vis ?s2 = (\<lambda>_. Unvisited)" using out by (auto simp: unvisit_def fold_unvisit fr2 fr)
  have d2: "dg ?s2 = dg ?c" by (simp add: unvisit_def)
  obtain v3 where v3: "find_independent_scc n (dg ?c) m (\<lambda>_. Unvisited) = Some v3"
    using ind.visit_total [OF finite_set e(1) m(2) refl cV] by blast
  have "independent_scc n s = Some (m, ?s2\<lparr>vis := v3\<rparr>)"
    unfolding independent_scc_def DFS_DGT_def vis fr r m(1) option.map prod.case option.case
      Let_def v2 d2 v3 ..
  moreover have "same_stack s (?s2\<lparr>vis := v3\<rparr>\<lparr>vis := vis s\<rparr>)"
    using same by (simp add: same_stack_def unvisit_def)
  moreover have "v3 x = (if (m, x) \<in> (depends s)\<^sup>* then Visited else Unvisited)" for x
    using ind.visit_reachable [OF v3] unfolding dg by simp
  ultimately show ?thesis using m(2) rev by auto
qed

text \<open>C19: with fuel for every frame, the two searches of the SCC check return, and the
  frames then marked visited are exactly those that depend mutually on one frame \<open>m\<close> of the
  stack, its SCC; the SCC is independent: no incomplete subgoal in it called one outside.\<close>

theorem independent_scc_correct:
  assumes "cstack_ok s" and "length (frames s) \<le> n"
  shows "\<exists>m s'. independent_scc n s = Some (m, s') \<and> m \<in> set (frames s) \<and>
     (\<forall>x. vis s' x \<noteq> Unvisited \<longleftrightarrow> (m, x) \<in> (depends s)\<^sup>* \<and> (x, m) \<in> (depends s)\<^sup>*) \<and>
     (\<forall>a b. (a, b) \<in> depends s \<and> vis s' a \<noteq> Unvisited \<longrightarrow> vis s' b \<noteq> Unvisited)"
proof -
  from independent_scc_marks [OF assms] obtain m s' where
    s': "independent_scc n s = Some (m, s')" "m \<in> set (frames s)"
    and v: "\<And>x. vis s' x = (if (m, x) \<in> (depends s)\<^sup>* then Visited else Unvisited)"
    and b: "\<And>x. (m, x) \<in> (depends s)\<^sup>* \<Longrightarrow> (x, m) \<in> (depends s)\<^sup>*" by blast
  have "vis s' x \<noteq> Unvisited \<longleftrightarrow> (m, x) \<in> (depends s)\<^sup>* \<and> (x, m) \<in> (depends s)\<^sup>*" for x
    using v [of x] b [of x] by auto
  moreover have "vis s' b \<noteq> Unvisited" if "(a, b) \<in> depends s" "vis s' a \<noteq> Unvisited" for a b
    using that v [of a] v [of b] by (auto split: if_splits intro: rtrancl_into_rtrancl)
  ultimately show ?thesis using s' by blast
qed

text \<open>Three subgoals: the leader calls the second, which calls itself and the third, which
  is called back by nothing.\<close>

definition ex_sub :: "nat \<Rightarrow> asubgoal" where
  "ex_sub i = (if i = 0 then \<lparr>sg_completed = False, sg_frame = 3, sg_gen = None, sg_cons = [], sg_susp = []\<rparr>
     else if i = 1 then \<lparr>sg_completed = False, sg_frame = 2, sg_gen = Some 0, sg_cons = [Some 2], sg_susp = []\<rparr>
     else \<lparr>sg_completed = False, sg_frame = 1, sg_gen = Some 1, sg_cons = [],
            sg_susp = [\<lparr>su_ptcp = Some 1, su_neg = False\<rparr>]\<rparr>)"

definition ex_stack :: cstack where
  "ex_stack = \<lparr>subg = ex_sub, compl_subgoal = (\<lambda>f. nat (3 - f)), leader = 3, openreg = 1,
     dg = (\<lambda>_. []), dgt = (\<lambda>_. []), vis = (\<lambda>_. Unvisited)\<rparr>"

lemma ex_stack_ok: "cstack_ok ex_stack"
proof -
  have "depends ex_stack \<subseteq> {1..3} \<times> {1..3}"
    by (auto simp: depends_def ex_stack_def ex_sub_def callers_def set_frames split: if_splits)
  then show ?thesis by (simp add: cstack_ok_def set_frames ex_stack_def)
qed

lemma ex_stack_frames: "frames ex_stack = [3, 2, 1]"
  by (simp add: frames_def ex_stack_def upto.simps)

theorem independent_scc_correct_witness:
  "\<exists>m s'. independent_scc 3 ex_stack = Some (m, s') \<and> m \<in> set (frames ex_stack) \<and>
     (\<forall>x. vis s' x \<noteq> Unvisited \<longleftrightarrow> (m, x) \<in> (depends ex_stack)\<^sup>* \<and> (x, m) \<in> (depends ex_stack)\<^sup>*) \<and>
     (\<forall>a b. (a, b) \<in> depends ex_stack \<and> vis s' a \<noteq> Unvisited \<longrightarrow> vis s' b \<noteq> Unvisited)"
  by (rule independent_scc_correct) (simp_all add: ex_stack_ok ex_stack_frames)

section \<open>The stratification check\<close>

text \<open>
  The pairs of frames, both in the SCC, of which the first's subgoal has a suspension
  waiting in the second's.
\<close>

definition waits :: "cstack \<Rightarrow> int \<Rightarrow> nat option list \<Rightarrow> (int \<times> int) set" where
  "waits s csf ps = {(a, b). a = csf \<and> (\<exists>q. Some q \<in> set ps \<and> \<not> sg_completed (subg s q) \<and>
     sg_frame (subg s q) = b \<and> b \<le> leader s \<and> vis s b \<noteq> Unvisited)}"

definition frame_waits :: "cstack \<Rightarrow> int \<Rightarrow> (int \<times> int) set" where
  "frame_waits s csf =
     (let g = subg s (compl_subgoal s csf)
      in if sg_completed g \<or> vis s csf = Unvisited then {} else waits s csf (map su_ptcp (sg_susp g)))"

definition neg_pairs :: "cstack \<Rightarrow> (int \<times> int) set" where
  "neg_pairs s = (\<Union>csf \<in> set (frames s). frame_waits s csf)"

definition lrd_same :: "cstack \<Rightarrow> cstack \<Rightarrow> bool" where
  "lrd_same s s' \<longleftrightarrow> compl_subgoal s' = compl_subgoal s \<and> leader s' = leader s \<and> openreg s' = openreg s \<and>
     (\<forall>c. sg_completed (subg s' c) = sg_completed (subg s c) \<and> sg_frame (subg s' c) = sg_frame (subg s c) \<and>
        map su_ptcp (sg_susp (subg s' c)) = map su_ptcp (sg_susp (subg s c))) \<and>
     (\<forall>x. vis s' x = Unvisited \<longleftrightarrow> vis s x = Unvisited)"

lemma lrd_same_refl: "lrd_same s s"
  by (simp add: lrd_same_def)

lemma lrd_same_trans: "lrd_same s s1 \<Longrightarrow> lrd_same s1 s2 \<Longrightarrow> lrd_same s s2"
  by (simp add: lrd_same_def)

definition ends :: "(int \<times> int) set \<Rightarrow> int set" where
  "ends W = fst ` W \<union> snd ` W"

lemma ends_simps [simp]: "ends {} = {}" "ends (W \<union> W') = ends W \<union> ends W'"
  by (auto simp: ends_def)

definition delayed_by :: "(int \<times> int) set \<Rightarrow> cstack \<Rightarrow> cstack \<Rightarrow> bool" where
  "delayed_by W s s' \<longleftrightarrow> lrd_same s s' \<and> vis s' = (\<lambda>x. if x \<in> ends W then Delayed else vis s x)"

lemma delayed_by_refl: "delayed_by {} s s"
  by (simp add: delayed_by_def lrd_same_refl)

lemma delayed_by_trans: "delayed_by W s s1 \<Longrightarrow> delayed_by W' s1 s2 \<Longrightarrow> delayed_by (W \<union> W') s s2"
  by (auto simp: delayed_by_def intro: lrd_same_trans)

lemma waits_same: "lrd_same s s1 \<Longrightarrow> waits s1 csf ps = waits s csf ps"
  by (auto simp: waits_def lrd_same_def)

lemma frame_waits_same: "lrd_same s s1 \<Longrightarrow> frame_waits s1 csf = frame_waits s csf"
  using waits_same [of s s1 csf] by (simp add: frame_waits_def Let_def lrd_same_def)

lemma check_susp_delays:
  assumes "check_susp csf su s = (su', b, s')" "vis s csf \<noteq> Unvisited"
  shows "delayed_by (waits s csf [su_ptcp su]) s s' \<and> b = (waits s csf [su_ptcp su] \<noteq> {}) \<and>
    su_ptcp su' = su_ptcp su \<and> subg s' = subg s"
  using assms
  by (auto simp: check_susp_def waits_def delayed_by_def ends_def lrd_same_def Let_def
      split: option.splits if_splits)

lemma waits_Cons: "waits s csf (p # ps) = waits s csf [p] \<union> waits s csf ps"
  by (auto simp: waits_def)

lemma check_susps_delays:
  "check_susps csf sus s = (sus', b, s') \<Longrightarrow> vis s csf \<noteq> Unvisited \<Longrightarrow>
    delayed_by (waits s csf (map su_ptcp sus)) s s' \<and> b = (waits s csf (map su_ptcp sus) \<noteq> {}) \<and>
    map su_ptcp sus' = map su_ptcp sus \<and> subg s' = subg s"
proof (induction sus arbitrary: s sus' b s')
  case Nil
  then show ?case using delayed_by_refl [of s] by (auto simp: waits_def)
next
  case (Cons su sus)
  obtain su1 b1 s1 where 1: "check_susp csf su s = (su1, b1, s1)" by (cases "check_susp csf su s") auto
  obtain sus2 b2 s2 where 2: "check_susps csf sus s1 = (sus2, b2, s2)"
    by (cases "check_susps csf sus s1") auto
  note d1 = check_susp_delays [OF 1 Cons.prems(2)]
  then have l1: "lrd_same s s1" by (simp add: delayed_by_def)
  then have "vis s1 csf \<noteq> Unvisited" using Cons.prems(2) by (simp add: lrd_same_def)
  note d2 = Cons.IH [OF 2 this]
  have w: "waits s csf (map su_ptcp (su # sus)) = waits s csf [su_ptcp su] \<union> waits s1 csf (map su_ptcp sus)"
    unfolding waits_same [OF l1] list.map by (rule waits_Cons)
  have "delayed_by (waits s csf (map su_ptcp (su # sus))) s s2"
    unfolding w using d1 d2 by (blast intro: delayed_by_trans)
  moreover have "sus' = su1 # sus2" "b = (b1 \<or> b2)" "s' = s2" using Cons.prems(1) 1 2 by simp_all
  moreover have "(b1 \<or> b2) = (waits s csf (map su_ptcp (su # sus)) \<noteq> {})" unfolding w using d1 d2 by blast
  ultimately show ?case using d1 d2 by simp
qed

lemma check_frame_delays:
  assumes "check_frame csf (b0, s) = (b, s')"
  shows "delayed_by (frame_waits s csf) s s' \<and> b = (b0 \<or> frame_waits s csf \<noteq> {})"
proof (cases "sg_completed (subg s (compl_subgoal s csf)) \<or> vis s csf = Unvisited")
  case True
  then show ?thesis using assms delayed_by_refl [of s] by (auto simp: check_frame_def frame_waits_def Let_def)
next
  case False
  let ?c = "compl_subgoal s csf"
  obtain sus b1 s1 where 1: "check_susps csf (sg_susp (subg s ?c)) s = (sus, b1, s1)"
    by (cases "check_susps csf (sg_susp (subg s ?c)) s") auto
  have d: "delayed_by (frame_waits s csf) s s1" "b1 = (frame_waits s csf \<noteq> {})"
    "map su_ptcp sus = map su_ptcp (sg_susp (subg s ?c))" "subg s1 = subg s"
    using check_susps_delays [OF 1] False by (simp_all add: frame_waits_def Let_def)
  have s': "s' = s1\<lparr>subg := (subg s1)(?c := (subg s1 ?c)\<lparr>sg_susp := sus\<rparr>)\<rparr>" "b = (b0 \<or> b1)"
    using assms False 1 by (auto simp: check_frame_def Let_def)
  have "delayed_by (frame_waits s csf) s s'"
  proof -
    have "lrd_same s s1" and v: "vis s1 = (\<lambda>x. if x \<in> ends (frame_waits s csf) then Delayed else vis s x)"
      using d(1) by (simp_all only: delayed_by_def)
    from this(1) have "lrd_same s s'" using d(3,4) by (simp add: s'(1) lrd_same_def)
    moreover have "vis s' = vis s1" by (simp add: s'(1))
    ultimately show ?thesis using v by (simp only: delayed_by_def simp_thms)
  qed
  then show ?thesis using s'(2) d(2) by blast
qed

lemma fold_check_frame:
  "fold check_frame us (b0, s) = (b, s') \<Longrightarrow>
    delayed_by (\<Union>csf \<in> set us. frame_waits s csf) s s' \<and> b = (b0 \<or> (\<Union>csf \<in> set us. frame_waits s csf) \<noteq> {})"
proof (induction us arbitrary: b0 s)
  case Nil
  then show ?case using delayed_by_refl [of s] by simp
next
  case (Cons u us)
  obtain b1 s1 where 1: "check_frame u (b0, s) = (b1, s1)" by (cases "check_frame u (b0, s)") auto
  note d1 = check_frame_delays [OF 1]
  then have same: "lrd_same s s1" by (simp add: delayed_by_def)
  have "fold check_frame us (b1, s1) = (b, s')" using Cons.prems 1 by simp
  from Cons.IH [OF this] d1 delayed_by_trans [of _ s s1 _ s'] frame_waits_same [OF same]
  show ?case by auto
qed

text \<open>C20: the stratification check finds a loop through negation exactly when a suspension
  of a subgoal of the SCC waits in a subgoal of the SCC, delays exactly the frames of such
  pairs, and leaves the SCC as it was.\<close>

theorem lrd_check_exact:
  "fst (lrd_check s) = (neg_pairs s \<noteq> {}) \<and>
   (\<forall>x. vis (snd (lrd_check s)) x =
      (if x \<in> ends (neg_pairs s) then Delayed else vis s x)) \<and>
   (\<forall>x. vis (snd (lrd_check s)) x = Unvisited \<longleftrightarrow> vis s x = Unvisited)"
proof -
  obtain b s' where r: "lrd_check s = (b, s')" by (cases "lrd_check s")
  from fold_check_frame [OF r [unfolded lrd_check_def]] have "delayed_by (neg_pairs s) s s'"
    "b = (neg_pairs s \<noteq> {})" by (simp_all add: neg_pairs_def)
  moreover from this(1) have "lrd_same s s'" by (simp only: delayed_by_def)
  then have "vis s' x = Unvisited \<longleftrightarrow> vis s x = Unvisited" for x
    unfolding lrd_same_def by blast
  ultimately show ?thesis unfolding r by (simp add: delayed_by_def del: if_split)
qed

lemma partition_susps_filter:
  "partition_susps sus d nd = (d @ filter su_neg sus, nd @ filter (\<lambda>su. \<not> su_neg su) sus)"
  by (induction sus arbitrary: d nd) auto

end
