(* ===== verification/Structman.thy ===== *)
theory Structman imports Prelude "HOL-Library.Code_Target_Nat" begin

text \<open>
  The manager of pools of records that the tries, answer lists and table frames are
  allocated from (\<open>struct_manager.c\<close>, \<open>struct_manager.h\<close>), in the single-threaded
  configuration. Memory is a map from byte addresses to words; blocks are linked by their
  first word, free records by theirs, as in the code. The address \<open>calloc\<close> returns is a
  parameter. Walking a chain that does not end is the result \<open>None\<close>.
\<close>

section \<open>The manager\<close>

type_synonym store = "nat \<Rightarrow> nat"

record sm =
  sm_block :: nat
  sm_next :: nat
  sm_last :: nat
  sm_size :: nat
  sm_num :: nat
  sm_alloc :: nat
  sm_free :: nat

definition SM_InitDecl :: "nat \<Rightarrow> nat \<Rightarrow> sm" where
  "SM_InitDecl size_of n =
     \<lparr>sm_block = 0, sm_next = 0, sm_last = 0, sm_size = size_of, sm_num = n, sm_alloc = 0, sm_free = 0\<rparr>"

definition SM_NewBlockSize :: "sm \<Rightarrow> nat" where
  "SM_NewBlockSize s = 8 + sm_size s * sm_num s"

definition SMBlk_FirstStruct :: "nat \<Rightarrow> nat" where
  "SMBlk_FirstStruct b = b + 8"

definition SMBlk_LastStruct :: "nat \<Rightarrow> nat \<Rightarrow> nat \<Rightarrow> nat" where
  "SMBlk_LastStruct b size_of n = SMBlk_FirstStruct b + size_of * (n - 1)"

definition SMBlk_NextStruct :: "nat \<Rightarrow> nat \<Rightarrow> nat" where
  "SMBlk_NextStruct p size_of = p + size_of"

definition SM_CurBlockIsDepleted :: "sm \<Rightarrow> bool" where
  "SM_CurBlockIsDepleted s \<longleftrightarrow> sm_block s = 0 \<or> sm_next s > sm_last s"

definition SM_NumStructsLeftInBlock :: "sm \<Rightarrow> nat" where
  "SM_NumStructsLeftInBlock s =
     (if \<not> SM_CurBlockIsDepleted s then (sm_last s - sm_next s) div sm_size s + 1 else 0)"

definition smAllocateBlock :: "nat \<Rightarrow> sm \<times> store \<Rightarrow> sm \<times> store" where
  "smAllocateBlock new = (\<lambda>(s, m).
     (let m1 = (\<lambda>a. if new \<le> a \<and> a < new + SM_NewBlockSize s then 0 else m a);
          m2 = m1(new := sm_block s)
      in (s\<lparr>sm_block := new, sm_next := SMBlk_FirstStruct new,
            sm_last := SMBlk_LastStruct new (sm_size s) (sm_num s)\<rparr>, m2)))"

definition SM_AllocateFree :: "sm \<times> store \<Rightarrow> nat \<times> sm \<times> store" where
  "SM_AllocateFree = (\<lambda>(s, m). (sm_free s, s\<lparr>sm_free := m (sm_free s)\<rparr>, m))"

definition SM_AllocateFromBlock :: "sm \<times> store \<Rightarrow> nat \<times> sm \<times> store" where
  "SM_AllocateFromBlock = (\<lambda>(s, m).
     (sm_next s, s\<lparr>sm_next := SMBlk_NextStruct (sm_next s) (sm_size s)\<rparr>, m))"

definition SM_AllocateStruct :: "nat \<Rightarrow> sm \<times> store \<Rightarrow> nat \<times> sm \<times> store" where
  "SM_AllocateStruct new s =
     (if sm_free (fst s) \<noteq> 0 then SM_AllocateFree s
      else SM_AllocateFromBlock (if SM_CurBlockIsDepleted (fst s) then smAllocateBlock new s else s))"

definition FREE_TRIE_NODE_MARK :: nat where "FREE_TRIE_NODE_MARK = 2 ^ 64 - 1"

text \<open>The loop that marks the records of the list but the last.\<close>

partial_function (option) mark_loop :: "nat \<Rightarrow> nat \<Rightarrow> store \<Rightarrow> store option" where
  "mark_loop p tail m =
     (if p \<noteq> tail then mark_loop ((m(p + 8 := FREE_TRIE_NODE_MARK)) p) tail (m(p + 8 := FREE_TRIE_NODE_MARK))
      else Some (m(p + 8 := FREE_TRIE_NODE_MARK)))"

definition SM_DeallocateStructList :: "nat \<Rightarrow> nat \<Rightarrow> sm \<times> store \<Rightarrow> (sm \<times> store) option" where
  "SM_DeallocateStructList hd_ptr tl_ptr = (\<lambda>(s, m).
     map_option (\<lambda>m1. (s\<lparr>sm_free := hd_ptr\<rparr>, m1(tl_ptr := sm_free s))) (mark_loop hd_ptr tl_ptr m))"

definition SM_DeallocateStruct :: "nat \<Rightarrow> sm \<times> store \<Rightarrow> (sm \<times> store) option" where
  "SM_DeallocateStruct p = SM_DeallocateStructList p p"

definition SM_DeallocateSmallStruct :: "nat \<Rightarrow> sm \<times> store \<Rightarrow> sm \<times> store" where
  "SM_DeallocateSmallStruct p = (\<lambda>(s, m). (s\<lparr>sm_free := p\<rparr>, m(p := sm_free s)))"

partial_function (option) valid_loop :: "sm \<Rightarrow> store \<Rightarrow> nat \<Rightarrow> nat \<Rightarrow> bool option" where
  "valid_loop s m ptr b =
     (if b = 0 then Some False
      else if SMBlk_FirstStruct b \<le> ptr \<and> ptr \<le> SMBlk_LastStruct b (sm_size s) (sm_num s)
      then Some ((ptr - SMBlk_FirstStruct b) mod sm_size s = 0)
      else valid_loop s m ptr (m b))"

definition smIsValidStructRef :: "sm \<times> store \<Rightarrow> nat \<Rightarrow> bool option" where
  "smIsValidStructRef = (\<lambda>(s, m) ptr. valid_loop s m ptr (sm_block s))"

partial_function (option) free_loop :: "store \<Rightarrow> nat \<Rightarrow> nat \<Rightarrow> bool option" where
  "free_loop m p f = (if f = 0 then Some True else if f = p then Some False else free_loop m p (m f))"

definition smIsAllocatedStruct :: "sm \<times> store \<Rightarrow> nat \<Rightarrow> bool option" where
  "smIsAllocatedStruct = (\<lambda>(s, m) p.
     if sm_next s \<le> p \<and> p \<le> sm_last s then Some False else free_loop m p (sm_free s))"

definition smIsAllocatedStructRef :: "sm \<times> store \<Rightarrow> nat \<Rightarrow> bool option" where
  "smIsAllocatedStructRef s p =
     (case smIsValidStructRef s p of
        None \<Rightarrow> None
      | Some True \<Rightarrow> smIsAllocatedStruct s p
      | Some False \<Rightarrow> Some False)"

text \<open>Counting along a chain, the loop of the two queries.\<close>

partial_function (option) count_chain :: "store \<Rightarrow> nat \<Rightarrow> nat \<Rightarrow> nat option" where
  "count_chain m p n = (if p = 0 then Some n else count_chain m (m p) (n + 1))"

definition SM_CurrentCapacity :: "sm \<times> store \<Rightarrow> (nat \<times> nat) option" where
  "SM_CurrentCapacity = (\<lambda>(s, m). map_option (\<lambda>n. (n, n * sm_num s)) (count_chain m (sm_block s) 0))"

definition SM_CountFreeStructs :: "sm \<times> store \<Rightarrow> nat option" where
  "SM_CountFreeStructs = (\<lambda>(s, m).
     if sm_block s \<noteq> 0 then count_chain m (sm_free s) (SM_NumStructsLeftInBlock s) else Some 0)"

text \<open>Releasing the blocks; the list is that of the blocks given back to the system.\<close>

partial_function (option) free_blocks_loop :: "store \<Rightarrow> nat \<Rightarrow> nat list option" where
  "free_blocks_loop m b =
     (if b = 0 then Some [] else Option.bind (free_blocks_loop m (m b)) (\<lambda>bs. Some (b # bs)))"

definition smFreeBlocks :: "sm \<times> store \<Rightarrow> (nat list \<times> sm) option" where
  "smFreeBlocks = (\<lambda>(s, m).
     map_option (\<lambda>bs. (bs, s\<lparr>sm_block := 0, sm_next := 0, sm_last := 0, sm_alloc := 0, sm_free := 0\<rparr>))
       (free_blocks_loop m (sm_block s)))"

section \<open>Chains and blocks\<close>

fun chain :: "store \<Rightarrow> nat \<Rightarrow> nat list \<Rightarrow> bool" where
  "chain m p [] = (p = 0)"
| "chain m p (x # xs) = (p = x \<and> x \<noteq> 0 \<and> chain m (m x) xs)"

lemma chain_cong: "chain m p xs \<Longrightarrow> (\<And>x. x \<in> set xs \<Longrightarrow> m' x = m x) \<Longrightarrow> chain m' p xs"
  by (induction xs arbitrary: p) auto

lemma chain_head: "chain m p xs \<Longrightarrow> p = 0 \<longleftrightarrow> xs = []"
  by (cases xs) auto

lemma chain_hd: "chain m p xs \<Longrightarrow> p \<noteq> 0 \<Longrightarrow> \<exists>ys. xs = p # ys \<and> chain m (m p) ys"
  by (cases xs) auto

definition structs_of :: "sm \<Rightarrow> nat \<Rightarrow> nat set" where
  "structs_of s b = {b + 8 + i * sm_size s | i. i < sm_num s}"

definition all_structs :: "sm \<Rightarrow> nat list \<Rightarrow> nat set" where
  "all_structs s bs = (\<Union>b \<in> set bs. structs_of s b)"

text \<open>The records of the current block that were never handed out.\<close>

definition unused :: "sm \<Rightarrow> nat list \<Rightarrow> nat set" where
  "unused s bs = (if bs = [] then {} else {p \<in> structs_of s (hd bs). sm_next s \<le> p})"

definition live :: "sm \<Rightarrow> nat list \<Rightarrow> nat list \<Rightarrow> nat set" where
  "live s bs fs = all_structs s bs - unused s bs - set fs"

definition blocks_apart :: "sm \<Rightarrow> nat list \<Rightarrow> bool" where
  "blocks_apart s bs \<longleftrightarrow> distinct bs \<and>
     (\<forall>b \<in> set bs. \<forall>c \<in> set bs. b < c \<longrightarrow> b + SM_NewBlockSize s \<le> c)"

definition cur_block_ok :: "sm \<Rightarrow> nat list \<Rightarrow> bool" where
  "cur_block_ok s bs \<longleftrightarrow>
     (case bs of [] \<Rightarrow> sm_next s = 0 \<and> sm_last s = 0
      | b # _ \<Rightarrow> sm_last s = b + 8 + (sm_num s - 1) * sm_size s \<and>
          (\<exists>k \<le> sm_num s. sm_next s = b + 8 + k * sm_size s))"

definition sm_ok :: "nat list \<Rightarrow> nat list \<Rightarrow> sm \<times> store \<Rightarrow> bool" where
  "sm_ok bs fs = (\<lambda>(s, m).
     16 \<le> sm_size s \<and> 1 \<le> sm_num s \<and> chain m (sm_block s) bs \<and> chain m (sm_free s) fs \<and>
     distinct fs \<and> blocks_apart s bs \<and> cur_block_ok s bs \<and>
     set fs \<subseteq> all_structs s bs - unused s bs)"

lemma structs_in:
  assumes "p \<in> structs_of s b"
  shows "b + 8 \<le> p" "p + sm_size s \<le> b + SM_NewBlockSize s"
proof -
  from assms obtain i where i: "i < sm_num s" "p = b + 8 + i * sm_size s" by (auto simp: structs_of_def)
  have "i * sm_size s + sm_size s = Suc i * sm_size s" by simp
  also have "\<dots> \<le> sm_num s * sm_size s" using i(1) by (intro mult_le_mono1) simp
  finally show "p + sm_size s \<le> b + SM_NewBlockSize s" using i(2) by (simp add: SM_NewBlockSize_def mult.commute)
  show "b + 8 \<le> p" using i(2) by simp
qed

lemma structs_apart:
  assumes "p \<in> structs_of s b" "q \<in> structs_of s b" "p \<le> q" "q < p + sm_size s"
  shows "q = p"
proof -
  from assms(1,2) obtain i j where p: "p = b + 8 + i * sm_size s" and q: "q = b + 8 + j * sm_size s"
    by (auto simp: structs_of_def)
  have sz: "0 < sm_size s" using assms(3,4) by linarith
  have "i * sm_size s \<le> j * sm_size s" using assms(3) unfolding p q by linarith
  moreover have "j * sm_size s < Suc i * sm_size s" using assms(4) unfolding p q by simp
  ultimately have "i \<le> j" "j < Suc i" using sz by (simp, metis mult_less_cancel2)
  then show ?thesis using p q by simp
qed

text \<open>No record or block begins inside another record.\<close>

lemma apart:
  assumes "blocks_apart s bs" "p \<in> all_structs s bs" "p \<le> a" "a < p + sm_size s"
  shows "a \<in> all_structs s bs \<Longrightarrow> a = p" and "a \<notin> set bs"
proof -
  from assms(2) obtain b where b: "b \<in> set bs" "p \<in> structs_of s b" by (auto simp: all_structs_def)
  have cmp: "c = b" if "c \<in> set bs" "c \<le> a" "a < c + SM_NewBlockSize s" for c
    using assms(1) b(1) that structs_in [OF b(2)] assms(3,4) unfolding blocks_apart_def
    by (metis add_leD1 le_less_trans less_le_trans linorder_neqE_nat not_less order_trans)
  show "a = p" if a: "a \<in> all_structs s bs"
  proof -
    from a obtain c where c: "c \<in> set bs" "a \<in> structs_of s c" by (auto simp: all_structs_def)
    have "0 < sm_size s" using assms(3,4) by simp
    then have "c = b" using structs_in [OF c(2)] c(1) by (intro cmp) auto
    then show ?thesis using structs_apart [OF b(2), of a] c(2) assms(3,4) by simp
  qed
  show "a \<notin> set bs"
  proof
    assume a: "a \<in> set bs"
    have "0 < SM_NewBlockSize s" by (simp add: SM_NewBlockSize_def)
    then have "a = b" using a by (intro cmp) auto
    then show False using structs_in(1) [OF b(2)] assms(3) by simp
  qed
qed

section \<open>Allocation\<close>

lemma blocks_apart_sm [simp]:
  "blocks_apart (s\<lparr>sm_next := a\<rparr>) = blocks_apart s" "blocks_apart (s\<lparr>sm_free := a\<rparr>) = blocks_apart s"
  "all_structs (s\<lparr>sm_next := a\<rparr>) = all_structs s" "all_structs (s\<lparr>sm_free := a\<rparr>) = all_structs s"
  "structs_of (s\<lparr>sm_next := a\<rparr>) = structs_of s" "structs_of (s\<lparr>sm_free := a\<rparr>) = structs_of s"
  "unused (s\<lparr>sm_free := a\<rparr>) = unused s" "cur_block_ok (s\<lparr>sm_free := a\<rparr>) = cur_block_ok s"
  "SM_NewBlockSize (s\<lparr>sm_next := a\<rparr>) = SM_NewBlockSize s"
  "SM_NewBlockSize (s\<lparr>sm_block := a\<rparr>) = SM_NewBlockSize s"
  "SM_NewBlockSize (s\<lparr>sm_last := a\<rparr>) = SM_NewBlockSize s"
  "structs_of (s\<lparr>sm_block := a\<rparr>) = structs_of s" "structs_of (s\<lparr>sm_last := a\<rparr>) = structs_of s"
  "all_structs (s\<lparr>sm_block := a\<rparr>) = all_structs s" "all_structs (s\<lparr>sm_last := a\<rparr>) = all_structs s"
  by (auto simp: fun_eq_iff blocks_apart_def all_structs_def structs_of_def unused_def cur_block_ok_def
      SM_NewBlockSize_def split: list.split)

lemma allocate_free_ok:
  assumes ok: "sm_ok bs fs (s, m)" and f: "sm_free s \<noteq> 0"
  shows "\<exists>fs'. sm_ok bs fs' (s\<lparr>sm_free := m (sm_free s)\<rparr>, m) \<and> sm_free s \<notin> live s bs fs \<and>
    live (s\<lparr>sm_free := m (sm_free s)\<rparr>) bs fs' = insert (sm_free s) (live s bs fs)"
proof -
  from ok f obtain fs' where fs: "fs = sm_free s # fs'" "chain m (m (sm_free s)) fs'"
    using chain_hd [of m "sm_free s" fs] by (auto simp: sm_ok_def)
  have mem: "sm_free s \<in> all_structs s bs - unused s bs" "sm_free s \<notin> set fs'"
    using ok fs(1) by (auto simp: sm_ok_def)
  have "sm_ok bs fs' (s\<lparr>sm_free := m (sm_free s)\<rparr>, m)"
    using ok fs by (simp add: sm_ok_def)
  moreover have "live (s\<lparr>sm_free := m (sm_free s)\<rparr>) bs fs' = insert (sm_free s) (live s bs fs)"
    using mem fs(1) by (auto simp: live_def)
  moreover have "sm_free s \<notin> live s bs fs" using fs(1) by (simp add: live_def)
  ultimately show ?thesis by blast
qed

lemma allocate_block_ok:
  assumes ok: "sm_ok bs [] (s, m)" and nd: "\<not> SM_CurBlockIsDepleted s"
  shows "sm_ok bs [] (s\<lparr>sm_next := sm_next s + sm_size s\<rparr>, m) \<and> sm_next s \<notin> live s bs [] \<and>
    live (s\<lparr>sm_next := sm_next s + sm_size s\<rparr>) bs [] = insert (sm_next s) (live s bs [])"
proof -
  let ?s = "s\<lparr>sm_next := sm_next s + sm_size s\<rparr>"
  from ok nd obtain b bs' where bs: "bs = b # bs'"
    by (cases bs) (auto simp: sm_ok_def SM_CurBlockIsDepleted_def)
  from ok bs obtain k where k: "k \<le> sm_num s" "sm_next s = b + 8 + k * sm_size s"
    and l: "sm_last s = b + 8 + (sm_num s - 1) * sm_size s" and n: "1 \<le> sm_num s" "16 \<le> sm_size s"
    by (auto simp: sm_ok_def cur_block_ok_def)
  have "sm_next s \<le> sm_last s" using nd by (simp add: SM_CurBlockIsDepleted_def)
  then have "k * sm_size s \<le> (sm_num s - 1) * sm_size s" unfolding k(2) l by linarith
  then have "k \<le> sm_num s - 1" using n(2) unfolding mult_le_cancel2 by linarith
  then have kn: "k < sm_num s" using n(1) by linarith
  have mem: "sm_next s \<in> structs_of s b" using kn k(2) by (auto simp: structs_of_def)
  have un: "unused ?s bs = unused s bs - {sm_next s}"
    using structs_apart [OF mem] n(2) by (auto simp: unused_def bs)
      (metis leI le_add1 le_less_trans not_less order_le_less)
  have "cur_block_ok ?s bs" using kn k(2) l by (auto simp: cur_block_ok_def bs intro!: exI [of _ "Suc k"])
  then have "sm_ok bs [] (?s, m)" using ok by (auto simp: sm_ok_def)
  moreover have "sm_next s \<in> unused s bs" using mem by (simp add: unused_def bs)
  moreover have "sm_next s \<in> all_structs s bs" using mem by (simp add: all_structs_def bs)
  ultimately show ?thesis using un by (auto simp: live_def)
qed

definition fresh_block :: "nat \<Rightarrow> sm \<Rightarrow> nat list \<Rightarrow> bool" where
  "fresh_block new s bs \<longleftrightarrow> new \<noteq> 0 \<and>
     (\<forall>b \<in> set bs. new + SM_NewBlockSize s \<le> b \<or> b + SM_NewBlockSize s \<le> new)"

lemma depleted_unused:
  assumes "sm_ok bs fs (s, m)" "SM_CurBlockIsDepleted s"
  shows "unused s bs = {}"
proof (cases bs)
  case (Cons b bs')
  then have "sm_block s \<noteq> 0" using assms(1) by (auto simp: sm_ok_def)
  then have lt: "sm_last s < sm_next s" using assms(2) by (simp add: SM_CurBlockIsDepleted_def)
  have "p \<le> sm_last s" if "p \<in> structs_of s b" for p
  proof -
    from that obtain i where "i < sm_num s" "p = b + 8 + i * sm_size s" by (auto simp: structs_of_def)
    moreover from this have "i * sm_size s \<le> (sm_num s - 1) * sm_size s" by (intro mult_le_mono1) linarith
    ultimately show ?thesis using assms(1) Cons by (simp add: sm_ok_def cur_block_ok_def)
  qed
  with lt show ?thesis by (auto simp: unused_def Cons not_le dest: order_le_less_trans)
qed (simp add: unused_def)

lemma new_block_ok:
  assumes ok: "sm_ok bs [] (s, m)" and d: "SM_CurBlockIsDepleted s" and new: "fresh_block new s bs"
  shows "\<exists>s' m'. smAllocateBlock new (s, m) = (s', m') \<and> sm_ok (new # bs) [] (s', m') \<and>
    \<not> SM_CurBlockIsDepleted s' \<and> live s' (new # bs) [] = live s bs [] \<and> sm_free s' = sm_free s"
proof -
  let ?s = "s\<lparr>sm_block := new, sm_next := new + 8, sm_last := new + 8 + sm_size s * (sm_num s - 1)\<rparr>"
  let ?m = "(\<lambda>a. if new \<le> a \<and> a < new + SM_NewBlockSize s then 0 else m a)(new := sm_block s)"
  have r: "smAllocateBlock new (s, m) = (?s, ?m)"
    by (simp add: smAllocateBlock_def SMBlk_FirstStruct_def SMBlk_LastStruct_def)
  have nb: "0 < SM_NewBlockSize s" by (simp add: SM_NewBlockSize_def)
  have b: "b \<noteq> new \<and> \<not> (new \<le> b \<and> b < new + SM_NewBlockSize s)" if "b \<in> set bs" for b
    using new that nb by (auto simp: fresh_block_def)
  have ch: "chain ?m (sm_block s) bs"
  proof (rule chain_cong [of m])
    fix x assume "x \<in> set bs"
    from b [OF this] show "?m x = m x" by auto
  qed (use ok in \<open>simp add: sm_ok_def\<close>)
  have same: "structs_of ?s = structs_of s" "SM_NewBlockSize ?s = SM_NewBlockSize s" "all_structs ?s = all_structs s"
    by simp_all
  have apt: "blocks_apart ?s (new # bs)"
    using ok new b by (auto simp: blocks_apart_def sm_ok_def same fresh_block_def)
  have cur: "cur_block_ok ?s (new # bs)"
    by (auto simp: cur_block_ok_def mult.commute intro!: exI [of _ 0])
  have un: "unused ?s (new # bs) = structs_of s new"
    using structs_in(1) by (auto simp: unused_def same)
  have "structs_of s new \<inter> all_structs s bs = {}"
  proof (rule ccontr)
    assume "\<not> ?thesis"
    then obtain p c where p: "p \<in> structs_of s new" "c \<in> set bs" "p \<in> structs_of s c"
      by (auto simp: all_structs_def)
    have "0 < sm_size s" using ok by (simp add: sm_ok_def)
    moreover have "new + SM_NewBlockSize s \<le> c \<or> c + SM_NewBlockSize s \<le> new"
      using new p(2) by (auto simp: fresh_block_def)
    ultimately show False using structs_in [OF p(1)] structs_in [OF p(3)] by linarith
  qed
  moreover have "all_structs s (new # bs) = structs_of s new \<union> all_structs s bs" by (simp add: all_structs_def)
  ultimately have "live ?s (new # bs) [] = live s bs []"
    using un depleted_unused [OF ok d] by (auto simp: live_def same)
  moreover have "sm_ok (new # bs) [] (?s, ?m)"
    using ok ch apt cur new by (auto simp: sm_ok_def fresh_block_def)
  moreover have "\<not> SM_CurBlockIsDepleted ?s"
    using new by (simp add: SM_CurBlockIsDepleted_def fresh_block_def)
  ultimately show ?thesis using r by auto
qed

lemma allocate_ok:
  assumes ok: "sm_ok bs fs (s, m)" and new: "fresh_block new s bs"
    and r: "SM_AllocateStruct new (s, m) = (p, s', m')"
  shows "\<exists>bs' fs'. sm_ok bs' fs' (s', m') \<and> p \<notin> live s bs fs \<and> live s' bs' fs' = insert p (live s bs fs)"
proof (cases "sm_free s = 0")
  case False
  then have "p = sm_free s" "s' = s\<lparr>sm_free := m (sm_free s)\<rparr>" "m' = m"
    using r by (auto simp: SM_AllocateStruct_def SM_AllocateFree_def)
  then show ?thesis using allocate_free_ok [OF ok False] by blast
next
  case True
  then have fs: "fs = []" using ok chain_head [of m "sm_free s" fs] by (simp add: sm_ok_def)
  show ?thesis
  proof (cases "SM_CurBlockIsDepleted s")
    case False
    then have "p = sm_next s" "s' = s\<lparr>sm_next := sm_next s + sm_size s\<rparr>" "m' = m"
      using r True by (auto simp: SM_AllocateStruct_def SM_AllocateFromBlock_def SMBlk_NextStruct_def)
    then show ?thesis using allocate_block_ok [of bs s m] ok fs False by blast
  next
    case d: True
    from new_block_ok [OF _ d new, of m] ok fs obtain s1 m1 where
      1: "smAllocateBlock new (s, m) = (s1, m1)" "sm_ok (new # bs) [] (s1, m1)" "\<not> SM_CurBlockIsDepleted s1"
      "live s1 (new # bs) [] = live s bs []" by blast
    have "p = sm_next s1" "s' = s1\<lparr>sm_next := sm_next s1 + sm_size s1\<rparr>" "m' = m1"
      using r True d 1(1) by (auto simp: SM_AllocateStruct_def SM_AllocateFromBlock_def SMBlk_NextStruct_def)
    then show ?thesis using allocate_block_ok [OF 1(2,3)] 1(4) fs by auto
  qed
qed

section \<open>Deallocation\<close>

fun linked :: "store \<Rightarrow> nat list \<Rightarrow> bool" where
  "linked m (p # q # ps) = (m p = q \<and> linked m (q # ps))"
| "linked m ps = True"

lemma linked_cong: "linked m ps \<Longrightarrow> (\<And>x. x \<in> set (butlast ps) \<Longrightarrow> m' x = m x) \<Longrightarrow> linked m' ps"
  by (induction m ps rule: linked.induct) auto

lemma last_notin_butlast: "distinct ps \<Longrightarrow> ps \<noteq> [] \<Longrightarrow> last ps \<notin> set (butlast ps)"
  by (induction ps) auto

lemma mark_loop_list:
  "linked m ps \<Longrightarrow> ps \<noteq> [] \<Longrightarrow> distinct ps \<Longrightarrow> (\<And>p. p \<in> set ps \<Longrightarrow> p + 8 \<notin> set ps) \<Longrightarrow>
    mark_loop (hd ps) (last ps) m =
      Some (\<lambda>x. if x \<in> (\<lambda>p. p + 8) ` set ps then FREE_TRIE_NODE_MARK else m x)"
proof (induction ps arbitrary: m)
  case (Cons p ps)
  let ?m = "m(p + 8 := FREE_TRIE_NODE_MARK)"
  show ?case
  proof (cases ps)
    case Nil
    then show ?thesis by (subst mark_loop.simps) (auto simp: fun_eq_iff)
  next
    case (Cons q qs)
    have "p \<noteq> last ps" using Cons.prems(3) Cons by (metis distinct.simps(2) last_in_set list.distinct(1))
    moreover have "?m p = hd ps" using Cons.prems(1) Cons by simp
    moreover have "linked ?m ps"
    proof (rule linked_cong [of m])
      fix x assume "x \<in> set (butlast ps)"
      then have "x \<noteq> p + 8" using Cons.prems(4) [of p] in_set_butlastD [of x ps] by auto
      then show "?m x = m x" by simp
    qed (use Cons.prems(1) Cons in simp)
    then have "mark_loop (hd ps) (last ps) ?m =
        Some (\<lambda>x. if x \<in> (\<lambda>p. p + 8) ` set ps then FREE_TRIE_NODE_MARK else ?m x)"
    proof (rule Cons.IH)
    qed (use Cons.prems(2-4) Cons in auto)
    ultimately show ?thesis using Cons by (subst mark_loop.simps) (auto simp: fun_eq_iff)
  qed
qed simp

lemma linked_chain:
  "linked m ps \<Longrightarrow> ps \<noteq> [] \<Longrightarrow> m (last ps) = f \<Longrightarrow> chain m f fs \<Longrightarrow> 0 \<notin> set ps \<Longrightarrow> chain m (hd ps) (ps @ fs)"
  by (induction m ps rule: linked.induct) (auto split: if_splits)

lemma deallocate_ok:
  assumes ok: "sm_ok bs fs (s, m)" and ps: "ps \<noteq> []" "distinct ps" "set ps \<subseteq> live s bs fs" "linked m ps"
  shows "\<exists>s' m'. SM_DeallocateStructList (hd ps) (last ps) (s, m) = Some (s', m') \<and>
    sm_ok bs (ps @ fs) (s', m') \<and> live s' bs (ps @ fs) = live s bs fs - set ps"
proof -
  note O = ok [unfolded sm_ok_def prod.case]
  let ?m1 = "\<lambda>x. if x \<in> (\<lambda>p. p + 8) ` set ps then FREE_TRIE_NODE_MARK else m x"
  let ?m = "?m1(last ps := sm_free s)" and ?s = "s\<lparr>sm_free := hd ps\<rparr>"
  have all: "p \<in> all_structs s bs" if "p \<in> set ps" for p using ps(3) that by (auto simp: live_def)
  have off: "p + 8 \<notin> all_structs s bs" "p + 8 \<notin> set bs" if "p \<in> set ps" for p
    using apart [of s bs p "p + 8"] all [OF that] O by auto
  have base: "p \<notin> set bs" if "p \<in> set ps" for p
    using apart(2) [of s bs p p] all [OF that] O by auto
  have mark: "mark_loop (hd ps) (last ps) m = Some ?m1"
    using ps off(1) all by (intro mark_loop_list) auto
  have lst: "last ps \<in> set ps" using ps(1) by simp
  have keep: "?m x = m x" if "x \<in> all_structs s bs \<or> x \<in> set bs" "x \<noteq> last ps" for x
  proof -
    have "x \<notin> (\<lambda>p. p + 8) ` set ps" using that(1) off by blast
    with that(2) show ?thesis by simp
  qed
  have b: "chain ?m (sm_block s) bs"
  proof (rule chain_cong [of m])
    fix x assume "x \<in> set bs"
    then show "?m x = m x" using base [OF lst] by (intro keep) auto
  qed (use O in blast)
  have f: "chain ?m (sm_free s) fs"
  proof (rule chain_cong [of m])
    fix x assume "x \<in> set fs"
    then show "?m x = m x" using O ps(3) lst by (intro keep) (auto simp: live_def)
  qed (use O in blast)
  have "linked ?m ps"
  proof (rule linked_cong [OF ps(4)])
    fix x assume x: "x \<in> set (butlast ps)"
    then have "x \<noteq> last ps" using last_notin_butlast [OF ps(2,1)] by auto
    then show "?m x = m x" using all in_set_butlastD [OF x] by (intro keep) auto
  qed
  moreover have "p \<noteq> 0" if "p \<in> set ps" for p
    using all [OF that] by (auto simp: all_structs_def dest!: structs_in(1))
  then have "0 \<notin> set ps" by blast
  ultimately have c: "chain ?m (hd ps) (ps @ fs)" by (intro linked_chain [OF _ ps(1) _ f]) simp_all
  have "sm_ok bs (ps @ fs) (?s, ?m)"
    using O b c ps(2,3) by (auto simp: sm_ok_def live_def)
  moreover have "live ?s bs (ps @ fs) = live s bs fs - set ps" by (auto simp: live_def)
  moreover have "SM_DeallocateStructList (hd ps) (last ps) (s, m) = Some (?s, ?m)"
    by (simp add: SM_DeallocateStructList_def mark)
  ultimately show ?thesis by blast
qed

section \<open>The checks on references\<close>

lemma in_block_range:
  assumes ok: "sm_ok bs fs (s, m)" and b: "b \<in> set bs" "b + 8 \<le> p" "p \<le> b + 8 + sm_size s * (sm_num s - 1)"
    and p: "p \<in> all_structs s bs"
  shows "p \<in> structs_of s b"
proof -
  from p obtain c where c: "c \<in> set bs" "p \<in> structs_of s c" by (auto simp: all_structs_def)
  note O = ok [unfolded sm_ok_def prod.case]
  have "sm_size s * (sm_num s - 1) + sm_size s = sm_size s * sm_num s"
    using O by (simp add: algebra_simps diff_mult_distrib2)
  then have "p < b + SM_NewBlockSize s" using b(3) O by (simp add: SM_NewBlockSize_def)
  moreover have "0 < sm_size s" using O by linarith
  ultimately have "\<not> b < c" "\<not> c < b"
    using O b c(1) structs_in [OF c(2)] unfolding blocks_apart_def by fastforce+
  then show ?thesis using c(2) by simp
qed

lemma structs_of_mod:
  assumes "b + 8 \<le> p" "p \<le> b + 8 + sz * (n - 1)" "1 \<le> n" "0 < (sz :: nat)"
  shows "(p - (b + 8)) mod sz = 0 \<longleftrightarrow> (\<exists>i < n. p = b + 8 + i * sz)"
proof
  assume "(p - (b + 8)) mod sz = 0"
  then obtain i where i: "p - (b + 8) = sz * i" by (auto simp: mod_eq_0_iff_dvd)
  then have "sz * i \<le> sz * (n - 1)" using assms(2) by linarith
  then have "i \<le> n - 1" using assms(4) by simp
  then have "i < n" using assms(3) by linarith
  moreover have "p = b + 8 + i * sz" using i assms(1) by (simp add: mult.commute)
  ultimately show "\<exists>i < n. p = b + 8 + i * sz" by blast
qed (use assms in auto)

lemma valid_loop_chain:
  assumes "\<And>b. b \<in> set bs \<Longrightarrow> SMBlk_FirstStruct b \<le> p \<Longrightarrow> p \<le> SMBlk_LastStruct b (sm_size s) (sm_num s) \<Longrightarrow>
      A = ((p - SMBlk_FirstStruct b) mod sm_size s = 0)"
    and "(\<And>b. b \<in> set bs \<Longrightarrow> \<not> (SMBlk_FirstStruct b \<le> p \<and> p \<le> SMBlk_LastStruct b (sm_size s) (sm_num s))) \<Longrightarrow> \<not> A"
    and "chain m q bs"
  shows "valid_loop s m p q = Some A"
  using assms
proof (induction bs arbitrary: q)
  case (Cons b bs)
  show ?case
  proof (cases "SMBlk_FirstStruct b \<le> p \<and> p \<le> SMBlk_LastStruct b (sm_size s) (sm_num s)")
    case True
    have "A = ((p - SMBlk_FirstStruct b) mod sm_size s = 0)" using Cons.prems(1) [of b] True by simp
    then show ?thesis using Cons.prems(3) True by (subst valid_loop.simps) simp
  next
    case False
    have "valid_loop s m p (m b) = Some A"
      using Cons.prems False by (intro Cons.IH) auto
    then show ?thesis using Cons.prems(3) False by (subst valid_loop.simps) auto
  qed
qed (auto simp: valid_loop.simps)

lemma valid_ref:
  assumes ok: "sm_ok bs fs (s, m)"
  shows "smIsValidStructRef (s, m) p = Some (p \<in> all_structs s bs)"
proof -
  note O = ok [unfolded sm_ok_def prod.case]
  have "valid_loop s m p (sm_block s) = Some (p \<in> all_structs s bs)"
  proof (rule valid_loop_chain)
    fix b
    assume b: "b \<in> set bs" "SMBlk_FirstStruct b \<le> p" "p \<le> SMBlk_LastStruct b (sm_size s) (sm_num s)"
    then have r: "b + 8 \<le> p" "p \<le> b + 8 + sm_size s * (sm_num s - 1)"
      by (simp_all add: SMBlk_FirstStruct_def SMBlk_LastStruct_def)
    have "p \<in> all_structs s bs \<longleftrightarrow> p \<in> structs_of s b"
      using in_block_range [OF ok b(1) r] b(1) by (auto simp: all_structs_def)
    also have "\<dots> \<longleftrightarrow> (p - SMBlk_FirstStruct b) mod sm_size s = 0"
      using structs_of_mod [OF r] O by (auto simp: structs_of_def SMBlk_FirstStruct_def)
    finally show "(p \<in> all_structs s bs) = ((p - SMBlk_FirstStruct b) mod sm_size s = 0)" .
  next
    assume out: "\<And>b. b \<in> set bs \<Longrightarrow>
      \<not> (SMBlk_FirstStruct b \<le> p \<and> p \<le> SMBlk_LastStruct b (sm_size s) (sm_num s))"
    show "p \<notin> all_structs s bs"
    proof
      assume "p \<in> all_structs s bs"
      then obtain b i where b: "b \<in> set bs" "i < sm_num s" "p = b + 8 + i * sm_size s"
        by (auto simp: all_structs_def structs_of_def)
      have "i * sm_size s \<le> (sm_num s - 1) * sm_size s" using b(2) by (intro mult_le_mono1) linarith
      with out [OF b(1)] b(3) show False
        by (simp add: SMBlk_FirstStruct_def SMBlk_LastStruct_def mult.commute)
    qed
  qed (use O in simp)
  then show ?thesis by (simp add: smIsValidStructRef_def)
qed

lemma free_loop_chain: "chain m f fs \<Longrightarrow> free_loop m p f = Some (p \<notin> set fs)"
  by (induction fs arbitrary: f) (auto simp: free_loop.simps)

lemma unused_range:
  assumes ok: "sm_ok bs fs (s, m)" and p: "p \<in> all_structs s bs"
  shows "sm_next s \<le> p \<and> p \<le> sm_last s \<longleftrightarrow> p \<in> unused s bs"
proof -
  note O = ok [unfolded sm_ok_def prod.case]
  from p obtain b bs' where bs: "bs = b # bs'" by (cases bs) (auto simp: all_structs_def)
  from O bs obtain k where k: "sm_next s = b + 8 + k * sm_size s" and
    l: "sm_last s = b + 8 + (sm_num s - 1) * sm_size s" by (auto simp: cur_block_ok_def)
  show ?thesis
  proof
    assume a: "sm_next s \<le> p \<and> p \<le> sm_last s"
    then have "p \<in> structs_of s b"
      using bs k l by (intro in_block_range [OF ok _ _ _ p]) (auto simp: mult.commute)
    with a show "p \<in> unused s bs" by (simp add: unused_def bs)
  next
    assume "p \<in> unused s bs"
    then have u: "p \<in> structs_of s b" "sm_next s \<le> p" by (simp_all add: unused_def bs)
    then obtain i where i: "i < sm_num s" "p = b + 8 + i * sm_size s" by (auto simp: structs_of_def)
    have "i * sm_size s \<le> (sm_num s - 1) * sm_size s" using i(1) by (intro mult_le_mono1) linarith
    then show "sm_next s \<le> p \<and> p \<le> sm_last s" using u(2) i(2) l by simp
  qed
qed

lemma allocated_ref:
  assumes "sm_ok bs fs s"
  shows "smIsAllocatedStructRef s p = Some (p \<in> live (fst s) bs fs)"
proof -
  obtain r m where s: "s = (r, m)" by fastforce
  have "chain m (sm_free r) fs" using assms s by (simp add: sm_ok_def)
  from free_loop_chain [OF this, of p] valid_ref [of bs fs r m p] unused_range [of bs fs r m p] assms s
  show ?thesis
    by (cases "p \<in> all_structs r bs")
      (auto simp: smIsAllocatedStructRef_def smIsAllocatedStruct_def live_def)
qed

section \<open>Counting\<close>

lemma count_chain_length: "chain m p xs \<Longrightarrow> count_chain m p n = Some (n + length xs)"
  by (induction xs arbitrary: p n) (auto simp: count_chain.simps)

lemma card_structs_of: "0 < sm_size s \<Longrightarrow> finite (structs_of s b) \<and> card (structs_of s b) = sm_num s"
proof -
  assume "0 < sm_size s"
  then have "inj_on (\<lambda>i. b + 8 + i * sm_size s) {..<sm_num s}" by (auto simp: inj_on_def)
  moreover have "structs_of s b = (\<lambda>i. b + 8 + i * sm_size s) ` {..<sm_num s}"
    by (auto simp: structs_of_def)
  ultimately show ?thesis by (simp add: card_image)
qed

lemma card_all_structs:
  "sm_ok bs fs (s, m) \<Longrightarrow> finite (all_structs s bs) \<and> card (all_structs s bs) = length bs * sm_num s"
proof -
  assume ok: "sm_ok bs fs (s, m)"
  note O = ok [unfolded sm_ok_def prod.case]
  have sz: "0 < sm_size s" using O by linarith
  have "structs_of s b \<inter> structs_of s c = {}" if "b \<in> set bs" "c \<in> set bs" "b \<noteq> c" for b c
  proof (rule ccontr)
    assume "\<not> ?thesis"
    then obtain p where p: "p \<in> structs_of s b" "p \<in> structs_of s c" by auto
    have "b + SM_NewBlockSize s \<le> c \<or> c + SM_NewBlockSize s \<le> b"
      using O that unfolding blocks_apart_def by (metis linorder_neqE_nat)
    then show False using structs_in [OF p(1)] structs_in [OF p(2)] sz by linarith
  qed
  then have "card (all_structs s bs) = (\<Sum>b \<in> set bs. sm_num s)"
    unfolding all_structs_def using card_structs_of [OF sz] by (subst card_UN_disjoint) auto
  moreover have "card (set bs) = length bs" using O by (simp add: blocks_apart_def distinct_card)
  ultimately show ?thesis using card_structs_of [OF sz] by (simp add: all_structs_def)
qed

lemma card_unused:
  assumes ok: "sm_ok bs fs (s, m)"
  shows "card (unused s bs) = SM_NumStructsLeftInBlock s"
proof (cases "SM_CurBlockIsDepleted s")
  case True
  then show ?thesis using depleted_unused [OF ok True] by (simp add: SM_NumStructsLeftInBlock_def)
next
  case False
  note O = ok [unfolded sm_ok_def prod.case]
  have sz: "0 < sm_size s" using O by linarith
  from O False obtain b bs' where bs: "bs = b # bs'"
    by (cases bs) (auto simp: SM_CurBlockIsDepleted_def)
  from O bs obtain k where k: "sm_next s = b + 8 + k * sm_size s" and
    l: "sm_last s = b + 8 + (sm_num s - 1) * sm_size s" by (auto simp: cur_block_ok_def)
  have "sm_next s \<le> sm_last s" using False by (simp add: SM_CurBlockIsDepleted_def)
  then have "k * sm_size s \<le> (sm_num s - 1) * sm_size s" unfolding k l by linarith
  then have kn: "k \<le> sm_num s - 1" using sz by simp
  have "unused s bs = (\<lambda>i. b + 8 + i * sm_size s) ` {k..<sm_num s}"
    using sz k by (auto simp: unused_def structs_of_def bs)
  moreover have "inj_on (\<lambda>i. b + 8 + i * sm_size s) {k..<sm_num s}" using sz by (auto simp: inj_on_def)
  ultimately have "card (unused s bs) = sm_num s - k" by (simp add: card_image)
  moreover have "sm_last s - sm_next s = (sm_num s - 1 - k) * sm_size s"
    unfolding k l by (simp add: diff_mult_distrib)
  then have "(sm_last s - sm_next s) div sm_size s = sm_num s - 1 - k" using sz by simp
  moreover have "k < sm_num s" using kn O by linarith
  ultimately show ?thesis using False by (simp add: SM_NumStructsLeftInBlock_def)
qed

lemma count_free:
  assumes ok: "sm_ok bs fs s"
  shows "\<exists>free blocks cap. SM_CountFreeStructs s = Some free \<and> SM_CurrentCapacity s = Some (blocks, cap) \<and>
    free + card (live (fst s) bs fs) = cap"
proof -
  obtain r m where s: "s = (r, m)" by fastforce
  note O = ok [unfolded s sm_ok_def prod.case]
  have fin: "finite (all_structs r bs)" and card: "card (all_structs r bs) = length bs * sm_num r"
    using card_all_structs ok s by auto
  have sub: "unused r bs \<subseteq> all_structs r bs" by (auto simp: unused_def all_structs_def split: if_splits intro: hd_in_set)
  have "live r bs fs = all_structs r bs - (unused r bs \<union> set fs)" by (auto simp: live_def)
  moreover have "card (unused r bs \<union> set fs) = card (unused r bs) + length fs"
    using O fin sub by (subst card_Un_disjoint) (auto simp: distinct_card intro: finite_subset)
  moreover have "unused r bs \<union> set fs \<subseteq> all_structs r bs" using O sub by auto
  ultimately have l: "card (live r bs fs) + (card (unused r bs) + length fs) = length bs * sm_num r"
    using fin card by (metis add.commute card_Diff_subset card_mono finite_subset le_add_diff_inverse)
  have "SM_CountFreeStructs s = Some (card (unused r bs) + length fs)"
  proof (cases "bs = []")
    case True
    then have "sm_block r = 0" "fs = []" using O by (auto simp: all_structs_def)
    then show ?thesis using True by (simp add: SM_CountFreeStructs_def s unused_def)
  next
    case False
    then have "sm_block r \<noteq> 0" using O chain_head [of m "sm_block r" bs] by simp
    then show ?thesis using count_chain_length [of m "sm_free r" fs] O card_unused [of bs fs r m] ok s
      by (simp add: SM_CountFreeStructs_def)
  qed
  moreover have "SM_CurrentCapacity s = Some (length bs, length bs * sm_num r)"
    using count_chain_length [of m "sm_block r" bs 0] O by (simp add: SM_CurrentCapacity_def s)
  ultimately show ?thesis using l s by simp
qed

lemma free_blocks_chain: "chain m b bs \<Longrightarrow> free_blocks_loop m b = Some bs"
  by (induction bs arbitrary: b) (auto simp: free_blocks_loop.simps)

section \<open>The interface of an allocator\<close>

text \<open>
  A client gets records, writes into those it has, and puts them back, in any order. \<open>own\<close> is
  the set of its records before the session and \<open>own'\<close> after it.
\<close>

datatype 'p request = Get 'p | Put 'p | Write 'p

fun session :: "('p \<Rightarrow> 's \<Rightarrow> 's \<Rightarrow> bool) \<Rightarrow> ('p \<Rightarrow> 's \<Rightarrow> 's \<Rightarrow> bool) \<Rightarrow> ('p \<Rightarrow> 's \<Rightarrow> 's \<Rightarrow> bool) \<Rightarrow>
    'p request list \<Rightarrow> 'p set \<Rightarrow> 's \<Rightarrow> 'p set \<Rightarrow> 's \<Rightarrow> bool" where
  "session al de wr [] own s own' s' = (own' = own \<and> s' = s)"
| "session al de wr (Get p # rs) own s own' s' = (\<exists>s1. al p s s1 \<and> session al de wr rs (insert p own) s1 own' s')"
| "session al de wr (Put p # rs) own s own' s' =
     (p \<in> own \<and> (\<exists>s1. de p s s1 \<and> session al de wr rs (own - {p}) s1 own' s'))"
| "session al de wr (Write p # rs) own s own' s' =
     (p \<in> own \<and> (\<exists>s1. wr p s s1 \<and> session al de wr rs own s1 own' s'))"

text \<open>Every record the client gets is at that time neither its own nor one of the \<open>others\<close>.\<close>

fun fresh_gets :: "'p request list \<Rightarrow> 'p set \<Rightarrow> 'p set \<Rightarrow> bool" where
  "fresh_gets [] own others = True"
| "fresh_gets (Get p # rs) own others = (p \<notin> own \<and> p \<notin> others \<and> fresh_gets rs (insert p own) others)"
| "fresh_gets (Put p # rs) own others = fresh_gets rs (own - {p}) others"
| "fresh_gets (Write p # rs) own others = fresh_gets rs own others"

text \<open>What a client relies on, and what follows for any session.\<close>

locale allocator =
  fixes good :: "'s \<Rightarrow> bool" and in_use :: "'s \<Rightarrow> 'p set" and data :: "'s \<Rightarrow> 'p \<Rightarrow> 'd"
    and alloc :: "'p \<Rightarrow> 's \<Rightarrow> 's \<Rightarrow> bool" and dealloc :: "'p \<Rightarrow> 's \<Rightarrow> 's \<Rightarrow> bool" and writes :: "'p \<Rightarrow> 's \<Rightarrow> 's \<Rightarrow> bool"
  assumes alloc_use: "good s \<Longrightarrow> alloc p s s' \<Longrightarrow> good s' \<and> p \<notin> in_use s \<and> in_use s' = insert p (in_use s) \<and>
      (\<forall>q \<in> in_use s. data s' q = data s q)"
    and dealloc_use: "good s \<Longrightarrow> p \<in> in_use s \<Longrightarrow> dealloc p s s' \<Longrightarrow> good s' \<and> in_use s' = in_use s - {p} \<and>
      (\<forall>q \<in> in_use s - {p}. data s' q = data s q)"
    and writes_use: "good s \<Longrightarrow> p \<in> in_use s \<Longrightarrow> writes p s s' \<Longrightarrow> good s' \<and> in_use s' = in_use s \<and>
      (\<forall>q \<in> in_use s - {p}. data s' q = data s q)"
begin

lemma session_use:
  "session alloc dealloc writes rs own s own' s' \<Longrightarrow> good s \<Longrightarrow> own \<subseteq> in_use s \<Longrightarrow>
    good s' \<and> own' \<subseteq> in_use s' \<and> in_use s' - own' = in_use s - own \<and> fresh_gets rs own (in_use s - own) \<and>
    (\<forall>q \<in> in_use s - own. data s' q = data s q)"
proof (induction rs arbitrary: own s)
  case (Cons r rs)
  show ?case
  proof (cases r)
    case (Get p)
    then obtain s1 where s1: "alloc p s s1" "session alloc dealloc writes rs (insert p own) s1 own' s'"
      using Cons.prems(1) by auto
    note u = alloc_use [OF Cons.prems(2) s1(1)]
    then have "in_use s1 - insert p own = in_use s - own" by auto
    with Cons.IH [OF s1(2)] u Cons.prems(3) Get show ?thesis by auto
  next
    case (Put p)
    then obtain s1 where s1: "p \<in> own" "dealloc p s s1" "session alloc dealloc writes rs (own - {p}) s1 own' s'"
      using Cons.prems(1) by auto
    have p: "p \<in> in_use s" using s1(1) Cons.prems(3) by blast
    note u = dealloc_use [OF Cons.prems(2) p s1(2)]
    then have "in_use s1 - (own - {p}) = in_use s - own" using s1(1) by auto
    with Cons.IH [OF s1(3)] u s1(1) Cons.prems(3) Put show ?thesis by auto
  next
    case (Write p)
    then obtain s1 where s1: "p \<in> own" "writes p s s1" "session alloc dealloc writes rs own s1 own' s'"
      using Cons.prems(1) by auto
    have p: "p \<in> in_use s" using s1(1) Cons.prems(3) by blast
    note u = writes_use [OF Cons.prems(2) p s1(2)]
    with Cons.IH [OF s1(3)] s1(1) Cons.prems(3) Write show ?thesis by auto
  qed
qed simp

end

definition sm_good :: "sm \<times> store \<Rightarrow> bool" where
  "sm_good s \<longleftrightarrow> (\<exists>bs fs. sm_ok bs fs s)"

definition sm_live :: "sm \<times> store \<Rightarrow> nat set" where
  "sm_live s = {p. smIsAllocatedStructRef s p = Some True}"

definition sm_allocs :: "nat \<Rightarrow> sm \<times> store \<Rightarrow> sm \<times> store \<Rightarrow> bool" where
  "sm_allocs p s s' \<longleftrightarrow>
     (\<exists>new. (\<forall>bs fs. sm_ok bs fs s \<longrightarrow> fresh_block new (fst s) bs) \<and> SM_AllocateStruct new s = (p, s'))"

definition sm_deallocs :: "nat \<Rightarrow> sm \<times> store \<Rightarrow> sm \<times> store \<Rightarrow> bool" where
  "sm_deallocs p s s' \<longleftrightarrow> SM_DeallocateStruct p s = Some s'"

text \<open>A client stores a value at an address within its record.\<close>

definition sm_writes :: "nat \<Rightarrow> sm \<times> store \<Rightarrow> sm \<times> store \<Rightarrow> bool" where
  "sm_writes p s s' \<longleftrightarrow> (\<exists>a v. p \<le> a \<and> a < p + sm_size (fst s) \<and> s' = (fst s, (snd s)(a := v)))"

definition sm_data :: "sm \<times> store \<Rightarrow> nat \<Rightarrow> nat list" where
  "sm_data s p = map (snd s) [p..<p + sm_size (fst s)]"

lemma sm_live_ok: "sm_ok bs fs s \<Longrightarrow> sm_live s = live (fst s) bs fs"
  using allocated_ref [of bs fs s] by (simp add: sm_live_def)

lemma live_in_block:
  assumes "q \<in> live r bs fs" "q \<le> a" "a < q + sm_size r"
  shows "\<exists>b \<in> set bs. b \<le> a \<and> a < b + SM_NewBlockSize r"
proof -
  from assms(1) obtain b where b: "b \<in> set bs" "q \<in> structs_of r b" by (auto simp: live_def all_structs_def)
  then show ?thesis using structs_in [OF b(2)] assms(2,3) by (intro bexI [of _ b]) auto
qed

lemma allocate_store:
  assumes "SM_AllocateStruct new (r, m) = (p, r', m')"
  shows "sm_size r' = sm_size r" "\<not> (new \<le> a \<and> a < new + SM_NewBlockSize r) \<Longrightarrow> m' a = m a"
proof -
  have "0 < SM_NewBlockSize r" by (simp add: SM_NewBlockSize_def)
  then show "\<not> (new \<le> a \<and> a < new + SM_NewBlockSize r) \<Longrightarrow> m' a = m a" "sm_size r' = sm_size r"
    using assms by (auto simp: SM_AllocateStruct_def SM_AllocateFree_def SM_AllocateFromBlock_def
        smAllocateBlock_def Let_def split: if_splits)
qed

lemma sm_allocs_use:
  assumes "sm_good s" "sm_allocs p s s'"
  shows "sm_good s' \<and> p \<notin> sm_live s \<and> sm_live s' = insert p (sm_live s) \<and> (\<forall>q \<in> sm_live s. sm_data s' q = sm_data s q)"
proof -
  from assms(1) obtain bs fs where ok: "sm_ok bs fs s" by (auto simp: sm_good_def)
  with assms(2) obtain new where new: "fresh_block new (fst s) bs" "SM_AllocateStruct new s = (p, s')"
    by (auto simp: sm_allocs_def)
  obtain r m r' m' where s: "s = (r, m)" "s' = (r', m')" by fastforce
  from allocate_ok [of bs fs r m new p r' m'] ok new s obtain bs' fs' where
    A: "sm_ok bs' fs' s'" "p \<notin> live r bs fs" "live r' bs' fs' = insert p (live r bs fs)" by auto
  have "sm_data s' q = sm_data s q" if q: "q \<in> live r bs fs" for q
  proof -
    have "m' a = m a" if a: "q \<le> a" "a < q + sm_size r" for a
    proof -
      obtain b where "b \<in> set bs" "b \<le> a" "a < b + SM_NewBlockSize r" using live_in_block [OF q a] by blast
      moreover from this have "new + SM_NewBlockSize r \<le> b \<or> b + SM_NewBlockSize r \<le> new"
        using new(1) s by (auto simp: fresh_block_def)
      ultimately show ?thesis using allocate_store(2) [of new r m p r' m' a] new(2) s by auto
    qed
    then show ?thesis using allocate_store(1) [of new r m p r' m'] new(2) s by (auto simp: sm_data_def)
  qed
  with A sm_live_ok [OF ok] sm_live_ok [of bs' fs' s'] s show ?thesis by (auto simp: sm_good_def)
qed

lemma sm_deallocs_use:
  assumes "sm_good s" "p \<in> sm_live s" "sm_deallocs p s s'"
  shows "sm_good s' \<and> sm_live s' = sm_live s - {p} \<and> (\<forall>q \<in> sm_live s - {p}. sm_data s' q = sm_data s q)"
proof -
  from assms(1) obtain bs fs where ok: "sm_ok bs fs s" by (auto simp: sm_good_def)
  obtain r m where s: "s = (r, m)" by fastforce
  note ok' = ok [unfolded s sm_ok_def prod.case]
  have L: "sm_live s = live r bs fs" using sm_live_ok [OF ok] s by simp
  from deallocate_ok [of bs fs r m "[p]"] ok s assms(2) L obtain r' m' where
    D: "SM_DeallocateStructList p p (r, m) = Some (r', m')" "sm_ok bs (p # fs) (r', m')"
    "live r' bs (p # fs) = live r bs fs - {p}" by auto
  have m': "r' = r\<lparr>sm_free := p\<rparr>" "m' = m(p + 8 := FREE_TRIE_NODE_MARK, p := sm_free r)"
    using D(1) by (auto simp: SM_DeallocateStructList_def mark_loop.simps)
  have "sm_data (r', m') q = sm_data s q" if q: "q \<in> live r bs fs" "q \<noteq> p" for q
  proof -
    have all: "p \<in> all_structs r bs" "q \<in> all_structs r bs" using q(1) assms(2) unfolding L by (auto simp: live_def)
    have sz: "16 \<le> sm_size r" and ap: "blocks_apart r bs" using ok' by auto
    have "\<not> (q \<le> a \<and> a < q + sm_size r)" if "a = p \<or> a = p + 8" for a
    proof
      assume a: "q \<le> a \<and> a < q + sm_size r"
      show False
      proof (cases "q \<le> p")
        case True
        then show False using apart(1) [OF ap all(2) True _ all(1)] a that q(2) by auto
      next
        case False
        then have "p \<le> q" "q < p + sm_size r" using a that sz by auto
        then show False using apart(1) [OF ap all(1) _ _ all(2)] q(2) by simp
      qed
    qed
    then have "map m' [q..<q + sm_size r] = map m [q..<q + sm_size r]" unfolding m'(2) by auto
    then show ?thesis using s m'(1) by (simp add: sm_data_def)
  qed
  then show ?thesis using assms(3) D L s sm_live_ok [of bs "p # fs" "(r', m')"]
    by (auto simp: sm_deallocs_def SM_DeallocateStruct_def sm_good_def)
qed

lemma sm_writes_use:
  assumes "sm_good s" "p \<in> sm_live s" "sm_writes p s s'"
  shows "sm_good s' \<and> sm_live s' = sm_live s \<and> (\<forall>q \<in> sm_live s - {p}. sm_data s' q = sm_data s q)"
proof -
  from assms(1) obtain bs fs where ok: "sm_ok bs fs s" by (auto simp: sm_good_def)
  obtain r m where s: "s = (r, m)" by fastforce
  note ok' = ok [unfolded s sm_ok_def prod.case]
  have L: "sm_live s = live r bs fs" using sm_live_ok [OF ok] s by simp
  from assms(3) s obtain a v where a: "p \<le> a" "a < p + sm_size r" "s' = (r, m(a := v))" by (auto simp: sm_writes_def)
  have p: "p \<in> all_structs r bs" "p \<notin> set fs" using assms(2) unfolding L by (auto simp: live_def)
  have ap: "blocks_apart r bs" using ok' by blast
  have bs: "a \<notin> set bs" using apart(2) [OF ap p(1) a(1,2)] .
  have fs: "a \<notin> set fs"
  proof
    assume "a \<in> set fs"
    moreover from this have "a \<in> all_structs r bs" using ok' by blast
    ultimately show False using apart(1) [OF ap p(1) a(1,2)] p(2) by simp
  qed
  have "chain (m(a := v)) (sm_block r) bs" "chain (m(a := v)) (sm_free r) fs"
    using ok' bs fs by (auto intro!: chain_cong [of m])
  then have ok1: "sm_ok bs fs s'" using ok' a(3) by (simp add: sm_ok_def)
  have "sm_data s' q = sm_data s q" if q: "q \<in> live r bs fs" "q \<noteq> p" for q
  proof -
    have all: "q \<in> all_structs r bs" using q(1) by (simp add: live_def)
    have "\<not> (q \<le> a \<and> a < q + sm_size r)"
    proof
      assume x: "q \<le> a \<and> a < q + sm_size r"
      show False
      proof (cases "q \<le> p")
        case True
        then show False using apart(1) [OF ap all True _ p(1)] x a(1) q(2) by auto
      next
        case False
        then show False using apart(1) [OF ap p(1) _ _ all] x a(2) q(2) by auto
      qed
    qed
    then have "map (m(a := v)) [q..<q + sm_size r] = map m [q..<q + sm_size r]" by auto
    then show ?thesis using s a(3) by (simp add: sm_data_def)
  qed
  then show ?thesis using ok1 L sm_live_ok [OF ok1] a(3) by (auto simp: sm_good_def)
qed

interpretation pool: allocator sm_good sm_live sm_data sm_allocs sm_deallocs sm_writes
  by unfold_locales (use sm_allocs_use sm_deallocs_use sm_writes_use in blast)+

section \<open>The list of records in use\<close>

text \<open>The doubly linked list that clients keep through the manager; \<open>None\<close> is the abort.\<close>

record dll =
  dl_prev :: "nat \<Rightarrow> nat"
  dl_next :: "nat \<Rightarrow> nat"
  dl_head :: nat

definition SM_AddToAllocList_DL :: "nat \<Rightarrow> dll \<Rightarrow> dll" where
  "SM_AddToAllocList_DL p l =
     (let l1 = l\<lparr>dl_prev := (dl_prev l)(p := 0), dl_next := (dl_next l)(p := dl_head l), dl_head := p\<rparr>
      in if dl_next l1 p \<noteq> 0 then l1\<lparr>dl_prev := (dl_prev l1)(dl_next l1 p := p)\<rparr> else l1)"

definition unlink_next :: "nat \<Rightarrow> dll \<Rightarrow> dll" where
  "unlink_next p l =
     (let l1 = (if dl_next l p \<noteq> 0 then l\<lparr>dl_prev := (dl_prev l)(dl_next l p := dl_prev l p)\<rparr> else l)
      in l1\<lparr>dl_prev := (dl_prev l1)(p := 0), dl_next := (dl_next l1)(p := 0)\<rparr>)"

definition SM_RemoveFromAllocList_DL :: "nat \<Rightarrow> dll \<Rightarrow> dll option" where
  "SM_RemoveFromAllocList_DL p l =
     (if dl_prev l p \<noteq> 0 then
        Some (unlink_next p (l\<lparr>dl_next := (dl_next l)(dl_prev l p := dl_next l p)\<rparr>))
      else if dl_head l = p then Some (unlink_next p (l\<lparr>dl_head := dl_next l p\<rparr>))
      else None)"

fun dlinked :: "(nat \<Rightarrow> nat) \<Rightarrow> (nat \<Rightarrow> nat) \<Rightarrow> nat \<Rightarrow> nat \<Rightarrow> nat list \<Rightarrow> bool" where
  "dlinked pr nx q p [] = (p = 0)"
| "dlinked pr nx q p (x # xs) = (p = x \<and> x \<noteq> 0 \<and> pr x = q \<and> dlinked pr nx x (nx x) xs)"

definition dl_list :: "dll \<Rightarrow> nat list \<Rightarrow> bool" where
  "dl_list l xs \<longleftrightarrow> distinct xs \<and> dlinked (dl_prev l) (dl_next l) 0 (dl_head l) xs"

lemma dlinked_cong:
  "dlinked pr nx q p xs \<Longrightarrow> (\<And>x. x \<in> set xs \<Longrightarrow> pr' x = pr x \<and> nx' x = nx x) \<Longrightarrow> dlinked pr' nx' q p xs"
  by (induction xs arbitrary: q p) auto

lemma dlinked_head: "dlinked pr nx q p xs \<Longrightarrow> p = (case xs of [] \<Rightarrow> 0 | x # _ \<Rightarrow> x)"
  by (cases xs) auto

lemma dlinked_nonzero: "dlinked pr nx q p xs \<Longrightarrow> 0 \<notin> set xs"
  by (induction xs arbitrary: q p) auto

text \<open>Giving the first record of a list another predecessor.\<close>

lemma dlinked_prev:
  "dlinked pr nx q p xs \<Longrightarrow> distinct xs \<Longrightarrow> (\<And>x. x \<in> set xs \<Longrightarrow> nx' x = nx x) \<Longrightarrow>
    (\<And>x. x \<in> set xs \<Longrightarrow> pr' x = (if x = p then q' else pr x)) \<Longrightarrow> dlinked pr' nx' q' p xs"
  by (cases xs) (auto intro: dlinked_cong)

lemma add_dl: "dl_list l xs \<Longrightarrow> p \<noteq> 0 \<Longrightarrow> p \<notin> set xs \<Longrightarrow> dl_list (SM_AddToAllocList_DL p l) (p # xs)"
proof -
  assume l: "dl_list l xs" and p: "p \<noteq> 0" "p \<notin> set xs"
  from l have d: "distinct xs" "dlinked (dl_prev l) (dl_next l) 0 (dl_head l) xs" by (simp_all add: dl_list_def)
  let ?l = "SM_AddToAllocList_DL p l"
  have h: "dl_head l = (case xs of [] \<Rightarrow> 0 | x # _ \<Rightarrow> x)" by (rule dlinked_head [OF d(2)])
  then have ne: "dl_head l \<noteq> p" using p by (cases xs) auto
  have f: "dl_head ?l = p" "dl_next ?l = (dl_next l)(p := dl_head l)" "dl_prev ?l p = 0"
    "\<And>x. x \<noteq> p \<Longrightarrow> x \<noteq> 0 \<Longrightarrow> dl_prev ?l x = (if x = dl_head l then p else dl_prev l x)"
    using ne p by (auto simp: SM_AddToAllocList_DL_def Let_def)
  have "dlinked (dl_prev ?l) (dl_next ?l) p (dl_head l) xs"
  proof (rule dlinked_prev [OF d(2,1)])
    fix x assume x: "x \<in> set xs"
    then have "x \<noteq> p" "x \<noteq> 0" using p dlinked_nonzero [OF d(2)] by metis+
    then show "dl_next ?l x = dl_next l x" "dl_prev ?l x = (if x = dl_head l then p else dl_prev l x)"
      using f by simp_all
  qed
  then show ?thesis using f p d by (simp add: dl_list_def)
qed

lemma dlinked_next_in: "dlinked pr nx q p xs \<Longrightarrow> y \<in> set xs \<Longrightarrow> nx y = 0 \<or> nx y \<in> set xs"
proof (induction xs arbitrary: q p)
  case (Cons x xs)
  then show ?case using dlinked_head [of pr nx x "nx x" xs] by (auto split: list.splits)
qed simp

text \<open>Taking a record out of the middle of a list.\<close>

lemma dlinked_remove:
  assumes "dlinked pr nx q p xs" "distinct xs" "r \<in> set xs"
    and "\<And>x. x \<in> set xs \<Longrightarrow> x \<noteq> r \<Longrightarrow> nx' x = (if nx x = r then nx r else nx x)"
    and "\<And>x. x \<in> set xs \<Longrightarrow> x \<noteq> r \<Longrightarrow> pr' x = (if x = nx r then pr r else pr x)"
  shows "dlinked pr' nx' q (if p = r then nx r else p) (remove1 r xs)"
  using assms
proof (induction xs arbitrary: q p)
  case (Cons x xs)
  show ?case
  proof (cases "x = r")
    case True
    then have l: "dlinked pr nx r (nx r) xs" "r \<notin> set xs" "pr r = q" using Cons.prems by auto
    have "dlinked pr' nx' q (nx r) xs"
    proof (rule dlinked_prev [OF l(1)])
      fix y assume y: "y \<in> set xs"
      have ry: "r \<noteq> 0" "y \<noteq> r" using Cons.prems(1) True y l(2) by auto
      then have "nx y \<noteq> r" using dlinked_next_in [OF l(1) y] l(2) by auto
      then show "nx' y = nx y" using Cons.prems(4) [of y] y ry by simp
      show "pr' y = (if y = nx r then q else pr y)" using Cons.prems(5) [of y] y ry l(3) by simp
    qed (use Cons.prems in simp)
    then show ?thesis using True Cons.prems(1) by simp
  next
    case False
    then have p: "p = x" "x \<noteq> 0" "pr x = q" "dlinked pr nx x (nx x) xs" "r \<in> set xs" using Cons.prems by auto
    have "dlinked pr' nx' x (if nx x = r then nx r else nx x) (remove1 r xs)"
      using Cons.prems p by (intro Cons.IH) auto
    moreover have "nx' x = (if nx x = r then nx r else nx x)" using Cons.prems(4) [of x] False by simp
    moreover have "pr' x = q"
    proof -
      have "x \<noteq> nx r" using dlinked_next_in [OF p(4,5)] p(2) Cons.prems(2) by auto
      then show ?thesis using Cons.prems(5) [of x] False p by simp
    qed
    ultimately show ?thesis using False p by simp
  qed
qed simp

lemma dlinked_pred:
  "dlinked pr nx q p xs \<Longrightarrow> distinct xs \<Longrightarrow> r \<in> set xs \<Longrightarrow>
    r = p \<and> pr r = q \<or> r \<noteq> p \<and> pr r \<in> set xs \<and> nx (pr r) = r \<and> pr r \<noteq> r"
proof (induction xs arbitrary: q p)
  case (Cons x xs)
  show ?case
  proof (cases "r = x")
    case False
    then have l: "dlinked pr nx x (nx x) xs" "r \<in> set xs" using Cons.prems by auto
    with Cons.IH [OF l(1) _ l(2)] Cons.prems show ?thesis by auto
  qed (use Cons.prems in simp)
qed simp

lemma dlinked_succ: "dlinked pr nx q p xs \<Longrightarrow> x \<in> set xs \<Longrightarrow> nx x \<noteq> 0 \<Longrightarrow> pr (nx x) = x"
proof (induction xs arbitrary: q p)
  case (Cons y xs)
  then show ?case using dlinked_head [of pr nx y "nx y" xs] by (cases xs) auto
qed simp

lemma dlinked_next_other: "dlinked pr nx q p xs \<Longrightarrow> distinct xs \<Longrightarrow> x \<in> set xs \<Longrightarrow> nx x \<noteq> x"
proof (induction xs arbitrary: q p)
  case (Cons y xs)
  show ?case
  proof (cases "x = y")
    case True
    then show ?thesis using Cons.prems dlinked_head [of pr nx y "nx y" xs] by (cases xs) auto
  qed (use Cons in auto)
qed simp

lemma remove_dl:
  assumes l: "dl_list l xs" and r: "r \<in> set xs"
  shows "\<exists>l'. SM_RemoveFromAllocList_DL r l = Some l' \<and> dl_list l' (remove1 r xs) \<and>
    dl_prev l' r = 0 \<and> dl_next l' r = 0"
proof -
  from l have d: "distinct xs" "dlinked (dl_prev l) (dl_next l) 0 (dl_head l) xs" by (simp_all add: dl_list_def)
  have nz: "x \<noteq> 0" if "x \<in> set xs" for x using dlinked_nonzero [OF d(2)] that by metis
  note pred = dlinked_pred [OF d(2,1) r]
  have first: "dl_prev l r = 0 \<longleftrightarrow> dl_head l = r" using pred nz [of "dl_prev l r"] by auto
  let ?n = "if dl_prev l r \<noteq> 0 then (dl_next l)(dl_prev l r := dl_next l r) else dl_next l"
  let ?h = "if dl_head l = r then dl_next l r else dl_head l"
  let ?p = "if dl_next l r \<noteq> 0 then (dl_prev l)(dl_next l r := dl_prev l r) else dl_prev l"
  let ?l = "l\<lparr>dl_prev := ?p(r := 0), dl_next := ?n(r := 0), dl_head := ?h\<rparr>"
  have nr: "?n r = dl_next l r" using pred by auto
  have "SM_RemoveFromAllocList_DL r l = Some ?l"
    using first nr by (cases "dl_prev l r = 0") (auto simp: SM_RemoveFromAllocList_DL_def unlink_next_def Let_def)
  moreover have "dlinked (?p(r := 0)) (?n(r := 0)) 0 (if dl_head l = r then dl_next l r else dl_head l) (remove1 r xs)"
  proof (rule dlinked_remove [OF d(2,1) r])
    fix x assume x: "x \<in> set xs" "x \<noteq> r"
    have "dl_next l x = r \<longleftrightarrow> x = dl_prev l r"
      using dlinked_succ [OF d(2) x(1)] nz [OF r] pred dlinked_pred [OF d(2,1) x(1)] nz [OF x(1)] by metis
    moreover have "dl_prev l r \<noteq> 0" if "x = dl_prev l r" using nz [OF x(1)] that by simp
    ultimately show "(?n(r := 0)) x = (if dl_next l x = r then dl_next l r else dl_next l x)" using x by auto
    show "(?p(r := 0)) x = (if x = dl_next l r then dl_prev l r else dl_prev l x)" using x nz [OF x(1)] by auto
  qed
  ultimately show ?thesis using d(1) by (intro exI [of _ ?l]) (simp add: dl_list_def distinct_remove1)
qed

section \<open>Properties\<close>

text \<open>Allocating takes a record that was not in use, from the free list, the current
  block or a new block, and puts exactly it in use; the manager stays well formed.\<close>

theorem allocate_struct:
  assumes "sm_ok bs fs (s, m)" "fresh_block new s bs" "SM_AllocateStruct new (s, m) = (p, s', m')"
  shows "\<exists>bs' fs'. sm_ok bs' fs' (s', m') \<and> p \<notin> live s bs fs \<and> live s' bs' fs' = insert p (live s bs fs)"
  by (rule allocate_ok [OF assms])

text \<open>A manager of records of 16 bytes, three to a block, with one block at 100 and its second
  record on the free list; the third was never handed out.\<close>

definition demo_sm :: sm where
  "demo_sm = \<lparr>sm_block = 100, sm_next = 140, sm_last = 140, sm_size = 16, sm_num = 3, sm_alloc = 0,
     sm_free = 124\<rparr>"

lemma demo_structs: "structs_of demo_sm 100 = {108, 124, 140}"
proof -
  have "i < 3 \<longleftrightarrow> i = 0 \<or> i = 1 \<or> i = 2" for i :: nat by linarith
  then show ?thesis unfolding structs_of_def demo_sm_def sm.simps by (simp add: conj_disj_distribL conj_disj_distribR ex_disj_distrib) blast
qed

lemma demo_sm_ok: "sm_ok [100] [124] (demo_sm, \<lambda>_. 0)"
proof -
  have "cur_block_ok demo_sm [100]" by (auto simp: cur_block_ok_def demo_sm_def intro!: exI [of _ 2])
  then show ?thesis
    by (simp add: sm_ok_def all_structs_def unused_def demo_structs blocks_apart_def)
      (simp add: demo_sm_def)
qed

lemma demo_live: "live demo_sm [100] [124] = {108}"
  by (auto simp: live_def all_structs_def unused_def demo_structs) (auto simp: demo_sm_def)

theorem allocate_struct_witness:
  "\<exists>p s' m' bs' fs'. SM_AllocateStruct 500 (demo_sm, \<lambda>_. 0) = (p, s', m') \<and> sm_ok bs' fs' (s', m') \<and>
    p \<notin> {108} \<and> live s' bs' fs' = insert p {108}"
proof -
  obtain p s' m' where r: "SM_AllocateStruct 500 (demo_sm, \<lambda>_. 0) = (p, s', m')"
    by (cases "SM_AllocateStruct 500 (demo_sm, \<lambda>_. 0)") auto
  have "fresh_block 500 demo_sm [100]" by (simp add: fresh_block_def SM_NewBlockSize_def demo_sm_def)
  from allocate_struct [OF demo_sm_ok this r] r demo_live show ?thesis by metis
qed

text \<open>C26: returning a linked list of records in use ends, frees exactly those records, in any
  number of blocks, and leaves the links of the blocks and of the free list intact although
  the marks and links are written into the records themselves.\<close>

theorem deallocate_struct_list:
  assumes "sm_ok bs fs (s, m)" "ps \<noteq> []" "distinct ps" "set ps \<subseteq> live s bs fs" "linked m ps"
  shows "\<exists>s' m'. SM_DeallocateStructList (hd ps) (last ps) (s, m) = Some (s', m') \<and>
    sm_ok bs (ps @ fs) (s', m') \<and> live s' bs (ps @ fs) = live s bs fs - set ps"
  by (rule deallocate_ok [OF assms])

theorem deallocate_struct_list_witness:
  "\<exists>s' m'. SM_DeallocateStructList 108 108 (demo_sm, \<lambda>_. 0) = Some (s', m') \<and>
    sm_ok [100] [108, 124] (s', m') \<and> live s' [100] [108, 124] = {}"
  using deallocate_struct_list [OF demo_sm_ok, of "[108]"] demo_live by simp

text \<open>\<open>smIsAllocatedStructRef\<close> is exact: it returns, and is true of precisely the
  addresses of records in use.\<close>

theorem allocated_ref_exact:
  assumes "sm_ok bs fs s"
  shows "smIsAllocatedStructRef s p = Some (p \<in> live (fst s) bs fs)"
  by (rule allocated_ref [OF assms])

theorem allocated_ref_exact_witness:
  "smIsAllocatedStructRef (demo_sm, \<lambda>_. 0) 124 = Some (124 \<in> live demo_sm [100] [124])"
  using allocated_ref_exact [OF demo_sm_ok, of 124] by simp

text \<open>The two queries agree: free records and records in use make up the capacity.\<close>

theorem free_count:
  assumes "sm_ok bs fs s"
  shows "\<exists>free blocks cap. SM_CountFreeStructs s = Some free \<and> SM_CurrentCapacity s = Some (blocks, cap) \<and>
    free + card (live (fst s) bs fs) = cap"
  by (rule count_free [OF assms])

theorem free_count_witness:
  "\<exists>free blocks cap. SM_CountFreeStructs (demo_sm, \<lambda>_. 0) = Some free \<and>
    SM_CurrentCapacity (demo_sm, \<lambda>_. 0) = Some (blocks, cap) \<and> free + card {108 :: nat} = cap"
  using free_count [OF demo_sm_ok] demo_live by simp

text \<open>C27: a client that gets records from the manager, writes anything anywhere into the records it has and
  puts records back, in any order and any number, is never given a record that it or another client
  has in use; in the end the records in use are those of the others and those it still has, and the
  contents of the records of the others are what they were. The addresses the memory allocator
  gives for new blocks do not overlap the blocks there are.\<close>

theorem pool_session:
  assumes "session sm_allocs sm_deallocs sm_writes rs {} s own t" "sm_good s"
  shows "fresh_gets rs {} (sm_live s) \<and> sm_good t \<and> own \<subseteq> sm_live t \<and> sm_live t - own = sm_live s \<and>
    (\<forall>q \<in> sm_live s. sm_data t q = sm_data s q)"
  using pool.session_use [OF assms] by simp

theorem pool_session_witness:
  "\<exists>p t. session sm_allocs sm_deallocs sm_writes [Get p, Write p, Put p] {} (demo_sm, \<lambda>_. 0) {} t \<and>
    p \<notin> sm_live (demo_sm, \<lambda>_. 0) \<and> sm_good t \<and> sm_live t = sm_live (demo_sm, \<lambda>_. 0)"
proof -
  let ?s = "(demo_sm, \<lambda>_ :: nat. 0 :: nat)"
  have good: "sm_good ?s" using demo_sm_ok by (auto simp: sm_good_def)
  obtain p t where r: "SM_AllocateStruct 500 ?s = (p, t)" by (cases "SM_AllocateStruct 500 ?s") auto
  have "fresh_block 500 demo_sm bs" if "sm_ok bs fs ?s" for bs fs
  proof -
    have "bs = [100]" using that by (cases bs) (auto simp: sm_ok_def demo_sm_def dest: chain_head)
    then show ?thesis by (simp add: fresh_block_def SM_NewBlockSize_def demo_sm_def)
  qed
  then have al: "sm_allocs p ?s t" using r by (auto simp: sm_allocs_def)
  from sm_allocs_use [OF good al] have t: "sm_good t" "p \<in> sm_live t" by auto
  then obtain bs fs where ok: "sm_ok bs fs t" by (auto simp: sm_good_def)
  then have "p < p + sm_size (fst t)" by (auto simp: sm_ok_def)
  then have wr: "sm_writes p t (fst t, (snd t)(p := 7))" (is "sm_writes p t ?w") unfolding sm_writes_def by blast
  from sm_writes_use [OF t wr] t(2) have w: "sm_good ?w" "p \<in> sm_live ?w" by auto
  then obtain bs fs where ok: "sm_ok bs fs ?w" by (auto simp: sm_good_def)
  have "set [p] \<subseteq> live (fst t) bs fs" using w(2) sm_live_ok [OF ok] by simp
  from deallocate_ok [OF ok _ _ this] obtain v where "SM_DeallocateStructList p p ?w = Some v" by auto
  then have "\<exists>u. sm_deallocs p ?w u" using t by (simp add: sm_deallocs_def SM_DeallocateStruct_def)
  then obtain u where u: "sm_deallocs p ?w u" by (elim exE)
  from al wr u have ses: "session sm_allocs sm_deallocs sm_writes [Get p, Write p, Put p] {} ?s {} u"
    by (auto simp del: split_paired_Ex)
  from pool_session [OF this good] have "p \<notin> sm_live ?s" "sm_good u" "sm_live u = sm_live ?s" by auto
  with ses show ?thesis by blast
qed

text \<open>In the doubly linked list of records in use, adding puts a record in front and
  removing takes out exactly the given record, wherever it is, with all links in both
  directions right and its own cleared.\<close>

theorem alloc_list_dl:
  assumes "dl_list l xs" "p \<noteq> 0" "p \<notin> set xs" "r \<in> set (p # xs)"
  shows "dl_list (SM_AddToAllocList_DL p l) (p # xs) \<and>
    (\<exists>l'. SM_RemoveFromAllocList_DL r (SM_AddToAllocList_DL p l) = Some l' \<and>
      dl_list l' (remove1 r (p # xs)) \<and> dl_prev l' r = 0 \<and> dl_next l' r = 0)"
  using add_dl [OF assms(1-3)] remove_dl [OF add_dl [OF assms(1-3)] assms(4)] by blast

theorem alloc_list_dl_witness:
  "\<exists>l. dl_list l [7, 5] \<and> (\<exists>l'. SM_RemoveFromAllocList_DL 7 (SM_AddToAllocList_DL 9 l) = Some l' \<and>
    dl_list l' (remove1 7 [9, 7, 5]) \<and> dl_prev l' 7 = 0 \<and> dl_next l' 7 = 0)"
proof -
  let ?l = "\<lparr>dl_prev = (\<lambda>_. 0)(5 := 7), dl_next = (\<lambda>_. 0)(7 := 5), dl_head = 7\<rparr>"
  have l: "dl_list ?l [7, 5]" by (simp add: dl_list_def)
  from alloc_list_dl [OF l, of 9 7] l show ?thesis by auto
qed

end
