(* ===== verification/Symtab.thy ===== *)
theory Symtab imports Prelude "HOL-Library.Multiset" "HOL-Library.Code_Target_Nat" begin

text \<open>
  The string table and the symbol table (\<open>hash_xsb.c\<close>, \<open>hash_xsb.h\<close>, \<open>psc_xsb.c\<close>):
  hash tables of chains that grow when they hold more than four entries per bucket. A
  string table entry is added at the end of its chain, a symbol at the head.

  The entries are found by their addresses, which \<open>mem_alloc\<close> hands out; the model draws
  them from a counter. A bucket array has exactly \<open>size\<close> entries.
\<close>

section \<open>Sizes and the hash function\<close>

definition primes :: "nat list" where
  "primes = [127, 257, 509, 1021, 2053, 4099, 8191, 16381, 32771, 65537, 131071,
       262147, 524287, 1048573, 2097143, 4194301]"

definition NUM_OF_PRIMES :: nat where "NUM_OF_PRIMES = 16"

text \<open>
  The search loop of \<open>next_prime\<close>. When every prime is too small the code reads one
  element past the array, \<open>primes[16]\<close>, before it tests the index; the loop ends there
  whatever the value.
\<close>

fun next_prime_index :: "nat \<Rightarrow> nat list \<Rightarrow> nat \<Rightarrow> nat" where
  "next_prime_index n [] i = i"
| "next_prime_index n (p # ps) i = (if p \<le> n then next_prime_index n ps (i + 1) else i)"

definition next_prime :: "nat \<Rightarrow> nat" where
  "next_prime n =
     (let i = next_prime_index n primes 0
      in if i < NUM_OF_PRIMES - 1 then primes ! i else nat ((2 * int n - 1) mod 2 ^ 64))"

definition MAX_SHIFT_BITS :: nat where "MAX_SHIFT_BITS = 57"

text \<open>
  \<open>*obj_name << shift\<close> shifts an \<open>int\<close>, a promoted signed character, by up to 56: beyond 31
  the C standard leaves the result open, so the shift is a parameter \<open>shl\<close>. Its result is
  sign-extended to the 64 bits of \<open>hashval\<close>.
\<close>

definition char_val :: "char \<Rightarrow> int" where
  "char_val c = (let n = int (of_char c :: nat) in if n < 128 then n else n - 256)"

fun hash_loop :: "(int \<Rightarrow> nat \<Rightarrow> int) \<Rightarrow> string \<Rightarrow> nat \<Rightarrow> 64 word \<Rightarrow> 64 word" where
  "hash_loop shl [] shift hashval = hashval"
| "hash_loop shl (c # cs) shift hashval =
     (let h = hashval XOR word_of_int (shl (char_val c) shift);
          s = shift + 3
      in hash_loop shl cs (if s \<ge> MAX_SHIFT_BITS then s - MAX_SHIFT_BITS else s) h)"

definition hash :: "(int \<Rightarrow> nat \<Rightarrow> int) \<Rightarrow> string \<Rightarrow> nat \<Rightarrow> nat \<Rightarrow> nat" where
  "hash shl name arity n = unat (hash_loop shl name 0 0 + of_nat arity) mod n"

section \<open>Chains and growing\<close>

text \<open>
  The loops of \<open>expand_symbol_table\<close> and \<open>expand_string_table\<close>: every entry of every chain,
  in order, is moved to the head of its new chain.
\<close>

definition rehash :: "('e \<Rightarrow> nat) \<Rightarrow> nat \<Rightarrow> 'e list list \<Rightarrow> 'e list list" where
  "rehash new_index new_size tbl =
     fold (\<lambda>chain. fold (\<lambda>e t. t[new_index e := e # t ! new_index e]) chain) tbl
       (replicate new_size [])"

text \<open>
  A table is well formed for a key and a hash function when each entry is in the chain of its
  key and no key occurs twice.
\<close>

definition chains_ok :: "('e \<Rightarrow> 'k) \<Rightarrow> ('k \<Rightarrow> nat \<Rightarrow> nat) \<Rightarrow> 'e list list \<Rightarrow> bool" where
  "chains_ok key h tbl \<longleftrightarrow>
     0 < length tbl \<and> distinct (map key (concat tbl)) \<and>
     (\<forall>i < length tbl. \<forall>e \<in> set (tbl ! i). h (key e) (length tbl) = i)"

definition table_map :: "('e \<Rightarrow> 'k) \<Rightarrow> ('e \<Rightarrow> 'v) \<Rightarrow> 'e list list \<Rightarrow> 'k \<Rightarrow> 'v option" where
  "table_map key val tbl = map_of (map (\<lambda>e. (key e, val e)) (concat tbl))"

lemma next_prime_index_le: "next_prime_index n ps i \<le> i + length ps"
  by (induction n ps i rule: next_prime_index.induct) auto

lemma next_prime_index_gt:
  "next_prime_index n ps i < i + length ps \<Longrightarrow> n < ps ! (next_prime_index n ps i - i) \<and> i \<le> next_prime_index n ps i"
proof (induction ps arbitrary: i)
  case (Cons p ps)
  show ?case
  proof (cases "p \<le> n")
    case True
    have "next_prime_index n ps (i + 1) < (i + 1) + length ps" using Cons.prems True by simp
    from Cons.IH [OF this] True show ?thesis
      by (auto simp: nth_Cons' Suc_diff_le)
  qed simp
qed simp

section \<open>Chained tables\<close>

lemma nth_list_update_at: "j < length xs \<Longrightarrow> xs[i := x] ! j = (if i = j then x else xs ! j)"
  by (cases "i < length xs") (auto simp: nth_list_update)

lemma find_in_set: "find P xs = Some x \<Longrightarrow> x \<in> set xs \<and> P x"
  by (induction xs) (auto split: if_splits)

lemma mset_concat_update:
  "i < length tbl \<Longrightarrow> mset (concat (tbl[i := c])) + mset (tbl ! i) = mset (concat tbl) + mset c"
proof (induction tbl arbitrary: i)
  case (Cons x xs)
  show ?case
  proof (cases i)
    case (Suc j)
    then show ?thesis using Cons.IH [of j] Cons.prems by (simp add: union_ac)
  qed (simp add: union_ac)
qed simp

lemma mset_concat_add:
  assumes "i < length tbl" "mset c = add_mset e (mset (tbl ! i))"
  shows "mset (concat (tbl[i := c])) = add_mset e (mset (concat tbl))"
  using mset_concat_update [OF assms(1), of c] assms(2) by simp

lemma distinct_keys_mset:
  "mset xs = mset ys \<Longrightarrow> distinct (map key xs) \<longleftrightarrow> distinct (map key ys)"
  by (rule mset_eq_imp_distinct_iff) simp

lemma table_map_iff:
  "distinct (map key (concat tbl)) \<Longrightarrow>
    table_map key val tbl k = Some v \<longleftrightarrow> (\<exists>e \<in> set (concat tbl). key e = k \<and> val e = v)"
  unfolding table_map_def by (subst map_of_eq_Some_iff) (auto simp: comp_def)

lemma table_map_None: "table_map key val tbl k = None \<longleftrightarrow> k \<notin> key ` set (concat tbl)"
  by (simp add: table_map_def map_of_eq_None_iff image_image del: set_concat)

lemma table_map_mset:
  assumes "mset (concat t1) = mset (concat t2)" "distinct (map key (concat t1))"
  shows "table_map key val t1 = table_map key val t2"
proof (rule ext)
  fix k
  have "distinct (map key (concat t2))" using distinct_keys_mset [OF assms(1)] assms(2) by blast
  moreover have "set (concat t1) = set (concat t2)" using mset_eq_setD [OF assms(1)] .
  ultimately have "table_map key val t1 k = Some v \<longleftrightarrow> table_map key val t2 k = Some v" for v
    using assms(2) by (simp add: table_map_iff del: set_concat)
  then show "table_map key val t1 k = table_map key val t2 k" by (cases "table_map key val t2 k") auto
qed

lemma rehash_length: "length (rehash f n tbl) = n"
proof -
  have "length (fold (\<lambda>e t. t[f e := e # t ! f e]) c t) = length t" for c :: "'a list" and t
    by (induction c arbitrary: t) simp_all
  then have "length (fold (\<lambda>chain. fold (\<lambda>e t. t[f e := e # t ! f e]) chain) tbl t) = length t" for t
    by (induction tbl arbitrary: t) simp_all
  then show ?thesis by (simp add: rehash_def)
qed

lemma rehash_inv:
  assumes P: "\<And>t e. P t \<Longrightarrow> length t = n \<Longrightarrow> e \<in> set (concat tbl) \<Longrightarrow> P (t[f e := e # t ! f e])"
    and init: "P (replicate n [])"
  shows "P (rehash f n tbl)"
proof -
  have chain: "P (fold (\<lambda>e t. t[f e := e # t ! f e]) c t) \<and>
      length (fold (\<lambda>e t. t[f e := e # t ! f e]) c t) = n"
    if "set c \<subseteq> set (concat tbl)" "P t" "length t = n" for c t
    using that
  proof (induction c arbitrary: t)
    case (Cons e c)
    have "P (t[f e := e # t ! f e])" by (rule P) (use Cons.prems in auto)
    with Cons.IH [of "t[f e := e # t ! f e]"] Cons.prems show ?case by simp
  qed simp
  have "P (fold (\<lambda>chain. fold (\<lambda>e t. t[f e := e # t ! f e]) chain) cs t)"
    if "set cs \<subseteq> set tbl" "P t" "length t = n" for cs t
    using that
  proof (induction cs arbitrary: t)
    case (Cons c cs)
    then have "set c \<subseteq> set (concat tbl)" by auto
    with chain [OF this Cons.prems(2,3)] Cons show ?case by simp
  qed simp
  with init show ?thesis by (simp add: rehash_def)
qed

lemma rehash_mset:
  assumes "\<And>e. f e < n"
  shows "mset (concat (rehash f n tbl)) = mset (concat tbl)"
proof -
  let ?step = "\<lambda>e t. t[f e := e # t ! f e]"
  have chain: "mset (concat (fold ?step c t)) = mset c + mset (concat t) \<and> length (fold ?step c t) = n"
    if "length t = n" for c t
    using that by (induction c arbitrary: t) (simp_all add: assms mset_concat_add)
  have "mset (concat (fold (\<lambda>c. fold ?step c) cs t)) = mset (concat cs) + mset (concat t)"
    if "length t = n" for cs t
    using that by (induction cs arbitrary: t) (simp_all add: chain union_ac)
  then show ?thesis by (simp add: rehash_def)
qed

text \<open>The facts every chained table rests on, for any key and any hash into the table.\<close>

locale chained =
  fixes key :: "'e \<Rightarrow> 'k" and h :: "'k \<Rightarrow> nat \<Rightarrow> nat"
  assumes h_less: "0 < n \<Longrightarrow> h k n < n"
begin

lemma own_chain:
  assumes "chains_ok key h tbl" "e \<in> set (concat tbl)"
  shows "e \<in> set (tbl ! h (key e) (length tbl))"
  using assms by (auto simp: chains_ok_def in_set_conv_nth [of _ tbl])

lemma chain_in_table:
  assumes "chains_ok key h tbl" "e \<in> set (tbl ! h k (length tbl))"
  shows "e \<in> set (concat tbl)"
  using assms h_less [of "length tbl" k] by (auto simp: chains_ok_def)

text \<open>Searching the chain of a key searches the table.\<close>

lemma chain_search:
  assumes ok: "chains_ok key h tbl"
  shows "table_map key val tbl k = map_option val (find (\<lambda>e. key e = k) (tbl ! h k (length tbl)))"
proof (cases "find (\<lambda>e. key e = k) (tbl ! h k (length tbl))")
  case None
  then have "\<not> (\<exists>e \<in> set (concat tbl). key e = k)"
    using own_chain [OF ok] by (auto simp: find_None_iff simp del: set_concat)
  then show ?thesis using None unfolding table_map_def
    by (auto simp: map_of_eq_None_iff simp del: set_concat)
next
  case (Some e)
  then have "e \<in> set (tbl ! h k (length tbl))" "key e = k"
    by (auto simp: find_Some_iff)
  then show ?thesis using chain_in_table [OF ok] ok Some
    by (auto simp: table_map_iff chains_ok_def simp del: set_concat)
qed

lemma chains_ok_add:
  assumes ok: "chains_ok key h tbl" and new: "key e \<notin> key ` set (concat tbl)"
    and i: "i = h (key e) (length tbl)" and c: "mset c = add_mset e (mset (tbl ! i))"
  shows "chains_ok key h (tbl[i := c])"
    and "table_map key val (tbl[i := c]) = (table_map key val tbl)(key e \<mapsto> val e)"
proof -
  have il: "i < length tbl" using ok i h_less by (simp add: chains_ok_def)
  have m: "mset (concat (tbl[i := c])) = mset (e # concat tbl)"
    using mset_concat_add [OF il c] by simp
  have d: "distinct (map key (e # concat tbl))" using ok new by (simp add: chains_ok_def)
  have sc: "set c = insert e (set (tbl ! i))"
    using arg_cong [OF c, of set_mset] by simp
  show "chains_ok key h (tbl[i := c])"
    using ok sc i distinct_keys_mset [OF m, of key] d
    by (auto simp: chains_ok_def nth_list_update_at split: if_splits)
  have "table_map key val (tbl[i := c]) = table_map key val [e # concat tbl]"
    using m distinct_keys_mset [OF m, of key] d by (intro table_map_mset) auto
  then show "table_map key val (tbl[i := c]) = (table_map key val tbl)(key e \<mapsto> val e)"
    by (simp add: table_map_def)
qed

lemma rehash_ok:
  assumes ok: "chains_ok key h tbl" and n: "0 < n"
  shows "chains_ok key h (rehash (\<lambda>e. h (key e) n) n tbl)"
    and "table_map key val (rehash (\<lambda>e. h (key e) n) n tbl) = table_map key val tbl"
proof -
  let ?t = "rehash (\<lambda>e. h (key e) n) n tbl"
  have m: "mset (concat ?t) = mset (concat tbl)" by (rule rehash_mset) (rule h_less [OF n])
  have d: "distinct (map key (concat ?t))"
    using distinct_keys_mset [OF m, of key] ok by (simp add: chains_ok_def)
  have "\<forall>i < n. \<forall>e \<in> set (?t ! i). h (key e) n = i"
  proof (rule rehash_inv [where P = "\<lambda>t. \<forall>i < n. \<forall>e \<in> set (t ! i). h (key e) n = i"])
    fix t :: "'e list list" and e
    assume t: "\<forall>i < n. \<forall>e \<in> set (t ! i). h (key e) n = i" "length t = n"
    show "\<forall>i < n. \<forall>e' \<in> set (t[h (key e) n := e # t ! h (key e) n] ! i). h (key e') n = i"
    proof (intro allI impI ballI)
      fix i e'
      assume i: "i < n" and e': "e' \<in> set (t[h (key e) n := e # t ! h (key e) n] ! i)"
      then have "e' = e \<and> i = h (key e) n \<or> e' \<in> set (t ! i)"
        using t(2) by (cases "h (key e) n = i") (auto simp: nth_list_update_at)
      then show "h (key e') n = i" using t(1) i by blast
    qed
  qed simp
  then show "chains_ok key h ?t" using d n unfolding chains_ok_def rehash_length by blast
  show "table_map key val ?t = table_map key val tbl" by (rule table_map_mset [OF m d])
qed

lemma filter_ok:
  assumes ok: "chains_ok key h tbl"
  shows "chains_ok key h (map (filter P) tbl)"
proof -
  have "concat (map (filter P) tbl) = filter P (concat tbl)" by (simp add: filter_concat)
  then show ?thesis using ok by (auto simp: chains_ok_def distinct_map_filter)
qed

end

lemma hash_less: "0 < n \<Longrightarrow> hash shl name arity n < n"
  by (simp add: hash_def)

section \<open>The string table\<close>

text \<open>
  An entry is a block holding the link and the text; \<open>se_mark\<close> is the low bit of its link,
  which the string collector sets on the strings in use.
\<close>

record str_entry =
  se_addr :: nat
  se_mark :: bool
  se_str :: string

record strtab =
  st_table :: "str_entry list list"
  st_contains :: nat

definition str_hash :: "(int \<Rightarrow> nat \<Rightarrow> int) \<Rightarrow> string \<Rightarrow> nat \<Rightarrow> nat" where
  "str_hash shl s n = hash shl s 0 n"

definition expand_string_table :: "(int \<Rightarrow> nat \<Rightarrow> int) \<Rightarrow> strtab \<Rightarrow> strtab" where
  "expand_string_table shl st =
     (let n = next_prime (length (st_table st))
      in st\<lparr>st_table := rehash (\<lambda>e. str_hash shl (se_str e) n) n (st_table st)\<rparr>)"

definition string_table_increment :: "(int \<Rightarrow> nat \<Rightarrow> int) \<Rightarrow> strtab \<Rightarrow> strtab" where
  "string_table_increment shl st =
     (let st1 = st\<lparr>st_contains := st_contains st + 1\<rparr>
      in if st_contains st1 > length (st_table st1) * 4 then expand_string_table shl st1 else st1)"

text \<open>\<open>string_find\<close>; \<open>a\<close> is the address \<open>mem_alloc\<close> gives a new entry.\<close>

definition string_find :: "(int \<Rightarrow> nat \<Rightarrow> int) \<Rightarrow> string \<Rightarrow> bool \<Rightarrow> nat \<Rightarrow> strtab \<Rightarrow> nat option \<times> strtab" where
  "string_find shl str ins a st =
     (let i = str_hash shl str (length (st_table st)); chain = st_table st ! i
      in case find (\<lambda>e. se_str e = str) chain of
           Some e \<Rightarrow> (Some (se_addr e), st)
         | None \<Rightarrow>
             if ins then
               (let e = \<lparr>se_addr = a, se_mark = False, se_str = str\<rparr>
                in (Some a, string_table_increment shl
                      (st\<lparr>st_table := (st_table st)[i := chain @ [e]]\<rparr>)))
             else (None, st))"

definition string_find_safe :: "(int \<Rightarrow> nat \<Rightarrow> int) \<Rightarrow> string \<Rightarrow> strtab \<Rightarrow> nat option" where
  "string_find_safe shl str st =
     map_option se_addr (find (\<lambda>e. se_str e = str)
       (st_table st ! str_hash shl str (length (st_table st))))"

text \<open>The sweep of the string collector over one chain, and over the table.\<close>

fun sweep_chain :: "str_entry list \<Rightarrow> str_entry list \<times> nat" where
  "sweep_chain [] = ([], 0)"
| "sweep_chain (e # es) =
     (case sweep_chain es of (es', unused) \<Rightarrow>
        if se_mark e then (e\<lparr>se_mark := False\<rparr> # es', unused) else (es', unused + 1))"

definition free_unused_strings :: "strtab \<Rightarrow> strtab" where
  "free_unused_strings st =
     st\<lparr>st_table := map (fst \<circ> sweep_chain) (st_table st),
        st_contains := st_contains st - sum_list (map (snd \<circ> sweep_chain) (st_table st))\<rparr>"

definition strtab_ok :: "(int \<Rightarrow> nat \<Rightarrow> int) \<Rightarrow> strtab \<Rightarrow> bool" where
  "strtab_ok shl st \<longleftrightarrow>
     chains_ok se_str (str_hash shl) (st_table st) \<and>
     st_contains st = length (concat (st_table st))"

text \<open>The abstract string table: the interned address of each string.\<close>

definition str_abs :: "strtab \<Rightarrow> string \<Rightarrow> nat option" where
  "str_abs st = table_map se_str se_addr (st_table st)"

interpretation strs: chained se_str "str_hash shl" for shl
  by unfold_locales (simp add: str_hash_def hash_less)

lemma next_prime_grows:
  assumes "1 < n" "n < 2 ^ 62"
  shows "n < next_prime n"
proof -
  let ?i = "next_prime_index n primes 0"
  show ?thesis
  proof (cases "?i < NUM_OF_PRIMES - 1")
    case True
    then have "n < primes ! ?i"
      using next_prime_index_gt [of n primes 0] by (simp add: primes_def NUM_OF_PRIMES_def)
    with True show ?thesis by (simp add: next_prime_def Let_def)
  next
    case False
    have "(2 * int n - 1) mod 2 ^ 64 = 2 * int n - 1" using assms by (intro mod_pos_pos_trivial) auto
    with False assms show ?thesis by (simp add: next_prime_def Let_def)
  qed
qed

text \<open>The sizes a table goes through stay far below the width of \<open>size\<close>.\<close>

definition size_fits :: "nat \<Rightarrow> bool" where
  "size_fits n \<longleftrightarrow> 1 < n \<and> n < 2 ^ 62"

lemma expand_string_table_ok:
  assumes ok: "strtab_ok shl st" and n: "size_fits (length (st_table st))"
  shows "strtab_ok shl (expand_string_table shl st)"
    and "str_abs (expand_string_table shl st) = str_abs st"
proof -
  let ?n = "next_prime (length (st_table st))"
  have n': "0 < ?n" using next_prime_grows [of "length (st_table st)"] n by (simp add: size_fits_def)
  have c: "chains_ok se_str (str_hash shl) (st_table st)" using ok by (simp add: strtab_ok_def)
  have "mset (concat (rehash (\<lambda>e. str_hash shl (se_str e) ?n) ?n (st_table st)))
      = mset (concat (st_table st))"
    using n' by (intro rehash_mset) (simp add: str_hash_def hash_less)
  then have "length (concat (rehash (\<lambda>e. str_hash shl (se_str e) ?n) ?n (st_table st)))
      = length (concat (st_table st))" by (rule mset_eq_length)
  with strs.rehash_ok(1) [OF c n'] ok show "strtab_ok shl (expand_string_table shl st)"
    by (simp add: strtab_ok_def expand_string_table_def Let_def)
  show "str_abs (expand_string_table shl st) = str_abs st"
    using strs.rehash_ok(2) [OF c n'] by (simp add: str_abs_def expand_string_table_def Let_def)
qed

lemma string_find_search:
  assumes "strtab_ok shl st"
  shows "str_abs st s = map_option se_addr (find (\<lambda>e. se_str e = s)
    (st_table st ! str_hash shl s (length (st_table st))))"
  using strs.chain_search [of shl "st_table st" se_addr s] assms
  by (simp add: strtab_ok_def str_abs_def)

text \<open>A string that is not in the table is added to it, and only then.\<close>

lemma string_find_insert:
  assumes ok: "strtab_ok shl st" and fits: "size_fits (length (st_table st))"
    and find: "string_find shl s True a st = (r, st')"
  shows "strtab_ok shl st' \<and>
    (case str_abs st s of
       Some b \<Rightarrow> r = Some b \<and> st' = st
     | None \<Rightarrow> r = Some a \<and> str_abs st' = (str_abs st)(s \<mapsto> a))"
proof (cases "str_abs st s")
  case (Some b)
  then obtain e where "find (\<lambda>e. se_str e = s) (st_table st ! str_hash shl s (length (st_table st))) = Some e"
    "se_addr e = b"
    using string_find_search [OF ok, of s] by auto
  then have "r = Some b" "st' = st" using find by (auto simp: string_find_def Let_def)
  with ok Some show ?thesis by simp
next
  case None
  let ?tbl = "st_table st" and ?i = "str_hash shl s (length (st_table st))"
  let ?e = "\<lparr>se_addr = a, se_mark = False, se_str = s\<rparr>"
  let ?st = "st\<lparr>st_table := ?tbl[?i := ?tbl ! ?i @ [?e]], st_contains := st_contains st + 1\<rparr>"
  have chain: "find (\<lambda>e. se_str e = s) (?tbl ! ?i) = None"
    using string_find_search [OF ok, of s] None by auto
  have c: "chains_ok se_str (str_hash shl) ?tbl" using ok by (simp add: strtab_ok_def)
  have new: "se_str ?e \<notin> se_str ` set (concat ?tbl)"
    using None
    by (simp add: str_abs_def table_map_def map_of_eq_None_iff image_image del: set_concat)
  have m: "mset (?tbl ! ?i @ [?e]) = add_mset ?e (mset (?tbl ! ?i))" by simp
  have i: "?i = str_hash shl (se_str ?e) (length ?tbl)" by simp
  note add = strs.chains_ok_add [OF c new i m]
  have len: "length (concat (?tbl[?i := ?tbl ! ?i @ [?e]])) = length (concat ?tbl) + 1"
  proof -
    have "0 < length ?tbl" using c by (simp add: chains_ok_def)
    then have "?i < length ?tbl" by (simp add: str_hash_def hash_less)
    from mset_concat_add [OF this m] show ?thesis
      by (metis One_nat_def add.commute plus_1_eq_Suc size_add_mset size_mset)
  qed
  have ok': "strtab_ok shl ?st" and abs': "str_abs ?st = (str_abs st)(s \<mapsto> a)"
    using add(1) add(2) [of se_addr] ok len by (simp_all add: strtab_ok_def str_abs_def)
  have "st' = (if st_contains ?st > length (st_table ?st) * 4 then expand_string_table shl ?st else ?st)"
    "r = Some a"
    using find chain by (auto simp: string_find_def string_table_increment_def Let_def)
  with ok' abs' expand_string_table_ok [OF ok'] fits None show ?thesis by simp
qed

lemma sweep_chain_eq:
  "sweep_chain es = (map (\<lambda>e. e\<lparr>se_mark := False\<rparr>) (filter se_mark es), length es - length (filter se_mark es))"
proof (induction es)
  case (Cons e es)
  have "length (filter se_mark es) \<le> length es" by simp
  with Cons show ?case by (simp add: Suc_diff_le)
qed simp

lemma free_unused_strings_table:
  "st_table (free_unused_strings st) =
    map (map (\<lambda>e. e\<lparr>se_mark := False\<rparr>)) (map (filter se_mark) (st_table st))"
  by (simp add: free_unused_strings_def sweep_chain_eq comp_def)

text \<open>Unmarking changes neither the keys nor the places of the entries.\<close>

lemma chains_ok_map:
  assumes "chains_ok key h tbl" "\<And>e. key (f e) = key e"
  shows "chains_ok key h (map (map f) tbl)"
proof -
  have "map key (concat (map (map f) tbl)) = map key (concat tbl)"
    using assms(2) by (simp add: map_concat comp_def)
  moreover have "h (key e) (length tbl) = i" if "i < length tbl" "e \<in> set (map (map f) tbl ! i)" for i e
    using assms that by (auto simp: chains_ok_def)
  ultimately show ?thesis using assms(1) unfolding chains_ok_def by simp
qed

lemma free_unused_strings_ok:
  assumes ok: "strtab_ok shl st"
  shows "strtab_ok shl (free_unused_strings st)"
    and "str_abs (free_unused_strings st) s = Some a \<longleftrightarrow>
      (\<exists>e \<in> set (concat (st_table st)). se_mark e \<and> se_str e = s \<and> se_addr e = a)"
proof -
  let ?tbl = "map (map (\<lambda>e. e\<lparr>se_mark := False\<rparr>)) (map (filter se_mark) (st_table st))"
  have c: "chains_ok se_str (str_hash shl) ?tbl"
    using ok by (intro chains_ok_map strs.filter_ok) (simp_all add: strtab_ok_def)
  have cnt: "length (concat (map (filter se_mark) cs)) + sum_list (map (snd \<circ> sweep_chain) cs)
      = length (concat cs)" for cs
  proof (induction cs)
    case (Cons c cs)
    have "length (filter se_mark c) + snd (sweep_chain c) = length c"
      using length_filter_le [of se_mark c] by (simp add: sweep_chain_eq)
    with Cons show ?case by (simp del: length_concat)
  qed simp
  have "length (concat ?tbl) = length (concat (map (filter se_mark) (st_table st)))"
    by (simp add: length_concat comp_def)
  with c cnt [of "st_table st"] ok show ok': "strtab_ok shl (free_unused_strings st)"
    unfolding strtab_ok_def free_unused_strings_table
    by (simp add: free_unused_strings_def)
  show "str_abs (free_unused_strings st) s = Some a \<longleftrightarrow>
      (\<exists>e \<in> set (concat (st_table st)). se_mark e \<and> se_str e = s \<and> se_addr e = a)"
    using c unfolding str_abs_def free_unused_strings_table
    by (subst table_map_iff) (auto simp: chains_ok_def)
qed

section \<open>The symbol table\<close>

text \<open>
  PSC records and PSC pairs. A chain is the list of its pairs; each pair has its own address
  and points to a PSC record. The \<open>data\<close> field of a module's record is the mark of the
  global modules or the chain of the module.
\<close>

datatype ep = Load_inst nat | Ep nat | Ep_name string

datatype mdata = D_usermod | D_chain "(nat \<times> nat) list"

datatype opcode = Op_load_pred | Op_jump

record pscrec =
  psc_name :: string
  psc_arity :: nat
  psc_type :: nat
  psc_env :: "8 word"
  psc_incr :: nat
  psc_intern :: nat
  psc_immutable :: nat
  psc_modloaded :: nat
  psc_data :: mdata
  psc_ep :: ep
  psc_load :: opcode
  psc_this :: ep

record symtab =
  pscs :: "nat \<Rightarrow> pscrec"
  sy_table :: "(nat \<times> nat) list list"
  sy_contains :: nat
  sy_strs :: strtab
  mod_list :: "(nat \<times> nat) list"
  sy_next :: nat

definition T_ENV :: "8 word" where "T_ENV = 3"
definition T_ORDI :: nat where "T_ORDI = 0"

definition set_psc :: "nat \<Rightarrow> (pscrec \<Rightarrow> pscrec) \<Rightarrow> symtab \<Rightarrow> symtab" where
  "set_psc p f s = s\<lparr>pscs := (pscs s)(p := f (pscs s p))\<rparr>"

definition psc_set_ep :: "ep \<Rightarrow> pscrec \<Rightarrow> pscrec" where
  "psc_set_ep e r = r\<lparr>psc_ep := e, psc_load := Op_jump, psc_this := e\<rparr>"

definition psc_set_env :: "8 word \<Rightarrow> pscrec \<Rightarrow> pscrec" where
  "psc_set_env e r = r\<lparr>psc_env := (psc_env r AND NOT T_ENV) OR e\<rparr>"

definition get_env :: "pscrec \<Rightarrow> 8 word" where
  "get_env r = psc_env r AND T_ENV"

definition init_psc_ep_info :: "nat \<Rightarrow> pscrec \<Rightarrow> pscrec" where
  "init_psc_ep_info p r =
     r\<lparr>psc_type := 0, psc_env := 0, psc_incr := 0, psc_intern := 0, psc_data := D_chain [],
       psc_ep := Load_inst p, psc_load := Op_load_pred, psc_this := Ep p\<rparr>"

text \<open>
  \<open>make_psc_rec\<close>: a new record, its name interned. The record field holds 16 bits of the
  arity; the other fields start as the memory was, here as the store has them.
\<close>

definition make_psc_rec :: "(int \<Rightarrow> nat \<Rightarrow> int) \<Rightarrow> string \<Rightarrow> nat \<Rightarrow> symtab \<Rightarrow> nat \<times> symtab" where
  "make_psc_rec shl name arity s =
     (let temp = sy_next s;
          s1 = s\<lparr>sy_strs := snd (string_find shl name True (sy_next s + 1) (sy_strs s)),
                 sy_next := sy_next s + 2\<rparr>
      in (temp, set_psc temp
           (\<lambda>r. init_psc_ep_info temp (r\<lparr>psc_name := name, psc_arity := arity mod 2 ^ 16\<rparr>)) s1))"

text \<open>The result of \<open>make_psc_pair\<close>: the pair's address and the chain with it at its head.\<close>

definition make_psc_pair :: "nat \<Rightarrow> (nat \<times> nat) list \<Rightarrow> symtab \<Rightarrow> nat \<times> (nat \<times> nat) list \<times> symtab" where
  "make_psc_pair p chain s = (sy_next s, (sy_next s, p) # chain, s\<lparr>sy_next := sy_next s + 1\<rparr>)"

definition search_psc_in_module :: "symtab \<Rightarrow> nat \<Rightarrow> string \<Rightarrow> (nat \<times> nat) list \<Rightarrow> (nat \<times> nat) option" where
  "search_psc_in_module s arity name chain =
     find (\<lambda>(pair, p). psc_name (pscs s p) = name \<and> arity = psc_arity (pscs s p)) chain"

definition sym_bucket :: "(int \<Rightarrow> nat \<Rightarrow> int) \<Rightarrow> string \<Rightarrow> nat \<Rightarrow> symtab \<Rightarrow> nat" where
  "sym_bucket shl name arity s = hash shl name arity (length (sy_table s))"

definition search_in_usermod :: "(int \<Rightarrow> nat \<Rightarrow> int) \<Rightarrow> nat \<Rightarrow> string \<Rightarrow> symtab \<Rightarrow> (nat \<times> nat) option" where
  "search_in_usermod shl arity name s =
     search_psc_in_module s arity name (sy_table s ! sym_bucket shl name arity s)"

text \<open>
  \<open>search_insert_psc_1\<close> on a chain: the pair, whether it is new, and the chain afterwards.
\<close>

definition search_insert_psc_1 ::
    "(int \<Rightarrow> nat \<Rightarrow> int) \<Rightarrow> string \<Rightarrow> nat \<Rightarrow> (nat \<times> nat) list \<Rightarrow> symtab \<Rightarrow>
      nat \<times> bool \<times> (nat \<times> nat) list \<times> symtab" where
  "search_insert_psc_1 shl name arity chain s =
     (case search_psc_in_module s arity name chain of
        Some (pair, p) \<Rightarrow> (pair, False, chain, s)
      | None \<Rightarrow>
          (case make_psc_rec shl name arity s of (p, s1) \<Rightarrow>
            (case make_psc_pair p chain s1 of (pair, chain', s2) \<Rightarrow> (pair, True, chain', s2))))"

definition expand_symbol_table :: "(int \<Rightarrow> nat \<Rightarrow> int) \<Rightarrow> symtab \<Rightarrow> symtab" where
  "expand_symbol_table shl s =
     (let n = next_prime (length (sy_table s))
      in s\<lparr>sy_table := rehash (\<lambda>(pair, p). hash shl (psc_name (pscs s p)) (psc_arity (pscs s p)) n)
                        n (sy_table s)\<rparr>)"

definition symbol_table_increment :: "(int \<Rightarrow> nat \<Rightarrow> int) \<Rightarrow> symtab \<Rightarrow> symtab" where
  "symbol_table_increment shl s =
     (let s1 = s\<lparr>sy_contains := sy_contains s + 1\<rparr>
      in if sy_contains s1 > length (sy_table s1) * 4 then expand_symbol_table shl s1 else s1)"

text \<open>A module is the address of its PSC record, 0 for none, which counts as global.\<close>

definition is_globalmod :: "symtab \<Rightarrow> nat \<Rightarrow> bool" where
  "is_globalmod s m \<longleftrightarrow> m = 0 \<or> psc_data (pscs s m) = D_usermod"

fun data_chain :: "mdata \<Rightarrow> (nat \<times> nat) list" where
  "data_chain (D_chain c) = c"
| "data_chain D_usermod = []"

definition insert_psc :: "(int \<Rightarrow> nat \<Rightarrow> int) \<Rightarrow> string \<Rightarrow> nat \<Rightarrow> nat \<Rightarrow> symtab \<Rightarrow> nat \<times> bool \<times> symtab" where
  "insert_psc shl name arity m s =
     (if is_globalmod s m then
        (let i = sym_bucket shl name arity s in
         case search_insert_psc_1 shl name arity (sy_table s ! i) s of
           (pair, new, chain, s1) \<Rightarrow>
             (let s2 = s1\<lparr>sy_table := (sy_table s1)[i := chain]\<rparr>
              in (pair, new, if new then symbol_table_increment shl s2 else s2)))
      else
        (case search_insert_psc_1 shl name arity (data_chain (psc_data (pscs s m))) s of
           (pair, new, chain, s1) \<Rightarrow> (pair, new, set_psc m (\<lambda>r. r\<lparr>psc_data := D_chain chain\<rparr>) s1)))"

definition insert_module :: "(int \<Rightarrow> nat \<Rightarrow> int) \<Rightarrow> nat \<Rightarrow> string \<Rightarrow> symtab \<Rightarrow> nat \<times> symtab" where
  "insert_module shl type name s =
     (case search_insert_psc_1 shl name 0 (mod_list s) s of
        (pair, new, chain, s1) \<Rightarrow>
          (let s2 = s1\<lparr>mod_list := chain\<rparr>;
               p = (case map_of chain pair of Some p \<Rightarrow> p | None \<Rightarrow> 0)
           in (pair,
               if new then
                 set_psc p (\<lambda>r. (psc_set_ep (Ep_name (psc_name r))
                    (r\<lparr>psc_type := type mod 256, psc_env := 0, psc_incr := 0, psc_intern := 0,
                       psc_data := D_chain []\<rparr>))
                    \<lparr>psc_this := Ep 0, psc_immutable := 0, psc_modloaded := 0\<rparr>) s2
               else set_psc p (\<lambda>r. r\<lparr>psc_type := (psc_type r OR type) mod 256\<rparr>) s2)))"

text \<open>
  \<open>set_psc_ep_to_psc\<close>; \<open>None\<close> is its \<open>xsb_abort\<close>. The warnings are output only.
\<close>

definition set_psc_ep_to_psc :: "nat \<Rightarrow> nat \<Rightarrow> symtab \<Rightarrow> symtab option" where
  "set_psc_ep_to_psc to_set target s =
     (if psc_arity (pscs s to_set) \<noteq> psc_arity (pscs s target) then None
      else Some (set_psc to_set (psc_set_ep (Load_inst target)) s))"

text \<open>
  \<open>link_sym\<close> keeps the arity in a \<open>byte\<close>, so it hashes and searches with the arity modulo
  256.
\<close>

definition link_found :: "nat \<Rightarrow> nat \<Rightarrow> symtab \<Rightarrow> symtab option" where
  "link_found p q s =
     (let umtype = psc_type (pscs s q) mod 256; mtype = psc_type (pscs s p) mod 256
      in if umtype \<noteq> T_ORDI \<and> mtype \<noteq> T_ORDI then Some s
         else if umtype \<noteq> T_ORDI then
           Some (set_psc p (\<lambda>r. psc_set_env (get_env (pscs s q))
                   ((psc_set_ep (psc_ep (pscs s q)) r)\<lparr>psc_type := psc_type (pscs s q)\<rparr>)) s)
         else if mtype \<noteq> T_ORDI then
           Some (set_psc q (\<lambda>r. psc_set_env (get_env (pscs s p))
                   ((psc_set_ep (psc_ep (pscs s p)) r)\<lparr>psc_type := psc_type (pscs s p)\<rparr>)) s)
         else set_psc_ep_to_psc q p s)"

definition link_chain :: "nat \<Rightarrow> (nat \<times> nat) list \<Rightarrow> symtab \<Rightarrow> (nat \<times> bool \<times> (nat \<times> nat) list \<times> symtab) option" where
  "link_chain p chain s =
     (let name = psc_name (pscs s p); arity = psc_arity (pscs s p) mod 256
      in case search_psc_in_module s arity name chain of
           Some (pair, q) \<Rightarrow>
             if q = p then Some (pair, False, chain, s)
             else map_option (\<lambda>s'. (pair, False,
                    map (\<lambda>(pr, x). if pr = pair then (pr, p) else (pr, x)) chain, s'))
                    (link_found p q s)
         | None \<Rightarrow> (case make_psc_pair p chain s of (pair, chain', s') \<Rightarrow> Some (pair, True, chain', s')))"

definition link_sym :: "(int \<Rightarrow> nat \<Rightarrow> int) \<Rightarrow> nat \<Rightarrow> nat \<Rightarrow> symtab \<Rightarrow> (nat \<times> symtab) option" where
  "link_sym shl p m s =
     (if is_globalmod s m then
        (let i = sym_bucket shl (psc_name (pscs s p)) (psc_arity (pscs s p) mod 256) s in
         map_option (\<lambda>(pair, new, chain, s1).
             (let s2 = s1\<lparr>sy_table := (sy_table s1)[i := chain]\<rparr>
              in (pair, if new then symbol_table_increment shl s2 else s2)))
           (link_chain p (sy_table s ! i) s))
      else
        map_option (\<lambda>(pair, new, chain, s1). (pair, set_psc m (\<lambda>r. r\<lparr>psc_data := D_chain chain\<rparr>) s1))
          (link_chain p (data_chain (psc_data (pscs s m))) s))"

section \<open>The symbol table keeps its symbols\<close>

definition pair_key :: "symtab \<Rightarrow> nat \<times> nat \<Rightarrow> string \<times> nat" where
  "pair_key s = (\<lambda>(pair, p). (psc_name (pscs s p), psc_arity (pscs s p)))"

definition sym_hash :: "(int \<Rightarrow> nat \<Rightarrow> int) \<Rightarrow> string \<times> nat \<Rightarrow> nat \<Rightarrow> nat" where
  "sym_hash shl = (\<lambda>(name, arity) n. hash shl name arity n)"

interpretation syms: chained "pair_key s" "sym_hash shl" for s shl
  by unfold_locales (auto simp: sym_hash_def hash_less)

text \<open>
  Well-formedness: the table's chains are, no two pairs share an address, addresses already handed out lie below
  \<open>sy_next\<close>.
\<close>

definition sym_ok :: "(int \<Rightarrow> nat \<Rightarrow> int) \<Rightarrow> symtab \<Rightarrow> bool" where
  "sym_ok shl s \<longleftrightarrow>
     chains_ok (pair_key s) (sym_hash shl) (sy_table s) \<and>
     sy_contains s = length (concat (sy_table s)) \<and>
     distinct (map fst (concat (sy_table s))) \<and>
     (\<forall>e \<in> set (concat (sy_table s)). fst e < sy_next s \<and> snd e < sy_next s)"

text \<open>The abstract symbol table: the PSC record of each name and arity.\<close>

definition sym_abs :: "symtab \<Rightarrow> string \<times> nat \<Rightarrow> nat option" where
  "sym_abs s = table_map (pair_key s) snd (sy_table s)"

lemma sym_search:
  assumes "sym_ok shl s"
  shows "sym_abs s (name, arity) = map_option snd (search_in_usermod shl arity name s)"
proof -
  have "(\<lambda>e. pair_key s e = (name, arity))
      = (\<lambda>(pair, p). psc_name (pscs s p) = name \<and> arity = psc_arity (pscs s p))"
    by (auto simp: fun_eq_iff pair_key_def)
  with syms.chain_search [of s shl "sy_table s" snd "(name, arity)"] assms show ?thesis
    by (simp add: sym_ok_def sym_abs_def search_in_usermod_def search_psc_in_module_def
        sym_bucket_def sym_hash_def)
qed

lemma expand_symbol_table_ok:
  assumes ok: "sym_ok shl s" and n: "size_fits (length (sy_table s))"
  shows "sym_ok shl (expand_symbol_table shl s)"
    and "sym_abs (expand_symbol_table shl s) = sym_abs s"
proof -
  let ?n = "next_prime (length (sy_table s))"
  let ?f = "\<lambda>(pair, p). hash shl (psc_name (pscs s p)) (psc_arity (pscs s p)) ?n"
  let ?s = "expand_symbol_table shl s"
  have n': "0 < ?n" using next_prime_grows [of "length (sy_table s)"] n by (simp add: size_fits_def)
  have f: "?f = (\<lambda>e. sym_hash shl (pair_key s e) ?n)"
    by (auto simp: fun_eq_iff sym_hash_def pair_key_def)
  have c: "chains_ok (pair_key s) (sym_hash shl) (sy_table s)" using ok by (simp add: sym_ok_def)
  have m: "mset (concat (rehash ?f ?n (sy_table s))) = mset (concat (sy_table s))"
    using n' by (intro rehash_mset) (simp add: hash_less split: prod.split)
  have k: "pair_key ?s = pair_key s" by (simp add: pair_key_def expand_symbol_table_def Let_def)
  have t: "sy_table ?s = rehash ?f ?n (sy_table s)" by (simp add: expand_symbol_table_def Let_def)
  have "length (concat (sy_table ?s)) = length (concat (sy_table s))"
    "set (concat (sy_table ?s)) = set (concat (sy_table s))"
    "distinct (map fst (concat (sy_table ?s))) = distinct (map fst (concat (sy_table s)))"
    using m unfolding t by (rule mset_eq_length, rule mset_eq_setD, rule distinct_keys_mset)
  then show "sym_ok shl ?s"
    using syms.rehash_ok(1) [OF c n'] ok unfolding f [symmetric] t [symmetric]
    by (simp add: sym_ok_def k del: set_concat) (simp add: expand_symbol_table_def Let_def)
  show "sym_abs ?s = sym_abs s"
    using syms.rehash_ok(2) [OF c n', of snd] unfolding f [symmetric] t [symmetric]
    by (simp add: sym_abs_def k)
qed

lemma chains_ok_cong:
  assumes "\<And>e. e \<in> set (concat tbl) \<Longrightarrow> key' e = key e"
  shows "chains_ok key' h tbl = chains_ok key h tbl"
proof -
  have "distinct (map key' (concat tbl)) = distinct (map key (concat tbl))"
    using assms by (intro arg_cong [where f = distinct] map_cong) auto
  moreover have "key' e = key e" if "i < length tbl" "e \<in> set (tbl ! i)" for i e
    using that by (intro assms) (auto intro!: bexI [of _ "tbl ! i"])
  ultimately show ?thesis unfolding chains_ok_def by auto
qed

lemma table_map_cong:
  "(\<And>e. e \<in> set (concat tbl) \<Longrightarrow> key' e = key e) \<Longrightarrow> table_map key' val tbl = table_map key val tbl"
  unfolding table_map_def by (intro arg_cong [where f = map_of] map_cong) auto

lemma insert_psc_global:
  assumes ok: "sym_ok shl s" and fits: "size_fits (length (sy_table s))"
    and g: "is_globalmod s m" and a: "arity < 2 ^ 16"
    and ins: "insert_psc shl name arity m s = (pair, new, s')"
  shows "sym_ok shl s' \<and>
    (case sym_abs s (name, arity) of
       Some p \<Rightarrow> \<not> new \<and> s' = s \<and> (pair, p) \<in> set (concat (sy_table s))
     | None \<Rightarrow> new \<and> pair < sy_next s' \<and> sym_abs s' = (sym_abs s)((name, arity) \<mapsto> sy_next s) \<and>
         psc_name (pscs s' (sy_next s)) = name \<and> psc_arity (pscs s' (sy_next s)) = arity \<and>
         (\<forall>q. q \<noteq> sy_next s \<longrightarrow> pscs s' q = pscs s q))"
proof -
  let ?i = "sym_bucket shl name arity s" and ?tbl = "sy_table s"
  have c: "chains_ok (pair_key s) (sym_hash shl) ?tbl" using ok by (simp add: sym_ok_def)
  have i: "?i < length ?tbl" using c by (simp add: chains_ok_def sym_bucket_def hash_less)
  show ?thesis
  proof (cases "sym_abs s (name, arity)")
    case (Some p)
    then obtain pr where f: "search_psc_in_module s arity name (?tbl ! ?i) = Some (pr, p)"
      using sym_search [OF ok, of name arity] by (auto simp: search_in_usermod_def)
    then have "(pr, p) \<in> set (?tbl ! ?i)"
      unfolding search_psc_in_module_def by (auto dest: find_in_set)
    then have "(pr, p) \<in> set (concat ?tbl)" using i by auto
    with f ins g Some ok show ?thesis
      by (auto simp: insert_psc_def search_insert_psc_1_def Let_def)
  next
    case None
    then have f: "search_psc_in_module s arity name (?tbl ! ?i) = None"
      using sym_search [OF ok, of name arity] by (auto simp: search_in_usermod_def)
    let ?p = "sy_next s" and ?pair = "Suc (Suc (sy_next s))"
    let ?r = "init_psc_ep_info ?p ((pscs s ?p)\<lparr>psc_name := name, psc_arity := arity mod 2 ^ 16\<rparr>)"
    let ?s1 = "s\<lparr>sy_strs := snd (string_find shl name True (Suc (sy_next s)) (sy_strs s)),
        pscs := (pscs s)(?p := ?r), sy_next := Suc (Suc (Suc (sy_next s))), sy_table := ?tbl[?i := (?pair, ?p) # ?tbl ! ?i]\<rparr>"
    let ?s2 = "?s1\<lparr>sy_contains := sy_contains s + 1\<rparr>"
    have res: "new" "pair = ?pair" "s' = symbol_table_increment shl ?s1"
      using ins f g
      by (auto simp: insert_psc_def search_insert_psc_1_def make_psc_rec_def make_psc_pair_def
          set_psc_def Let_def)
    have old: "pair_key ?s1 e = pair_key s e" if "e \<in> set (concat ?tbl)" for e
    proof -
      have "snd e < ?p" using that ok unfolding sym_ok_def by blast
      then show ?thesis by (auto simp: pair_key_def split: prod.split)
    qed
    have key: "pair_key ?s1 (?pair, ?p) = (name, arity)"
      using a by (simp add: pair_key_def init_psc_ep_info_def)
    have c1: "chains_ok (pair_key ?s1) (sym_hash shl) ?tbl"
      using c chains_ok_cong [of ?tbl "pair_key ?s1" "pair_key s" "sym_hash shl"] old by simp
    have t1: "table_map (pair_key ?s1) snd ?tbl = sym_abs s"
      unfolding sym_abs_def by (rule table_map_cong) (rule old)
    have new: "pair_key ?s1 (?pair, ?p) \<notin> pair_key ?s1 ` set (concat ?tbl)"
      using None unfolding key t1 [symmetric] table_map_None .
    have i': "?i = sym_hash shl (pair_key ?s1 (?pair, ?p)) (length ?tbl)"
      unfolding key by (simp add: sym_bucket_def sym_hash_def)
    have m: "mset ((?pair, ?p) # ?tbl ! ?i) = add_mset (?pair, ?p) (mset (?tbl ! ?i))" by simp
    note add = syms.chains_ok_add [OF c1 new i' m]
    have mc: "mset (concat (sy_table ?s1)) = add_mset (?pair, ?p) (mset (concat ?tbl))"
      using mset_concat_add [OF i m] by simp
    have len: "length (concat (sy_table ?s1)) = length (concat ?tbl) + 1"
      using mset_eq_length [of "concat (sy_table ?s1)" "(?pair, ?p) # concat ?tbl"] mc by simp
    have st: "set (concat (sy_table ?s1)) = insert (?pair, ?p) (set (concat ?tbl))"
      using mset_eq_setD [of "concat (sy_table ?s1)" "(?pair, ?p) # concat ?tbl"] mc by simp
    have ok2: "sym_ok shl ?s2"
      unfolding sym_ok_def
    proof (intro conjI)
      show "chains_ok (pair_key ?s2) (sym_hash shl) (sy_table ?s2)"
        using add(1) by (simp add: pair_key_def)
      show "sy_contains ?s2 = length (concat (sy_table ?s2))"
        using ok len by (simp add: sym_ok_def)
      have "?pair \<notin> fst ` set (concat ?tbl)"
        using ok unfolding sym_ok_def by (force simp del: set_concat)
      then have "distinct (map fst ((?pair, ?p) # concat ?tbl))"
        using ok by (simp add: sym_ok_def del: set_concat)
      then show "distinct (map fst (concat (sy_table ?s2)))"
        using distinct_keys_mset [of "concat (sy_table ?s1)" "(?pair, ?p) # concat ?tbl" fst] mc
        by simp
      have "\<forall>e \<in> set (concat (sy_table ?s1)). fst e < sy_next ?s1 \<and> snd e < sy_next ?s1"
        unfolding st using ok by (auto simp: sym_ok_def simp del: set_concat)
      then show "\<forall>e \<in> set (concat (sy_table ?s2)). fst e < sy_next ?s2 \<and> snd e < sy_next ?s2"
        by simp
    qed
    have abs2: "sym_abs ?s2 = (sym_abs s)((name, arity) \<mapsto> ?p)"
      using add(2) [of snd] unfolding t1 key by (simp add: sym_abs_def pair_key_def)
    have fits2: "size_fits (length (sy_table ?s2))" using fits by simp
    have s': "s' = (if sy_contains ?s2 > length (sy_table ?s2) * 4 then expand_symbol_table shl ?s2 else ?s2)"
      using res(3) by (simp add: symbol_table_increment_def Let_def)
    have same: "pscs s' = pscs ?s2" "sy_next s' = sy_next ?s2"
      unfolding s' by (simp_all add: expand_symbol_table_def Let_def)
    have "sym_ok shl s' \<and> sym_abs s' = (sym_abs s)((name, arity) \<mapsto> ?p)"
      unfolding s' using ok2 abs2 expand_symbol_table_ok [OF ok2 fits2] by simp
    with None res same a show ?thesis by (simp add: init_psc_ep_info_def)
  qed
qed

text \<open>
  \<open>link_sym\<close> on the global chain, for an arity that fits its \<open>byte\<close>: the symbol of that
  name and arity is the linked one, and no other symbol moves.
\<close>

lemma link_found_keys:
  "link_found p q s = Some s' \<Longrightarrow>
    (\<forall>x. psc_name (pscs s' x) = psc_name (pscs s x) \<and> psc_arity (pscs s' x) = psc_arity (pscs s x)) \<and>
    sy_table s' = sy_table s \<and> sy_contains s' = sy_contains s \<and> sy_next s' = sy_next s"
  by (auto simp: link_found_def set_psc_ep_to_psc_def set_psc_def psc_set_env_def psc_set_ep_def
      Let_def split: if_splits)

lemma map_of_replace:
  "distinct (map fst xs) \<Longrightarrow> (pr, q) \<in> set xs \<Longrightarrow> key (pr, p) = key (pr, q) \<Longrightarrow>
    distinct (map key xs) \<Longrightarrow>
    map_of (map (\<lambda>e. (key e, snd e)) (map (\<lambda>(a, x). if a = pr then (a, p) else (a, x)) xs))
      = (map_of (map (\<lambda>e. (key e, snd e)) xs))(key (pr, q) \<mapsto> p)"
proof (induction xs)
  case (Cons e xs)
  show ?case
  proof (cases "fst e = pr")
    case True
    then have "pr \<notin> fst ` set xs" "e = (pr, q)"
      using Cons.prems by (auto simp: image_iff)
    then have "map (\<lambda>(a, x). if a = pr then (a, p) else (a, x)) xs = xs"
      by (induction xs) auto
    with \<open>e = (pr, q)\<close> Cons.prems(3) show ?thesis by (simp add: fun_eq_iff)
  next
    case False
    then have "(pr, q) \<in> set xs" using Cons.prems(2) by auto
    moreover from this have "key e \<noteq> key (pr, q)" using Cons.prems(4) by (auto simp: image_iff)
    ultimately show ?thesis using Cons False by (cases e) (auto simp: fun_eq_iff)
  qed
qed simp

definition set_pair :: "nat \<Rightarrow> nat \<Rightarrow> nat \<times> nat \<Rightarrow> nat \<times> nat" where
  "set_pair pr p = (\<lambda>(a, x). if a = pr then (a, p) else (a, x))"

lemma set_pair_other: "pr \<notin> fst ` set c \<Longrightarrow> map (set_pair pr p) c = c"
  by (induction c) (auto simp: set_pair_def)

lemma concat_set_pair:
  "distinct (map fst (concat tbl)) \<Longrightarrow> i < length tbl \<Longrightarrow> pr \<in> fst ` set (tbl ! i) \<Longrightarrow>
    concat (tbl[i := map (set_pair pr p) (tbl ! i)]) = map (set_pair pr p) (concat tbl)"
proof (induction tbl arbitrary: i)
  case (Cons c tbl)
  show ?case
  proof (cases i)
    case 0
    then have "pr \<notin> fst ` set (concat tbl)" using Cons.prems by (auto simp del: set_concat)
    with 0 show ?thesis by (simp add: set_pair_other)
  next
    case (Suc j)
    then have "tbl ! j \<in> set tbl" using Cons.prems by simp
    then have "pr \<in> fst ` set (concat tbl)" using Cons.prems Suc by force
    then have "pr \<notin> fst ` set c" using Cons.prems by (auto simp del: set_concat)
    with Suc Cons show ?thesis by (simp add: set_pair_other)
  qed
qed simp

lemma link_sym_replaces:
  assumes ok: "sym_ok shl s" and i: "i = sym_bucket shl (psc_name (pscs s p)) (psc_arity (pscs s p)) s"
    and f: "search_psc_in_module s (psc_arity (pscs s p)) (psc_name (pscs s p)) (sy_table s ! i) = Some (pr, q)"
    and p: "p < sy_next s" and s1: "link_found p q s = Some s1"
    and s': "s' = s1\<lparr>sy_table := (sy_table s1)[i := map (set_pair pr p) (sy_table s ! i)]\<rparr>"
  shows "sym_ok shl s' \<and> sym_abs s' = (sym_abs s)(pair_key s (pr, p) \<mapsto> p)"
proof -
  let ?tbl = "sy_table s" and ?c = "map (set_pair pr p) (sy_table s ! i)"
  have c: "chains_ok (pair_key s) (sym_hash shl) ?tbl" and d: "distinct (map fst (concat ?tbl))"
    using ok by (simp_all add: sym_ok_def)
  have il: "i < length ?tbl" using c by (simp add: chains_ok_def sym_bucket_def hash_less i)
  have m: "(pr, q) \<in> set (?tbl ! i)" "psc_name (pscs s q) = psc_name (pscs s p)"
    "psc_arity (pscs s q) = psc_arity (pscs s p)"
    using f unfolding search_psc_in_module_def by (auto dest: find_in_set)
  have mc: "(pr, q) \<in> set (concat ?tbl)" using m(1) il by auto
  have key: "pair_key s (pr, p) = pair_key s (pr, q)" using m by (simp add: pair_key_def)
  note keys = link_found_keys [OF s1]
  have pk: "pair_key s' = pair_key s" using keys s' by (simp add: pair_key_def)
  have tbl': "sy_table s' = ?tbl[i := ?c]" using keys s' by simp
  have conc: "concat (sy_table s') = map (set_pair pr p) (concat ?tbl)"
    unfolding tbl' by (rule concat_set_pair [OF d il]) (use m(1) in force)
  have sp: "pair_key s (set_pair pr p e) = pair_key s e" if "e \<in> set (concat ?tbl)" for e
  proof (cases "fst e = pr")
    case True
    then have "e = (pr, q)"
      using eq_key_imp_eq_value [OF d, of pr "snd e" q] that mc by (cases e) auto
    then show ?thesis using key by (simp add: set_pair_def)
  qed (auto simp: set_pair_def split: prod.split)
  have "map (pair_key s) (concat (sy_table s')) = map (pair_key s) (concat ?tbl)"
    unfolding conc using sp by (simp add: comp_def)
  moreover have "sym_hash shl (pair_key s e) (length ?tbl) = j"
    if j: "j < length ?tbl" "e \<in> set (sy_table s' ! j)" for j e
  proof -
    obtain e0 where "e0 \<in> set (?tbl ! j)" "e = e0 \<or> e = set_pair pr p e0"
      using j by (cases "j = i") (auto simp: tbl')
    moreover from this j have e0: "e0 \<in> set (concat ?tbl)" by auto
    ultimately have "e0 \<in> set (?tbl ! j)" "pair_key s e = pair_key s e0" using sp [OF e0] by auto
    with c j show ?thesis by (auto simp: chains_ok_def)
  qed
  ultimately have c': "chains_ok (pair_key s) (sym_hash shl) (sy_table s')"
    using c by (simp add: chains_ok_def tbl')
  have fst_sp: "map fst (concat (sy_table s')) = map fst (concat ?tbl)"
    unfolding conc by (simp add: comp_def set_pair_def split: prod.split)
  have "fst e < sy_next s \<and> snd e < sy_next s" if "e \<in> set (concat (sy_table s'))" for e
    using that ok p unfolding conc by (auto simp: sym_ok_def set_pair_def simp del: set_concat)
  moreover have "length (concat (sy_table s')) = length (concat ?tbl)"
    unfolding conc by simp
  moreover have "sy_contains s' = sy_contains s" "sy_next s' = sy_next s" using keys s' by simp_all
  ultimately have "sym_ok shl s'"
    unfolding sym_ok_def pk using c' ok fst_sp by (simp add: sym_ok_def del: set_concat length_concat)
  moreover have "sym_abs s' = (sym_abs s)(pair_key s (pr, p) \<mapsto> p)"
    using map_of_replace [of "concat ?tbl" pr q "pair_key s" p] d mc key c conc
    by (simp add: sym_abs_def table_map_def pk chains_ok_def set_pair_def del: set_concat)
  ultimately show ?thesis by blast
qed

lemma symbol_added:
  assumes ok: "sym_ok shl s" and fits: "size_fits (length (sy_table s))" and p: "p < sy_next s"
    and new: "sym_abs s (pair_key s (pr, p)) = None" and pr: "pr = sy_next s"
    and i: "i = sym_hash shl (pair_key s (pr, p)) (length (sy_table s))"
    and s': "s' = symbol_table_increment shl
      (s\<lparr>sy_next := Suc (sy_next s), sy_table := (sy_table s)[i := (pr, p) # sy_table s ! i]\<rparr>)"
  shows "sym_ok shl s' \<and> sym_abs s' = (sym_abs s)(pair_key s (pr, p) \<mapsto> p)"
proof -
  let ?tbl = "sy_table s" and ?c = "(pr, p) # sy_table s ! i"
  let ?s2 = "s\<lparr>sy_next := Suc (sy_next s), sy_table := ?tbl[i := ?c], sy_contains := sy_contains s + 1\<rparr>"
  have c: "chains_ok (pair_key s) (sym_hash shl) ?tbl" using ok by (simp add: sym_ok_def)
  have il: "i < length ?tbl" using c unfolding i chains_ok_def by (intro syms.h_less) simp
  have nin: "pair_key s (pr, p) \<notin> pair_key s ` set (concat ?tbl)"
    using new unfolding sym_abs_def table_map_None .
  have m: "mset ?c = add_mset (pr, p) (mset (?tbl ! i))" by simp
  note add = syms.chains_ok_add [OF c nin i m]
  have mc: "mset (concat (?tbl[i := ?c])) = mset ((pr, p) # concat ?tbl)"
    using mset_concat_add [OF il m] by simp
  note mcD = mset_eq_length [OF mc] mset_eq_setD [OF mc] distinct_keys_mset [OF mc, of fst]
  have old: "\<forall>e \<in> set (concat ?tbl). fst e < sy_next s \<and> snd e < sy_next s"
    using ok by (simp add: sym_ok_def)
  have dist: "distinct (map fst (concat (?tbl[i := ?c])))"
    unfolding mcD(3) using ok old pr by (force simp: sym_ok_def simp del: set_concat)
  have bound: "\<forall>e \<in> set (concat (?tbl[i := ?c])). fst e < Suc (sy_next s) \<and> snd e < Suc (sy_next s)"
    unfolding mcD(2) using old p pr by (auto simp del: set_concat)
  have ok2: "sym_ok shl ?s2"
    using add(1) ok mcD(1) dist bound by (simp add: sym_ok_def pair_key_def del: set_concat length_concat)
  have abs2: "sym_abs ?s2 = (sym_abs s)(pair_key s (pr, p) \<mapsto> p)"
    using add(2) [of snd] by (simp add: sym_abs_def pair_key_def)
  have "s' = (if sy_contains ?s2 > length (sy_table ?s2) * 4 then expand_symbol_table shl ?s2 else ?s2)"
    using s' by (simp add: symbol_table_increment_def Let_def)
  with ok2 abs2 expand_symbol_table_ok [OF ok2] fits show ?thesis by simp
qed

lemma link_sym_global:
  assumes ok: "sym_ok shl s" and fits: "size_fits (length (sy_table s))" and g: "is_globalmod s m"
    and p: "p < sy_next s" "psc_arity (pscs s p) < 256"
    and res: "link_sym shl p m s = Some (pair, s')"
  shows "sym_ok shl s' \<and> sym_abs s' = (sym_abs s)((psc_name (pscs s p), psc_arity (pscs s p)) \<mapsto> p)"
proof -
  let ?name = "psc_name (pscs s p)" and ?ar = "psc_arity (pscs s p)"
  let ?i = "sym_bucket shl ?name ?ar s"
  have key: "pair_key s (x, p) = (?name, ?ar)" for x by (simp add: pair_key_def)
  from res g p(2) obtain new chain s1 where
    lc: "link_chain p (sy_table s ! ?i) s = Some (pair, new, chain, s1)"
    and s': "s' = (let s2 = s1\<lparr>sy_table := (sy_table s1)[?i := chain]\<rparr>
                   in if new then symbol_table_increment shl s2 else s2)"
    by (auto simp: link_sym_def Let_def)
  note search = sym_search [OF ok, of ?name ?ar, unfolded search_in_usermod_def]
  show ?thesis
  proof (cases "search_psc_in_module s ?ar ?name (sy_table s ! ?i)")
    case None
    then have "new" "chain = (sy_next s, p) # sy_table s ! ?i" "s1 = s\<lparr>sy_next := Suc (sy_next s)\<rparr>"
      using lc p(2) by (auto simp: link_chain_def make_psc_pair_def Let_def)
    then have "s' = symbol_table_increment shl (s\<lparr>sy_next := Suc (sy_next s),
        sy_table := (sy_table s)[?i := (sy_next s, p) # sy_table s ! ?i]\<rparr>)"
      using s' by (simp add: Let_def)
    moreover have "?i = sym_hash shl (pair_key s (sy_next s, p)) (length (sy_table s))"
      by (simp add: key sym_hash_def sym_bucket_def)
    moreover have "sym_abs s (pair_key s (sy_next s, p)) = None" using None search by (simp add: key)
    ultimately show ?thesis
      using symbol_added [OF ok fits p(1) _ refl, of "?i" s'] by (simp add: key)
  next
    case (Some prq)
    then obtain pr q where f: "search_psc_in_module s ?ar ?name (sy_table s ! ?i) = Some (pr, q)"
      by (cases prq) auto
    show ?thesis
    proof (cases "q = p")
      case True
      then have "s' = s" using lc s' f p(2) by (auto simp: link_chain_def Let_def)
      moreover have "sym_abs s (?name, ?ar) = Some p" using f True search by simp
      ultimately show ?thesis using ok by (simp add: fun_upd_idem)
    next
      case False
      then have l: "link_found p q s = Some s1" "\<not> new"
        "chain = map (set_pair pr p) (sy_table s ! ?i)"
        using lc f p(2) by (auto simp: link_chain_def set_pair_def Let_def)
      have "s' = s1\<lparr>sy_table := (sy_table s1)[?i := map (set_pair pr p) (sy_table s ! ?i)]\<rparr>"
        using s' l by simp
      from link_sym_replaces [OF ok refl f p(1) l(1) this] show ?thesis by (simp add: key)
    qed
  qed
qed

section \<open>Return symbols\<close>

text \<open>
  \<open>get_ret_psc\<close>: \<open>ret_psc\<close> has \<open>MAX_ARITY\<close> elements, 0 for none. A read past its end is the
  error \<open>Out_of_bounds\<close>.
\<close>

datatype ret_error = Too_many_vars | Out_of_bounds

definition MAX_ARITY :: nat where "MAX_ARITY = 65535"

definition get_ret_psc :: "(int \<Rightarrow> nat \<Rightarrow> int) \<Rightarrow> nat \<Rightarrow> nat \<Rightarrow> nat list \<Rightarrow> symtab \<Rightarrow>
    ret_error + nat \<times> symtab" where
  "get_ret_psc shl global_mod n ret_psc s =
     (if n > MAX_ARITY then Inl Too_many_vars
      else if n \<ge> length ret_psc then Inl Out_of_bounds
      else if ret_psc ! n \<noteq> 0 then Inr (ret_psc ! n, s)
      else (case insert_psc shl ''ret'' n global_mod s of
              (pair, new, s') \<Rightarrow>
                Inr (case map_of (concat (sy_table s')) pair of Some p \<Rightarrow> p | None \<Rightarrow> 0, s')))"

section \<open>Properties\<close>

text \<open>C29: The string table interns: after \<open>string_find\<close> with insertion the table is well formed,
  every later lookup of the string returns the same address and changes nothing, and no other
  string changes its address.\<close>

theorem string_find_interns:
  assumes "strtab_ok shl st" "size_fits (length (st_table st))"
    and "string_find shl s True a st = (r, st')"
  shows "strtab_ok shl st' \<and> string_find shl s ins b st' = (r, st') \<and> r \<noteq> None \<and>
    (\<forall>t. t \<noteq> s \<longrightarrow> str_abs st' t = str_abs st t)"
proof -
  from string_find_insert [OF assms] have st': "strtab_ok shl st'" and r: "str_abs st' s = r" "r \<noteq> None"
    and others: "\<forall>t. t \<noteq> s \<longrightarrow> str_abs st' t = str_abs st t"
    by (auto split: option.splits)
  from string_find_search [OF st', of s] r
  have "string_find shl s ins b st' = (r, st')"
    by (auto simp: string_find_def Let_def split: option.splits)
  with st' r others show ?thesis by blast
qed

definition demo_shl :: "int \<Rightarrow> nat \<Rightarrow> int" where
  "demo_shl c n = c * 2 ^ n"

definition demo_strtab :: strtab where
  "demo_strtab = \<lparr>st_table = [[], []], st_contains = 0\<rparr>"

lemma demo_strtab_ok: "strtab_ok demo_shl demo_strtab" "size_fits (length (st_table demo_strtab))"
  by (simp_all add: strtab_ok_def demo_strtab_def chains_ok_def size_fits_def nth_Cons')

lemma string_find_interns_witness:
  "string_find demo_shl ''a'' False 9 \<lparr>st_table = [[], [\<lparr>se_addr = 7, se_mark = False, se_str = ''a''\<rparr>]],
     st_contains = 1\<rparr> =
   (Some 7, \<lparr>st_table = [[], [\<lparr>se_addr = 7, se_mark = False, se_str = ''a''\<rparr>]], st_contains = 1\<rparr>)"
proof -
  have "string_find demo_shl ''a'' True 7 demo_strtab =
     (Some 7, \<lparr>st_table = [[], [\<lparr>se_addr = 7, se_mark = False, se_str = ''a''\<rparr>]], st_contains = 1\<rparr>)"
    by code_simp
  from string_find_interns [OF demo_strtab_ok this] show ?thesis by blast
qed

text \<open>The string collector's sweep leaves a well-formed table, which holds exactly the strings
  that were marked, each at its address, and counts them.\<close>

theorem free_unused_strings_keeps_marked:
  assumes "strtab_ok shl st"
  shows "strtab_ok shl (free_unused_strings st) \<and>
    (\<forall>s a. str_abs (free_unused_strings st) s = Some a \<longleftrightarrow>
      (\<exists>e \<in> set (concat (st_table st)). se_mark e \<and> se_str e = s \<and> se_addr e = a))"
  using free_unused_strings_ok [OF assms] by blast

lemma free_unused_strings_keeps_marked_witness:
  "strtab_ok demo_shl (free_unused_strings
     \<lparr>st_table = [[\<lparr>se_addr = 4, se_mark = False, se_str = ''b''\<rparr>],
                  [\<lparr>se_addr = 7, se_mark = True, se_str = ''a''\<rparr>]], st_contains = 2\<rparr>)"
proof -
  let ?st = "\<lparr>st_table = [[\<lparr>se_addr = 4, se_mark = False, se_str = ''b''\<rparr>],
                  [\<lparr>se_addr = 7, se_mark = True, se_str = ''a''\<rparr>]], st_contains = 2\<rparr>"
  have "str_hash demo_shl ''a'' 2 = 1" "str_hash demo_shl ''b'' 2 = 0" by code_simp+
  then have "strtab_ok demo_shl ?st"
    by (auto simp: strtab_ok_def chains_ok_def nth_Cons' less_Suc_eq numeral_2_eq_2)
  from free_unused_strings_keeps_marked [OF this] show ?thesis by blast
qed

text \<open>The insertion of a symbol leaves the record of a module that exists already as it is, so
  that a global module stays one.\<close>

lemma insert_psc_keeps_global:
  assumes "sym_ok shl s" "size_fits (length (sy_table s))" "is_globalmod s m" "m < sy_next s"
    and "arity < 2 ^ 16" "insert_psc shl name arity m s = (pair, new, s')"
  shows "is_globalmod s' m"
  using insert_psc_global [OF assms(1-3,5,6)] assms(3,4)
  by (auto simp: is_globalmod_def split: option.splits)

text \<open>C28: Inserting a symbol into a global module, which is no module at all or one whose record
  exists already and has the mark of the global modules in its data field, keeps the symbol table
  well formed and the module global, and finds or makes exactly one PSC record for the name and
  arity: a second insertion returns a pair that is not new and changes nothing, whether or not the
  first one made the table grow, and no other symbol changes. It is assumed that the table is well
  formed, that it has more than one and fewer than \<open>2 ^ 62\<close> buckets before and after, that address 0
  is not one still to be handed out, and that the arity fits the 16 bits of its field in the record.\<close>

theorem insert_psc_once:
  assumes "sym_ok shl s" "size_fits (length (sy_table s))" "size_fits (length (sy_table s'))"
    and "is_globalmod s m" "m < sy_next s" "arity < 2 ^ 16"
    and "insert_psc shl name arity m s = (pair, new, s')"
  shows "sym_ok shl s' \<and> is_globalmod s' m \<and>
    (\<exists>pair' p. insert_psc shl name arity m s' = (pair', False, s') \<and>
       sym_abs s' (name, arity) = Some p \<and> (pair', p) \<in> set (concat (sy_table s'))) \<and>
    (\<forall>k. k \<noteq> (name, arity) \<longrightarrow> sym_abs s' k = sym_abs s k)"
proof -
  have g: "is_globalmod s' m"
    by (rule insert_psc_keeps_global [OF assms(1,2,4,5,6,7)])
  from insert_psc_global [OF assms(1,2,4,6,7)]
  have s': "sym_ok shl s'" and abs': "sym_abs s' (name, arity) \<noteq> None"
    and others: "\<forall>k. k \<noteq> (name, arity) \<longrightarrow> sym_abs s' k = sym_abs s k"
    by (auto split: option.splits)
  obtain pair' new' s'' where again: "insert_psc shl name arity m s' = (pair', new', s'')"
    by (cases "insert_psc shl name arity m s'") auto
  from insert_psc_global [OF s' assms(3) g assms(6) again] abs' s' others again g
  show ?thesis by (auto split: option.splits)
qed

definition demo_symtab :: symtab where
  "demo_symtab = \<lparr>pscs = (\<lambda>p. \<lparr>psc_name = ''p'', psc_arity = (if p = 1 then 300 else 2), psc_type = 0,
       psc_env = 0, psc_incr = 0, psc_intern = 0, psc_immutable = 0, psc_modloaded = 0,
       psc_data = D_chain [], psc_ep = Load_inst p, psc_load = Op_load_pred, psc_this = Ep p\<rparr>),
     sy_table = [[], [], [], [], []], sy_contains = 0, sy_strs = demo_strtab, mod_list = [], sy_next = 10\<rparr>"

lemma demo_symtab_ok: "sym_ok demo_shl demo_symtab" "size_fits (length (sy_table demo_symtab))"
  by (simp_all add: sym_ok_def demo_symtab_def chains_ok_def size_fits_def nth_Cons')

text \<open>The same table with a global module, whose record is the one at address 3.\<close>

definition demo_global :: symtab where
  "demo_global = set_psc 3 (\<lambda>r. r\<lparr>psc_data := D_usermod\<rparr>) demo_symtab"

lemma demo_global_ok:
  "sym_ok demo_shl demo_global" "size_fits (length (sy_table demo_global))"
  "is_globalmod demo_global 3" "3 < sy_next demo_global"
  by (simp_all add: demo_global_def set_psc_def sym_ok_def demo_symtab_def chains_ok_def size_fits_def
      is_globalmod_def nth_Cons')

lemma insert_psc_once_witness:
  "sym_ok demo_shl (snd (snd (insert_psc demo_shl ''q'' 3 3 demo_global)))"
proof -
  let ?r = "insert_psc demo_shl ''q'' 3 3 demo_global"
  have "length (sy_table (snd (snd ?r))) = 5" by code_simp
  then have fits: "size_fits (length (sy_table (snd (snd ?r))))" by (simp add: size_fits_def)
  have "?r = (fst ?r, fst (snd ?r), snd (snd ?r))" by simp
  from insert_psc_once [OF demo_global_ok(1,2) fits demo_global_ok(3,4) _ this] show ?thesis by simp
qed

text \<open>Linking a PSC record of arity below 256 into a global module makes it the symbol of its
  name and arity there, replaces only a symbol of that name and arity, and keeps the table well
  formed.\<close>

theorem link_sym_links:
  assumes "sym_ok shl s" "size_fits (length (sy_table s))" "is_globalmod s m" "p < sy_next s"
    and "psc_arity (pscs s p) < 256" "link_sym shl p m s = Some (pair, s')"
  shows "sym_ok shl s' \<and> sym_abs s' = (sym_abs s)((psc_name (pscs s p), psc_arity (pscs s p)) \<mapsto> p)"
  by (rule link_sym_global [OF assms])

lemma link_sym_links_witness:
  "sym_ok demo_shl (snd (the (link_sym demo_shl 2 0 demo_symtab)))"
proof -
  let ?r = "link_sym demo_shl 2 0 demo_symtab"
  have "\<not> Option.is_none ?r" by code_simp
  then have r: "link_sym demo_shl 2 0 demo_symtab = Some (fst (the ?r), snd (the ?r))"
    by (auto simp: Option.is_none_def)
  have "is_globalmod demo_symtab 0" "2 < sy_next demo_symtab" "psc_arity (pscs demo_symtab 2) < 256"
    by (simp_all add: is_globalmod_def demo_symtab_def)
  from link_sym_links [OF demo_symtab_ok this r] show ?thesis by blast
qed

text \<open>\<open>link_sym\<close> keeps the arity in a byte: a predicate of arity 300 is linked into a chain
  where a search for its own name and arity does not find it.\<close>

theorem link_sym_wide_arity:
  "\<exists>pair s'. link_sym demo_shl 1 0 demo_symtab = Some (pair, s') \<and>
     psc_arity (pscs s' 1) = 300 \<and> (pair, 1) \<in> set (concat (sy_table s')) \<and>
     search_in_usermod demo_shl 300 ''p'' s' = None"
proof -
  let ?r = "link_sym demo_shl 1 0 demo_symtab"
  have "\<not> Option.is_none ?r" by code_simp
  then have r: "?r = Some (fst (the ?r), snd (the ?r))" by (auto simp: Option.is_none_def)
  moreover have "psc_arity (pscs (snd (the ?r)) 1) = 300" by code_simp
  moreover have "(fst (the ?r), 1) \<in> set (concat (sy_table (snd (the ?r))))" by code_simp
  moreover have "search_in_usermod demo_shl 300 ''p'' (snd (the ?r)) = None" by code_simp
  ultimately show ?thesis by blast
qed

text \<open>\<open>get_ret_psc\<close> admits the arity \<open>MAX_ARITY\<close>, for which it reads one element past the
  array \<open>ret_psc\<close>; below it never does.\<close>

theorem get_ret_psc_bounds:
  assumes "length ret_psc = MAX_ARITY"
  shows "get_ret_psc shl g n ret_psc s = Inl Out_of_bounds \<longleftrightarrow> n = MAX_ARITY"
  using assms by (auto simp: get_ret_psc_def split: prod.splits)

lemma get_ret_psc_bounds_witness:
  "get_ret_psc demo_shl 0 MAX_ARITY (replicate MAX_ARITY 0) demo_symtab = Inl Out_of_bounds"
  using get_ret_psc_bounds [of "replicate MAX_ARITY 0" demo_shl 0 MAX_ARITY demo_symtab]
  by simp

text \<open>C30: Growing a hash table moves every symbol to the chain of its hash in the larger table and
  keeps the abstract symbol table; the new size is larger.\<close>

theorem expand_symbol_table_keeps:
  assumes "sym_ok shl s" "size_fits (length (sy_table s))"
  shows "sym_ok shl (expand_symbol_table shl s) \<and>
    sym_abs (expand_symbol_table shl s) = sym_abs s \<and>
    length (sy_table s) < length (sy_table (expand_symbol_table shl s))"
proof -
  have "length (sy_table s) < next_prime (length (sy_table s))"
    using assms(2) next_prime_grows by (simp add: size_fits_def)
  with expand_symbol_table_ok [OF assms] show ?thesis
    by (simp add: expand_symbol_table_def rehash_length Let_def)
qed

lemma expand_symbol_table_keeps_witness:
  "sym_ok demo_shl (expand_symbol_table demo_shl demo_symtab) \<and>
   5 < length (sy_table (expand_symbol_table demo_shl demo_symtab))"
  using expand_symbol_table_keeps [OF demo_symtab_ok] by (simp add: demo_symtab_def)

end
