(* ===== verification/Trie_Nodes.thy ===== *)
theory Trie_Nodes imports Cells "HOL-Library.Multiset" begin

text \<open>
  The nodes of a trie (\<open>tries.c\<close>, \<open>tries.h\<close>, \<open>trie_internals.h\<close>): making a node, finding or
  adding the child that carries a symbol, turning a long chain of children into a hash table
  and doubling the table.

  Nodes and table headers live at addresses, 0 is the null pointer, and each field of the C
  structures is a function of the address; the fields a node and a header share, the node
  type among them, are the same function. A symbol is a tagged word. Addresses of new nodes
  and headers are drawn from a counter; whether an array can be reallocated to a size is a
  parameter. The result \<open>None\<close> is the exception for a symbol with a bad tag, or a chain that
  does not end.
\<close>

section \<open>Nodes\<close>

record tries =
  tn_instr :: "nat \<Rightarrow> nat"
  tn_status :: "nat \<Rightarrow> nat"
  tn_trie_type :: "nat \<Rightarrow> nat"
  tn_node_type :: "nat \<Rightarrow> nat"
  tn_symbol :: "nat \<Rightarrow> word64"
  tn_parent :: "nat \<Rightarrow> nat"
  tn_child :: "nat \<Rightarrow> nat"
  tn_sibling :: "nat \<Rightarrow> nat"
  ht_contents :: "nat \<Rightarrow> nat"
  ht_buckets :: "nat \<Rightarrow> nat list"
  tn_next :: nat
  tn_grow :: "nat \<Rightarrow> bool"

definition TRIE_ROOT_NT :: nat where "TRIE_ROOT_NT = 8"
definition HASH_HEADER_NT :: nat where "HASH_HEADER_NT = 4"
definition LEAF_NT :: nat where "LEAF_NT = 2"
definition INTERIOR_NT :: nat where "INTERIOR_NT = 0"

definition CALL_TRIE_TT :: nat where "CALL_TRIE_TT = 6"
definition BASIC_ANSWER_TRIE_TT :: nat where "BASIC_ANSWER_TRIE_TT = 5"
definition ASSERT_TRIE_TT :: nat where "ASSERT_TRIE_TT = 2"
definition INTERN_TRIE_TT :: nat where "INTERN_TRIE_TT = 1"

definition IsHashHeader :: "tries \<Rightarrow> nat \<Rightarrow> bool" where
  "IsHashHeader s p \<longleftrightarrow> tn_node_type s p = HASH_HEADER_NT"

definition IsTrieRoot :: "tries \<Rightarrow> nat \<Rightarrow> bool" where
  "IsTrieRoot s p \<longleftrightarrow> tn_node_type s p = TRIE_ROOT_NT"

definition IsLeafNode :: "tries \<Rightarrow> nat \<Rightarrow> bool" where
  "IsLeafNode s p \<longleftrightarrow> tn_node_type s p AND 2 \<noteq> 0"

definition MakeLeafNode :: "nat \<Rightarrow> tries \<Rightarrow> tries" where
  "MakeLeafNode p s = s\<lparr>tn_node_type := (tn_node_type s)(p := tn_node_type s p OR 2)\<rparr>"

definition MakeHashedNode :: "nat \<Rightarrow> tries \<Rightarrow> tries" where
  "MakeHashedNode p s = s\<lparr>tn_node_type := (tn_node_type s)(p := tn_node_type s p OR 1)\<rparr>"

section \<open>Symbols and instructions\<close>

definition NEW_TRIEVAR_TAG :: word64 where "NEW_TRIEVAR_TAG = 0x10000"
definition NEW_TRIEATTV_TAG :: word64 where "NEW_TRIEATTV_TAG = 0x20000"

definition IsTrieVar :: "word64 \<Rightarrow> bool" where
  "IsTrieVar sy \<longleftrightarrow> cell_tag sy = XSB_REF"

definition IsNewTrieVar :: "word64 \<Rightarrow> bool" where
  "IsNewTrieVar sy \<longleftrightarrow> trievar_val sy AND NEW_TRIEVAR_TAG \<noteq> 0"

definition IsNewTrieAttv :: "word64 \<Rightarrow> bool" where
  "IsNewTrieAttv sy \<longleftrightarrow> trievar_val sy AND NEW_TRIEATTV_TAG \<noteq> 0"

definition EncodeNewTrieVar :: "nat \<Rightarrow> word64" where
  "EncodeNewTrieVar i = maketrievar (word_of_nat i OR NEW_TRIEVAR_TAG)"

definition EncodeNewTrieAttv :: "nat \<Rightarrow> word64" where
  "EncodeNewTrieAttv i = maketrievar (word_of_nat i OR NEW_TRIEATTV_TAG)"

definition EncodeTrieVar :: "nat \<Rightarrow> word64" where
  "EncodeTrieVar i = maketrievar (word_of_nat i)"

definition DecodeTrieVar :: "word64 \<Rightarrow> nat" where
  "DecodeTrieVar sy = unat (trievar_val sy AND 0xffff)"

definition EncodeTrieList :: word64 where "EncodeTrieList = XSB_LIST"

definition ESCAPE_NODE_SYMBOL :: word64 where "ESCAPE_NODE_SYMBOL = 0"

definition trie_try_attv :: nat where "trie_try_attv = 0x5e"
definition trie_try_str :: nat where "trie_try_str = 0x62"
definition trie_try_list :: nat where "trie_try_list = 0x66"
definition trie_try_var :: nat where "trie_try_var = 0x6a"
definition trie_try_val :: nat where "trie_try_val = 0x6e"
definition trie_try_numcon :: nat where "trie_try_numcon = 0x72"
definition trie_proceed :: nat where "trie_proceed = 0x78"
definition trie_root :: nat where "trie_root = 0x7d"
definition variant_trie_try_val :: nat where "variant_trie_try_val = 0x8a"

lemmas opcode_defs = trie_try_attv_def trie_try_str_def trie_try_list_def trie_try_var_def
  trie_try_val_def trie_try_numcon_def trie_proceed_def trie_root_def variant_trie_try_val_def

text \<open>The \<open>try\<close> instruction for a symbol, \<open>None\<close> for a bad tag.\<close>

definition TN_SetInstr :: "word64 \<Rightarrow> word64 \<Rightarrow> nat \<Rightarrow> nat option" where
  "TN_SetInstr sy intrn tt =
     (let t = cell_tag sy in
      if t = XSB_STRUCT then Some (if intrn \<noteq> 0 then trie_try_numcon else trie_try_str)
      else if t = XSB_INT \<or> t = XSB_STRING \<or> t = XSB_FLOAT then Some trie_try_numcon
      else if t = XSB_REF then
        Some (if IsNewTrieVar sy then trie_try_var
              else if IsNewTrieAttv sy then trie_try_attv
              else if tt = BASIC_ANSWER_TRIE_TT then variant_trie_try_val
              else trie_try_val)
      else if t = XSB_LIST then Some (if intrn \<noteq> 0 then trie_try_numcon else trie_try_list)
      else None)"

text \<open>
  The two low bits of an instruction are its choice point operation: 0 none, 1 trust, 2 try,
  3 retry. \<open>TN_RotateInstrCPtoRETRYorTRUST\<close> makes try retry and none trust.
\<close>

definition RotateInstr :: "nat \<Rightarrow> tries \<Rightarrow> tries" where
  "RotateInstr p s = s\<lparr>tn_instr := (tn_instr s)(p := tn_instr s p + 1)\<rparr>"

definition ForceInstr :: "nat \<Rightarrow> nat \<Rightarrow> tries \<Rightarrow> tries" where
  "ForceInstr k p s = s\<lparr>tn_instr := (tn_instr s)(p := tn_instr s p - tn_instr s p mod 4 + k)\<rparr>"

definition TN_ResetInstrCPs :: "nat \<Rightarrow> nat \<Rightarrow> tries \<Rightarrow> tries" where
  "TN_ResetInstrCPs p sib s =
     (if sib \<noteq> 0 then RotateInstr sib s
      else s\<lparr>tn_instr := (tn_instr s)(p := tn_instr s p - 2)\<rparr>)"

definition TN_UpgradeInstrTypeToSUCCESS :: "nat \<Rightarrow> word64 \<Rightarrow> tries \<Rightarrow> tries" where
  "TN_UpgradeInstrTypeToSUCCESS p tag s =
     (if tag = XSB_STRING \<or> tag = XSB_INT \<or> tag = XSB_FLOAT
      then s\<lparr>tn_instr := (tn_instr s)(p := tn_instr s p + 4)\<rparr> else s)"

section \<open>New nodes\<close>

definition TN_Init :: "nat \<Rightarrow> nat \<Rightarrow> nat \<Rightarrow> word64 \<Rightarrow> word64 \<Rightarrow> nat \<Rightarrow> nat \<Rightarrow> tries \<Rightarrow> tries option" where
  "TN_Init p tt nt sy intrn parent sib s =
     map_option (\<lambda>s1. s1\<lparr>tn_status := (tn_status s1)(p := 0), tn_trie_type := (tn_trie_type s1)(p := tt),
         tn_node_type := (tn_node_type s1)(p := nt),
         tn_symbol := (tn_symbol s1)(p := if intrn \<noteq> 0 then intrn else sy),
         tn_parent := (tn_parent s1)(p := parent), tn_child := (tn_child s1)(p := 0),
         tn_sibling := (tn_sibling s1)(p := sib)\<rparr>)
       (if nt \<noteq> TRIE_ROOT_NT
        then map_option (\<lambda>i. TN_ResetInstrCPs p sib (s\<lparr>tn_instr := (tn_instr s)(p := i)\<rparr>)) (TN_SetInstr sy intrn tt)
        else Some (s\<lparr>tn_instr := (tn_instr s)(p := trie_root)\<rparr>))"

definition new_btn :: "nat \<Rightarrow> nat \<Rightarrow> word64 \<Rightarrow> word64 \<Rightarrow> nat \<Rightarrow> nat \<Rightarrow> tries \<Rightarrow> (nat \<times> tries) option" where
  "new_btn tt nt sy intrn parent sib s =
     (let p = tn_next s
      in map_option (Pair p) (TN_Init p tt nt sy intrn parent sib (s\<lparr>tn_next := p + 1\<rparr>)))"

definition newBasicTrie :: "word64 \<Rightarrow> nat \<Rightarrow> tries \<Rightarrow> (nat \<times> tries) option" where
  "newBasicTrie sy tt s = new_btn tt TRIE_ROOT_NT sy 0 0 0 s"

section \<open>Hash tables of children\<close>

definition MAX_SIBLING_LEN :: nat where "MAX_SIBLING_LEN = 8"
definition BUCKET_CONTENT_THRESHOLD :: nat where "BUCKET_CONTENT_THRESHOLD = MAX_SIBLING_LEN div 2"
definition TrieHT_INIT_SIZE :: nat where "TrieHT_INIT_SIZE = 64"

definition TrieHash :: "word64 \<Rightarrow> nat \<Rightarrow> nat" where
  "TrieHash sy seed = (if IsTrieVar sy then 0 else unat (drop_bit 3 sy AND word_of_nat seed))"

definition TrieHT_InsertNode :: "nat \<Rightarrow> nat \<Rightarrow> nat \<Rightarrow> tries \<Rightarrow> tries" where
  "TrieHT_InsertNode h seed p s =
     (let b = TrieHash (tn_symbol s p) seed; old = ht_buckets s h ! b;
          s1 = (if old \<noteq> 0 then RotateInstr old (ForceInstr 2 p s) else ForceInstr 0 p s)
      in s1\<lparr>tn_sibling := (tn_sibling s1)(p := old), ht_buckets := (ht_buckets s1)(h := (ht_buckets s1 h)[b := p])\<rparr>)"

definition New_BTHT :: "nat \<Rightarrow> tries \<Rightarrow> nat \<times> tries" where
  "New_BTHT tt s =
     (let h = tn_next s
      in (h, s\<lparr>tn_next := h + 1, tn_node_type := (tn_node_type s)(h := HASH_HEADER_NT),
              tn_trie_type := (tn_trie_type s)(h := tt), tn_status := (tn_status s)(h := 0),
              ht_contents := (ht_contents s)(h := MAX_SIBLING_LEN + 1),
              ht_buckets := (ht_buckets s)(h := replicate TrieHT_INIT_SIZE 0)\<rparr>))"

partial_function (option) hashify_loop :: "nat \<Rightarrow> nat \<Rightarrow> nat \<Rightarrow> tries \<Rightarrow> tries option" where
  "hashify_loop h seed p s =
     (if p = 0 then Some s
      else hashify_loop h seed (tn_sibling s p) (MakeHashedNode p (TrieHT_InsertNode h seed p s)))"

definition hashify_children :: "nat \<Rightarrow> nat \<Rightarrow> tries \<Rightarrow> tries option" where
  "hashify_children parent tt s =
     (case New_BTHT tt s of (h, s1) \<Rightarrow>
        hashify_loop h (length (ht_buckets s1 h) - 1) (tn_child s1 parent) (s1\<lparr>tn_child := (tn_child s1)(parent := h)\<rparr>))"

partial_function (option) rehash_loop :: "nat \<Rightarrow> nat \<Rightarrow> nat \<Rightarrow> tries \<Rightarrow> tries option" where
  "rehash_loop h msk p s =
     (if p = 0 then Some s else rehash_loop h msk (tn_sibling s p) (TrieHT_InsertNode h msk p s))"

definition rehash_bucket :: "nat \<Rightarrow> nat \<Rightarrow> nat \<Rightarrow> tries \<Rightarrow> tries option" where
  "rehash_bucket h msk i s =
     rehash_loop h msk (ht_buckets s h ! i) (s\<lparr>ht_buckets := (ht_buckets s)(h := (ht_buckets s h)[i := 0])\<rparr>)"

fun rehash_buckets :: "nat \<Rightarrow> nat \<Rightarrow> nat list \<Rightarrow> tries \<Rightarrow> tries option" where
  "rehash_buckets h msk [] s = Some s"
| "rehash_buckets h msk (i # is) s =
     (case rehash_bucket h msk i s of None \<Rightarrow> None | Some s1 \<Rightarrow> rehash_buckets h msk is s1)"

definition expand_trie_ht :: "nat \<Rightarrow> tries \<Rightarrow> tries option" where
  "expand_trie_ht h s =
     (let n = length (ht_buckets s h); m = 2 * n
      in if \<not> tn_grow s m then Some s
         else rehash_buckets h (m - 1) [0..<n]
           (s\<lparr>ht_buckets := (ht_buckets s)(h := ht_buckets s h @ replicate n 0)\<rparr>))"

section \<open>Finding or adding a child\<close>

text \<open>The walk along a chain: the node found, or 0, and the nodes passed.\<close>

partial_function (option) sibling_loop :: "tries \<Rightarrow> word64 \<Rightarrow> nat \<Rightarrow> nat \<Rightarrow> (nat \<times> nat) option" where
  "sibling_loop s sy p cnt =
     (if p \<noteq> 0 \<and> tn_symbol s p \<noteq> sy then sibling_loop s sy (tn_sibling s p) (cnt + 1)
      else Some (p, cnt))"

text \<open>
  \<open>IsInsibling\<close>: the new head of the chain, the node, the cnt, the flag and the state.
\<close>

definition IsInsibling :: "nat \<Rightarrow> bool \<Rightarrow> word64 \<Rightarrow> word64 \<Rightarrow> nat \<Rightarrow> nat \<Rightarrow> tries \<Rightarrow>
    (nat \<times> nat \<times> nat \<times> bool \<times> tries) option" where
  "IsInsibling wherefrom found item intrn tt paren s =
     (case sibling_loop s (if intrn \<noteq> 0 then intrn else item) wherefrom 0 of
        None \<Rightarrow> None
      | Some (p, cnt) \<Rightarrow>
          if p \<noteq> 0 then Some (wherefrom, p, cnt, found, s)
          else map_option (\<lambda>(q, s1). (q, q, cnt + 1, False, s1)) (new_btn tt INTERIOR_NT item intrn paren wherefrom s))"

text \<open>
  \<open>one_btn_chk_ins\<close> on the flag and the parent. The code keeps a pointer to the child field
  of the parent besides; for a trie with a root it is always that of the parent at hand.
\<close>

definition one_btn_chk_ins :: "word64 \<Rightarrow> word64 \<Rightarrow> nat \<Rightarrow> bool \<times> nat \<times> tries \<Rightarrow> (bool \<times> nat \<times> tries) option" where
  "one_btn_chk_ins item intrn tt = (\<lambda>(found, paren, s).
     (let c = tn_child s paren in
      if c = 0 then
        map_option (\<lambda>(p, s1). (False, p, s1\<lparr>tn_child := (tn_child s1)(paren := p)\<rparr>))
          (new_btn tt INTERIOR_NT item intrn paren 0 s)
      else if IsHashHeader s c then
        (let b = TrieHash (if intrn \<noteq> 0 then intrn else item) (length (ht_buckets s c) - 1) in
         case IsInsibling (ht_buckets s c ! b) found item intrn tt paren s of
           None \<Rightarrow> None
         | Some (w, p, cnt, found', s1) \<Rightarrow>
             (let s2 = s1\<lparr>ht_buckets := (ht_buckets s1)(c := (ht_buckets s1 c)[b := w])\<rparr> in
              if found' then Some (True, p, s2)
              else (let s3 = (MakeHashedNode p s2)\<lparr>ht_contents := (ht_contents s2)(c := ht_contents s2 c + 1)\<rparr>
                    in map_option (\<lambda>s4. (False, p, s4))
                         (if cnt > BUCKET_CONTENT_THRESHOLD \<and> ht_contents s3 c > length (ht_buckets s3 c)
                          then expand_trie_ht c s3 else Some s3))))
      else
        (case IsInsibling c found item intrn tt paren s of
           None \<Rightarrow> None
         | Some (w, p, cnt, found', s1) \<Rightarrow>
             (let s2 = s1\<lparr>tn_child := (tn_child s1)(paren := w)\<rparr>
              in map_option (\<lambda>s3. (found', p, s3))
                   (if cnt > MAX_SIBLING_LEN then hashify_children paren tt s2 else Some s2)))))"


section \<open>Chains of siblings\<close>

fun slist :: "(nat \<Rightarrow> nat) \<Rightarrow> nat \<Rightarrow> nat list \<Rightarrow> bool" where
  "slist sib p [] \<longleftrightarrow> p = 0"
| "slist sib p (q # qs) \<longleftrightarrow> p = q \<and> q \<noteq> 0 \<and> slist sib (sib q) qs"

lemma slist_upd [simp]: "r \<notin> set qs \<Longrightarrow> slist (sib(r := x)) p qs = slist sib p qs"
  by (induction qs arbitrary: p) auto

lemma slist_cong: "(\<And>q. q \<in> set qs \<Longrightarrow> sib' q = sib q) \<Longrightarrow> slist sib' p qs = slist sib p qs"
  by (induction qs arbitrary: p) auto

lemma slist_unique: "slist sib p qs \<Longrightarrow> slist sib p rs \<Longrightarrow> qs = rs"
proof (induction qs arbitrary: p rs)
  case (Cons q qs)
  then show ?case by (cases rs) auto
qed (auto elim: slist.elims)

lemma slist_nonzero: "slist sib p qs \<Longrightarrow> 0 \<notin> set qs"
  by (induction qs arbitrary: p) auto

text \<open>The choice point operations of a chain: try, retry, ..., retry, trust.\<close>

definition cps :: "nat \<Rightarrow> nat list" where
  "cps n = (if n = 0 then [] else if n = 1 then [0] else 2 # replicate (n - 2) 3 @ [1])"

definition cp_ok :: "(nat \<Rightarrow> nat) \<Rightarrow> nat list \<Rightarrow> bool" where
  "cp_ok ins qs \<longleftrightarrow> map (\<lambda>q. ins q mod 4) qs = cps (length qs)"

lemma cp_ok_cong: "(\<And>q. q \<in> set qs \<Longrightarrow> ins' q = ins q) \<Longrightarrow> cp_ok ins' qs = cp_ok ins qs"
  by (simp add: cp_ok_def cong: map_cong)

lemma cp_ok_Nil [simp]: "cp_ok ins []"
  by (simp add: cp_ok_def cps_def)

text \<open>A new head: the old one becomes a retry or a trust.\<close>

lemma cp_ok_Cons:
  assumes "cp_ok ins qs" "p \<notin> set qs" "distinct qs" "ins' p mod 4 = (if qs = [] then 0 else 2)"
    and "\<And>q. q \<in> set qs \<Longrightarrow> ins' q = (if q = hd qs then ins q + 1 else ins q)"
  shows "cp_ok ins' (p # qs)"
proof (cases qs)
  case Nil
  then show ?thesis using assms(4) by (simp add: cp_ok_def cps_def)
next
  case (Cons q rs)
  have hd: "ins q mod 4 = hd (cps (length qs))" and tl: "map (\<lambda>q. ins q mod 4) rs = tl (cps (length qs))"
    using assms(1) Cons by (auto simp: cp_ok_def dest: arg_cong [where f = hd] arg_cong [where f = tl])
  have "map (\<lambda>q. ins' q mod 4) rs = map (\<lambda>q. ins q mod 4) rs"
    using assms(3,5) Cons by (auto intro!: map_cong)
  then have "map (\<lambda>q. ins' q mod 4) rs = tl (cps (length qs))" by (simp only: tl)
  moreover have "ins' q mod 4 = (if rs = [] then 1 else 3)"
    using hd assms(5) [of q] Cons by (auto simp: cps_def mod_Suc)
  ultimately show ?thesis using assms(4) Cons by (cases rs) (simp_all add: cp_ok_def cps_def)
qed

section \<open>The walk along a chain\<close>

lemma sibling_loop_found:
  assumes "slist (tn_sibling s) p qs"
  shows "case find (\<lambda>q. tn_symbol s q = sy) qs of
      Some q \<Rightarrow> \<exists>k. sibling_loop s sy p cnt = Some (q, cnt + k) \<and> k < length qs
    | None \<Rightarrow> sibling_loop s sy p cnt = Some (0, cnt + length qs)"
  using assms
proof (induction qs arbitrary: p cnt)
  case Nil
  then show ?case by (subst sibling_loop.simps) simp
next
  case (Cons q qs)
  show ?case
  proof (cases "tn_symbol s q = sy")
    case True
    then show ?thesis using Cons.prems by (subst sibling_loop.simps) auto
  next
    case False
    then have "sibling_loop s sy p cnt = sibling_loop s sy (tn_sibling s q) (cnt + 1)"
      using Cons.prems by (subst sibling_loop.simps) simp
    then show ?thesis using Cons.IH [of "tn_sibling s q" "cnt + 1"] Cons.prems False
      by (auto split: option.splits)
  qed
qed

section \<open>Buckets\<close>

definition buckets_ok :: "tries \<Rightarrow> nat \<Rightarrow> nat list list \<Rightarrow> bool" where
  "buckets_ok s h bs \<longleftrightarrow> length (ht_buckets s h) = length bs \<and>
     (\<forall>i < length bs. slist (tn_sibling s) (ht_buckets s h ! i) (bs ! i) \<and> cp_ok (tn_instr s) (bs ! i))"

definition seed_of :: "nat list list \<Rightarrow> nat" where
  "seed_of bs = length bs - 1"

lemma seed_of_length: "length bs' = length bs \<Longrightarrow> seed_of bs' = seed_of bs"
  by (simp add: seed_of_def)

text \<open>The buckets outside \<open>I\<close> hold only what hashes to them.\<close>

definition hashed_right :: "nat set \<Rightarrow> tries \<Rightarrow> nat list list \<Rightarrow> bool" where
  "hashed_right I s bs \<longleftrightarrow>
     (\<forall>i < length bs. i \<notin> I \<longrightarrow> (\<forall>q \<in> set (bs ! i). TrieHash (tn_symbol s q) (seed_of bs) = i))"

lemma TrieHash_less: "0 < n \<Longrightarrow> TrieHash sy (n - 1) < n"
proof -
  assume n: "0 < n"
  have "unat (x AND word_of_nat (n - 1)) \<le> n - 1" for x :: word64
  proof -
    have "unat (x AND word_of_nat (n - 1)) \<le> unat (word_of_nat (n - 1) :: word64)"
      using word_and_le1 [of x "word_of_nat (n - 1)"] by (simp add: word_le_nat_alt)
    also have "\<dots> \<le> n - 1" by (simp add: unat_of_nat take_bit_nat_less_eq_self unsigned_of_nat)
    finally show ?thesis .
  qed
  from this [of "drop_bit 3 sy"] n show ?thesis unfolding TrieHash_def by auto
qed

text \<open>What putting nodes of \<open>X\<close> into the table \<open>h\<close> leaves alone.\<close>

definition table_frame :: "nat set \<Rightarrow> nat \<Rightarrow> tries \<Rightarrow> tries \<Rightarrow> bool" where
  "table_frame X h s s' \<longleftrightarrow> tn_symbol s' = tn_symbol s \<and> tn_parent s' = tn_parent s \<and> tn_status s' = tn_status s \<and>
     tn_trie_type s' = tn_trie_type s \<and> tn_child s' = tn_child s \<and> tn_next s' = tn_next s \<and> tn_grow s' = tn_grow s \<and>
     ht_contents s' = ht_contents s \<and> (\<forall>r. tn_instr s' r div 4 = tn_instr s r div 4) \<and>
     (\<forall>r. r \<notin> X \<longrightarrow> tn_instr s' r = tn_instr s r \<and> tn_sibling s' r = tn_sibling s r \<and> tn_node_type s' r = tn_node_type s r) \<and>
     (\<forall>r. tn_node_type s' r = tn_node_type s r \<or> tn_node_type s' r = tn_node_type s r OR 1) \<and>
     (\<forall>k. k \<noteq> h \<longrightarrow> ht_buckets s' k = ht_buckets s k)"

lemma table_frameD:
  assumes "table_frame X h s s'"
  shows "r \<notin> X \<Longrightarrow> tn_instr s' r = tn_instr s r" "r \<notin> X \<Longrightarrow> tn_sibling s' r = tn_sibling s r"
    "r \<notin> X \<Longrightarrow> tn_node_type s' r = tn_node_type s r" "tn_symbol s' = tn_symbol s" "tn_parent s' = tn_parent s"
    "tn_child s' = tn_child s" "tn_next s' = tn_next s" "tn_grow s' = tn_grow s" "ht_contents s' = ht_contents s"
    "k \<noteq> h \<Longrightarrow> ht_buckets s' k = ht_buckets s k"
    "tn_node_type s' r = tn_node_type s r \<or> tn_node_type s' r = tn_node_type s r OR 1"
    "tn_instr s' r div 4 = tn_instr s r div 4"
  using assms unfolding table_frame_def by blast+

lemma table_frame_refl: "table_frame X h s s"
  by (simp add: table_frame_def)

lemma table_frame_trans:
  assumes "table_frame X h s s1" "table_frame X h s1 s2"
  shows "table_frame X h s s2"
proof -
  have "tn_node_type s2 r = tn_node_type s r \<or> tn_node_type s2 r = tn_node_type s r OR 1" for r
  proof -
    have "tn_node_type s1 r = tn_node_type s r \<or> tn_node_type s1 r = tn_node_type s r OR 1"
      "tn_node_type s2 r = tn_node_type s1 r \<or> tn_node_type s2 r = tn_node_type s1 r OR 1"
      using assms by (auto simp only: table_frame_def)
    then show ?thesis by (elim disjE) (simp_all add: or.assoc)
  qed
  then show ?thesis using assms unfolding table_frame_def by simp
qed

lemma table_frame_mono: "table_frame X h s s' \<Longrightarrow> X \<subseteq> Y \<Longrightarrow> table_frame Y h s s'"
  by (auto simp: table_frame_def)


lemma distinct_concat_nth:
  "distinct (concat xs) \<Longrightarrow> i < length xs \<Longrightarrow> j < length xs \<Longrightarrow> i \<noteq> j \<Longrightarrow> set (xs ! i) \<inter> set (xs ! j) = {}"
proof (induction xs arbitrary: i j)
  case (Cons x xs)
  have x: "set x \<inter> set (xs ! k) = {}" if "k < length xs" for k
    using Cons.prems(1) nth_mem [OF that] by auto
  show ?case
    using Cons.IH Cons.prems x by (cases i; cases j) auto
qed simp

lemma in_concat_nth: "i < length xs \<Longrightarrow> q \<in> set (xs ! i) \<Longrightarrow> q \<in> set (concat xs)"
  using nth_mem by fastforce

lemma slist_head: "slist sib p qs \<Longrightarrow> p = (if qs = [] then 0 else hd qs)"
  by (cases qs) auto

lemma cp_ok_head: "cp_ok ins qs \<Longrightarrow> qs \<noteq> [] \<Longrightarrow> ins (hd qs) mod 4 = 0 \<or> ins (hd qs) mod 4 = 2"
  by (cases qs) (auto simp: cp_ok_def cps_def split: if_splits)

lemma div4_cp:
  fixes i :: nat
  shows "k < 4 \<Longrightarrow> (i - i mod 4 + k) div 4 = i div 4" "i mod 4 = 0 \<or> i mod 4 = 2 \<Longrightarrow> (i + 1) div 4 = i div 4"
  by presburger+

lemma InsertNode_frame:
  assumes "buckets_ok s h bs" "b < length bs" "b = TrieHash (tn_symbol s p) seed"
  shows "table_frame (insert p (set (concat bs))) h s (TrieHT_InsertNode h seed p s)"
proof -
  have "ht_buckets s h ! b \<noteq> 0 \<Longrightarrow> ht_buckets s h ! b \<in> set (concat bs)"
    using assms(1,2) slist_head [of "tn_sibling s" "ht_buckets s h ! b" "bs ! b"] in_concat_nth [OF assms(2) hd_in_set]
    by (auto simp: buckets_ok_def assms(2) simp del: set_concat split: if_splits)
  moreover have "tn_instr (TrieHT_InsertNode h seed p s) r div 4 = tn_instr s r div 4" for r
  proof (cases "ht_buckets s h ! b = 0")
    case False
    then have "ht_buckets s h ! b = hd (bs ! b)" "bs ! b \<noteq> []" "cp_ok (tn_instr s) (bs ! b)"
      using assms(1,2) slist_head [of "tn_sibling s" "ht_buckets s h ! b" "bs ! b"] by (auto simp: buckets_ok_def split: if_splits)
    then have m: "tn_instr s (ht_buckets s h ! b) mod 4 = 0 \<or> tn_instr s (ht_buckets s h ! b) mod 4 = 2" using cp_ok_head by metis
    have "tn_instr (TrieHT_InsertNode h seed p s) r = (let i = (if r = p then tn_instr s p - tn_instr s p mod 4 + 2 else tn_instr s r)
        in if r = ht_buckets s h ! b then i + 1 else i)"
      using False assms(3) by (simp add: TrieHT_InsertNode_def RotateInstr_def ForceInstr_def Let_def)
    moreover have "(tn_instr s p - tn_instr s p mod 4 + 2 + 1) div 4 = tn_instr s p div 4" by presburger
    ultimately show ?thesis using div4_cp(1) [of 2 "tn_instr s p"] div4_cp(2) [OF m] by (auto simp: Let_def)
  qed (use assms(3) div4_cp(1) [of 0 "tn_instr s p"] in \<open>auto simp: TrieHT_InsertNode_def ForceInstr_def Let_def\<close>)
  ultimately show ?thesis
    using assms(3) by (auto simp: table_frame_def TrieHT_InsertNode_def RotateInstr_def ForceInstr_def Let_def)
qed

lemma mod_force: "k < 4 \<Longrightarrow> ((i :: nat) - i mod 4 + k) mod 4 = k"
  by (metis minus_mod_eq_mult_div mod_less mod_mult_self4 add.commute)

lemma InsertNode_buckets:
  assumes ok: "buckets_ok s h bs" and ne: "bs \<noteq> []" and p: "p \<notin> set (concat bs)" "p \<noteq> 0" and d: "distinct (concat bs)"
    and b: "b = TrieHash (tn_symbol s p) (seed_of bs)"
  shows "buckets_ok (TrieHT_InsertNode h (seed_of bs) p s) h (bs[b := p # bs ! b])" (is "buckets_ok ?s h ?bs")
  unfolding buckets_ok_def
proof (intro conjI allI impI)
  let ?old = "ht_buckets s h ! b"
  have bl: "b < length bs" using ne b TrieHash_less by (simp add: seed_of_def)
  have L: "length (ht_buckets s h) = length bs" using ok by (simp add: buckets_ok_def)
  have ob: "slist (tn_sibling s) ?old (bs ! b)" "cp_ok (tn_instr s) (bs ! b)" using ok bl by (auto simp: buckets_ok_def)
  have old: "?old = (if bs ! b = [] then 0 else hd (bs ! b))" "?old \<noteq> 0 \<longleftrightarrow> bs ! b \<noteq> []"
    using ob(1) by (cases "bs ! b"; simp)+
  have pold: "?old \<noteq> p"
  proof (cases "bs ! b")
    case (Cons q qs)
    then have "q \<in> set (concat bs)" using in_concat_nth [OF bl, of q] by simp
    then show ?thesis using old Cons p by auto
  qed (use old p in auto)
  have sib: "tn_sibling ?s = (tn_sibling s)(p := ?old)" and buk: "ht_buckets ?s h = (ht_buckets s h)[b := p]"
    and ins: "tn_instr ?s r = (if r = p then tn_instr s p - tn_instr s p mod 4 + (if bs ! b = [] then 0 else 2)
      else if bs ! b \<noteq> [] \<and> r = hd (bs ! b) then tn_instr s r + 1 else tn_instr s r)" for r
    unfolding TrieHT_InsertNode_def Let_def b [symmetric]
    using old pold by (auto simp: RotateInstr_def ForceInstr_def)
  show "length (ht_buckets ?s h) = length ?bs" using buk L by simp
  fix i assume i: "i < length ?bs"
  have pi: "p \<notin> set (bs ! i)" using p i by (auto dest: nth_mem)
  have "slist (tn_sibling ?s) (ht_buckets ?s h ! i) (?bs ! i) \<and> cp_ok (tn_instr ?s) (?bs ! i)"
  proof (cases "i = b")
    case True
    have "distinct (bs ! b)" using d bl by (simp add: distinct_concat_iff)
    moreover have "tn_instr ?s p mod 4 = (if bs ! b = [] then 0 else 2)"
      unfolding ins if_P [OF refl] by (rule mod_force) simp
    ultimately have "cp_ok (tn_instr ?s) (p # bs ! b)"
      using pi True by (intro cp_ok_Cons [OF ob(2)]) (auto simp: ins)
    then show ?thesis using True i pi p ob(1) L by (simp add: sib buk)
  next
    case False
    have "hd (bs ! b) \<notin> set (bs ! i)" if "bs ! b \<noteq> []"
      using distinct_concat_nth [OF d bl, of i] False i hd_in_set [OF that] by auto
    then have "cp_ok (tn_instr ?s) (bs ! i)" using ok i pi by (subst cp_ok_cong [of _ _ "tn_instr s"]) (auto simp: ins buckets_ok_def)
    then show ?thesis using False i pi ok by (simp add: sib buk buckets_ok_def)
  qed
  then show "slist (tn_sibling ?s) (ht_buckets ?s h ! i) (?bs ! i)" "cp_ok (tn_instr ?s) (?bs ! i)" by auto
qed


lemma concat_update_Cons: "b < length bs \<Longrightarrow> mset (concat (bs[b := p # bs ! b])) = add_mset p (mset (concat bs))"
  by (induction bs arbitrary: b) (auto split: nat.splits)

lemma concat_update_Nil: "b < length bs \<Longrightarrow> mset (concat (bs[b := []])) + mset (bs ! b) = mset (concat bs)"
  by (induction bs arbitrary: b) (auto split: nat.splits)

text \<open>What a loop of insertions of \<open>qs\<close> into a table gives.\<close>

definition refills :: "nat \<Rightarrow> nat set \<Rightarrow> nat list list \<Rightarrow> nat list \<Rightarrow> tries \<Rightarrow> tries \<Rightarrow> nat list list \<Rightarrow> bool" where
  "refills h I bs qs s s' bs' \<longleftrightarrow> buckets_ok s' h bs' \<and> length bs' = length bs \<and>
     mset (concat bs') = mset (concat bs) + mset qs \<and> hashed_right I s' bs' \<and>
     table_frame (set qs \<union> set (concat bs)) h s s'"

lemma InsertNode_refills:
  assumes ok: "buckets_ok s h bs" and ne: "bs \<noteq> []" and p: "p \<notin> set (concat bs)" "p \<noteq> 0" and d: "distinct (concat bs)"
    and r: "hashed_right I s bs"
  shows "\<exists>bs'. refills h I bs [p] s (TrieHT_InsertNode h (seed_of bs) p s) bs'"
proof
  let ?b = "TrieHash (tn_symbol s p) (seed_of bs)" and ?s = "TrieHT_InsertNode h (seed_of bs) p s"
  have b: "?b < length bs" using ne TrieHash_less by (simp add: seed_of_def)
  have f: "table_frame (insert p (set (concat bs))) h s ?s" by (rule InsertNode_frame [OF ok b refl])
  then have "tn_symbol ?s = tn_symbol s" by (simp add: table_frame_def)
  then have "hashed_right I ?s (bs[?b := p # bs ! ?b])"
    using r b seed_of_length [of "bs[?b := p # bs ! ?b]" bs] by (auto simp: hashed_right_def nth_list_update split: if_splits)
  then show "refills h I bs [p] s ?s (bs[?b := p # bs ! ?b])"
    using InsertNode_buckets [OF ok ne p d refl] f concat_update_Cons [OF b, of p] by (simp add: refills_def)
qed

lemma refills_trans:
  assumes "refills h I bs qs s s1 bs1" "refills h I bs1 rs s1 s2 bs2"
  shows "refills h I bs (qs @ rs) s s2 bs2"
proof -
  have m: "mset (concat bs1) = mset (concat bs) + mset qs" using assms(1) by (simp add: refills_def)
  then have "set (concat bs1) = set (concat bs) \<union> set qs" by (metis set_mset_mset set_mset_union)
  note sets = this
  let ?X = "set (qs @ rs) \<union> set (concat bs)"
  have f: "table_frame (set qs \<union> set (concat bs)) h s s1" "table_frame (set rs \<union> set (concat bs1)) h s1 s2"
    using assms by (auto simp only: refills_def)
  have "table_frame ?X h s s1" by (rule table_frame_mono [OF f(1)]) auto
  moreover have "table_frame ?X h s1 s2" by (rule table_frame_mono [OF f(2)]) (unfold sets, auto)
  ultimately have "table_frame ?X h s s2" by (rule table_frame_trans)
  then show ?thesis using assms m by (simp add: refills_def)
qed

lemma rehash_loop_refills:
  assumes "buckets_ok s h bs" "bs \<noteq> []" "distinct (concat bs @ qs)" "slist (tn_sibling s) p qs" "hashed_right I s bs"
  shows "\<exists>s' bs'. rehash_loop h (seed_of bs) p s = Some s' \<and> refills h I bs qs s s' bs'"
  using assms
proof (induction qs arbitrary: s p bs)
  case Nil
  then show ?case by (subst rehash_loop.simps) (auto simp: refills_def table_frame_refl)
next
  case (Cons q qs)
  let ?s = "TrieHT_InsertNode h (seed_of bs) q s"
  have q: "q \<notin> set (concat bs)" "q \<noteq> 0" "p = q" "slist (tn_sibling s) (tn_sibling s q) qs" using Cons.prems by auto
  obtain bs1 where r: "refills h I bs [q] s ?s bs1"
    using InsertNode_refills [OF Cons.prems(1,2) q(1,2) _ Cons.prems(5)] Cons.prems(3) by auto
  then have m: "mset (concat bs1) = mset (q # concat bs)" and f: "table_frame ({q} \<union> set (concat bs)) h s ?s"
    by (simp_all add: refills_def)
  have "\<exists>s' bs'. rehash_loop h (seed_of bs1) (tn_sibling s q) ?s = Some s' \<and> refills h I bs1 qs ?s s' bs'"
  proof (rule Cons.IH)
    have "mset (concat bs1 @ qs) = mset (q # concat bs @ qs)" using m by simp
    moreover have "distinct (q # concat bs @ qs)" using Cons.prems(3) by auto
    ultimately show "distinct (concat bs1 @ qs)" by (metis mset_eq_imp_distinct_iff)
    show "slist (tn_sibling ?s) (tn_sibling s q) qs"
    proof (subst slist_cong)
      show "tn_sibling ?s r = tn_sibling s r" if "r \<in> set qs" for r
        using Cons.prems(3) that by (intro table_frameD(2) [OF f]) auto
    qed (rule q(4))
    show "bs1 \<noteq> []" using r Cons.prems(2) by (auto simp: refills_def)
  qed (use r in \<open>auto simp: refills_def\<close>)
  moreover have "seed_of bs1 = seed_of bs" using r by (intro seed_of_length) (simp add: refills_def)
  ultimately obtain s' bs' where "rehash_loop h (seed_of bs) (tn_sibling s q) ?s = Some s'" "refills h I bs1 qs ?s s' bs'" by auto
  moreover have "rehash_loop h (seed_of bs) p s = rehash_loop h (seed_of bs) (tn_sibling s q) ?s"
    using q by (subst rehash_loop.simps) simp
  ultimately show ?case using refills_trans [OF r] by auto
qed


lemma clear_bucket:
  assumes "buckets_ok s h bs" "i < length bs" "hashed_right I s bs"
  defines "s0 \<equiv> s\<lparr>ht_buckets := (ht_buckets s)(h := (ht_buckets s h)[i := 0])\<rparr>"
  shows "buckets_ok s0 h (bs[i := []])" "hashed_right (I - {i}) s0 (bs[i := []])" "table_frame X h s s0"
    "slist (tn_sibling s0) (ht_buckets s h ! i) (bs ! i)"
  using assms by (auto simp: buckets_ok_def hashed_right_def table_frame_def nth_list_update seed_of_def)

lemma rehash_bucket_ok:
  assumes ok: "buckets_ok s h bs" and i: "i < length bs" and d: "distinct (concat bs)" and r: "hashed_right I s bs"
  shows "\<exists>s' bs'. rehash_bucket h (seed_of bs) i s = Some s' \<and> buckets_ok s' h bs' \<and> length bs' = length bs \<and>
    mset (concat bs') = mset (concat bs) \<and> hashed_right (I - {i}) s' bs' \<and> table_frame (set (concat bs)) h s s'"
proof -
  let ?s = "s\<lparr>ht_buckets := (ht_buckets s)(h := (ht_buckets s h)[i := 0])\<rparr>"
  note c = clear_bucket [OF ok i r]
  have m: "mset (concat (bs[i := []]) @ bs ! i) = mset (concat bs)" using concat_update_Nil [OF i] by simp
  then have st: "set (bs ! i) \<union> set (concat (bs[i := []])) = set (concat bs)"
    by (metis Un_commute set_append set_mset_mset)
  have ne: "bs[i := []] \<noteq> []" using i by auto
  have di: "distinct (concat (bs[i := []]) @ bs ! i)" using m d mset_eq_imp_distinct_iff by blast
  obtain s' bs' where s': "rehash_loop h (seed_of (bs[i := []])) (ht_buckets s h ! i) ?s = Some s'"
    "refills h (I - {i}) (bs[i := []]) (bs ! i) ?s s' bs'"
    using rehash_loop_refills [OF c(1) ne di c(4) c(2)] by blast
  then have f: "table_frame (set (concat bs)) h ?s s'" using st by (simp only: refills_def)
  have "rehash_bucket h (seed_of bs) i s = Some s'"
    using s'(1) seed_of_length [of "bs[i := []]" bs] by (simp add: rehash_bucket_def)
  moreover have "table_frame (set (concat bs)) h s s'" by (rule table_frame_trans [OF c(3) f])
  ultimately show ?thesis using s'(2) m by (auto simp: refills_def)
qed

lemma rehash_buckets_ok:
  assumes "buckets_ok s h bs" "distinct (concat bs)" "hashed_right I s bs" "set is \<subseteq> {..<length bs}"
  shows "\<exists>s' bs'. rehash_buckets h (seed_of bs) is s = Some s' \<and> buckets_ok s' h bs' \<and> length bs' = length bs \<and>
    mset (concat bs') = mset (concat bs) \<and> hashed_right (I - set is) s' bs' \<and> table_frame (set (concat bs)) h s s'"
  using assms
proof (induction "is" arbitrary: s bs I)
  case Nil
  then show ?case by (auto simp: table_frame_refl)
next
  case (Cons i js)
  obtain s1 bs1 where s1: "rehash_bucket h (seed_of bs) i s = Some s1" "buckets_ok s1 h bs1" "length bs1 = length bs"
    "mset (concat bs1) = mset (concat bs)" "hashed_right (I - {i}) s1 bs1" "table_frame (set (concat bs)) h s s1"
    using rehash_bucket_ok [OF Cons.prems(1) _ Cons.prems(2,3), of i] Cons.prems(4) by auto
  have sd: "seed_of bs1 = seed_of bs" by (rule seed_of_length [OF s1(3)])
  have st: "set (concat bs1) = set (concat bs)" using s1(4) by (metis set_mset_mset)
  obtain s2 bs2 where s2: "rehash_buckets h (seed_of bs) js s1 = Some s2" "buckets_ok s2 h bs2" "length bs2 = length bs"
    "mset (concat bs2) = mset (concat bs)" "hashed_right (I - {i} - set js) s2 bs2" "table_frame (set (concat bs)) h s1 s2"
    using Cons.IH [OF s1(2) _ s1(5)] Cons.prems(2,4) s1(3,4) sd st mset_eq_imp_distinct_iff [OF s1(4)] by auto
  have "table_frame (set (concat bs)) h s s2" by (rule table_frame_trans [OF s1(6) s2(6)])
  moreover have "I - {i} - set js = I - set (i # js)" by auto
  ultimately show ?case using s1(1) s2 by auto
qed

text \<open>Doubling a table keeps its nodes.\<close>

lemma expand_ok:
  assumes ok: "buckets_ok s h bs" and ne: "bs \<noteq> []" and d: "distinct (concat bs)" and r: "hashed_right {} s bs"
  shows "\<exists>s' bs'. expand_trie_ht h s = Some s' \<and> buckets_ok s' h bs' \<and> bs' \<noteq> [] \<and> mset (concat bs') = mset (concat bs) \<and>
    hashed_right {} s' bs' \<and> table_frame (set (concat bs)) h s s'"
proof (cases "tn_grow s (2 * length bs)")
  case True
  let ?n = "length bs" and ?bs = "bs @ replicate (length bs) []"
  let ?s = "s\<lparr>ht_buckets := (ht_buckets s)(h := ht_buckets s h @ replicate ?n 0)\<rparr>"
  have L: "length (ht_buckets s h) = ?n" using ok by (simp add: buckets_ok_def)
  have ok': "buckets_ok ?s h ?bs" using ok by (auto simp: buckets_ok_def nth_append)
  have r': "hashed_right {..<?n} ?s ?bs" by (auto simp: hashed_right_def nth_append)
  have c: "concat ?bs = concat bs" by simp
  have "set [0..<?n] \<subseteq> {..<length ?bs}" by auto
  from rehash_buckets_ok [OF ok' _ r' this] obtain s' bs' where
    s': "rehash_buckets h (seed_of ?bs) [0..<?n] ?s = Some s'" "buckets_ok s' h bs'" "length bs' = length ?bs"
      "mset (concat bs') = mset (concat bs)" "hashed_right ({..<?n} - set [0..<?n]) s' bs'" "table_frame (set (concat bs)) h ?s s'"
    using d unfolding c by blast
  have sd: "seed_of ?bs = 2 * ?n - 1" by (simp add: seed_of_def mult_2)
  have "expand_trie_ht h s = Some s'" using s'(1) True L unfolding expand_trie_ht_def sd by (simp add: Let_def)
  moreover have "table_frame (set (concat bs)) h s s'"
    by (rule table_frame_trans [OF _ s'(6)]) (simp add: table_frame_def)
  ultimately show ?thesis using s' ne by (intro exI [of _ s'] exI [of _ bs']) (auto simp: atLeast0LessThan)
next
  case False
  then show ?thesis using assms by (intro exI [of _ s] exI [of _ bs]) (simp add: expand_trie_ht_def buckets_ok_def table_frame_refl)
qed

text \<open>A chain moved into a table.\<close>

lemma MakeHashed_buckets: "buckets_ok (MakeHashedNode p s) h bs = buckets_ok s h bs"
  "hashed_right I (MakeHashedNode p s) bs = hashed_right I s bs"
  by (simp_all add: buckets_ok_def hashed_right_def MakeHashedNode_def)

lemma MakeHashed_frame: "p \<in> X \<Longrightarrow> table_frame X h s s' \<Longrightarrow> tn_node_type s' p = tn_node_type s p \<Longrightarrow>
    table_frame X h s (MakeHashedNode p s')"
  by (auto simp: table_frame_def MakeHashedNode_def)

lemma hashify_loop_refills:
  assumes "buckets_ok s h bs" "bs \<noteq> []" "distinct (concat bs @ qs)" "slist (tn_sibling s) p qs" "hashed_right I s bs"
  shows "\<exists>s' bs'. hashify_loop h (seed_of bs) p s = Some s' \<and> refills h I bs qs s s' bs'"
  using assms
proof (induction qs arbitrary: s p bs)
  case Nil
  then show ?case by (subst hashify_loop.simps) (auto simp: refills_def table_frame_refl)
next
  case (Cons q qs)
  let ?t = "TrieHT_InsertNode h (seed_of bs) q s" and ?s = "MakeHashedNode q (TrieHT_InsertNode h (seed_of bs) q s)"
  have q: "q \<notin> set (concat bs)" "q \<noteq> 0" "p = q" "slist (tn_sibling s) (tn_sibling s q) qs" using Cons.prems by auto
  obtain bs1 where r0: "refills h I bs [q] s ?t bs1"
    using InsertNode_refills [OF Cons.prems(1,2) q(1,2) _ Cons.prems(5)] Cons.prems(3) by auto
  have "tn_node_type ?t = tn_node_type s" by (simp add: TrieHT_InsertNode_def Let_def RotateInstr_def ForceInstr_def)
  then have r: "refills h I bs [q] s ?s bs1"
    using r0 by (simp add: refills_def MakeHashed_buckets MakeHashed_frame)
  then have m: "mset (concat bs1) = mset (q # concat bs)" and f: "table_frame ({q} \<union> set (concat bs)) h s ?s"
    by (simp_all add: refills_def)
  have "\<exists>s' bs'. hashify_loop h (seed_of bs1) (tn_sibling s q) ?s = Some s' \<and> refills h I bs1 qs ?s s' bs'"
  proof (rule Cons.IH)
    have "mset (concat bs1 @ qs) = mset (q # concat bs @ qs)" using m by simp
    moreover have "distinct (q # concat bs @ qs)" using Cons.prems(3) by auto
    ultimately show "distinct (concat bs1 @ qs)" by (metis mset_eq_imp_distinct_iff)
    show "slist (tn_sibling ?s) (tn_sibling s q) qs"
    proof (subst slist_cong)
      show "tn_sibling ?s r = tn_sibling s r" if "r \<in> set qs" for r
        using Cons.prems(3) that by (intro table_frameD(2) [OF f]) auto
    qed (rule q(4))
    show "bs1 \<noteq> []" using r Cons.prems(2) by (auto simp: refills_def)
  qed (use r in \<open>auto simp: refills_def\<close>)
  moreover have "seed_of bs1 = seed_of bs" using r by (intro seed_of_length) (simp add: refills_def)
  ultimately obtain s' bs' where "hashify_loop h (seed_of bs) (tn_sibling s q) ?s = Some s'" "refills h I bs1 qs ?s s' bs'" by auto
  moreover have "hashify_loop h (seed_of bs) p s = hashify_loop h (seed_of bs) (tn_sibling s q) ?s"
    using q by (subst hashify_loop.simps) simp
  ultimately show ?case using refills_trans [OF r] by auto
qed


section \<open>The children of a node\<close>

text \<open>
  \<open>bs\<close> are the children of \<open>p\<close>: those of each bucket, or of the only chain.
\<close>

definition table_of :: "tries \<Rightarrow> nat \<Rightarrow> bool" where
  "table_of s p \<longleftrightarrow> tn_child s p \<noteq> 0 \<and> IsHashHeader s (tn_child s p)"

definition kids_rep :: "tries \<Rightarrow> nat \<Rightarrow> nat list list \<Rightarrow> bool" where
  "kids_rep s p bs \<longleftrightarrow>
     (if table_of s p
      then buckets_ok s (tn_child s p) bs \<and> hashed_right {} s bs \<and> bs \<noteq> [] \<and> ht_contents s (tn_child s p) = length (concat bs)
      else \<exists>qs. bs = [qs] \<and> slist (tn_sibling s) (tn_child s p) qs \<and> cp_ok (tn_instr s) qs \<and> length qs \<le> MAX_SIBLING_LEN)"

text \<open>
  A trie on the set \<open>N\<close> of nodes with the children \<open>B\<close>: the children of a node have
  different symbols and point back to it, every node but a root is a child of its parent,
  and no two nodes share a table.
\<close>

definition node_types :: "nat set" where "node_types = {0, 1, 2, 3, 8}"

definition trie_rep :: "tries \<Rightarrow> nat set \<Rightarrow> (nat \<Rightarrow> nat list list) \<Rightarrow> bool" where
  "trie_rep s N B \<longleftrightarrow> 0 < tn_next s \<and>
     (\<forall>p \<in> N. 0 < p \<and> p < tn_next s \<and> tn_node_type s p \<in> node_types \<and>
        distinct (map (tn_symbol s) (concat (B p))) \<and>
        (\<forall>q \<in> set (concat (B p)). q \<in> N \<and> tn_parent s q = p \<and> \<not> IsTrieRoot s q) \<and>
        (if IsLeafNode s p then concat (B p) = [] else kids_rep s p (B p) \<and> (table_of s p \<longrightarrow> tn_child s p < tn_next s)) \<and>
        (IsTrieRoot s p \<or> tn_parent s p \<in> N \<and> p \<in> set (concat (B (tn_parent s p))))) \<and>
     (\<forall>p \<in> N. \<forall>q \<in> N. \<not> IsLeafNode s p \<longrightarrow> \<not> IsLeafNode s q \<longrightarrow> table_of s p \<longrightarrow> tn_child s p = tn_child s q \<longrightarrow> p = q)"

definition trie_ok :: "tries \<Rightarrow> nat set \<Rightarrow> bool" where
  "trie_ok s N \<longleftrightarrow> (\<exists>B. trie_rep s N B)"

text \<open>The child of \<open>p\<close> with a symbol.\<close>

definition has_child :: "tries \<Rightarrow> nat set \<Rightarrow> nat \<Rightarrow> word64 \<Rightarrow> nat \<Rightarrow> bool" where
  "has_child s N p sy q \<longleftrightarrow> q \<in> N \<and> \<not> IsTrieRoot s q \<and> tn_parent s q = p \<and> tn_symbol s q = sy"

lemma trie_repD:
  assumes "trie_rep s N B" "p \<in> N"
  shows "0 < p" "p < tn_next s" "tn_node_type s p \<in> node_types" "distinct (map (tn_symbol s) (concat (B p)))"
    "q \<in> set (concat (B p)) \<Longrightarrow> q \<in> N \<and> tn_parent s q = p \<and> \<not> IsTrieRoot s q"
    "\<not> IsLeafNode s p \<Longrightarrow> kids_rep s p (B p)" "\<not> IsLeafNode s p \<Longrightarrow> table_of s p \<Longrightarrow> tn_child s p < tn_next s"
    "IsLeafNode s p \<Longrightarrow> concat (B p) = []"
    "IsTrieRoot s p \<or> tn_parent s p \<in> N \<and> p \<in> set (concat (B (tn_parent s p)))"
    "q \<in> N \<Longrightarrow> \<not> IsLeafNode s p \<Longrightarrow> \<not> IsLeafNode s q \<Longrightarrow> table_of s p \<Longrightarrow> tn_child s p = tn_child s q \<Longrightarrow> p = q"
  using assms unfolding trie_rep_def by auto

lemma has_child_kids:
  assumes "trie_rep s N B" "p \<in> N"
  shows "has_child s N p sy q \<longleftrightarrow> q \<in> set (concat (B p)) \<and> tn_symbol s q = sy"
  using trie_repD(5,9) [OF assms(1)] assms(2) unfolding has_child_def by metis

lemma has_child_unique:
  assumes "trie_ok s N" "p \<in> N" "has_child s N p sy q" "has_child s N p sy r"
  shows "q = r"
proof -
  obtain B where B: "trie_rep s N B" using assms(1) by (auto simp: trie_ok_def)
  show ?thesis
    using assms(3,4) trie_repD(4) [OF B assms(2)] unfolding has_child_kids [OF B assms(2)] distinct_map
    by (auto dest: inj_onD)
qed

lemma node_type_simps [simp]:
  "t \<in> node_types \<Longrightarrow> t \<noteq> HASH_HEADER_NT" "t \<in> node_types \<Longrightarrow> t \<noteq> 8 \<Longrightarrow> t OR Suc 0 \<in> node_types"
  "t \<in> node_types \<Longrightarrow> t \<noteq> 8 \<Longrightarrow> t OR Suc 0 \<noteq> 8" "t \<in> node_types \<Longrightarrow> t \<noteq> 8 \<Longrightarrow> ((t OR Suc 0) AND 2 = 0) = (t AND 2 = 0)"
  "t \<in> node_types \<Longrightarrow> t \<noteq> 8 \<Longrightarrow> (0 < (t OR Suc 0) AND 2) = (0 < t AND 2)"
  by (auto simp: node_types_def HASH_HEADER_NT_def)

text \<open>What decides the children of \<open>r\<close>.\<close>

lemma kids_rep_cong:
  assumes "kids_rep s r bs" "tn_child s' r = tn_child s r" "table_of s' r = table_of s r"
    and "\<And>q. q \<in> set (concat bs) \<Longrightarrow> tn_sibling s' q = tn_sibling s q \<and> tn_instr s' q = tn_instr s q \<and> tn_symbol s' q = tn_symbol s q"
    and "table_of s r \<Longrightarrow> ht_buckets s' (tn_child s r) = ht_buckets s (tn_child s r) \<and>
      ht_contents s' (tn_child s r) = ht_contents s (tn_child s r)"
  shows "kids_rep s' r bs"
proof -
  have s: "slist (tn_sibling s') c qs = slist (tn_sibling s) c qs" and i: "cp_ok (tn_instr s') qs = cp_ok (tn_instr s) qs"
    if "set qs \<subseteq> set (concat bs)" for c qs
    using that assms(4) by (auto intro!: slist_cong cp_ok_cong)
  have n: "set (bs ! k) \<subseteq> set (concat bs)" if "k < length bs" for k by (rule subsetI) (rule in_concat_nth [OF that])
  have h: "hashed_right {} s' bs = hashed_right {} s bs"
    unfolding hashed_right_def
  proof (intro all_cong1 imp_cong refl ball_cong)
    fix j q assume "j < length bs" "q \<in> set (bs ! j)"
    then have "tn_symbol s' q = tn_symbol s q" using n assms(4) by blast
    then show "(TrieHash (tn_symbol s' q) (seed_of bs) = j) = (TrieHash (tn_symbol s q) (seed_of bs) = j)" by simp
  qed
  show ?thesis
  proof (cases "table_of s r")
    case True
    let ?c = "tn_child s r"
    have b: "buckets_ok s ?c bs" and k: "hashed_right {} s bs" "bs \<noteq> []" "ht_contents s ?c = length (concat bs)"
      using assms(1) True by (simp_all add: kids_rep_def)
    have "buckets_ok s' ?c bs"
      unfolding buckets_ok_def
    proof (intro conjI allI impI)
      show "length (ht_buckets s' ?c) = length bs" using b assms(5) [OF True] by (simp add: buckets_ok_def)
      fix j assume j: "j < length bs"
      show "slist (tn_sibling s') (ht_buckets s' ?c ! j) (bs ! j)"
        using b assms(5) [OF True] s [OF n [OF j]] j by (simp add: buckets_ok_def)
      show "cp_ok (tn_instr s') (bs ! j)" using b i [OF n [OF j]] j by (simp add: buckets_ok_def)
    qed
    then show ?thesis using assms(2,3,5) True k h by (simp add: kids_rep_def)
  next
    case False
    then obtain qs where "bs = [qs]" "slist (tn_sibling s) (tn_child s r) qs" "cp_ok (tn_instr s) qs" "length qs \<le> MAX_SIBLING_LEN"
      using assms(1) by (auto simp: kids_rep_def)
    then show ?thesis using assms(2,3) s [of qs] i [of qs] False by (auto simp: kids_rep_def)
  qed
qed


text \<open>New children \<open>Q\<close> of \<open>p\<close>, or its children in another arrangement.\<close>

lemma trie_rep_add:
  assumes rep: "trie_rep s N B" and p: "p \<in> N" "\<not> IsLeafNode s p" and nxt: "tn_next s \<le> tn_next s'"
    and same: "\<And>r. r \<in> N \<Longrightarrow> tn_symbol s' r = tn_symbol s r \<and> tn_parent s' r = tn_parent s r"
    and new: "\<And>r. r \<in> Q \<Longrightarrow> tn_parent s' r = p \<and> tn_child s' r = 0 \<and> tn_node_type s' r \<in> {0, 1} \<and>
      tn_next s \<le> r \<and> r < tn_next s'"
    and nt: "\<And>r. r \<in> N \<Longrightarrow> tn_node_type s' r = tn_node_type s r \<or> tn_node_type s' r = tn_node_type s r OR 1 \<and> \<not> IsTrieRoot s r"
    and other: "\<And>r. r \<in> N \<Longrightarrow> r \<noteq> p \<Longrightarrow> \<not> IsLeafNode s r \<Longrightarrow>
      kids_rep s' r (B r) \<and> table_of s' r = table_of s r \<and> tn_child s' r = tn_child s r"
    and kids: "kids_rep s' p bs" "set (concat bs) = Q \<union> set (concat (B p))" "distinct (map (tn_symbol s') (concat bs))"
    and tab: "table_of s' p \<Longrightarrow> tn_child s' p < tn_next s' \<and> (\<forall>r \<in> N. r \<noteq> p \<longrightarrow> \<not> IsLeafNode s r \<longrightarrow> tn_child s r \<noteq> tn_child s' p)"
  shows "trie_rep s' (Q \<union> N) (\<lambda>r. if r \<in> Q then [[]] else if r = p then bs else B r)"
proof -
  let ?B = "\<lambda>r. if r \<in> Q then [[]] else if r = p then bs else B r"
  note D = trie_repD [OF rep]
  have QN: "r \<notin> N" if "r \<in> Q" for r using D(2) new [OF that] by force
  have pQ: "p \<notin> Q" using QN p by auto
  have next0: "0 < tn_next s" using rep by (simp add: trie_rep_def)
  have leaf: "IsLeafNode s' r = IsLeafNode s r" and root: "IsTrieRoot s' r = IsTrieRoot s r"
    and ntv: "tn_node_type s' r \<in> node_types" if "r \<in> N" for r
    using nt [OF that] D(3) [OF that] by (auto simp: IsLeafNode_def IsTrieRoot_def TRIE_ROOT_NT_def)
  have qt: "\<not> IsLeafNode s' r" "\<not> IsTrieRoot s' r" "tn_node_type s' r \<in> node_types" "\<not> table_of s' r" "0 < r"
    "kids_rep s' r [[]]" if "r \<in> Q" for r
    using new [OF that] next0 by (auto simp: IsLeafNode_def IsTrieRoot_def TRIE_ROOT_NT_def node_types_def table_of_def kids_rep_def)
  have pK: "tn_parent s r \<in> N \<and> r \<in> set (concat (B (tn_parent s r)))" if "r \<in> N" "\<not> IsTrieRoot s r" for r
    using D(9) [OF that(1)] that(2) by auto
  show ?thesis
    unfolding trie_rep_def
  proof (intro conjI ballI impI)
    show "0 < tn_next s'" using next0 nxt by simp
    fix r assume r: "r \<in> Q \<union> N"
    show "0 < r" using r D(1) qt by auto
    show "r < tn_next s'" using r D(2) [of r] new [of r] nxt by auto
    show "tn_node_type s' r \<in> node_types" using r ntv qt by auto
    show "distinct (map (tn_symbol s') (concat (?B r)))"
    proof (cases "r \<in> Q \<or> r = p")
      case False
      then have rN: "r \<in> N" using r by simp
      have "map (tn_symbol s') (concat (B r)) = map (tn_symbol s) (concat (B r))"
        using D(5) [OF rN] same by (intro map_cong) auto
      then have "distinct (map (tn_symbol s') (concat (B r)))" using D(4) [OF rN] by (simp only:)
      then show ?thesis using False by simp
    qed (use kids(3) in auto)
    show "t \<in> Q \<union> N" "tn_parent s' t = r" "\<not> IsTrieRoot s' t" if t: "t \<in> set (concat (?B r))" for t
    proof -
      have "t \<in> Q \<union> N \<and> tn_parent s' t = r \<and> \<not> IsTrieRoot s' t"
      proof (cases "r \<in> Q")
        case True
        then show ?thesis using t by simp
      next
        case False
        then have rN: "r \<in> N" using r by simp
        show ?thesis
        proof (cases "t \<in> Q")
          case True
          have "r = p" using t True False D(5) [OF rN, of t] QN by (auto split: if_splits)
          then show ?thesis using True new qt by simp
        next
          case tq: False
          have "t \<in> set (concat (B r))" using t False tq kids(2) by (auto split: if_splits)
          then show ?thesis using D(5) [OF rN] same root by auto
        qed
      qed
      then show "t \<in> Q \<union> N" "tn_parent s' t = r" "\<not> IsTrieRoot s' t" by auto
    qed
    show "if IsLeafNode s' r then concat (?B r) = [] else kids_rep s' r (?B r) \<and> (table_of s' r \<longrightarrow> tn_child s' r < tn_next s')"
    proof (cases "r \<in> Q \<or> r = p")
      case True
      then show ?thesis using qt leaf p kids(1) tab pQ by auto
    next
      case False
      then have rN: "r \<in> N" using r by simp
      show ?thesis
        using False leaf [OF rN] D(8) [OF rN] D(7) [OF rN] other [OF rN] nxt by auto
    qed
    show "IsTrieRoot s' r \<or> tn_parent s' r \<in> Q \<union> N \<and> r \<in> set (concat (?B (tn_parent s' r)))"
    proof (cases "r \<in> Q")
      case True
      then show ?thesis using new [OF True] p kids(2) pQ by auto
    next
      case False
      then have rN: "r \<in> N" using r by simp
      show ?thesis
        using pK [OF rN] root [OF rN] same [OF rN] kids(2) QN by auto
    qed
    fix t assume t: "t \<in> Q \<union> N" and l: "\<not> IsLeafNode s' r" "\<not> IsLeafNode s' t" and h: "table_of s' r" "tn_child s' r = tn_child s' t"
    have ht: "table_of s' t" using h by (simp add: table_of_def)
    then have N: "r \<in> N" "t \<in> N" using r t h(1) qt(4) by auto
    show "r = t"
      using N l leaf h ht other [OF N(1)] other [OF N(2)] D(10) [OF N(1,2)] tab
      by (cases "r = p"; cases "t = p") auto
  qed
qed


text \<open>The children of the other nodes stay as they are.\<close>

lemma other_kids:
  assumes rep: "trie_rep s N B" and p: "p \<in> N" "\<not> IsLeafNode s p" and r: "r \<in> N" "r \<noteq> p" "\<not> IsLeafNode s r"
    and links: "\<And>t. t \<in> N \<Longrightarrow> t \<notin> set (concat (B p)) \<Longrightarrow> tn_sibling s' t = tn_sibling s t \<and> tn_instr s' t = tn_instr s t"
    and sy: "\<And>t. t \<in> N \<Longrightarrow> tn_symbol s' t = tn_symbol s t" and ch: "tn_child s' r = tn_child s r"
    and nt: "\<And>k. 0 < k \<Longrightarrow> k < tn_next s \<Longrightarrow> tn_node_type s' k = tn_node_type s k \<or>
      k \<in> N \<and> tn_node_type s' k = tn_node_type s k OR 1 \<and> \<not> IsTrieRoot s k"
    and tabs: "\<And>k. k < tn_next s \<Longrightarrow> IsHashHeader s k \<Longrightarrow> k \<noteq> tn_child s p \<Longrightarrow>
      ht_buckets s' k = ht_buckets s k \<and> ht_contents s' k = ht_contents s k"
  shows "kids_rep s' r (B r) \<and> table_of s' r = table_of s r \<and> tn_child s' r = tn_child s r"
proof -
  note D = trie_repD [OF rep]
  note K = D(6) [OF r(1,3)]
  have apart: "t \<in> N \<and> t \<notin> set (concat (B p))" if "t \<in> set (concat (B r))" for t
    using D(5) [OF r(1) that] D(5) [OF p(1), of t] r(2) by auto
  have head: "IsHashHeader s' (tn_child s r) = IsHashHeader s (tn_child s r)" if c: "tn_child s r \<noteq> 0"
  proof (cases "table_of s r")
    case True
    then have "tn_child s r \<notin> N" "tn_child s r < tn_next s"
      using D(3) D(7) [OF r(1,3)] by (auto simp: table_of_def IsHashHeader_def)
    then show ?thesis using nt [of "tn_child s r"] c by (auto simp: IsHashHeader_def)
  next
    case False
    then obtain qs where "B r = [qs]" "slist (tn_sibling s) (tn_child s r) qs" using K by (auto simp: kids_rep_def)
    then have "tn_child s r \<in> set (concat (B r))" using c slist_head by (cases qs) auto
    then have N: "tn_child s r \<in> N" using apart by blast
    have "tn_node_type s' (tn_child s r) \<in> node_types"
      using nt [of "tn_child s r"] D(1,2,3) [OF N] by (auto simp: IsTrieRoot_def TRIE_ROOT_NT_def)
    then show ?thesis using D(3) [OF N] by (simp add: IsHashHeader_def)
  qed
  then have tab: "table_of s' r = table_of s r" using ch by (auto simp: table_of_def)
  have "tn_child s r \<noteq> tn_child s p" if "table_of s r" using D(10) [OF r(1) p(1) r(3) p(2) that] r(2) by auto
  then have "ht_buckets s' (tn_child s r) = ht_buckets s (tn_child s r) \<and> ht_contents s' (tn_child s r) = ht_contents s (tn_child s r)"
    if "table_of s r" using tabs D(7) [OF r(1,3) that] that by (simp add: table_of_def)
  then have "kids_rep s' r (B r)" using K ch tab apart links sy by (intro kids_rep_cong [OF K]) auto
  then show ?thesis using tab ch by simp
qed

definition symbol_ok :: "word64 \<Rightarrow> bool" where
  "symbol_ok sy \<longleftrightarrow> cell_tag sy \<in> {XSB_STRUCT, XSB_INT, XSB_STRING, XSB_FLOAT, XSB_REF, XSB_LIST}"

text \<open>The kind of instruction a node gets, whatever its place in a chain.\<close>

definition instr_kind :: "word64 \<Rightarrow> word64 \<Rightarrow> nat \<Rightarrow> nat" where
  "instr_kind item intrn tt = the (TN_SetInstr item intrn tt) div 4"

lemma TN_SetInstr_ok: "symbol_ok item \<Longrightarrow> \<exists>i. TN_SetInstr item intrn tt = Some i \<and> i mod 4 = 2 \<and> 2 \<le> i"
  by (auto simp: symbol_ok_def TN_SetInstr_def Let_def opcode_defs)

lemma new_btn_ok:
  assumes "symbol_ok item" "sib \<noteq> tn_next s"
  obtains s1 where "new_btn tt INTERIOR_NT item intrn p sib s = Some (tn_next s, s1)"
    "tn_next s1 = Suc (tn_next s)" "tn_symbol s1 = (tn_symbol s)(tn_next s := if intrn \<noteq> 0 then intrn else item)"
    "tn_parent s1 = (tn_parent s)(tn_next s := p)" "tn_child s1 = (tn_child s)(tn_next s := 0)"
    "tn_sibling s1 = (tn_sibling s)(tn_next s := sib)" "tn_node_type s1 = (tn_node_type s)(tn_next s := 0)"
    "ht_buckets s1 = ht_buckets s" "ht_contents s1 = ht_contents s" "tn_grow s1 = tn_grow s"
    "tn_instr s1 (tn_next s) mod 4 = (if sib = 0 then 0 else 2)" "tn_instr s1 (tn_next s) div 4 = instr_kind item intrn tt"
    "\<And>r. r \<noteq> tn_next s \<Longrightarrow> tn_instr s1 r = (if sib \<noteq> 0 \<and> r = sib then tn_instr s r + 1 else tn_instr s r)"
proof -
  obtain i where i: "TN_SetInstr item intrn tt = Some i" "i mod 4 = 2" "2 \<le> i" using TN_SetInstr_ok [OF assms(1)] by blast
  have z: "(i - 2) mod 4 = 0" "(i - 2) div 4 = i div 4" using i(2,3) by presburger+
  let ?q = "tn_next s"
  define s1 where "s1 = (TN_ResetInstrCPs ?q sib (s\<lparr>tn_next := ?q + 1, tn_instr := (tn_instr s)(?q := i)\<rparr>))"
  have f: "tn_symbol s1 = tn_symbol s" "tn_parent s1 = tn_parent s" "tn_child s1 = tn_child s" "tn_sibling s1 = tn_sibling s"
    "tn_node_type s1 = tn_node_type s" "ht_buckets s1 = ht_buckets s" "ht_contents s1 = ht_contents s" "tn_grow s1 = tn_grow s"
    "tn_next s1 = Suc ?q" "tn_instr s1 ?q mod 4 = (if sib = 0 then 0 else 2)" "tn_instr s1 ?q div 4 = instr_kind item intrn tt"
    "\<And>r. r \<noteq> ?q \<Longrightarrow> tn_instr s1 r = (if sib \<noteq> 0 \<and> r = sib then tn_instr s r + 1 else tn_instr s r)"
    using assms(2) i z by (auto simp: s1_def TN_ResetInstrCPs_def RotateInstr_def instr_kind_def)
  let ?s = "s1\<lparr>tn_status := (tn_status s1)(?q := 0), tn_trie_type := (tn_trie_type s1)(?q := tt),
       tn_node_type := (tn_node_type s1)(?q := INTERIOR_NT), tn_symbol := (tn_symbol s1)(?q := if intrn \<noteq> 0 then intrn else item),
       tn_parent := (tn_parent s1)(?q := p), tn_child := (tn_child s1)(?q := 0), tn_sibling := (tn_sibling s1)(?q := sib)\<rparr>"
  have "new_btn tt INTERIOR_NT item intrn p sib s = Some (?q, ?s)"
    by (simp add: new_btn_def Let_def TN_Init_def i(1) s1_def INTERIOR_NT_def TRIE_ROOT_NT_def)
  then show ?thesis by (rule that) (use f in \<open>simp_all add: INTERIOR_NT_def\<close>)
qed


section \<open>Finding or adding a child\<close>

text \<open>What \<open>one_btn_chk_ins\<close> promises for a parent \<open>p\<close> and a symbol.\<close>

definition adds_child :: "tries \<Rightarrow> nat set \<Rightarrow> nat \<Rightarrow> word64 \<Rightarrow> nat \<Rightarrow> tries \<Rightarrow> nat set \<Rightarrow> nat \<Rightarrow> bool" where
  "adds_child s N p sy k s' N' q \<longleftrightarrow> trie_ok s' N' \<and> has_child s' N' p sy q \<and> tn_grow s' = tn_grow s \<and>
     (\<forall>r \<in> N. tn_symbol s' r = tn_symbol s r \<and> tn_parent s' r = tn_parent s r \<and> IsTrieRoot s' r = IsTrieRoot s r \<and>
        IsLeafNode s' r = IsLeafNode s r \<and> (r \<noteq> p \<longrightarrow> tn_child s' r = tn_child s r) \<and>
        tn_instr s' r div 4 = tn_instr s r div 4) \<and>
     (if \<exists>q. has_child s N p sy q then s' = s \<and> N' = N
      else N' = insert q N \<and> q \<notin> N \<and> \<not> IsLeafNode s' q \<and> tn_child s' q = 0 \<and> tn_instr s' q div 4 = k)"

text \<open>A new node \<open>q\<close> at the head of the chain of \<open>p\<close>.\<close>

definition chain_grown :: "tries \<Rightarrow> nat set \<Rightarrow> nat \<Rightarrow> word64 \<Rightarrow> nat \<Rightarrow> nat list \<Rightarrow> tries \<Rightarrow> nat \<Rightarrow> bool" where
  "chain_grown s N p sy k qs s' q \<longleftrightarrow> q = tn_next s \<and> tn_next s' = Suc q \<and> tn_symbol s' = (tn_symbol s)(q := sy) \<and>
     tn_parent s' = (tn_parent s)(q := p) \<and> tn_node_type s' = (tn_node_type s)(q := 0) \<and>
     ht_buckets s' = ht_buckets s \<and> ht_contents s' = ht_contents s \<and> tn_grow s' = tn_grow s \<and>
     slist (tn_sibling s') q (q # qs) \<and> cp_ok (tn_instr s') (q # qs) \<and>
     (\<forall>r \<in> N. r \<notin> set qs \<longrightarrow> tn_sibling s' r = tn_sibling s r \<and> tn_instr s' r = tn_instr s r) \<and>
     tn_instr s' q div 4 = k \<and> (\<forall>r \<in> N. tn_instr s' r div 4 = tn_instr s r div 4)"

lemma new_head:
  assumes rep: "trie_rep s N B" and qs: "slist (tn_sibling s) c qs" "cp_ok (tn_instr s) qs" "set qs \<subseteq> N" "distinct qs"
    and ok: "symbol_ok item"
  obtains s1 where "new_btn tt INTERIOR_NT item intrn p c s = Some (tn_next s, s1)"
    "chain_grown s N p (if intrn \<noteq> 0 then intrn else item) (instr_kind item intrn tt) qs s1 (tn_next s)" "tn_child s1 = (tn_child s)(tn_next s := 0)"
proof -
  let ?q = "tn_next s"
  have N: "r < ?q" "r \<noteq> 0" if "r \<in> N" for r using trie_repD(1,2) [OF rep that] by auto
  have q0: "?q \<noteq> 0" using rep by (simp add: trie_rep_def)
  have c: "c = (if qs = [] then 0 else hd qs)" by (rule slist_head [OF qs(1)])
  have hN: "hd qs \<in> N" if "qs \<noteq> []" using qs(3) that by (simp add: subsetD)
  have cz: "c = 0 \<longleftrightarrow> qs = []" using c N(2) [OF hN] by auto
  have cN: "c \<noteq> ?q" using c q0 N(1) [OF hN] by (auto split: if_splits)
  obtain s1 where s1: "new_btn tt INTERIOR_NT item intrn p c s = Some (?q, s1)"
    "tn_next s1 = Suc ?q" "tn_symbol s1 = (tn_symbol s)(?q := if intrn \<noteq> 0 then intrn else item)"
    "tn_parent s1 = (tn_parent s)(?q := p)" "tn_child s1 = (tn_child s)(?q := 0)"
    "tn_sibling s1 = (tn_sibling s)(?q := c)" "tn_node_type s1 = (tn_node_type s)(?q := 0)"
    "ht_buckets s1 = ht_buckets s" "ht_contents s1 = ht_contents s" "tn_grow s1 = tn_grow s"
    "tn_instr s1 ?q mod 4 = (if c = 0 then 0 else 2)" "tn_instr s1 ?q div 4 = instr_kind item intrn tt"
    "\<And>r. r \<noteq> ?q \<Longrightarrow> tn_instr s1 r = (if c \<noteq> 0 \<and> r = c then tn_instr s r + 1 else tn_instr s r)"
    using new_btn_ok [OF ok cN, of tt intrn p] by metis
  have qn: "?q \<notin> set qs" using qs(3) N by auto
  have "slist (tn_sibling s1) ?q (?q # qs)" using s1(6) qs(1) qn q0 by simp
  moreover have "cp_ok (tn_instr s1) (?q # qs)"
  proof (rule cp_ok_Cons [OF qs(2) qn qs(4)])
    show "tn_instr s1 ?q mod 4 = (if qs = [] then 0 else 2)" using s1(11) cz by simp
    show "tn_instr s1 r = (if r = hd qs then tn_instr s r + 1 else tn_instr s r)" if "r \<in> set qs" for r
      using s1(13) [of r] that qn c cz by (cases "r = ?q") auto
  qed
  moreover have "tn_sibling s1 r = tn_sibling s r \<and> tn_instr s1 r = tn_instr s r" if "r \<in> N" "r \<notin> set qs" for r
    using s1(6) s1(13) [of r] that N [OF that(1)] c hd_in_set [of qs] by (auto split: if_splits)
  moreover have "tn_instr s1 r div 4 = tn_instr s r div 4" if "r \<in> N" for r
    using s1(13) [of r] N [OF that] c cz div4_cp(2) cp_ok_head [OF qs(2)] by auto
  ultimately show ?thesis using that [OF s1(1)] s1(2-5,7-10,12) by (simp add: chain_grown_def)
qed

lemma distinct_map_new:
  assumes "map f' qs = map f qs" "f' q \<notin> f ` set qs" "distinct (map f qs)"
  shows "distinct (map f' (q # qs))"
proof -
  have "f' ` set qs = f ` set qs" using assms(1) by (metis list.set_map)
  moreover have "distinct (map f' qs)" using assms(3) by (simp only: assms(1))
  ultimately show ?thesis using assms(2) by simp
qed

text \<open>The chain stays a chain.\<close>

lemma chain_short:
  assumes rep: "trie_rep s N B" and p: "p \<in> N" "\<not> IsLeafNode s p" "\<not> table_of s p" "B p = [qs]"
    and g: "chain_grown s N p sy k qs s1 q" and ch: "tn_child s1 = (tn_child s)(q := 0)"
    and new: "\<And>r. \<not> has_child s N p sy r" and len: "length qs < MAX_SIBLING_LEN"
  defines "s' \<equiv> s1\<lparr>tn_child := (tn_child s1)(p := q)\<rparr>"
  shows "adds_child s N p sy k s' (insert q N) q"
proof -
  note D = trie_repD [OF rep]
  note G = g [unfolded chain_grown_def]
  have N: "r \<noteq> q" if "r \<in> N" for r using D(2) [OF that] G by auto
  have q0: "0 < q" using rep G by (simp add: trie_rep_def)
  have kq: "set (concat (B p)) = set qs" using p(4) by simp
  have "trie_rep s' ({q} \<union> N) (\<lambda>r. if r \<in> {q} then [[]] else if r = p then [q # qs] else B r)"
  proof (rule trie_rep_add [OF rep p(1,2)])
    show "tn_next s \<le> tn_next s'" using G by (simp add: s'_def)
    show "tn_symbol s' r = tn_symbol s r \<and> tn_parent s' r = tn_parent s r" if "r \<in> N" for r
      using G N [OF that] by (simp add: s'_def)
    show "tn_parent s' r = p \<and> tn_child s' r = 0 \<and> tn_node_type s' r \<in> {0, 1} \<and> tn_next s \<le> r \<and> r < tn_next s'"
      if "r \<in> {q}" for r using that G ch N [OF p(1)] by (simp add: s'_def)
    show "tn_node_type s' r = tn_node_type s r \<or> tn_node_type s' r = tn_node_type s r OR 1 \<and> \<not> IsTrieRoot s r"
      if "r \<in> N" for r using G N [OF that] by (simp add: s'_def)
    show "kids_rep s' r (B r) \<and> table_of s' r = table_of s r \<and> tn_child s' r = tn_child s r"
      if "r \<in> N" "r \<noteq> p" "\<not> IsLeafNode s r" for r
      by (rule other_kids [OF rep p(1,2) that]) (use G N ch kq that in \<open>auto simp: s'_def\<close>)
    have "\<not> table_of s' p" using G by (simp add: table_of_def s'_def IsHashHeader_def HASH_HEADER_NT_def)
    then show "kids_rep s' p [q # qs]" and "table_of s' p \<Longrightarrow> tn_child s' p < tn_next s' \<and> (\<forall>r \<in> N. r \<noteq> p \<longrightarrow>
        \<not> IsLeafNode s r \<longrightarrow> tn_child s r \<noteq> tn_child s' p)"
      using G len by (auto simp: kids_rep_def s'_def)
    show "set (concat [q # qs]) = {q} \<union> set (concat (B p))" using kq by simp
    have "r \<noteq> q" if "r \<in> set qs" for r using D(5) [OF p(1), of r] kq N that by auto
    then have "map (tn_symbol s') qs = map (tn_symbol s) qs" using G by (intro map_cong) (auto simp: s'_def)
    moreover have "sy \<notin> tn_symbol s ` set qs" using new unfolding has_child_kids [OF rep p(1)] kq by blast
    moreover have "distinct (map (tn_symbol s) qs)" using D(4) [OF p(1)] p(4) by simp
    moreover have "tn_symbol s' q = sy" using G by (simp add: s'_def)
    ultimately have "distinct (map (tn_symbol s') (q # qs))" by (intro distinct_map_new) simp_all
    then show "distinct (map (tn_symbol s') (concat [q # qs]))" by simp
  qed
  then have "trie_ok s' (insert q N)" by (auto simp: trie_ok_def)
  then show ?thesis using G ch N new p(1)
    by (auto simp: adds_child_def has_child_def s'_def IsTrieRoot_def IsLeafNode_def TRIE_ROOT_NT_def)
qed


text \<open>A chain of nine becomes a table.\<close>

lemma chain_long:
  assumes rep: "trie_rep s N B" and p: "p \<in> N" "\<not> IsLeafNode s p" "\<not> table_of s p" "B p = [qs]"
    and g: "chain_grown s N p sy k qs s1 q" and ch: "tn_child s1 = (tn_child s)(q := 0)"
    and new: "\<And>r. \<not> has_child s N p sy r" and len: "length qs = MAX_SIBLING_LEN"
  shows "\<exists>s'. hashify_children p tt (s1\<lparr>tn_child := (tn_child s1)(p := q)\<rparr>) = Some s' \<and> adds_child s N p sy k s' (insert q N) q"
proof -
  note D = trie_repD [OF rep]
  note G = g [unfolded chain_grown_def]
  have N: "r \<noteq> q" "r < q" "0 < r" if "r \<in> N" for r using D(1,2) [OF that] G by auto
  have q0: "0 < q" using rep G by (simp add: trie_rep_def)
  have kq: "set (concat (B p)) = set qs" using p(4) by simp
  have qN: "set qs \<subseteq> N" using D(5) [OF p(1)] kq by blast
  have qd: "distinct (q # qs)" using D(4) [OF p(1)] p(4) N(1) qN by (auto simp: distinct_map)
  let ?h = "Suc q" and ?bs = "replicate TrieHT_INIT_SIZE ([] :: nat list)"
  let ?t = "snd (New_BTHT tt (s1\<lparr>tn_child := (tn_child s1)(p := q)\<rparr>))"
  define s3 where "s3 = ?t\<lparr>tn_child := (tn_child ?t)(p := ?h)\<rparr>"
  have s3: "tn_next s3 = Suc ?h" "tn_symbol s3 = (tn_symbol s)(q := sy)" "tn_parent s3 = (tn_parent s)(q := p)"
    "tn_node_type s3 = (tn_node_type s)(q := 0, ?h := HASH_HEADER_NT)" "tn_child s3 = (tn_child s)(q := 0, p := ?h)"
    "ht_buckets s3 = (ht_buckets s)(?h := replicate TrieHT_INIT_SIZE 0)" "ht_contents s3 = (ht_contents s)(?h := 9)"
    "tn_grow s3 = tn_grow s" "tn_sibling s3 = tn_sibling s1" "tn_instr s3 = tn_instr s1"
    using G ch N [OF p(1)] by (simp_all add: s3_def New_BTHT_def Let_def MAX_SIBLING_LEN_def)
  have ok: "buckets_ok s3 ?h ?bs" "hashed_right {} s3 ?bs" "?bs \<noteq> []"
    by (auto simp: buckets_ok_def hashed_right_def s3 TrieHT_INIT_SIZE_def)
  have chain: "slist (tn_sibling s3) q (q # qs)" using G unfolding s3(9) by blast
  have di: "distinct (concat ?bs @ q # qs)" using qd by simp
  obtain s' bs where s': "hashify_loop ?h (seed_of ?bs) q s3 = Some s'" "refills ?h {} ?bs (q # qs) s3 s' bs"
    using hashify_loop_refills [OF ok(1,3) di chain ok(2)] by blast
  have F: "table_frame (set (q # qs)) ?h s3 s'" using s'(2) by (simp add: refills_def)
  note f = table_frameD [OF F]
  have mb: "mset (concat bs) = mset (q # qs)" and bl: "length bs = TrieHT_INIT_SIZE"
    using s'(2) by (simp_all add: refills_def)
  have "size (mset (concat bs)) = Suc (length qs)" unfolding mb by simp
  then have lb: "length (concat bs) = 9" unfolding size_mset using len by (simp only: MAX_SIBLING_LEN_def)
  have sb: "set (concat bs) = insert q (set qs)" using mb by (metis list.simps(15) set_mset_mset)
  have "hashify_children p tt (s1\<lparr>tn_child := (tn_child s1)(p := q)\<rparr>) = Some s'"
    using s'(1) G by (simp add: hashify_children_def New_BTHT_def Let_def s3_def seed_of_def)
  moreover have "adds_child s N p sy k s' (insert q N) q"
  proof -
    have "?h \<notin> set (q # qs)" using N(2) [of ?h] qN by auto
    then have nth: "tn_node_type s' ?h = HASH_HEADER_NT" using f(3) [of ?h] s3 by simp
    then have hh: "IsHashHeader s' ?h" by (simp add: IsHashHeader_def)
    have cp: "tn_child s' p = ?h" using f(6) s3 by simp
    have rt: "\<not> IsTrieRoot s r" if "r \<in> set qs" for r using D(5) [OF p(1), of r] kq that by auto
    have nt: "tn_node_type s' r = tn_node_type s r \<or> tn_node_type s' r = tn_node_type s r OR 1 \<and> \<not> IsTrieRoot s r"
      if "r \<in> N" for r
      using f(3) [of r] f(11) [of r] s3 N [OF that] rt [of r] by (cases "r \<in> set qs") auto
    have qt: "tn_node_type s' q \<in> {0, 1}" using f(11) [of q] s3 by auto
    have "trie_rep s' ({q} \<union> N) (\<lambda>r. if r \<in> {q} then [[]] else if r = p then bs else B r)"
    proof (rule trie_rep_add [OF rep p(1,2)])
      show "tn_next s \<le> tn_next s'" using G f(7) s3 by simp
      show "tn_symbol s' r = tn_symbol s r \<and> tn_parent s' r = tn_parent s r" if "r \<in> N" for r
        using f(4,5) s3 N [OF that] by simp
      show "tn_parent s' r = p \<and> tn_child s' r = 0 \<and> tn_node_type s' r \<in> {0, 1} \<and> tn_next s \<le> r \<and> r < tn_next s'"
        if "r \<in> {q}" for r using that f(5,6,7) s3 qt N [OF p(1)] G by simp
      show "kids_rep s' r (B r) \<and> table_of s' r = table_of s r \<and> tn_child s' r = tn_child s r"
        if r: "r \<in> N" "r \<noteq> p" "\<not> IsLeafNode s r" for r
      proof (rule other_kids [OF rep p(1,2) r])
        show "tn_sibling s' t = tn_sibling s t \<and> tn_instr s' t = tn_instr s t"
          if "t \<in> N" "t \<notin> set (concat (B p))" for t
          using f(1,2) [of t] that kq N(1) [OF that(1)] G s3 by auto
        show "tn_symbol s' t = tn_symbol s t" if "t \<in> N" for t using f(4) s3 N [OF that] by simp
        show "tn_child s' r = tn_child s r" using f(6) s3 r N [OF r(1)] by simp
        show "tn_node_type s' k = tn_node_type s k \<or> k \<in> N \<and> tn_node_type s' k = tn_node_type s k OR 1 \<and> \<not> IsTrieRoot s k"
          if "0 < k" "k < tn_next s" for k
          using f(3) [of k] f(11) [of k] s3 G that qN rt [of k] by (cases "k \<in> set qs") auto
        show "ht_buckets s' k = ht_buckets s k \<and> ht_contents s' k = ht_contents s k"
          if "k < tn_next s" "IsHashHeader s k" "k \<noteq> tn_child s p" for k
          using f(9) f(10) [of k] s3 that G by auto
      qed
      show "kids_rep s' p bs"
        using s'(2) hh cp bl f(9) s3 lb
        by (auto simp: kids_rep_def table_of_def refills_def TrieHT_INIT_SIZE_def MAX_SIBLING_LEN_def)
      show "set (concat bs) = {q} \<union> set (concat (B p))" using sb kq by simp
      have "map (tn_symbol s') qs = map (tn_symbol s) qs" using f(4) s3 qN N by (intro map_cong) auto
      moreover have "sy \<notin> tn_symbol s ` set qs" using new unfolding has_child_kids [OF rep p(1)] kq by blast
      moreover have "distinct (map (tn_symbol s) qs)" using D(4) [OF p(1)] p(4) by simp
      moreover have "tn_symbol s' q = sy" using f(4) s3 by simp
      ultimately have "distinct (map (tn_symbol s') (q # qs))" by (intro distinct_map_new) simp_all
      then show "distinct (map (tn_symbol s') (concat bs))"
        using mset_eq_imp_distinct_iff [of "map (tn_symbol s') (concat bs)" "map (tn_symbol s') (q # qs)"] mb by simp
      show "tn_child s' p < tn_next s' \<and> (\<forall>r \<in> N. r \<noteq> p \<longrightarrow> \<not> IsLeafNode s r \<longrightarrow> tn_child s r \<noteq> tn_child s' p)"
      proof (intro conjI ballI impI)
        show "tn_child s' p < tn_next s'" using cp f(7) s3 by simp
        fix r assume r: "r \<in> N" "r \<noteq> p" "\<not> IsLeafNode s r"
        have "tn_child s r < tn_next s"
        proof (cases "table_of s r")
          case False
          then obtain rs where rs: "B r = [rs]" "slist (tn_sibling s) (tn_child s r) rs"
            using D(6) [OF r(1,3)] by (auto simp: kids_rep_def)
          then show ?thesis using slist_head [OF rs(2)] D(5) [OF r(1), of "hd rs"] D(2) [of "hd rs"] q0 G by (cases rs) auto
        qed (use D(7) [OF r(1,3)] in auto)
        then show "tn_child s r \<noteq> tn_child s' p" using cp G by simp
      qed
    qed (use nt in blast)
    then have "trie_ok s' (insert q N)" by (auto simp: trie_ok_def)
    moreover have "tn_node_type s r \<in> node_types" if "r \<in> N" for r by (rule D(3) [OF that])
    then have "IsTrieRoot s' r = IsTrieRoot s r \<and> IsLeafNode s' r = IsLeafNode s r" if "r \<in> N" for r
      using nt [OF that] that by (auto simp: IsTrieRoot_def IsLeafNode_def TRIE_ROOT_NT_def)
    moreover have "has_child s' (insert q N) p sy q" using f(4,5) s3(2,3) qt by (auto simp: has_child_def IsTrieRoot_def TRIE_ROOT_NT_def)
    moreover have "\<not> IsLeafNode s' q" using qt by (auto simp: IsLeafNode_def)
    moreover have "\<nexists>r. has_child s N p sy r" using new by blast
    moreover have "tn_instr s' q div 4 = k" "\<And>r. r \<in> N \<Longrightarrow> tn_instr s' r div 4 = tn_instr s r div 4"
      using G by (simp_all only: f(12) s3(10)) blast+
    ultimately show ?thesis using f(4-6,8) s3(2,3,5,8) N p(1) by (auto simp: adds_child_def)
  qed
  ultimately show ?thesis by blast
qed


text \<open>A new node in the bucket of a table, which may double then.\<close>

lemma bucket_grown:
  assumes rep: "trie_rep s N B" and p: "p \<in> N" "\<not> IsLeafNode s p" "table_of s p"
    and b: "b = TrieHash sy (seed_of (B p))" and g: "chain_grown s N p sy k (B p ! b) s1 q" and sz: "sy \<notin> tn_symbol s ` set (concat (B p))"
    and s3: "s3 = (MakeHashedNode q (s1\<lparr>ht_buckets := (ht_buckets s1)(tn_child s p := (ht_buckets s1 (tn_child s p))[b := q])\<rparr>))
      \<lparr>ht_contents := (ht_contents s1)(tn_child s p := ht_contents s1 (tn_child s p) + 1)\<rparr>"
  shows "buckets_ok s3 (tn_child s p) ((B p)[b := q # B p ! b])" (is "buckets_ok s3 ?c ?bs")
    and "hashed_right {} s3 ((B p)[b := q # B p ! b])" and "distinct (concat ((B p)[b := q # B p ! b]))"
    and "mset (concat ((B p)[b := q # B p ! b])) = add_mset q (mset (concat (B p)))" and "b < length (B p)"
    and "ht_contents s3 (tn_child s p) = length (concat ((B p)[b := q # B p ! b]))"
proof -
  note D = trie_repD [OF rep p(1)]
  note G = g [unfolded chain_grown_def]
  have K: "buckets_ok s ?c (B p)" "hashed_right {} s (B p)" "B p \<noteq> []" "ht_contents s ?c = length (concat (B p))"
    using D(6) [OF p(2)] p(3) by (simp_all add: kids_rep_def)
  show bl: "b < length (B p)" using K(3) TrieHash_less by (simp add: b seed_of_def)
  show mb: "mset (concat ?bs) = add_mset q (mset (concat (B p)))" by (rule concat_update_Cons [OF bl])
  have N: "r \<in> N \<and> r \<noteq> q" if "r \<in> set (concat (B p))" for r
    using D(5) [OF that] trie_repD(2) [OF rep, of r] G by auto
  have kd: "distinct (concat (B p))" using D(4) by (auto simp: distinct_map)
  then show "distinct (concat ?bs)" using mset_eq_imp_distinct_iff [of "concat ?bs" "q # concat (B p)"] mb N by auto
  have sib: "tn_sibling s3 = tn_sibling s1" and ins: "tn_instr s3 = tn_instr s1" and syms: "tn_symbol s3 = (tn_symbol s)(q := sy)"
    and buk: "ht_buckets s3 ?c = (ht_buckets s ?c)[b := q]" using G by (simp_all add: s3 MakeHashedNode_def)
  have L: "length (ht_buckets s ?c) = length (B p)" using K(1) by (simp add: buckets_ok_def)
  show "buckets_ok s3 ?c ?bs"
    unfolding buckets_ok_def
  proof (intro conjI allI impI)
    show "length (ht_buckets s3 ?c) = length ?bs" using L by (simp add: buk)
    fix i assume i: "i < length ?bs"
    have "slist (tn_sibling s3) (ht_buckets s3 ?c ! i) (?bs ! i) \<and> cp_ok (tn_instr s3) (?bs ! i)"
    proof (cases "i = b")
      case False
      have "r \<in> N \<and> r \<notin> set (B p ! b)" if "r \<in> set (B p ! i)" for r
        using distinct_concat_nth [OF kd bl, of i] False i that N in_concat_nth [of i "B p" r] by auto
      then have "tn_sibling s1 r = tn_sibling s r \<and> tn_instr s1 r = tn_instr s r" if "r \<in> set (B p ! i)" for r
        using G that by blast
      then show ?thesis
        using K(1) False i slist_cong [of "B p ! i" "tn_sibling s1" "tn_sibling s"] cp_ok_cong [of "B p ! i" "tn_instr s1" "tn_instr s"]
        by (simp add: buckets_ok_def buk sib ins)
    qed (use G bl L in \<open>auto simp: buk sib ins\<close>)
    then show "slist (tn_sibling s3) (ht_buckets s3 ?c ! i) (?bs ! i)" "cp_ok (tn_instr s3) (?bs ! i)" by auto
  qed
  show "hashed_right {} s3 ?bs"
    unfolding hashed_right_def seed_of_length [of ?bs "B p", OF length_list_update]
  proof (intro allI impI ballI)
    fix i r assume i: "i < length ?bs" "i \<notin> {}" and r: "r \<in> set (?bs ! i)"
    have "TrieHash (tn_symbol s3 r) (seed_of (B p)) = i" if "r \<in> set (B p ! i)"
      using K(2) N [OF in_concat_nth [of i "B p", OF _ that]] i that by (simp add: hashed_right_def syms)
    moreover have "r = q \<and> i = b \<or> r \<in> set (B p ! i)" using r i bl by (auto simp: nth_list_update split: if_splits)
    ultimately show "TrieHash (tn_symbol s3 r) (seed_of (B p)) = i" by (auto simp: syms b)
  qed
  have "size (mset (concat ?bs)) = Suc (size (mset (concat (B p))))" unfolding mb by simp
  then have "length (concat ?bs) = Suc (length (concat (B p)))" unfolding size_mset .
  then show "ht_contents s3 ?c = length (concat ?bs)" using G K(4) by (simp add: s3 MakeHashedNode_def del: length_concat)
qed


lemma table_grown:
  assumes rep: "trie_rep s N B" and p: "p \<in> N" "\<not> IsLeafNode s p" "table_of s p"
    and b: "b = TrieHash sy (seed_of (B p))" and g: "chain_grown s N p sy k (B p ! b) s1 q" and ch: "tn_child s1 = (tn_child s)(q := 0)"
    and new: "\<And>r. \<not> has_child s N p sy r"
    and s3: "s3 = (MakeHashedNode q (s1\<lparr>ht_buckets := (ht_buckets s1)(tn_child s p := (ht_buckets s1 (tn_child s p))[b := q])\<rparr>))
      \<lparr>ht_contents := (ht_contents s1)(tn_child s p := ht_contents s1 (tn_child s p) + 1)\<rparr>"
    and F: "table_frame (set (concat bs3)) (tn_child s p) s3 s'" and bs3: "bs3 = (B p)[b := q # B p ! b]"
    and s': "buckets_ok s' (tn_child s p) bs" "hashed_right {} s' bs" "bs \<noteq> []" "mset (concat bs) = mset (concat bs3)"
  shows "adds_child s N p sy k s' (insert q N) q"
proof -
  note D = trie_repD [OF rep]
  note G = g [unfolded chain_grown_def]
  note f = table_frameD [OF F]
  let ?c = "tn_child s p"
  have old: "sy \<notin> tn_symbol s ` set (concat (B p))" using new unfolding has_child_kids [OF rep p(1)] by blast
  note K = bucket_grown [OF rep p b g old s3, folded bs3]
  have N: "r \<noteq> q" "r < q" "0 < r" if "r \<in> N" for r using D(1,2) [OF that] G by auto
  have N': "r \<in> N \<and> r \<noteq> q \<and> \<not> IsTrieRoot s r" if "r \<in> set (concat (B p))" for r using D(5) [OF p(1) that] N by blast
  have c: "0 < ?c" "?c < q" "IsHashHeader s ?c" using D(7) [OF p] p(3) G by (auto simp: table_of_def)
  have cN: "?c \<notin> N" using D(3) c(3) by (auto simp: IsHashHeader_def)
  have set3: "set (concat bs3) = insert q (set (concat (B p)))" using K(4) by (metis set_mset_add_mset_insert set_mset_mset)
  have sbs: "set (concat bs) = insert q (set (concat (B p)))" using s'(4) set3 by (metis set_mset_mset)
  have e: "tn_next s3 = Suc q" "tn_symbol s3 = (tn_symbol s)(q := sy)" "tn_parent s3 = (tn_parent s)(q := p)"
    "tn_node_type s3 = (tn_node_type s)(q := 1)" "tn_child s3 = (tn_child s)(q := 0)" "tn_grow s3 = tn_grow s"
    "tn_sibling s3 = tn_sibling s1" "tn_instr s3 = tn_instr s1"
    "\<And>k. k \<noteq> ?c \<Longrightarrow> ht_buckets s3 k = ht_buckets s k \<and> ht_contents s3 k = ht_contents s k"
    using G ch by (simp_all add: s3 MakeHashedNode_def)
  have nt: "tn_node_type s' r = tn_node_type s r \<or> tn_node_type s' r = tn_node_type s r OR 1 \<and> \<not> IsTrieRoot s r"
    if "r \<in> N" for r using f(3) [of r] f(11) [of r] e(4) N'[of r] N [OF that] set3 by (cases "r \<in> set (concat (B p))") auto
  have qt: "tn_node_type s' q \<in> {0, 1}" using f(11) [of q] e(4) by auto
  have "?c \<notin> set (concat bs3)" using set3 N' cN c by (auto simp del: set_concat)
  then have tab: "table_of s' p" using f(3) [of ?c] f(6) e c N(1) [OF p(1)]
    by (simp add: table_of_def IsHashHeader_def del: set_concat)
  have cp: "tn_child s' p = ?c" using f(6) e N(1) [OF p(1)] by simp
  have "trie_rep s' ({q} \<union> N) (\<lambda>r. if r \<in> {q} then [[]] else if r = p then bs else B r)"
  proof (rule trie_rep_add [OF rep p(1,2)])
    show "tn_next s \<le> tn_next s'" using G f(7) e by simp
    show "tn_symbol s' r = tn_symbol s r \<and> tn_parent s' r = tn_parent s r" if "r \<in> N" for r
      using f(4,5) e N [OF that] by simp
    show "tn_parent s' r = p \<and> tn_child s' r = 0 \<and> tn_node_type s' r \<in> {0, 1} \<and> tn_next s \<le> r \<and> r < tn_next s'"
      if "r \<in> {q}" for r using that f(5,6,7) e qt G by simp
    show "kids_rep s' r (B r) \<and> table_of s' r = table_of s r \<and> tn_child s' r = tn_child s r"
      if r: "r \<in> N" "r \<noteq> p" "\<not> IsLeafNode s r" for r
    proof (rule other_kids [OF rep p(1,2) r])
      show "tn_sibling s' t = tn_sibling s t \<and> tn_instr s' t = tn_instr s t"
        if t: "t \<in> N" "t \<notin> set (concat (B p))" for t
      proof -
        have "t \<notin> set (B p ! b)" using t(2) in_concat_nth [OF K(5)] by blast
        then show ?thesis using f(1,2) [of t] t N(1) [OF t(1)] G e(7,8) set3 by auto
      qed
      show "tn_symbol s' t = tn_symbol s t" if "t \<in> N" for t using f(4) e N [OF that] by simp
      show "tn_child s' r = tn_child s r" using f(6) e N [OF r(1)] by simp
      show "tn_node_type s' k = tn_node_type s k \<or> k \<in> N \<and> tn_node_type s' k = tn_node_type s k OR 1 \<and> \<not> IsTrieRoot s k"
        if "0 < k" "k < tn_next s" for k
        using f(3) [of k] f(11) [of k] e(4) G that N' [of k] set3 by (cases "k \<in> set (concat (B p))") auto
      show "ht_buckets s' k = ht_buckets s k \<and> ht_contents s' k = ht_contents s k"
        if "k < tn_next s" "IsHashHeader s k" "k \<noteq> tn_child s p" for k
        using f(9) f(10) [of k] e(9) [of k] that by auto
    qed
    have "size (mset (concat bs)) = size (mset (concat bs3))" unfolding s'(4) ..
    then have "length (concat bs) = length (concat bs3)" unfolding size_mset .
    then show "kids_rep s' p bs" using s' tab cp f(9) K(6) by (simp add: kids_rep_def)
    show "set (concat bs) = {q} \<union> set (concat (B p))" using sbs by simp
    have "map (tn_symbol s') (concat (B p)) = map (tn_symbol s) (concat (B p))" using f(4) e N' by (intro map_cong) auto
    moreover have "distinct (map (tn_symbol s) (concat (B p)))" by (rule D(4) [OF p(1)])
    moreover have "tn_symbol s' q \<notin> tn_symbol s ` set (concat (B p))" using f(4) e old by simp
    ultimately have "distinct (map (tn_symbol s') (q # concat (B p)))" by (intro distinct_map_new)
    then show "distinct (map (tn_symbol s') (concat bs))"
      using mset_eq_imp_distinct_iff [of "map (tn_symbol s') (concat bs)" "map (tn_symbol s') (q # concat (B p))"] s'(4) K(4)
      by simp
    show "tn_child s' p < tn_next s' \<and> (\<forall>r \<in> N. r \<noteq> p \<longrightarrow> \<not> IsLeafNode s r \<longrightarrow> tn_child s r \<noteq> tn_child s' p)"
    proof (intro conjI ballI impI)
      show "tn_child s' p < tn_next s'" using cp c f(7) e by simp
      show "tn_child s r \<noteq> tn_child s' p" if "r \<in> N" "r \<noteq> p" "\<not> IsLeafNode s r" for r
        unfolding cp using D(10) [OF p(1) that(1) p(2) that(3) p(3)] that(2) by metis
    qed
  qed (use nt in blast)
  then have "trie_ok s' (insert q N)" by (auto simp: trie_ok_def)
  moreover have "tn_node_type s r \<in> node_types" if "r \<in> N" for r by (rule D(3) [OF that])
  then have "IsTrieRoot s' r = IsTrieRoot s r \<and> IsLeafNode s' r = IsLeafNode s r" if "r \<in> N" for r
    using nt [OF that] that by (auto simp: IsTrieRoot_def IsLeafNode_def TRIE_ROOT_NT_def)
  moreover have "has_child s' (insert q N) p sy q" using f(4,5) e(2,3) qt by (auto simp: has_child_def IsTrieRoot_def TRIE_ROOT_NT_def)
  moreover have "\<not> IsLeafNode s' q" using qt by (auto simp: IsLeafNode_def)
  moreover have "\<nexists>r. has_child s N p sy r" using new by blast
  moreover have "tn_instr s' q div 4 = k" "\<And>r. r \<in> N \<Longrightarrow> tn_instr s' r div 4 = tn_instr s r div 4"
    using G by (simp_all only: f(12) e(8)) blast+
  ultimately show ?thesis using f(4-6,8) e(2,3,5,6) N p(1) by (auto simp: adds_child_def)
qed


lemma IsInsibling_found:
  assumes qs: "slist (tn_sibling s) c qs" and r: "r \<in> set qs" "tn_symbol s r = sy" and d: "distinct (map (tn_symbol s) qs)"
    and sy: "sy = (if intrn \<noteq> 0 then intrn else item)"
  shows "\<exists>k. IsInsibling c f item intrn tt p s = Some (c, r, k, f, s) \<and> k < length qs"
proof -
  obtain t where t: "find (\<lambda>q. tn_symbol s q = sy) qs = Some t"
    using r by (cases "find (\<lambda>q. tn_symbol s q = sy) qs") (auto simp: find_None_iff)
  then have "t \<in> set qs" "tn_symbol s t = sy" by (auto simp: find_Some_iff)
  then have "t = r" using r d by (auto simp: distinct_map dest: inj_onD)
  then obtain k where "sibling_loop s sy c 0 = Some (r, k)" "k < length qs" using sibling_loop_found [OF qs, of sy 0] t by auto
  moreover have "r \<noteq> 0" using slist_nonzero [OF qs] r(1) by metis
  ultimately show ?thesis using sy by (simp add: IsInsibling_def)
qed

lemma IsInsibling_new:
  assumes qs: "slist (tn_sibling s) c qs" and new: "sy \<notin> tn_symbol s ` set qs" and sy: "sy = (if intrn \<noteq> 0 then intrn else item)"
  shows "IsInsibling c f item intrn tt p s =
    map_option (\<lambda>(q, s1). (q, q, length qs + 1, False, s1)) (new_btn tt INTERIOR_NT item intrn p c s)"
proof -
  have "find (\<lambda>q. tn_symbol s q = sy) qs = None" using new by (auto simp: find_None_iff)
  then have "sibling_loop s sy c 0 = Some (0, length qs)" using sibling_loop_found [OF qs, of sy 0] by simp
  then show ?thesis using sy by (simp add: IsInsibling_def)
qed

text \<open>
  The child that carries the symbol is found, or added when there is none, and the flag says
  which. The parent is a node whose chain was walked to, or one just made, without children.
\<close>

lemma chk_ins_rep:
  assumes rep: "trie_rep s N B" and p: "p \<in> N" "\<not> IsLeafNode s p" and ok: "symbol_ok item" and f: "f \<or> tn_child s p = 0"
    and sy: "sy = (if intrn \<noteq> 0 then intrn else item)"
  shows "\<exists>q s' N'. one_btn_chk_ins item intrn tt (f, p, s) = Some (\<exists>r. has_child s N p sy r, q, s') \<and> adds_child s N p sy (instr_kind item intrn tt) s' N' q"
proof -
  note D = trie_repD [OF rep p(1)]
  note K = D(6) [OF p(2), unfolded kids_rep_def]
  have BN: "set (concat (B p)) \<subseteq> N" using D(5) by blast
  have Bd: "distinct (concat (B p))" using D(4) by (auto simp: distinct_map)
  have found: "adds_child s N p sy (instr_kind item intrn tt) s N r" if "r \<in> set (concat (B p))" "tn_symbol s r = sy" for r
    using that rep has_child_kids [OF rep p(1), of sy r] by (auto simp: adds_child_def trie_ok_def simp del: set_concat)
  show ?thesis
  proof (cases "table_of s p")
    case False
    then obtain qs where qs: "B p = [qs]" "slist (tn_sibling s) (tn_child s p) qs" "cp_ok (tn_instr s) qs" "length qs \<le> MAX_SIBLING_LEN"
      using K by auto
    show ?thesis
    proof (cases "\<exists>r. has_child s N p sy r")
      case True
      then obtain r where r: "r \<in> set qs" "tn_symbol s r = sy" unfolding has_child_kids [OF rep p(1)] qs(1) by auto
      then have c: "tn_child s p \<noteq> 0" using qs(2) by (cases qs) auto
      obtain k where k: "IsInsibling (tn_child s p) f item intrn tt p s = Some (tn_child s p, r, k, f, s)" "k < length qs"
        using IsInsibling_found [OF qs(2) r _ sy, of f tt p] D(4) qs(1) by auto
      have "one_btn_chk_ins item intrn tt (f, p, s) = Some (True, r, s)"
        using False c k qs(4) f by (simp add: one_btn_chk_ins_def Let_def table_of_def)
      moreover have "adds_child s N p sy (instr_kind item intrn tt) s N r" by (rule found) (use r qs(1) in auto)
      ultimately show ?thesis using True by auto
    next
      case new: False
      then have n: "\<And>r. \<not> has_child s N p sy r" by blast
      have sub: "set qs \<subseteq> N" and dq: "distinct qs" using BN Bd qs(1) by auto
      have old: "sy \<notin> tn_symbol s ` set qs" using n unfolding has_child_kids [OF rep p(1)] qs(1) by auto
      obtain s1 where s1: "new_btn tt INTERIOR_NT item intrn p (tn_child s p) s = Some (tn_next s, s1)"
        "chain_grown s N p sy (instr_kind item intrn tt) qs s1 (tn_next s)" "tn_child s1 = (tn_child s)(tn_next s := 0)"
        using new_head [OF rep qs(2,3) sub dq ok, of tt intrn p, folded sy] by blast
      have I: "IsInsibling (tn_child s p) f item intrn tt p s = Some (tn_next s, tn_next s, length qs + 1, False, s1)"
        using IsInsibling_new [OF qs(2) old sy, of f tt p] s1(1) by simp
      let ?s = "s1\<lparr>tn_child := (tn_child s1)(p := tn_next s)\<rparr>"
      show ?thesis
      proof (cases "length qs < MAX_SIBLING_LEN")
        case True
        have "one_btn_chk_ins item intrn tt (f, p, s) = Some (False, tn_next s, ?s)"
          using False I s1(1) True by (cases "tn_child s p = 0") (simp_all add: one_btn_chk_ins_def Let_def table_of_def)
        then show ?thesis using chain_short [OF rep p False qs(1) s1(2,3) n True] new by auto
      next
        case full: False
        then have len: "length qs = MAX_SIBLING_LEN" using qs(4) by simp
        then have c: "tn_child s p \<noteq> 0" using qs(2) by (cases qs) (auto simp: MAX_SIBLING_LEN_def)
        obtain s' where s': "hashify_children p tt ?s = Some s'" "adds_child s N p sy (instr_kind item intrn tt) s' (insert (tn_next s) N) (tn_next s)"
          using chain_long [OF rep p False qs(1) s1(2,3) n len] by blast
        have "one_btn_chk_ins item intrn tt (f, p, s) = Some (False, tn_next s, s')"
          using False c I s'(1) len by (simp add: one_btn_chk_ins_def Let_def table_of_def)
        then show ?thesis using s'(2) new by auto
      qed
    qed
  next
    case True
    then have c: "tn_child s p \<noteq> 0" "IsHashHeader s (tn_child s p)" and f: "f" using f by (auto simp: table_of_def)
    have T: "buckets_ok s (tn_child s p) (B p)" "hashed_right {} s (B p)" "B p \<noteq> []" using K True by simp_all
    define b where "b = TrieHash sy (seed_of (B p))"
    have bl: "b < length (B p)" using T(3) TrieHash_less by (simp add: b_def seed_of_def)
    have L: "length (ht_buckets s (tn_child s p)) = length (B p)" using T(1) by (simp add: buckets_ok_def)
    have b': "TrieHash (if intrn \<noteq> 0 then intrn else item) (length (ht_buckets s (tn_child s p)) - 1) = b"
      by (simp add: b_def seed_of_def L flip: sy)
    have q: "slist (tn_sibling s) (ht_buckets s (tn_child s p) ! b) (B p ! b)" "cp_ok (tn_instr s) (B p ! b)"
      using T(1) bl by (auto simp: buckets_ok_def)
    have sub: "set (B p ! b) \<subseteq> N" using BN in_concat_nth [OF bl] by blast
    have dq: "distinct (B p ! b)" using Bd bl by (simp add: distinct_concat_iff)
    show ?thesis
    proof (cases "\<exists>r. has_child s N p sy r")
      case ex: True
      then obtain r where r: "r \<in> set (concat (B p))" "tn_symbol s r = sy" unfolding has_child_kids [OF rep p(1)] by blast
      then obtain j where j: "j < length (B p)" "r \<in> set (B p ! j)" unfolding set_concat by (metis UN_E in_set_conv_nth)
      then have "r \<in> set (B p ! b)" using T(2) r(2) by (auto simp: hashed_right_def b_def)
      moreover have "distinct (map (tn_symbol s) (B p ! b))"
        using D(4) dq in_concat_nth [OF bl] unfolding distinct_map by (meson inj_on_subset subsetI)
      ultimately obtain k where k: "IsInsibling (ht_buckets s (tn_child s p) ! b) f item intrn tt p s =
          Some (ht_buckets s (tn_child s p) ! b, r, k, f, s)"
        using IsInsibling_found [OF q(1) _ r(2) _ sy] by blast
      have "one_btn_chk_ins item intrn tt (f, p, s) = Some (True, r, s)"
        unfolding one_btn_chk_ins_def using c k f by (simp add: Let_def b' del: One_nat_def)
      then show ?thesis using found [OF r] ex by auto
    next
      case new: False
      then have n: "\<And>r. \<not> has_child s N p sy r" by blast
      have old: "sy \<notin> tn_symbol s ` set (concat (B p))" using n unfolding has_child_kids [OF rep p(1)] by blast
      then have ob: "sy \<notin> tn_symbol s ` set (B p ! b)" using in_concat_nth [OF bl] by blast
      obtain s1 where s1: "new_btn tt INTERIOR_NT item intrn p (ht_buckets s (tn_child s p) ! b) s = Some (tn_next s, s1)"
        "chain_grown s N p sy (instr_kind item intrn tt) (B p ! b) s1 (tn_next s)" "tn_child s1 = (tn_child s)(tn_next s := 0)"
        using new_head [OF rep q sub dq ok, of tt intrn p, folded sy] by blast
      have I: "IsInsibling (ht_buckets s (tn_child s p) ! b) f item intrn tt p s =
          Some (tn_next s, tn_next s, length (B p ! b) + 1, False, s1)"
        using IsInsibling_new [OF q(1) ob sy, of f tt p] s1(1) by simp
      define s3 where "s3 = (MakeHashedNode (tn_next s) (s1\<lparr>ht_buckets := (ht_buckets s1)(tn_child s p := (ht_buckets s1 (tn_child s p))[b := tn_next s])\<rparr>))
        \<lparr>ht_contents := (ht_contents s1)(tn_child s p := ht_contents s1 (tn_child s p) + 1)\<rparr>"
      define bs3 where "bs3 = (B p)[b := tn_next s # B p ! b]"
      note G = bucket_grown [OF rep p True b_def s1(2) old s3_def, folded bs3_def]
      note A = table_grown [OF rep p True b_def s1(2,3) n s3_def _ bs3_def]
      have ne: "bs3 \<noteq> []" using T(3) by (simp add: bs3_def)
      obtain s' bs where s': "(if length (B p ! b) + 1 > BUCKET_CONTENT_THRESHOLD \<and> ht_contents s3 (tn_child s p) > length (ht_buckets s3 (tn_child s p))
          then expand_trie_ht (tn_child s p) s3 else Some s3) = Some s'" "buckets_ok s' (tn_child s p) bs" "hashed_right {} s' bs" "bs \<noteq> []"
          "mset (concat bs) = mset (concat bs3)" "table_frame (set (concat bs3)) (tn_child s p) s3 s'"
        using expand_ok [OF G(1) ne G(3,2)] G(1,2) ne table_frame_refl by (cases "length (B p ! b) + 1 > BUCKET_CONTENT_THRESHOLD \<and>
          ht_contents s3 (tn_child s p) > length (ht_buckets s3 (tn_child s p))") auto
      have "one_btn_chk_ins item intrn tt (f, p, s) = Some (False, tn_next s, s')"
        unfolding one_btn_chk_ins_def using c I s'(1) [unfolded s3_def]
        by (auto simp: Let_def b' MakeHashedNode_def simp del: One_nat_def split: if_splits)
      then show ?thesis using A [OF s'(6,2,3,4,5)] new by auto
    qed
  qed
qed

end
