(* ===== verification/Trie_Paths.thy ===== *)
theory Trie_Paths imports Trie_Nodes "HOL-Library.Sublist" begin

text \<open>
  Strings of symbols in a trie: a trie stores the strings that lead from its root to its
  leaves, and inserting a string symbol by symbol with \<open>one_btn_chk_ins\<close> finds the leaf of a
  string the trie has and adds the string otherwise.
\<close>

section \<open>Inserting a string\<close>

text \<open>Each symbol comes with the interned term that replaces it in the node, or 0.\<close>

fun fold_items :: "nat \<Rightarrow> (word64 \<times> word64) list \<Rightarrow> bool \<times> nat \<times> tries \<Rightarrow> (bool \<times> nat \<times> tries) option" where
  "fold_items tt [] x = Some x"
| "fold_items tt (i # is) x =
     (case one_btn_chk_ins (fst i) (snd i) tt x of None \<Rightarrow> None | Some y \<Rightarrow> fold_items tt is y)"

definition node_symbol :: "word64 \<times> word64 \<Rightarrow> word64" where
  "node_symbol i = (if snd i \<noteq> 0 then snd i else fst i)"

lemma fold_items_append:
  "fold_items tt (is @ js) x = Option.bind (fold_items tt is x) (fold_items tt js)"
  by (induction "is" arbitrary: x) (auto split: option.splits)

section \<open>Paths\<close>

fun walk :: "tries \<Rightarrow> nat set \<Rightarrow> nat \<Rightarrow> word64 list \<Rightarrow> nat \<Rightarrow> bool" where
  "walk s N p [] q \<longleftrightarrow> q = p"
| "walk s N p (x # xs) q \<longleftrightarrow> (\<exists>r. has_child s N p x r \<and> walk s N r xs q)"

lemma walk_snoc: "walk s N p (xs @ [x]) q \<longleftrightarrow> (\<exists>r. walk s N p xs r \<and> has_child s N r x q)"
  by (induction xs arbitrary: p) auto

lemma walk_in: "walk s N p xs q \<Longrightarrow> p \<in> N \<Longrightarrow> q \<in> N"
  by (induction xs arbitrary: p) (auto simp: has_child_def)

lemma walk_unique: "trie_ok s N \<Longrightarrow> p \<in> N \<Longrightarrow> walk s N p xs q \<Longrightarrow> walk s N p xs r \<Longrightarrow> q = r"
proof (induction xs arbitrary: p)
  case (Cons x xs)
  then obtain a b where "has_child s N p x a" "walk s N a xs q" "has_child s N p x b" "walk s N b xs r" by auto
  then show ?case using Cons.IH [of a] Cons.prems has_child_unique [of s N p x a b] by (auto simp: has_child_def)
qed simp

text \<open>A node has one path from the root.\<close>

lemma walk_path_unique:
  assumes "IsTrieRoot s r"
  shows "walk s N r xs q \<Longrightarrow> walk s N r ys q \<Longrightarrow> xs = ys"
proof (induction xs arbitrary: ys q rule: rev_induct)
  case Nil
  then show ?case using assms by (cases ys rule: rev_cases) (auto simp: walk_snoc has_child_def)
next
  case (snoc x xs)
  then obtain a where a: "walk s N r xs a" "has_child s N a x q" by (auto simp: walk_snoc)
  show ?case
  proof (cases ys rule: rev_cases)
    case Nil
    then show ?thesis using snoc.prems a assms by (auto simp: has_child_def)
  next
    case (snoc ys' y)
    then obtain b where "walk s N r ys' b" "has_child s N b y q" using snoc.prems by (auto simp: walk_snoc)
    then show ?thesis using snoc.IH [of a ys'] a snoc by (auto simp: has_child_def)
  qed
qed

section \<open>Adding one symbol\<close>

lemma parent_in: "trie_ok s N \<Longrightarrow> q \<in> N \<Longrightarrow> \<not> IsTrieRoot s q \<Longrightarrow> tn_parent s q \<in> N"
  unfolding trie_ok_def using trie_repD(9) by blast

lemma adds_child_has:
  assumes "adds_child s N p sy k s' N' q" "\<nexists>r. has_child s N p sy r"
  shows "has_child s' N' r x t \<longleftrightarrow> has_child s N r x t \<or> t = q \<and> r = p \<and> x = sy"
  using assms by (auto simp: adds_child_def has_child_def)

lemma adds_child_walk:
  assumes A: "adds_child s N p sy k s' N' q" and ok: "trie_ok s N" and root: "root \<in> N" "IsTrieRoot s root" and p: "p \<in> N" "walk s N root xs p"
  shows "walk s' N' root ys t \<longleftrightarrow> walk s N root ys t \<or> t = q \<and> ys = xs @ [sy]"
proof (cases "\<exists>r. has_child s N p sy r")
  case True
  then have "s' = s" "N' = N" "has_child s N p sy q" using A by (auto simp: adds_child_def split: if_splits)
  then show ?thesis using p by (auto simp: walk_snoc)
next
  case False
  have q: "q \<notin> N" "N' = insert q N" using A False by (auto simp: adds_child_def)
  note H = adds_child_has [OF A False]
  show ?thesis
  proof (induction ys arbitrary: t rule: rev_induct)
    case Nil
    show ?case by simp
  next
    case (snoc y ys)
    have "\<not> has_child s N q y t" using parent_in [OF ok, of t] q by (auto simp: has_child_def)
    then have "\<not> has_child s' N' q y t" using q(1) p(1) unfolding H by auto
    moreover have "walk s N root ys p \<Longrightarrow> ys = xs" using walk_path_unique [OF root(2)] p(2) by blast
    ultimately show ?case unfolding walk_snoc snoc.IH H using p(2) by auto
  qed
qed

text \<open>
  The nodes of structures: those \<open>I\<close> takes for interned terms carry the instruction of a constant
  and the others that of a structure, also once they are leaves.
\<close>

definition kinds_ok :: "(word64 \<Rightarrow> bool) \<Rightarrow> tries \<Rightarrow> nat set \<Rightarrow> bool" where
  "kinds_ok I s N \<longleftrightarrow> (\<forall>q \<in> N. \<not> IsTrieRoot s q \<longrightarrow> cell_tag (tn_symbol s q) = XSB_STRUCT \<longrightarrow>
     (let k = (if I (tn_symbol s q) then 28 else 24)
      in tn_instr s q div 4 = k \<or> IsLeafNode s q \<and> tn_instr s q div 4 = k + 1))"

definition item_ok :: "(word64 \<Rightarrow> bool) \<Rightarrow> word64 \<times> word64 \<Rightarrow> bool" where
  "item_ok I i \<longleftrightarrow> symbol_ok (fst i) \<and> (snd i \<noteq> 0 \<longrightarrow> cell_tag (snd i) = cell_tag (fst i)) \<and>
     (cell_tag (fst i) = XSB_STRUCT \<longrightarrow> I (node_symbol i) = (snd i \<noteq> 0))"

lemma adds_child_kinds:
  assumes A: "adds_child s N p (node_symbol i) (instr_kind (fst i) (snd i) tt) s' N' q" and i: "item_ok I i" and K: "kinds_ok I s N"
  shows "kinds_ok I s' N'"
proof (cases "\<exists>r. has_child s N p (node_symbol i) r")
  case True
  then have "s' = s" "N' = N" using A by (auto simp: adds_child_def split: if_splits)
  then show ?thesis using K by simp
next
  case False
  have q: "tn_symbol s' q = node_symbol i" "tn_instr s' q div 4 = instr_kind (fst i) (snd i) tt" "N' = insert q N"
    "\<And>r. r \<in> N \<Longrightarrow> tn_symbol s' r = tn_symbol s r \<and> IsTrieRoot s' r = IsTrieRoot s r \<and> IsLeafNode s' r = IsLeafNode s r \<and>
      tn_instr s' r div 4 = tn_instr s r div 4"
    using A False by (auto simp: adds_child_def has_child_def)
  have "tn_instr s' q div 4 = (if I (tn_symbol s' q) then 28 else 24)" if "cell_tag (tn_symbol s' q) = XSB_STRUCT"
  proof -
    have "cell_tag (fst i) = XSB_STRUCT" using that i q(1) by (auto simp: item_ok_def node_symbol_def split: if_splits)
    moreover from this have "I (node_symbol i) = (snd i \<noteq> 0)" using i by (simp add: item_ok_def)
    ultimately show ?thesis using q(1,2) by (simp add: instr_kind_def TN_SetInstr_def opcode_defs)
  qed
  then show ?thesis using K q(3,4) unfolding kinds_ok_def by (auto simp: Let_def)
qed

text \<open>
  The trie after the symbols \<open>xs\<close>: what it had besides, and while the flag is set nothing new.
\<close>

definition inserting :: "(word64 \<Rightarrow> bool) \<Rightarrow> tries \<Rightarrow> nat set \<Rightarrow> nat \<Rightarrow> word64 list \<Rightarrow> bool \<Rightarrow> nat \<Rightarrow> tries \<Rightarrow> nat set \<Rightarrow> bool" where
  "inserting I s N root xs f p s' N' \<longleftrightarrow> (kinds_ok I s N \<longrightarrow> kinds_ok I s' N') \<and> trie_ok s' N' \<and> N \<subseteq> N' \<and> p \<in> N' \<and> walk s' N' root xs p \<and> IsTrieRoot s' root \<and>
     tn_grow s' = tn_grow s \<and> (\<forall>r \<in> N. IsLeafNode s' r = IsLeafNode s r) \<and> (\<forall>r \<in> N' - N. \<not> IsLeafNode s' r) \<and>
     (\<forall>ys q. walk s' N' root ys q \<longleftrightarrow> walk s N root ys q \<or> q \<notin> N \<and> prefix ys xs \<and> walk s' N' root ys q) \<and>
     (f \<longleftrightarrow> (\<exists>q. walk s N root xs q)) \<and> (if f then s' = s \<and> N' = N else tn_child s' p = 0 \<and> p \<notin> N)"

lemma inserting_step:
  assumes ins: "inserting I s N root xs f p s1 N1" and root: "root \<in> N"
    and leaf: "\<not> IsLeafNode s1 p" and ok: "item_ok I i"
  shows "\<exists>q s2 N2. one_btn_chk_ins (fst i) (snd i) tt (f, p, s1) = Some (\<exists>q. walk s N root (xs @ [node_symbol i]) q, q, s2) \<and>
    inserting I s N root (xs @ [node_symbol i]) (\<exists>q. walk s N root (xs @ [node_symbol i]) q) q s2 N2"
proof -
  let ?sy = "node_symbol i"
  have I': "trie_ok s1 N1" "N \<subseteq> N1" "p \<in> N1" "walk s1 N1 root xs p" "IsTrieRoot s1 root" "f \<or> tn_child s1 p = 0"
    "f \<longleftrightarrow> (\<exists>q. walk s N root xs q)" "f \<Longrightarrow> s1 = s \<and> N1 = N" "\<not> f \<Longrightarrow> p \<notin> N" "tn_grow s1 = tn_grow s"
    "\<And>r. r \<in> N \<Longrightarrow> IsLeafNode s1 r = IsLeafNode s r" "\<And>r. r \<in> N1 - N \<Longrightarrow> \<not> IsLeafNode s1 r"
    "\<And>ys q. walk s1 N1 root ys q \<longleftrightarrow> walk s N root ys q \<or> q \<notin> N \<and> prefix ys xs \<and> walk s1 N1 root ys q"
    "kinds_ok I s N \<longrightarrow> kinds_ok I s1 N1"
    using ins unfolding inserting_def by (auto split: if_splits)
  have so: "symbol_ok (fst i)" using ok by (simp add: item_ok_def)
  obtain B where "trie_rep s1 N1 B" using I'(1) by (auto simp: trie_ok_def)
  from chk_ins_rep [OF this I'(3) leaf so I'(6), of ?sy "snd i" tt]
  obtain q s2 N2 where C: "one_btn_chk_ins (fst i) (snd i) tt (f, p, s1) = Some (\<exists>r. has_child s1 N1 p ?sy r, q, s2)"
    and A: "adds_child s1 N1 p ?sy (instr_kind (fst i) (snd i) tt) s2 N2 q" by (auto simp: node_symbol_def)
  have rN: "root \<in> N1" using root I'(2) by blast
  note K = adds_child_kinds [OF A ok] I'(14)
  note W = adds_child_walk [OF A I'(1) rN I'(5) I'(3) I'(4)]
  have has: "(\<exists>r. has_child s1 N1 p ?sy r) \<longleftrightarrow> (\<exists>q. walk s N root (xs @ [?sy]) q)"
  proof
    assume "\<exists>r. has_child s1 N1 p ?sy r"
    then obtain r where "walk s1 N1 root (xs @ [?sy]) r" using I'(4) by (auto simp: walk_snoc)
    moreover have "\<not> prefix (xs @ [?sy]) xs" by (auto dest: prefix_length_le)
    ultimately show "\<exists>q. walk s N root (xs @ [?sy]) q" using I'(13) by blast
  next
    assume "\<exists>q. walk s N root (xs @ [?sy]) q"
    then obtain r t where r: "walk s N root xs r" "has_child s N r ?sy t" by (auto simp: walk_snoc)
    then have f using I'(7) by blast
    then have "s1 = s" "N1 = N" using I'(8) by auto
    then show "\<exists>r. has_child s1 N1 p ?sy r" using r walk_unique [OF I'(1) rN I'(4), of r] by auto
  qed
  have "inserting I s N root (xs @ [?sy]) (\<exists>q. walk s N root (xs @ [?sy]) q) q s2 N2"
  proof (cases "\<exists>r. has_child s1 N1 p ?sy r")
    case True
    then have s2: "s2 = s1" "N2 = N1" "has_child s1 N1 p ?sy q" using A by (auto simp: adds_child_def split: if_splits)
    obtain t where t: "walk s N root (xs @ [?sy]) t" using True has by blast
    then have f using I'(7) by (auto simp: walk_snoc)
    then have e: "s1 = s" "N1 = N" using I'(8) by auto
    have "walk s N root (xs @ [?sy]) q" using s2(3) I'(4) e by (auto simp: walk_snoc)
    then show ?thesis unfolding inserting_def s2 e using I' s2(3) e by (auto simp: has_child_def)
  next
    case False
    have new: "q \<notin> N1" "N2 = insert q N1" "trie_ok s2 N2" "tn_grow s2 = tn_grow s1" "\<not> IsLeafNode s2 q" "tn_child s2 q = 0"
      "\<And>r. r \<in> N1 \<Longrightarrow> IsLeafNode s2 r = IsLeafNode s1 r \<and> IsTrieRoot s2 r = IsTrieRoot s1 r"
      using A False by (auto simp: adds_child_def)
    have nf: "\<nexists>q. walk s N root (xs @ [?sy]) q" using False has by blast
    have "walk s2 N2 root ys t \<longleftrightarrow> walk s N root ys t \<or> t \<notin> N \<and> prefix ys (xs @ [?sy]) \<and> walk s2 N2 root ys t" for ys t
      using I'(13) [of ys t] W [of ys t] new(1) I'(2) walk_in [of s N root ys t, OF _ root] by (auto simp: prefix_snoc)
    then show ?thesis
      unfolding inserting_def using I' W new nf rN K by (auto simp: subset_iff)
  qed
  then show ?thesis using C has by auto
qed


section \<open>The strings a trie stores\<close>

definition stores :: "tries \<Rightarrow> nat set \<Rightarrow> nat \<Rightarrow> word64 list set \<Rightarrow> bool" where
  "stores s N root L \<longleftrightarrow> trie_ok s N \<and> root \<in> N \<and> IsTrieRoot s root \<and>
     (\<forall>xs q. walk s N root xs q \<longrightarrow> xs = [] \<or> (\<exists>l \<in> L. prefix xs l)) \<and>
     (\<forall>l \<in> L. \<exists>q. walk s N root l q \<and> IsLeafNode s q) \<and>
     (\<forall>xs q. walk s N root xs q \<longrightarrow> IsLeafNode s q \<longrightarrow> xs \<in> L)"

lemma inserting_refl:
  assumes "trie_ok s N" "root \<in> N" "IsTrieRoot s root"
  shows "inserting I s N root [] True root s N"
  using assms walk_in [of s N root _ _, OF _ assms(2)] by (auto simp: inserting_def)

lemma inserting_fold:
  assumes S: "stores s N root L" and ok: "\<forall>i \<in> set is. item_ok I i" and pre: "\<And>k. k \<in> L \<Longrightarrow> \<not> strict_prefix k (map node_symbol is)"
  shows "\<exists>q s' N'. fold_items tt is (True, root, s) = Some (\<exists>q. walk s N root (map node_symbol is) q, q, s') \<and>
    inserting I s N root (map node_symbol is) (\<exists>q. walk s N root (map node_symbol is) q) q s' N'"
  using ok pre
proof (induction "is" rule: rev_induct)
  case Nil
  have "(\<exists>q. walk s N root [] q) = True" by simp
  then show ?case using S inserting_refl [of s N root I] by (auto simp: stores_def)
next
  case (snoc i "is")
  let ?xs = "map node_symbol is"
  have "\<not> strict_prefix k ?xs" if "k \<in> L" for k using snoc.prems(2) [OF that] by (auto simp: strict_prefix_def prefix_snoc)
  with snoc obtain q s1 N1 where 1: "fold_items tt is (True, root, s) = Some (\<exists>q. walk s N root ?xs q, q, s1)"
    "inserting I s N root ?xs (\<exists>q. walk s N root ?xs q) q s1 N1" by auto
  have r: "root \<in> N" using S by (simp add: stores_def)
  have "\<not> IsLeafNode s1 q"
  proof (cases "q \<in> N")
    case True
    then have "walk s N root ?xs q" using 1(2) unfolding inserting_def by blast
    moreover have "?xs \<notin> L" using snoc.prems(2) [of ?xs] by (auto simp: strict_prefix_def)
    ultimately have "\<not> IsLeafNode s q" using S by (auto simp: stores_def)
    then show ?thesis using 1(2) True by (simp add: inserting_def)
  qed (use 1(2) in \<open>auto simp: inserting_def\<close>)
  from inserting_step [OF 1(2) r this, of i tt] snoc.prems(1)
  obtain q2 s2 N2 where 2: "one_btn_chk_ins (fst i) (snd i) tt (\<exists>q. walk s N root ?xs q, q, s1) =
      Some (\<exists>q. walk s N root (?xs @ [node_symbol i]) q, q2, s2)"
    "inserting I s N root (?xs @ [node_symbol i]) (\<exists>q. walk s N root (?xs @ [node_symbol i]) q) q2 s2 N2" by auto
  then show ?case using 1(1) by (auto simp: fold_items_append)
qed

text \<open>Changes that keep a trie.\<close>

lemma instr_ok:
  assumes "trie_ok s N" "\<And>r. i' r mod 4 = tn_instr s r mod 4"
  shows "trie_ok (s\<lparr>tn_instr := i'\<rparr>) N"
proof -
  obtain B where B: "trie_rep s N B" using assms(1) by (auto simp: trie_ok_def)
  have "cp_ok i' qs = cp_ok (tn_instr s) qs" for qs using assms(2) by (simp add: cp_ok_def)
  then have "kids_rep (s\<lparr>tn_instr := i'\<rparr>) p bs = kids_rep s p bs" for p bs
    by (simp add: kids_rep_def table_of_def IsHashHeader_def buckets_ok_def hashed_right_def)
  moreover have "table_of (s\<lparr>tn_instr := i'\<rparr>) p = table_of s p" for p by (simp add: table_of_def IsHashHeader_def)
  ultimately have "trie_rep (s\<lparr>tn_instr := i'\<rparr>) N B"
    using B unfolding trie_rep_def by (simp add: IsTrieRoot_def IsLeafNode_def)
  then show ?thesis by (auto simp: trie_ok_def)
qed

lemma leaf_ok:
  assumes "trie_ok s N" "q \<in> N" "\<not> IsTrieRoot s q" "\<not> IsLeafNode s q" "tn_child s q = 0"
  shows "trie_ok (MakeLeafNode q s) N" and "IsLeafNode (MakeLeafNode q s) q" and "\<not> IsTrieRoot (MakeLeafNode q s) q"
proof -
  let ?s = "MakeLeafNode q s"
  obtain B where B: "trie_rep s N B" using assms(1) by (auto simp: trie_ok_def)
  have q: "tn_node_type s q = 0 \<or> tn_node_type s q = 1"
    using trie_repD(3) [OF B assms(2)] assms(3,4) by (auto simp: IsTrieRoot_def IsLeafNode_def TRIE_ROOT_NT_def node_types_def)
  have T: "tn_node_type ?s r = (if r = q then tn_node_type s q OR 2 else tn_node_type s r)" for r by (simp add: MakeLeafNode_def)
  have root: "IsTrieRoot ?s r = IsTrieRoot s r" for r using q assms(3) T [of r] by (auto simp: IsTrieRoot_def TRIE_ROOT_NT_def)
  have leaf: "IsLeafNode ?s r = (r = q \<or> IsLeafNode s r)" for r using q T [of r] by (auto simp: IsLeafNode_def)
  have head: "IsHashHeader ?s r = IsHashHeader s r" for r using q T [of r] by (auto simp: IsHashHeader_def HASH_HEADER_NT_def)
  have f: "tn_child ?s = tn_child s" "tn_symbol ?s = tn_symbol s" "tn_parent ?s = tn_parent s" "tn_sibling ?s = tn_sibling s"
    "tn_instr ?s = tn_instr s" "ht_buckets ?s = ht_buckets s" "ht_contents ?s = ht_contents s" "tn_next ?s = tn_next s"
    by (simp_all add: MakeLeafNode_def)
  have kids: "kids_rep ?s p bs = kids_rep s p bs" and tab: "table_of ?s p = table_of s p" for p bs
    by (simp_all add: kids_rep_def table_of_def head buckets_ok_def hashed_right_def f)
  have "\<not> table_of s q" using assms(5) by (simp add: table_of_def)
  then have Bq: "concat (B q) = []"
    using trie_repD(6) [OF B assms(2,4)] assms(5) by (auto simp: kids_rep_def elim!: slist.elims)
  have nt: "tn_node_type ?s r \<in> node_types" if "r \<in> N" for r
    using trie_repD(3) [OF B that] q T [of r] by (auto simp: node_types_def)
  have "trie_rep ?s N B"
    unfolding trie_rep_def f root leaf kids tab
  proof (intro conjI ballI impI)
    fix r assume r: "r \<in> N"
    note D = trie_repD [OF B r]
    show "0 < r" "r < tn_next s" "distinct (map (tn_symbol s) (concat (B r)))" using D by auto
    show "tn_node_type ?s r \<in> node_types" by (rule nt [OF r])
    show "t \<in> N" "tn_parent s t = r" "\<not> IsTrieRoot s t" if "t \<in> set (concat (B r))" for t using D(5) [OF that] by auto
    show "if r = q \<or> IsLeafNode s r then concat (B r) = [] else kids_rep s r (B r) \<and> (table_of s r \<longrightarrow> tn_child s r < tn_next s)"
      using D Bq by auto
    show "IsTrieRoot s r \<or> tn_parent s r \<in> N \<and> r \<in> set (concat (B (tn_parent s r)))" by (rule D(9))
  next
    fix r t assume "r \<in> N" "t \<in> N" "\<not> (r = q \<or> IsLeafNode s r)" "\<not> (t = q \<or> IsLeafNode s t)" "table_of s r" "tn_child s r = tn_child s t"
    then show "r = t" using trie_repD(10) [OF B] by blast
  qed (use B in \<open>simp add: trie_rep_def\<close>)
  then show "trie_ok ?s N" by (auto simp: trie_ok_def)
  show "IsLeafNode ?s q" "\<not> IsTrieRoot ?s q" using leaf root assms(3) by auto
qed


lemma walk_cong:
  assumes "\<And>r. IsTrieRoot s' r = IsTrieRoot s r" "tn_symbol s' = tn_symbol s" "tn_parent s' = tn_parent s"
  shows "walk s' N p xs q = walk s N p xs q"
proof (induction xs arbitrary: p)
  case (Cons x xs)
  have "has_child s' N p x r = has_child s N p x r" for r using assms by (simp add: has_child_def)
  then show ?case using Cons by simp
qed simp

definition leaf_added :: "(word64 \<Rightarrow> bool) \<Rightarrow> tries \<Rightarrow> nat set \<Rightarrow> nat \<Rightarrow> word64 list set \<Rightarrow> word64 list \<Rightarrow> nat \<Rightarrow> tries \<Rightarrow> nat set \<Rightarrow> bool" where
  "leaf_added I s N root L l q s' N' \<longleftrightarrow> (kinds_ok I s N \<longrightarrow> kinds_ok I s' N') \<and> stores s' N' root (insert l L) \<and> N \<subseteq> N' \<and> walk s' N' root l q \<and> IsLeafNode s' q \<and>
     tn_grow s' = tn_grow s \<and> (if l \<in> L then s' = s \<and> N' = N else q \<notin> N) \<and>
     (\<forall>ys r. walk s N root ys r \<longrightarrow> walk s' N' root ys r \<and> IsLeafNode s' r = IsLeafNode s r)"

lemma stores_insert:
  assumes S: "stores s N root L" and ok: "\<forall>i \<in> set is. item_ok I i" and l: "l = map node_symbol is" "l \<noteq> []"
    and pre: "\<And>k. k \<in> L \<Longrightarrow> prefix k l \<or> prefix l k \<Longrightarrow> k = l"
  shows "\<exists>q s1. fold_items tt is (True, root, s) = Some (l \<in> L, q, s1) \<and>
    (\<forall>i'. (\<forall>r. i' r = tn_instr s1 r \<or> r = q \<and> i' r = tn_instr s1 r + 4) \<longrightarrow>
       (\<exists>N'. leaf_added I s N root L l q (if l \<in> L then s1 else (MakeLeafNode q s1)\<lparr>tn_instr := i'\<rparr>) N'))"
proof -
  have S': "trie_ok s N" "root \<in> N" "IsTrieRoot s root" using S by (simp_all add: stores_def)
  have "\<not> strict_prefix k l" if "k \<in> L" for k using pre [OF that] by (auto simp: strict_prefix_def)
  from inserting_fold [OF S ok this [unfolded l(1)], of tt] obtain q s1 N1 where
    1: "fold_items tt is (True, root, s) = Some (\<exists>q. walk s N root l q, q, s1)" "inserting I s N root l (\<exists>q. walk s N root l q) q s1 N1"
    unfolding l(1) [symmetric] by blast
  have has: "(\<exists>q. walk s N root l q) \<longleftrightarrow> l \<in> L"
  proof
    assume "\<exists>q. walk s N root l q"
    then obtain k where "k \<in> L" "prefix l k" using S l(2) unfolding stores_def by blast
    then show "l \<in> L" using pre [of k] by blast
  qed (use S in \<open>auto simp: stores_def\<close>)
  show ?thesis
  proof (cases "l \<in> L")
    case True
    then have "s1 = s" "N1 = N" "walk s N root l q" using 1(2) has by (auto simp: inserting_def)
    moreover obtain t where "walk s N root l t" "IsLeafNode s t" using S True by (auto simp: stores_def)
    ultimately have "leaf_added I s N root L l q s1 N1"
      using S True walk_unique [OF S'(1,2)] by (auto simp: leaf_added_def insert_absorb)
    then show ?thesis using 1(1) has True by auto
  next
    case False
    note ins = 1(2) [unfolded inserting_def has if_not_P [OF False]]
    have I': "trie_ok s1 N1" "N \<subseteq> N1" "q \<in> N1" "walk s1 N1 root l q" "IsTrieRoot s1 root" "tn_grow s1 = tn_grow s"
      "\<And>r. r \<in> N \<Longrightarrow> IsLeafNode s1 r = IsLeafNode s r" "\<And>r. r \<in> N1 - N \<Longrightarrow> \<not> IsLeafNode s1 r" "tn_child s1 q = 0" "q \<notin> N"
      "\<And>ys t. walk s1 N1 root ys t \<longleftrightarrow> walk s N root ys t \<or> t \<notin> N \<and> prefix ys l \<and> walk s1 N1 root ys t"
      "kinds_ok I s N \<longrightarrow> kinds_ok I s1 N1"
      using ins by blast+
    have qr: "\<not> IsTrieRoot s1 q" using I'(4) l(2) by (cases l rule: rev_cases) (auto simp: walk_snoc has_child_def)
    have ql: "\<not> IsLeafNode s1 q" using I'(3,8,10) by blast
    note M = leaf_ok [OF I'(1,3) qr ql I'(9)]
    have st: "leaf_added I s N root L l q ((MakeLeafNode q s1)\<lparr>tn_instr := i'\<rparr>) N1" if i': "\<forall>r. i' r = tn_instr s1 r \<or> r = q \<and> i' r = tn_instr s1 r + 4" for i'
    proof -
      let ?s = "(MakeLeafNode q s1)\<lparr>tn_instr := i'\<rparr>"
      have ok': "trie_ok ?s N1" by (rule instr_ok [OF M(1)]) (use i' in \<open>auto simp: MakeLeafNode_def; metis mod_add_self2\<close>)
      have R: "IsTrieRoot ?s r = IsTrieRoot s1 r" for r using M(3) qr by (cases "r = q") (auto simp: IsTrieRoot_def MakeLeafNode_def)
      have Lf: "IsLeafNode ?s r = (r = q \<or> IsLeafNode s1 r)" for r using M(2) by (cases "r = q") (auto simp: IsLeafNode_def MakeLeafNode_def)
      have W: "walk ?s N1 root ys t = walk s1 N1 root ys t" for ys t by (rule walk_cong) (simp_all add: R, simp_all add: MakeLeafNode_def)
      have "stores ?s N1 root (insert l L)"
        unfolding stores_def R Lf W
      proof (intro conjI allI impI ballI)
        show "trie_ok ?s N1" "root \<in> N1" "IsTrieRoot s1 root" using ok' I' S'(2) by auto
        fix xs t assume w: "walk s1 N1 root xs t"
        show "xs = [] \<or> (\<exists>k \<in> insert l L. prefix xs k)"
          using w I'(11) [of xs t] S by (auto simp: stores_def)
        assume "t = q \<or> IsLeafNode s1 t"
        then show "xs \<in> insert l L"
        proof
          assume "t = q"
          then show ?thesis using walk_path_unique [OF I'(5) w] I'(4) by simp
        next
          assume lf: "IsLeafNode s1 t"
          then have "t \<in> N" using walk_in [OF w] I'(2,8) S'(2) by blast
          then show ?thesis using w lf I'(7) I'(11) [of xs t] S by (auto simp: stores_def)
        qed
      next
        fix k assume "k \<in> insert l L"
        then show "\<exists>t. walk s1 N1 root k t \<and> (t = q \<or> IsLeafNode s1 t)"
        proof
          assume "k = l" then show ?thesis using I'(4) by blast
        next
          assume "k \<in> L"
          then obtain t where t: "walk s N root k t" "IsLeafNode s t" using S by (auto simp: stores_def)
          moreover have "t \<in> N" using walk_in [OF t(1) S'(2)] .
          ultimately show ?thesis using I'(7) I'(11) [of k t] by blast
        qed
      qed
      moreover have "kinds_ok I ?s N1" if "kinds_ok I s1 N1"
        unfolding kinds_ok_def R Lf
      proof (intro ballI impI)
        fix r assume r: "r \<in> N1" "\<not> IsTrieRoot s1 r" "cell_tag (tn_symbol ?s r) = XSB_STRUCT"
        have "(tn_instr s1 r + 4) div 4 = tn_instr s1 r div 4 + 1" by simp
        then show "let k = if I (tn_symbol ?s r) then 28 else 24
          in tn_instr ?s r div 4 = k \<or> (r = q \<or> IsLeafNode s1 r) \<and> tn_instr ?s r div 4 = k + 1"
          using that r ql i' [rule_format, of r] by (auto simp: kinds_ok_def MakeLeafNode_def Let_def)
      qed
      moreover have "tn_grow ?s = tn_grow s" using I'(6) by (simp add: MakeLeafNode_def)
      moreover have "walk s1 N1 root ys r \<and> (r = q \<or> IsLeafNode s1 r) = IsLeafNode s r" if w: "walk s N root ys r" for ys r
      proof -
        have "r \<in> N" by (rule walk_in [OF w S'(2)])
        then show ?thesis using w I'(7) [of r] I'(10) I'(11) [of ys r] by auto
      qed
      ultimately show ?thesis using I' False unfolding leaf_added_def W Lf by auto
    qed
    then show ?thesis using 1(1) has False by auto
  qed
qed

text \<open>A trie with its root only.\<close>

lemma empty_trie_stores:
  assumes "0 < root" "root < tn_next s" "IsTrieRoot s root" "tn_child s root = 0"
  shows "stores s {root} root {}"
proof -
  have nl: "\<not> IsLeafNode s root" using assms(3) by (simp add: IsTrieRoot_def IsLeafNode_def TRIE_ROOT_NT_def)
  have "trie_rep s {root} (\<lambda>r. [[]])"
    using assms nl by (auto simp: trie_rep_def kids_rep_def table_of_def IsTrieRoot_def TRIE_ROOT_NT_def node_types_def)
  then have "trie_ok s {root}" by (auto simp: trie_ok_def)
  moreover have "walk s {root} root xs q \<Longrightarrow> xs = [] \<and> q = root" for xs q
    using assms(3) by (cases xs rule: rev_cases) (auto simp: walk_snoc has_child_def)
  ultimately show ?thesis using assms nl by (auto simp: stores_def)
qed

section \<open>Properties\<close>

text \<open>C18: below a node that is no leaf, the child of a symbol is found, and then nothing changes, or it
  is added, in a chain, in a hash table, or while the chain becomes a table or the table is
  expanded: the children hold distinct symbols before and after, hashed to the right buckets,
  the instructions of a chain try one child after the other, and no other node gets another
  symbol, parent, child or kind of instruction.\<close>

theorem chk_ins_finds_or_adds:
  assumes "trie_ok s N" "p \<in> N" "\<not> IsLeafNode s p" "symbol_ok item" "f \<or> tn_child s p = 0"
  shows "\<exists>q s' N'. one_btn_chk_ins item intrn tt (f, p, s) =
      Some (\<exists>r. has_child s N p (node_symbol (item, intrn)) r, q, s') \<and>
    adds_child s N p (node_symbol (item, intrn)) (instr_kind item intrn tt) s' N' q"
proof -
  obtain B where "trie_rep s N B" using assms(1) by (auto simp: trie_ok_def)
  then show ?thesis by (rule chk_ins_rep [OF _ assms(2-5)]) (simp add: node_symbol_def)
qed

section \<open>Instances\<close>

text \<open>A trie of the root 1 alone.\<close>

definition demo_tries :: tries where
  "demo_tries = \<lparr>tn_instr = (\<lambda>_. 0)(1 := trie_root), tn_status = (\<lambda>_. 0), tn_trie_type = (\<lambda>_. ASSERT_TRIE_TT),
     tn_node_type = (\<lambda>_. 0)(1 := TRIE_ROOT_NT), tn_symbol = (\<lambda>_. 0), tn_parent = (\<lambda>_. 0), tn_child = (\<lambda>_. 0),
     tn_sibling = (\<lambda>_. 0), ht_contents = (\<lambda>_. 0), ht_buckets = (\<lambda>_. []), tn_next = 2, tn_grow = (\<lambda>_. True)\<rparr>"

lemma demo_tries_stores: "stores demo_tries {1} 1 {}"
  using empty_trie_stores [of 1 demo_tries] by (simp add: demo_tries_def IsTrieRoot_def)

theorem chk_ins_finds_or_adds_witness:
  "\<exists>q s' N'. one_btn_chk_ins (makestring 64) 0 ASSERT_TRIE_TT (True, 1, demo_tries) = Some (False, q, s') \<and>
    adds_child demo_tries {1} 1 (makestring 64) 28 s' N' q"
proof -
  have "trie_ok demo_tries {1}" using demo_tries_stores by (simp add: stores_def)
  moreover have "\<not> IsLeafNode demo_tries 1" by (simp add: demo_tries_def IsLeafNode_def TRIE_ROOT_NT_def)
  moreover have "\<not> has_child demo_tries {1} 1 sy r" for sy r by (auto simp: has_child_def demo_tries_def)
  moreover have "symbol_ok (makestring 64)" by code_simp
  moreover have kind: "instr_kind (makestring 64) 0 ASSERT_TRIE_TT = 28" by code_simp
  ultimately show ?thesis
    using chk_ins_finds_or_adds [of demo_tries "{1}" 1 "makestring 64" True 0 ASSERT_TRIE_TT] kind by (simp add: node_symbol_def)
qed

end
