(* ===== verification/Trie_Insert.thy ===== *)
theory Trie_Insert imports Trie_Paths Engine begin

text \<open>
  Inserting terms into a trie (\<open>recvariant_trie_no_ans_subsf\<close> and \<open>trie_assert_chk_ins\<close> of
  \<open>tries.c\<close>, with the variable enumerator of \<open>trie_internals.h\<close>): the arguments of a term are
  walked left to right, each symbol is looked up below the node of the one before it and added
  where it is missing, and the variables met are bound to the cells of an array so that a later
  occurrence is recognised by its address.

  The terms live in the memory of the emulator and the trie in its own store. An address of
  that memory counts cells of eight bytes; strings and predicate symbols are numbered, and
  number \<open>n\<close> is taken to lie at byte address \<open>8 * n\<close>. The push-down list is unbounded here.
  The result \<open>None\<close> is the exception for a bad tag, a reference chain that does not end, or a
  term that does not.
\<close>

section \<open>Symbols of cells\<close>

definition addr_word :: "iaddr \<Rightarrow> word64" where
  "addr_word a = word_of_int (8 * a)"

definition EncodeTriePSC :: "nat \<Rightarrow> word64" where
  "EncodeTriePSC p = makecs (addr_word (int p))"

text \<open>The word of a cell: \<open>EncodeTrieConstant\<close> is the cell itself.\<close>

fun cell_word :: "cell \<Rightarrow> word64" where
  "cell_word (CInt i) = makeint (word_of_int i)"
| "cell_word (CStr n) = makestring (addr_word (int n))"
| "cell_word (CFlt w) = w"
| "cell_word (CStruct a) = makecs (addr_word a)"
| "cell_word (CList a) = makelist (addr_word a)"
| "cell_word (CAttv a) = makeattv (addr_word a)"
| "cell_word (Ref a) = addr_word a"
| "cell_word (CPsc p) = addr_word (int p)"
| "cell_word (CCode a) = addr_word a"
| "cell_word (CEnv a) = addr_word a"

fun tag_of :: "cell \<Rightarrow> word64" where
  "tag_of (CInt _) = XSB_INT"
| "tag_of (CStr _) = XSB_STRING"
| "tag_of (CFlt _) = XSB_FLOAT"
| "tag_of (CStruct _) = XSB_STRUCT"
| "tag_of (CList _) = XSB_LIST"
| "tag_of (CAttv _) = XSB_ATTV"
| "tag_of _ = XSB_FREE"

section \<open>The state of an insertion\<close>

text \<open>
  The memory, the trie, the flag, the parent and the tag of the loop, the counters, the
  push-down list, and the variable enumerator: its address, its size, the trail of the
  variables bound to it (oldest first) and the addresses a larger one is allocated at.
\<close>

record tins =
  ti_wam :: wam
  ti_tries :: tries
  ti_flag :: bool
  ti_paren :: nat
  ti_tag :: word64
  ti_ctr :: nat
  ti_attv_ctr :: nat
  ti_pdl :: "cell list"
  VarEnumerator :: iaddr
  current_num_trievars :: nat
  VarEnumerator_trail :: "iaddr list"
  ti_alloc :: "nat \<Rightarrow> iaddr"

definition DEFAULT_NUM_TRIEVARS :: nat where "DEFAULT_NUM_TRIEVARS = 512"

definition free_cells :: "iaddr \<Rightarrow> nat \<Rightarrow> wam \<Rightarrow> wam" where
  "free_cells a n s = fold (\<lambda>i. bld_free (a + int i)) [0..<n] s"

definition init_trie_aux_areas :: "tins \<Rightarrow> tins" where
  "init_trie_aux_areas st =
     (let a = ti_alloc st DEFAULT_NUM_TRIEVARS
      in st\<lparr>current_num_trievars := DEFAULT_NUM_TRIEVARS, VarEnumerator := a,
            ti_wam := free_cells a DEFAULT_NUM_TRIEVARS (ti_wam st), ti_pdl := []\<rparr>)"

definition expand_varenumerators :: "tins \<Rightarrow> tins" where
  "expand_varenumerators st =
     (let n = 2 * current_num_trievars st; a = ti_alloc st n
      in st\<lparr>current_num_trievars := n, VarEnumerator := a,
            ti_wam := free_cells a n (ti_wam st)\<rparr>)"

definition StandardizeVariable :: "iaddr \<Rightarrow> tins \<Rightarrow> tins" where
  "StandardizeVariable a st =
     (let st1 = (if ti_ctr st < current_num_trievars st then st else expand_varenumerators st)
      in st1\<lparr>ti_wam := bld a (mem (ti_wam st1) (VarEnumerator st1 + int (ti_ctr st))) (ti_wam st1)\<rparr>)"

definition StandardizeAndTrailVariable :: "iaddr \<Rightarrow> tins \<Rightarrow> tins" where
  "StandardizeAndTrailVariable a st =
     (let st1 = StandardizeVariable a st in st1\<lparr>VarEnumerator_trail := VarEnumerator_trail st1 @ [a]\<rparr>)"

definition IsStandardizedVariable :: "tins \<Rightarrow> iaddr \<Rightarrow> bool" where
  "IsStandardizedVariable st a \<longleftrightarrow> VarEnumerator st \<le> a \<and> a \<le> VarEnumerator st + int (current_num_trievars st) - 1"

definition IndexOfStdVar :: "tins \<Rightarrow> iaddr \<Rightarrow> nat" where
  "IndexOfStdVar st a = nat (a - VarEnumerator st)"

definition undo_answer_bindings :: "tins \<Rightarrow> tins" where
  "undo_answer_bindings st =
     st\<lparr>ti_wam := fold bld_free (rev (VarEnumerator_trail st)) (ti_wam st), VarEnumerator_trail := []\<rparr>"

definition pdlpush :: "cell \<Rightarrow> tins \<Rightarrow> tins" where
  "pdlpush c st = st\<lparr>ti_pdl := c # ti_pdl st\<rparr>"

section \<open>Inserting the symbols of a term\<close>

definition ins_symbol :: "nat \<Rightarrow> word64 \<Rightarrow> word64 \<Rightarrow> tins \<Rightarrow> tins option" where
  "ins_symbol tt item intrn st =
     map_option (\<lambda>(f, p, s). st\<lparr>ti_flag := f, ti_paren := p, ti_tries := s\<rparr>)
       (one_btn_chk_ins item intrn tt (ti_flag st, ti_paren st, ti_tries st))"

definition ins_variable :: "nat \<Rightarrow> iaddr \<Rightarrow> tins \<Rightarrow> tins option" where
  "ins_variable tt a st =
     (if \<not> IsStandardizedVariable st a
      then map_option (\<lambda>st1. st1\<lparr>ti_ctr := ti_ctr st1 + 1\<rparr>)
             (ins_symbol tt (EncodeNewTrieVar (ti_ctr st)) 0 (StandardizeAndTrailVariable a st))
      else ins_symbol tt (EncodeTrieVar (IndexOfStdVar st a)) 0 st)"

text \<open>The attribute is pushed after its variable was bound.\<close>

definition ins_attv :: "nat \<Rightarrow> iaddr \<Rightarrow> tins \<Rightarrow> tins option" where
  "ins_attv tt a st =
     map_option (\<lambda>st1. pdlpush (mem (ti_wam st1) (a + 1)) (st1\<lparr>ti_attv_ctr := ti_attv_ctr st1 + 1, ti_ctr := ti_ctr st1 + 1\<rparr>))
       (ins_symbol tt (EncodeNewTrieAttv (ti_ctr st)) 0 (StandardizeAndTrailVariable a st))"

definition push_list :: "iaddr \<Rightarrow> tins \<Rightarrow> tins" where
  "push_list a st = pdlpush (mem (ti_wam st) a) (pdlpush (mem (ti_wam st) (a + 1)) st)"

definition push_args :: "iaddr \<Rightarrow> nat \<Rightarrow> tins \<Rightarrow> tins" where
  "push_args a n st = fold (\<lambda>j. pdlpush (mem (ti_wam st) (a + int j))) (rev [1..<Suc n]) st"

text \<open>
  The body of \<open>recvariant_trie_no_ans_subsf\<close> for a dereferenced cell, and the same switch at
  the arguments of the term, where a list or a structure is never taken for an interned one.
\<close>

definition ins_cell :: "bool \<Rightarrow> nat \<Rightarrow> cell \<Rightarrow> tins \<Rightarrow> tins option" where
  "ins_cell topmost tt c st0 =
     (let st = st0\<lparr>ti_tag := tag_of c\<rparr>; w = ti_wam st; interned = (\<not> topmost \<and> isinternstr w c) in
      case c of
        Ref a \<Rightarrow> ins_variable tt a st
      | CInt _ \<Rightarrow> ins_symbol tt (cell_word c) 0 st
      | CStr _ \<Rightarrow> ins_symbol tt (cell_word c) 0 st
      | CFlt _ \<Rightarrow> ins_symbol tt (cell_word c) 0 st
      | CList a \<Rightarrow>
          if interned then ins_symbol tt EncodeTrieList (cell_word c) st
          else map_option (push_list a) (ins_symbol tt EncodeTrieList 0 st)
      | CStruct a \<Rightarrow>
          (case get_str_psc (mem w) c of
             CPsc p \<Rightarrow>
               if interned then ins_symbol tt (EncodeTriePSC p) (cell_word c) st
               else map_option (push_args a (psc_arity (wenv w) p)) (ins_symbol tt (EncodeTriePSC p) 0 st)
           | _ \<Rightarrow> None)
      | CAttv a \<Rightarrow> ins_attv tt a st
      | _ \<Rightarrow> None)"

partial_function (option) recvariant_trie_no_ans_subsf :: "nat \<Rightarrow> tins \<Rightarrow> tins option" where
  "recvariant_trie_no_ans_subsf tt st =
     (case ti_pdl st of
        [] \<Rightarrow> Some st
      | c # cs \<Rightarrow>
          (case deref (mem (ti_wam st)) c of
             None \<Rightarrow> None
           | Some d \<Rightarrow>
               (case ins_cell False tt d (st\<lparr>ti_pdl := cs\<rparr>) of
                  None \<Rightarrow> None
                | Some st1 \<Rightarrow> recvariant_trie_no_ans_subsf tt st1)))"

definition compound_cell :: "cell \<Rightarrow> bool" where
  "compound_cell c \<longleftrightarrow> islist c \<or> isconstr c \<or> isattv c"

fun trie_assert_args :: "iaddr \<Rightarrow> nat list \<Rightarrow> tins \<Rightarrow> tins option" where
  "trie_assert_args cptr [] st = Some st"
| "trie_assert_args cptr (i # is) st =
     (case deref (mem (ti_wam st)) (Ref (cptr + int i)) of
        None \<Rightarrow> None
      | Some d \<Rightarrow>
          (case Option.bind (ins_cell True ASSERT_TRIE_TT d st)
                  (if compound_cell d then recvariant_trie_no_ans_subsf ASSERT_TRIE_TT else Some) of
             None \<Rightarrow> None
           | Some st1 \<Rightarrow> trie_assert_args cptr is st1))"

text \<open>The maintenance of a new leaf.\<close>

definition new_leaf :: "tins \<Rightarrow> tins" where
  "new_leaf st =
     (if ti_flag st then st
      else st\<lparr>ti_tries := TN_UpgradeInstrTypeToSUCCESS (ti_paren st) (ti_tag st) (MakeLeafNode (ti_paren st) (ti_tries st))\<rparr>)"

definition trie_assert_chk_ins :: "iaddr \<Rightarrow> nat \<Rightarrow> nat \<Rightarrow> tins \<Rightarrow> tins option" where
  "trie_assert_chk_ins cptr arity root st =
     (case trie_assert_args cptr [1..<Suc arity]
             (st\<lparr>ti_paren := root, ti_flag := True, ti_tag := XSB_FREE, ti_ctr := 0, ti_attv_ctr := 0,
                 VarEnumerator_trail := []\<rparr>) of
        None \<Rightarrow> None
      | Some st1 \<Rightarrow>
          (let st2 = undo_answer_bindings (st1\<lparr>ti_pdl := []\<rparr>) in
           map_option new_leaf
             (if arity = 0
              then map_option (\<lambda>st3. st3\<lparr>ti_tries := (ti_tries st3)\<lparr>tn_instr := (tn_instr (ti_tries st3))(ti_paren st3 := trie_proceed)\<rparr>\<rparr>)
                     (ins_symbol ASSERT_TRIE_TT ESCAPE_NODE_SYMBOL 0 st2)
              else Some st2)))"


section \<open>Dereferencing through the variable enumerator\<close>

text \<open>Binding a free cell to another one.\<close>

lemma deref_ref_bind:
  assumes "deref_ref m c = Some v" and ab: "m a = Ref a" "m b = Ref b" "a \<noteq> b"
  shows "deref_ref (m(a := Ref b)) c = Some (if v = Ref a then Ref b else v)"
proof -
  have b: "deref_ref (m(a := Ref b)) (Ref b) = Some (Ref b)" using ab by (subst deref_ref.simps) simp
  have "m a = Ref a \<longrightarrow> m b = Ref b \<longrightarrow> deref_ref (m(a := Ref b)) (Ref b) = Some (Ref b) \<longrightarrow>
      deref_ref (m(a := Ref b)) c = Some (if v = Ref a then Ref b else v)"
  proof (rule deref_ref.raw_induct [where P = "\<lambda>m c v. m a = Ref a \<longrightarrow> m b = Ref b \<longrightarrow> deref_ref (m(a := Ref b)) (Ref b) = Some (Ref b) \<longrightarrow>
      deref_ref (m(a := Ref b)) c = Some (if v = Ref a then Ref b else v)", OF _ assms(1)], intro impI)
    fix f m c v
    assume IH: "\<And>m c v. f m c = Some v \<Longrightarrow> m a = Ref a \<longrightarrow> m b = Ref b \<longrightarrow> deref_ref (m(a := Ref b)) (Ref b) = Some (Ref b) \<longrightarrow>
          deref_ref (m(a := Ref b)) c = Some (if v = Ref a then Ref b else v)"
      and eq: "(case c of Ref a \<Rightarrow> if m a = c then Some c else f m (m a) | _ \<Rightarrow> Some c) = Some v"
      and m: "m a = Ref a" "m b = Ref b" and b: "deref_ref (m(a := Ref b)) (Ref b) = Some (Ref b)"
    show "deref_ref (m(a := Ref b)) c = Some (if v = Ref a then Ref b else v)"
    proof (cases c)
      case (Ref x)
      show ?thesis
      proof (cases "x = a")
        case True
        have "deref_ref (m(a := Ref b)) c = deref_ref (m(a := Ref b)) (Ref b)"
          using Ref True ab by (subst deref_ref.simps) simp
        then show ?thesis using b eq Ref True m by simp
      next
        case False
        then show ?thesis using eq Ref IH [of m "m x" v] m b by (subst deref_ref.simps) (auto split: if_splits)
      qed
    qed (use eq in \<open>auto simp: deref_ref.simps\<close>)
  qed
  then show ?thesis using ab b by blast
qed

lemma deref_attv_bind:
  assumes "deref_attv m c = Some v" and ab: "m a = Ref a" "m b = Ref b" "a \<noteq> b"
  shows "deref_attv (m(a := Ref b)) (if c = Ref a then Ref b else c) = Some (if v = Ref a \<or> v = CAttv a then Ref b else v)"
proof -
  have "m a = Ref a \<longrightarrow> m b = Ref b \<longrightarrow>
      deref_attv (m(a := Ref b)) (if c = Ref a then Ref b else c) = Some (if v = Ref a \<or> v = CAttv a then Ref b else v)"
  proof (rule deref_attv.raw_induct [where P = "\<lambda>m c v. m a = Ref a \<longrightarrow> m b = Ref b \<longrightarrow>
      deref_attv (m(a := Ref b)) (if c = Ref a then Ref b else c) = Some (if v = Ref a \<or> v = CAttv a then Ref b else v)", OF _ assms(1)], intro impI)
    fix f m c v
    assume IH: "\<And>m c v. f m c = Some v \<Longrightarrow> m a = Ref a \<longrightarrow> m b = Ref b \<longrightarrow>
          deref_attv (m(a := Ref b)) (if c = Ref a then Ref b else c) = Some (if v = Ref a \<or> v = CAttv a then Ref b else v)"
      and eq: "(case c of CAttv a \<Rightarrow> if m a = Ref a then Some c else Option.bind (deref_ref m (m a)) (f m) | _ \<Rightarrow> Some c) = Some v"
      and m: "m a = Ref a" "m b = Ref b"
    show "deref_attv (m(a := Ref b)) (if c = Ref a then Ref b else c) = Some (if v = Ref a \<or> v = CAttv a then Ref b else v)"
    proof (cases c)
      case (CAttv x)
      have one: "deref_ref (m(a := Ref b)) ((m(a := Ref b)) a) = Some (Ref b)" using m ab by (subst deref_ref.simps) simp
      show ?thesis
      proof (cases "m x = Ref x")
        case True
        then show ?thesis
          using eq CAttv one ab by (cases "x = a") (auto simp: deref_attv_other deref_attv.simps [of _ "CAttv _"])
      next
        case False
        then obtain w where w: "deref_ref m (m x) = Some w" "f m w = Some v"
          using eq CAttv by (auto split: bind_splits)
        have "x \<noteq> a" using False m by auto
        then show ?thesis
          using CAttv False IH [OF w(2)] m deref_ref_bind [OF w(1) m ab(3)] by (subst deref_attv.simps) auto
      qed
    qed (use eq in \<open>auto simp: deref_attv_other\<close>)
  qed
  then show ?thesis using ab by blast
qed

lemma deref_bind:
  assumes "deref m c = Some v" "m a = Ref a" "m b = Ref b" "a \<noteq> b"
  shows "deref (m(a := Ref b)) c = Some (if v = Ref a \<or> v = CAttv a then Ref b else v)"
proof -
  obtain w where "deref_ref m c = Some w" "deref_attv m w = Some v"
    using assms(1) by (auto simp: deref_def split: bind_splits)
  then show ?thesis using deref_ref_bind [OF _ assms(2-4)] deref_attv_bind [OF _ assms(2-4)] by (simp add: deref_def)
qed


text \<open>The memory once the variables \<open>vs\<close> are bound to the enumerator at \<open>ve\<close>.\<close>

definition idx :: "'a \<Rightarrow> 'a list \<Rightarrow> nat" where
  "idx x xs = length (takeWhile (\<lambda>y. y \<noteq> x) xs)"

lemma idx_less: "x \<in> set xs \<Longrightarrow> idx x xs < length xs"
  by (induction xs) (auto simp: idx_def)

lemma idx_snoc: "x \<in> set xs \<Longrightarrow> idx x (xs @ ys) = idx x xs" "x \<notin> set xs \<Longrightarrow> idx x (xs @ [x]) = length xs"
  by (induction xs) (auto simp: idx_def)

definition in_enum :: "iaddr \<Rightarrow> nat \<Rightarrow> iaddr \<Rightarrow> bool" where
  "in_enum ve n a \<longleftrightarrow> ve \<le> a \<and> a \<le> ve + int n - 1"

definition enum_mem :: "(iaddr \<Rightarrow> cell) \<Rightarrow> iaddr \<Rightarrow> iaddr list \<Rightarrow> iaddr \<Rightarrow> cell" where
  "enum_mem m ve vs = (\<lambda>x. if x \<in> set vs then Ref (ve + int (idx x vs)) else m x)"

definition enum_val :: "iaddr \<Rightarrow> iaddr list \<Rightarrow> cell \<Rightarrow> cell" where
  "enum_val ve vs v = (if (isref v \<or> isattv v) \<and> cell_ptr v \<in> set vs then Ref (ve + int (idx (cell_ptr v) vs)) else v)"

definition enum_ok :: "(iaddr \<Rightarrow> cell) \<Rightarrow> iaddr \<Rightarrow> nat \<Rightarrow> iaddr list \<Rightarrow> bool" where
  "enum_ok m ve n vs \<longleftrightarrow> distinct vs \<and> length vs \<le> n \<and> (\<forall>a \<in> set vs. m a = Ref a \<and> \<not> in_enum ve n a) \<and>
     (\<forall>i < n. m (ve + int i) = Ref (ve + int i))"

lemma enum_ok_butlast: "enum_ok m ve n (vs @ [a]) \<Longrightarrow> enum_ok m ve n vs"
  by (auto simp: enum_ok_def)

lemma enum_mem_snoc: "a \<notin> set vs \<Longrightarrow> enum_mem m ve (vs @ [a]) = (enum_mem m ve vs)(a := Ref (ve + int (length vs)))"
  by (rule ext) (auto simp: enum_mem_def idx_snoc)

lemma enum_mem_enum: "enum_ok m ve n vs \<Longrightarrow> in_enum ve n x \<Longrightarrow> enum_mem m ve vs x = Ref x"
proof -
  assume ok: "enum_ok m ve n vs" and x: "in_enum ve n x"
  then have "ve + int (nat (x - ve)) = x" "nat (x - ve) < n" by (auto simp: in_enum_def)
  then have "m x = Ref x" using ok unfolding enum_ok_def by metis
  then show ?thesis using ok x by (auto simp: enum_mem_def enum_ok_def)
qed

lemma deref_enum_snoc:
  assumes "enum_ok m ve n (vs @ [a])" "deref (enum_mem m ve vs) c = Some (enum_val ve vs v)"
  shows "deref (enum_mem m ve (vs @ [a])) c = Some (enum_val ve (vs @ [a]) v)"
proof -
  have a: "m a = Ref a" "\<not> in_enum ve n a" "a \<notin> set vs" "length vs < n" using assms(1) by (auto simp: enum_ok_def)
  then have b: "in_enum ve n (ve + int (length vs))" by (simp add: in_enum_def)
  have "enum_mem m ve vs a = Ref a" using a by (simp add: enum_mem_def)
  moreover have "enum_mem m ve vs (ve + int (length vs)) = Ref (ve + int (length vs))"
    by (rule enum_mem_enum [OF enum_ok_butlast [OF assms(1)] b])
  moreover have "a \<noteq> ve + int (length vs)" using a b by auto
  ultimately have "deref (enum_mem m ve (vs @ [a])) c =
      Some (if enum_val ve vs v = Ref a \<or> enum_val ve vs v = CAttv a then Ref (ve + int (length vs)) else enum_val ve vs v)"
    unfolding enum_mem_snoc [OF a(3)] by (rule deref_bind [OF assms(2)])
  moreover have "in_enum ve n (ve + int (idx x vs))" if "x \<in> set vs" for x using idx_less [OF that] a(4) by (simp add: in_enum_def)
  then have "x \<in> set vs \<Longrightarrow> ve + int (idx x vs) \<noteq> a" for x using a(2) by metis
  ultimately show ?thesis
    using a(3) by (cases v) (auto simp: enum_val_def idx_snoc)
qed

lemma deref_enum:
  assumes "enum_ok m ve n vs" "deref m c = Some v"
  shows "deref (enum_mem m ve vs) c = Some (enum_val ve vs v)"
  using assms(1)
proof (induction vs rule: rev_induct)
  case Nil
  then show ?case using assms(2) by (simp add: enum_mem_def enum_val_def)
next
  case (snoc a vs)
  show ?case by (rule deref_enum_snoc [OF snoc.prems snoc.IH [OF enum_ok_butlast [OF snoc.prems]]])
qed

text \<open>A cell read from the changed memory leads where the cell it had leads.\<close>

lemma deref_enum_read:
  assumes ok: "enum_ok m ve n vs" and "deref m (m x) = Some v"
  shows "deref (enum_mem m ve vs) (enum_mem m ve vs x) = Some (enum_val ve vs v)"
proof (cases "x \<in> set vs")
  case True
  have "m x = Ref x" using ok True by (auto simp: enum_ok_def)
  then have "v = Ref x" using assms(2) by (auto simp: deref_def deref_ref.simps deref_attv_other split: bind_splits)
  have b: "in_enum ve n (ve + int (idx x vs))" using idx_less [OF True] ok by (auto simp: in_enum_def enum_ok_def)
  have "deref (enum_mem m ve vs) (Ref (ve + int (idx x vs))) = Some (Ref (ve + int (idx x vs)))"
    using enum_mem_enum [OF ok b] by (simp add: deref_def deref_ref.simps deref_attv_other)
  then show ?thesis using True \<open>v = Ref x\<close> by (simp add: enum_mem_def [of m ve vs] enum_val_def)
next
  case False
  then show ?thesis using deref_enum [OF assms] by (simp add: enum_mem_def)
qed

section \<open>Terms and their symbols\<close>

text \<open>
  Terms as trees. An attributed variable carries its attribute at its first occurrence and is a
  variable at the others; an interned term is a leaf, with its functor unless it is a list.
\<close>

datatype tterm = TVar iaddr | TAttv iaddr tterm | TConst cell | TIntern "nat option" cell | TList tterm tterm | TStr nat "tterm list"

definition functor_symbol :: "nat option \<Rightarrow> word64" where
  "functor_symbol f = (case f of None \<Rightarrow> EncodeTrieList | Some p \<Rightarrow> EncodeTriePSC p)"

datatype tsym = SVar nat | SNew nat | SAttv nat | SConst cell | SIntern "nat option" cell | SList | SFun nat

lemma sum_sizes: "sum_list (map (\<lambda>t. 2 * size t + 1) us) \<le> 2 * size_list size us" for us :: "tterm list"
  by (induction us) auto

text \<open>The symbols of a list of terms after the variables \<open>vs\<close>.\<close>

function symbols :: "iaddr list \<Rightarrow> tterm list \<Rightarrow> tsym list" where
  "symbols vs [] = []"
| "symbols vs (TVar a # ts) =
     (if a \<in> set vs then SVar (idx a vs) # symbols vs ts else SNew (length vs) # symbols (vs @ [a]) ts)"
| "symbols vs (TAttv a t # ts) = SAttv (length vs) # symbols (vs @ [a]) (t # ts)"
| "symbols vs (TConst c # ts) = SConst c # symbols vs ts"
| "symbols vs (TIntern f c # ts) = SIntern f c # symbols vs ts"
| "symbols vs (TList t u # ts) = SList # symbols vs (t # u # ts)"
| "symbols vs (TStr p us # ts) = SFun p # symbols vs (us @ ts)"
  by pat_completeness auto
termination
proof (relation "measure (\<lambda>(vs, ts). sum_list (map (\<lambda>t. 2 * size t + 1) ts))")
  show "((vs, us @ ts), vs, TStr p us # ts) \<in> measure (\<lambda>(vs, ts). sum_list (map (\<lambda>t. 2 * size t + 1) ts))"
    for vs :: "iaddr list" and p us ts using sum_sizes [of us] by simp
qed auto

text \<open>What \<open>one_btn_chk_ins\<close> is given for a symbol.\<close>

fun enc_sym :: "tsym \<Rightarrow> word64 \<times> word64" where
  "enc_sym (SVar i) = (EncodeTrieVar i, 0)"
| "enc_sym (SNew i) = (EncodeNewTrieVar i, 0)"
| "enc_sym (SAttv i) = (EncodeNewTrieAttv i, 0)"
| "enc_sym (SConst c) = (cell_word c, 0)"
| "enc_sym (SIntern f c) = (functor_symbol f, cell_word c)"
| "enc_sym SList = (EncodeTrieList, 0)"
| "enc_sym (SFun p) = (EncodeTriePSC p, 0)"

definition items :: "iaddr list \<Rightarrow> tterm list \<Rightarrow> (word64 \<times> word64) list" where
  "items vs ts = map enc_sym (symbols vs ts)"

lemma items_simps [simp]:
  "items vs [] = []"
  "items vs (TVar a # ts) = (if a \<in> set vs then (EncodeTrieVar (idx a vs), 0) # items vs ts
     else (EncodeNewTrieVar (length vs), 0) # items (vs @ [a]) ts)"
  "items vs (TAttv a t # ts) = (EncodeNewTrieAttv (length vs), 0) # items (vs @ [a]) (t # ts)"
  "items vs (TConst c # ts) = (cell_word c, 0) # items vs ts"
  "items vs (TIntern f c # ts) = (functor_symbol f, cell_word c) # items vs ts"
  "items vs (TList t u # ts) = (EncodeTrieList, 0) # items vs (t # u # ts)"
  "items vs (TStr p us # ts) = (EncodeTriePSC p, 0) # items vs (us @ ts)"
  by (simp_all add: items_def)

text \<open>
  \<open>cells_in s vs cs ts vs'\<close>: the cells \<open>cs\<close> stand for the terms \<open>ts\<close> and the variables met go
  from \<open>vs\<close> to \<open>vs'\<close>. A cell marked \<open>True\<close> is an argument of the term to insert.
\<close>

definition arg_cells :: "(iaddr \<Rightarrow> cell) \<Rightarrow> iaddr \<Rightarrow> nat \<Rightarrow> cell list" where
  "arg_cells m a n = map (\<lambda>j. m (a + int j)) [1..<Suc n]"

inductive cell_in :: "wam \<Rightarrow> iaddr list \<Rightarrow> bool \<times> cell \<Rightarrow> tterm \<Rightarrow> iaddr list \<Rightarrow> bool"
  and cells_in :: "wam \<Rightarrow> iaddr list \<Rightarrow> (bool \<times> cell) list \<Rightarrow> tterm list \<Rightarrow> iaddr list \<Rightarrow> bool" for s where
  ci_nil: "cells_in s vs [] [] vs"
| ci_cons: "cell_in s vs p t vs1 \<Longrightarrow> cells_in s vs1 ps ts vs' \<Longrightarrow> cells_in s vs (p # ps) (t # ts) vs'"
| ci_var: "deref (mem s) c = Some (Ref a) \<Longrightarrow> cell_in s vs (b, c) (TVar a) (if a \<in> set vs then vs else vs @ [a])"
| ci_attv_old: "deref (mem s) c = Some (CAttv a) \<Longrightarrow> a \<in> set vs \<Longrightarrow> cell_in s vs (b, c) (TVar a) vs"
| ci_attv: "deref (mem s) c = Some (CAttv a) \<Longrightarrow> a \<notin> set vs \<Longrightarrow> cells_in s (vs @ [a]) [(False, mem s (a + 1))] [t] vs' \<Longrightarrow>
    cell_in s vs (b, c) (TAttv a t) vs'"
| ci_const: "deref (mem s) c = Some d \<Longrightarrow> isinteger d \<or> isstring d \<or> isfloat d \<Longrightarrow> cell_in s vs (b, c) (TConst d) vs"
| ci_intern_list: "deref (mem s) c = Some (CList a) \<Longrightarrow> isinternstr s (CList a) \<Longrightarrow>
    cell_in s vs (False, c) (TIntern None (CList a)) vs"
| ci_intern_str: "deref (mem s) c = Some (CStruct a) \<Longrightarrow> isinternstr s (CStruct a) \<Longrightarrow> mem s a = CPsc p \<Longrightarrow>
    cell_in s vs (False, c) (TIntern (Some p) (CStruct a)) vs"
| ci_list: "deref (mem s) c = Some (CList a) \<Longrightarrow> b \<or> \<not> isinternstr s (CList a) \<Longrightarrow>
    cells_in s vs [(False, mem s a), (False, mem s (a + 1))] [t, u] vs' \<Longrightarrow> cell_in s vs (b, c) (TList t u) vs'"
| ci_str: "deref (mem s) c = Some (CStruct a) \<Longrightarrow> mem s a = CPsc p \<Longrightarrow> b \<or> \<not> isinternstr s (CStruct a) \<Longrightarrow>
    cells_in s vs (map (Pair False) (arg_cells (mem s) a (psc_arity (wenv s) p))) us vs' \<Longrightarrow>
    cell_in s vs (b, c) (TStr p us) vs'"

inductive_simps cells_in_Nil_iff [simp]: "cells_in s vs [] ts vs'"
inductive_simps cells_in_Cons_iff: "cells_in s vs (p # ps) ts vs'"
inductive_cases cell_inE: "cell_in s vs (b, c) t vs'"

lemmas cell_in_cases = cell_inE [consumes 1, case_names ci_var ci_attv_old ci_attv ci_const ci_intern_list ci_intern_str ci_list ci_str]

lemma cells_in_append:
  "cells_in s vs (xs @ ys) ts vs' \<longleftrightarrow>
    (\<exists>ts1 ts2 vs1. ts = ts1 @ ts2 \<and> cells_in s vs xs ts1 vs1 \<and> cells_in s vs1 ys ts2 vs')"
proof (induction xs arbitrary: vs ts)
  case (Cons x xs)
  show ?case (is "?l = ?r")
  proof
    assume ?l
    then obtain t ts' vs1 where "ts = t # ts'" "cell_in s vs x t vs1" "cells_in s vs1 (xs @ ys) ts' vs'"
      by (auto simp: cells_in_Cons_iff)
    then show ?r unfolding Cons.IH cells_in_Cons_iff by (metis append_Cons)
  next
    assume ?r
    then obtain ts1 ts2 vs1 where "ts = ts1 @ ts2" "cells_in s vs (x # xs) ts1 vs1" "cells_in s vs1 ys ts2 vs'" by blast
    moreover from this(2) obtain t ts3 v where "ts1 = t # ts3" "cell_in s vs x t v" "cells_in s v xs ts3 vs1"
      by (auto simp: cells_in_Cons_iff)
    ultimately show ?l unfolding append_Cons cells_in_Cons_iff Cons.IH by fastforce
  qed
qed simp

lemma cell_in_grows:
  "cell_in s vs p t vs' \<Longrightarrow> \<exists>xs. vs' = vs @ xs" "cells_in s vs ps ts vs' \<Longrightarrow> \<exists>xs. vs' = vs @ xs"
  by (induction rule: cell_in_cells_in.inducts) auto

lemma cell_in_deref: "cell_in s vs p t vs' \<Longrightarrow> \<exists>v. deref (mem s) (snd p) = Some v"
  by (cases p) (auto elim: cell_inE)

lemma cells_in_deref: "cells_in s vs cs ts vs' \<Longrightarrow> \<forall>p \<in> set cs. \<exists>v. deref (mem s) (snd p) = Some v"
proof (induction cs arbitrary: vs ts)
  case (Cons p cs)
  then show ?case unfolding cells_in_Cons_iff using cell_in_deref by fastforce
qed simp

lemma cells_in_length: "cells_in s vs cs ts vs' \<Longrightarrow> length ts = length cs"
  by (induction cs arbitrary: vs ts) (auto simp: cells_in_Cons_iff cells_in_Nil_iff)

lemma items_append_all:
  "cell_in s vs p t vs' \<Longrightarrow> \<forall>us. items vs (t # us) = items vs [t] @ items vs' us"
  "cells_in s vs ps ts vs' \<Longrightarrow> \<forall>us. items vs (ts @ us) = items vs ts @ items vs' us"
proof (induction rule: cell_in_cells_in.inducts)
  case (ci_cons vs p t vs1 ps ts vs')
  show ?case
  proof
    show "items vs ((t # ts) @ us) = items vs (t # ts) @ items vs' us" for us
      using ci_cons(2) [THEN spec, of "ts @ us"] ci_cons(2) [THEN spec, of ts] ci_cons(4) [THEN spec, of us] by simp
  qed
next
  case (ci_attv c a vs t vs' b)
  have "items vs (TAttv a t # us) = items vs [TAttv a t] @ items vs' us" for us using \<open>\<forall>us. items (vs @ [a]) ([t] @ us) = items (vs @ [a]) [t] @ items vs' us\<close> [THEN spec, of us] by simp
  then show ?case by blast
next
  case (ci_list c a b vs t u vs')
  have "items vs (TList t u # us) = items vs [TList t u] @ items vs' us" for us using \<open>\<forall>us. items vs ([t, u] @ us) = items vs [t, u] @ items vs' us\<close> [THEN spec, of us] by simp
  then show ?case by blast
next
  case (ci_str c a p b vs us' vs')
  have "items vs (TStr p us' # us) = items vs [TStr p us'] @ items vs' us" for us using \<open>\<forall>us. items vs (us' @ us) = items vs us' @ items vs' us\<close> [THEN spec, of us] by simp
  then show ?case by blast
qed simp_all

lemmas items_append = items_append_all [rule_format]

section \<open>The symbols the code inserts\<close>

definition fps :: "tins \<Rightarrow> bool \<times> nat \<times> tries" where
  "fps st = (ti_flag st, ti_paren st, ti_tries st)"

text \<open>The state with the variables \<open>vs\<close> bound, on the memory of \<open>s\<close>.\<close>

definition ins_inv :: "wam \<Rightarrow> iaddr \<Rightarrow> nat \<Rightarrow> iaddr list \<Rightarrow> tins \<Rightarrow> bool" where
  "ins_inv s ve n vs st \<longleftrightarrow> ti_wam st = s\<lparr>mem := enum_mem (mem s) ve vs\<rparr> \<and> ti_ctr st = length vs \<and>
     VarEnumerator_trail st = vs \<and> VarEnumerator st = ve \<and> current_num_trievars st = n"

definition leads :: "wam \<Rightarrow> iaddr \<Rightarrow> iaddr list \<Rightarrow> cell \<Rightarrow> cell \<Rightarrow> bool" where
  "leads s ve vs c' c \<longleftrightarrow>
     (\<exists>v. deref (mem s) c = Some v \<and> deref (enum_mem (mem s) ve vs) c' = Some (enum_val ve vs v))"

lemma enum_ok_prefix: "enum_ok m ve n (vs @ xs) \<Longrightarrow> enum_ok m ve n vs"
  by (auto simp: enum_ok_def)

lemma leads_snoc: "enum_ok (mem s) ve n (vs @ [a]) \<Longrightarrow> leads s ve vs c' c \<Longrightarrow> leads s ve (vs @ [a]) c' c"
  unfolding leads_def using deref_enum_snoc by blast

lemma leads_read:
  "enum_ok (mem s) ve n vs \<Longrightarrow> deref (mem s) (mem s x) = Some v \<Longrightarrow> leads s ve vs (enum_mem (mem s) ve vs x) (mem s x)"
  unfolding leads_def using deref_enum_read by blast

lemma ins_symbol_step:
  "one_btn_chk_ins item intrn tt (fps st) = Some (f, p, s) \<Longrightarrow>
   ins_symbol tt item intrn st = Some (st\<lparr>ti_flag := f, ti_paren := p, ti_tries := s\<rparr>)"
  by (simp add: ins_symbol_def fps_def)

text \<open>Binding a new variable.\<close>

lemma standardize_step:
  assumes "ins_inv s ve n vs st" "enum_ok (mem s) ve n (vs @ [a])"
  shows "\<not> IsStandardizedVariable st a"
    and "StandardizeAndTrailVariable a st = st\<lparr>ti_wam := s\<lparr>mem := enum_mem (mem s) ve (vs @ [a])\<rparr>, VarEnumerator_trail := vs @ [a]\<rparr>"
proof -
  have a: "\<not> in_enum ve n a" "a \<notin> set vs" "length vs < n" using assms(2) by (auto simp: enum_ok_def)
  then show "\<not> IsStandardizedVariable st a" using assms(1) by (simp add: IsStandardizedVariable_def ins_inv_def in_enum_def)
  have "in_enum ve n (ve + int (length vs))" using a(3) by (simp add: in_enum_def)
  from enum_mem_enum [OF enum_ok_butlast [OF assms(2)] this]
  show "StandardizeAndTrailVariable a st = st\<lparr>ti_wam := s\<lparr>mem := enum_mem (mem s) ve (vs @ [a])\<rparr>, VarEnumerator_trail := vs @ [a]\<rparr>"
    using assms(1) a by (simp add: StandardizeAndTrailVariable_def StandardizeVariable_def Let_def ins_inv_def bld_def enum_mem_snoc)
qed

lemma ins_variable_new:
  assumes "ins_inv s ve n vs st" "enum_ok (mem s) ve n (vs @ [a])" "one_btn_chk_ins (EncodeNewTrieVar (length vs)) 0 tt (fps st) = Some x"
  shows "\<exists>st1. ins_variable tt a st = Some st1 \<and> fps st1 = x \<and> ins_inv s ve n (vs @ [a]) st1 \<and> ti_pdl st1 = ti_pdl st \<and> ti_tag st1 = ti_tag st"
proof -
  obtain f p r where x: "x = (f, p, r)" by (cases x) auto
  have "fps (StandardizeAndTrailVariable a st) = fps st" using standardize_step(2) [OF assms(1,2)] by (simp add: fps_def)
  then show ?thesis
    using standardize_step [OF assms(1,2)] assms(1,3) x ins_symbol_step [of "EncodeNewTrieVar (length vs)" 0 tt "StandardizeAndTrailVariable a st" f p r]
    by (auto simp: ins_variable_def ins_inv_def fps_def)
qed

lemma ins_variable_old:
  assumes "ins_inv s ve n vs st" "enum_ok (mem s) ve n vs" "a \<in> set vs" "one_btn_chk_ins (EncodeTrieVar (idx a vs)) 0 tt (fps st) = Some x"
  shows "\<exists>st1. ins_variable tt (ve + int (idx a vs)) st = Some st1 \<and> fps st1 = x \<and> ins_inv s ve n vs st1 \<and> ti_pdl st1 = ti_pdl st \<and>
    ti_tag st1 = ti_tag st"
proof -
  obtain f p r where x: "x = (f, p, r)" by (cases x) auto
  have "idx a vs < n" using idx_less [OF assms(3)] assms(2) by (simp add: enum_ok_def)
  then have "IsStandardizedVariable st (ve + int (idx a vs))" "IndexOfStdVar st (ve + int (idx a vs)) = idx a vs"
    using assms(1) by (auto simp: IsStandardizedVariable_def IndexOfStdVar_def ins_inv_def)
  then show ?thesis
    using assms(1,4) x ins_symbol_step [of "EncodeTrieVar (idx a vs)" 0 tt st f p r]
    by (auto simp: ins_variable_def ins_inv_def fps_def)
qed

lemma push_args_pdl: "push_args a n st = st\<lparr>ti_pdl := map (\<lambda>j. mem (ti_wam st) (a + int j)) [1..<Suc n] @ ti_pdl st\<rparr>"
proof -
  have "fold (\<lambda>j. pdlpush (f j)) js st = st\<lparr>ti_pdl := rev (map f js) @ ti_pdl st\<rparr>" for f and js :: "nat list"
    by (induction js arbitrary: st) (auto simp: pdlpush_def)
  then show ?thesis by (simp add: push_args_def rev_map)
qed

lemma interned_same:
  "mem s' (cell_ptr c) = mem s (cell_ptr c) \<or> islist c \<Longrightarrow> wenv s' = wenv s \<Longrightarrow> hreg s' = hreg s \<Longrightarrow> isinternstr s' c = isinternstr s c"
  by (cases c) (simp_all add: isinternstr_def isinternstr_really_def get_str_psc_def)


text \<open>One cell: its symbol goes into the trie, its arguments \<open>ds\<close> onto the push-down list.\<close>

definition cell_step :: "wam \<Rightarrow> iaddr \<Rightarrow> nat \<Rightarrow> nat \<Rightarrow> bool \<Rightarrow> tins \<Rightarrow> cell \<Rightarrow> bool \<times> nat \<times> tries \<Rightarrow> tins \<Rightarrow> iaddr list \<Rightarrow> cell list \<Rightarrow> bool" where
  "cell_step s ve n tt b st d x st1 vs1 ds \<longleftrightarrow> ins_cell b tt d st = Some st1 \<and> fps st1 = x \<and> ins_inv s ve n vs1 st1 \<and>
     (\<exists>ds'. ti_pdl st1 = ds' @ ti_pdl st \<and> list_all2 (leads s ve vs1) ds' ds) \<and> (ds \<noteq> [] \<longrightarrow> compound_cell d)"

lemma ins_cell_step:
  assumes C: "cell_in s vs (b, c) t vs'" and ok: "enum_ok (mem s) ve n vs'" and inv: "ins_inv s ve n vs st"
    and d: "deref (mem s) c = Some d" and i: "items vs (t # ts) = i # is" and one: "one_btn_chk_ins (fst i) (snd i) tt (fps st) = Some x"
  shows "\<exists>st1 vs1 ds us. cell_step s ve n tt b st (enum_val ve vs d) x st1 vs1 ds \<and>
    cells_in s vs1 (map (Pair False) ds) us vs' \<and> is = items vs1 (us @ ts) \<and> (vs1 = vs \<or> (\<exists>a. vs1 = vs @ [a]))"
proof -
  obtain f p r where x: "x = (f, p, r)" by (cases x) auto
  obtain xs where xs: "vs' = vs @ xs" using cell_in_grows(1) [OF C] by blast
  have okv: "enum_ok (mem s) ve n vs" using ok unfolding xs by (rule enum_ok_prefix)
  let ?st = "\<lambda>c. st\<lparr>ti_tag := tag_of c\<rparr>"
  have inv': "ins_inv s ve n vs (st\<lparr>ti_tag := g\<rparr>)" and fps': "fps (st\<lparr>ti_tag := g\<rparr>) = fps st" for g using inv by (simp_all add: ins_inv_def fps_def)
  have w: "ti_wam st = s\<lparr>mem := enum_mem (mem s) ve vs\<rparr>" using inv by (simp add: ins_inv_def)
  have sym: "ins_symbol tt (fst i) (snd i) (?st c) = Some ((?st c)\<lparr>ti_flag := f, ti_paren := p, ti_tries := r\<rparr>)" for c
    by (rule ins_symbol_step) (use one x fps' in simp)
  have fixed: "enum_mem (mem s) ve vs a = mem s a" if "\<not> isref (mem s a)" for a
    using that okv by (auto simp: enum_mem_def enum_ok_def)
  let ?ok = "\<lambda>c st1. fps st1 = x \<and> ins_inv s ve n vs st1"
  have after: "?ok c ((?st c)\<lparr>ti_flag := f, ti_paren := p, ti_tries := r\<rparr>)" for c using inv x by (simp add: ins_inv_def fps_def)
  show ?thesis
    using C
  proof (cases rule: cell_in_cases)
    case (ci_var a)
    then have d': "d = Ref a" using d by simp
    show ?thesis
    proof (cases "a \<in> set vs")
      case True
      from ins_variable_old [OF inv' okv True, of tt "tag_of (Ref (ve + int (idx a vs)))" x]
      obtain st1 where "ins_variable tt (ve + int (idx a vs)) (?st (Ref (ve + int (idx a vs)))) = Some st1" "?ok c st1" "ti_pdl st1 = ti_pdl st"
        using one i ci_var True fps' by auto
      then show ?thesis using ci_var True i d'
        by (intro exI [of _ st1] exI [of _ vs] exI [of _ "[]"] exI [of _ "[]"]) (auto simp: cell_step_def ins_cell_def enum_val_def compound_cell_def)
    next
      case False
      have ok1: "enum_ok (mem s) ve n (vs @ [a])" using ok ci_var False by simp
      from ins_variable_new [OF inv' ok1, of tt "tag_of (Ref a)" x]
      obtain st1 where "ins_variable tt a (?st (Ref a)) = Some st1" "fps st1 = x" "ins_inv s ve n (vs @ [a]) st1" "ti_pdl st1 = ti_pdl st"
        using one i ci_var False fps' by auto
      then show ?thesis using ci_var False i d'
        by (intro exI [of _ st1] exI [of _ "vs @ [a]"] exI [of _ "[]"] exI [of _ "[]"]) (auto simp: cell_step_def ins_cell_def enum_val_def compound_cell_def)
    qed
  next
    case (ci_attv_old a)
    then have d': "d = CAttv a" using d by simp
    from ins_variable_old [OF inv' okv ci_attv_old(4), of tt "tag_of (Ref (ve + int (idx a vs)))" x]
    obtain st1 where "ins_variable tt (ve + int (idx a vs)) (?st (Ref (ve + int (idx a vs)))) = Some st1" "?ok c st1" "ti_pdl st1 = ti_pdl st"
      using one i ci_attv_old fps' by auto
    then show ?thesis using ci_attv_old i d'
      by (intro exI [of _ st1] exI [of _ vs] exI [of _ "[]"] exI [of _ "[]"]) (auto simp: cell_step_def ins_cell_def enum_val_def compound_cell_def)
  next
    case (ci_attv a t')
    then have d': "d = CAttv a" using d by simp
    obtain ys where ys: "vs' = (vs @ [a]) @ ys" using cell_in_grows(2) [OF ci_attv(4)] by blast
    have ok1: "enum_ok (mem s) ve n (vs @ [a])" using ok unfolding ys by (rule enum_ok_prefix)
    obtain v where v: "deref (mem s) (mem s (a + 1)) = Some v" using cells_in_deref [OF ci_attv(4)] by auto
    note S = standardize_step [OF inv' ok1, of "tag_of (CAttv a)"]
    have "fps (StandardizeAndTrailVariable a (?st (CAttv a))) = fps st" using S(2) by (simp add: fps_def)
    then have "ins_attv tt a (?st (CAttv a)) = Some (st\<lparr>ti_tag := XSB_ATTV, ti_wam := s\<lparr>mem := enum_mem (mem s) ve (vs @ [a])\<rparr>,
        VarEnumerator_trail := vs @ [a], ti_flag := f, ti_paren := p, ti_tries := r, ti_attv_ctr := ti_attv_ctr st + 1,
        ti_ctr := length vs + 1, ti_pdl := enum_mem (mem s) ve (vs @ [a]) (a + 1) # ti_pdl st\<rparr>)" (is "_ = Some ?s1")
      using ins_symbol_step [of "EncodeNewTrieAttv (length vs)" 0 tt "StandardizeAndTrailVariable a (?st (CAttv a))" f p r] one i ci_attv x S(2) inv
      by (auto simp: ins_attv_def pdlpush_def ins_inv_def)
    moreover have "ins_inv s ve n (vs @ [a]) ?s1" using inv by (simp add: ins_inv_def)
    moreover have "fps ?s1 = x" using x by (simp add: fps_def)
    moreover have "ti_pdl ?s1 = [enum_mem (mem s) ve (vs @ [a]) (a + 1)] @ ti_pdl st" by simp
    moreover have "list_all2 (leads s ve (vs @ [a])) [enum_mem (mem s) ve (vs @ [a]) (a + 1)] [mem s (a + 1)]"
      using leads_read [OF ok1 v] by simp
    ultimately have "cell_step s ve n tt b st (enum_val ve vs d) x ?s1 (vs @ [a]) [mem s (a + 1)]"
      using d' ci_attv(3) unfolding cell_step_def by (auto simp: ins_cell_def enum_val_def compound_cell_def)
    then show ?thesis using ci_attv i by (intro exI [of _ ?s1] exI [of _ "vs @ [a]"] exI [of _ "[mem s (a + 1)]"] exI [of _ "[t']"]) auto
  next
    case (ci_const d')
    then have d': "d' = d" using d by simp
    show ?thesis using ci_const i after [of d] sym [of d] d'
      by (intro exI [of _ "(?st d)\<lparr>ti_flag := f, ti_paren := p, ti_tries := r\<rparr>"] exI [of _ vs] exI [of _ "[]"] exI [of _ "[]"])
        (cases d; auto simp: cell_step_def ins_cell_def enum_val_def compound_cell_def)
  next
    case (ci_intern_list a)
    then have d': "d = CList a" using d by simp
    have "isinternstr (ti_wam st) (CList a) = isinternstr s (CList a)" using w by (intro interned_same) auto
    then show ?thesis using ci_intern_list i after [of d] sym [of d] d'
      by (intro exI [of _ "(?st d)\<lparr>ti_flag := f, ti_paren := p, ti_tries := r\<rparr>"] exI [of _ vs] exI [of _ "[]"] exI [of _ "[]"])
        (auto simp: cell_step_def ins_cell_def enum_val_def compound_cell_def functor_symbol_def)
  next
    case (ci_intern_str a q)
    then have d': "d = CStruct a" using d by simp
    have m: "enum_mem (mem s) ve vs a = CPsc q" using fixed [of a] ci_intern_str by simp
    then have "isinternstr (ti_wam st) (CStruct a) = isinternstr s (CStruct a)" using w ci_intern_str by (intro interned_same) auto
    then show ?thesis using ci_intern_str i after [of d] sym [of d] d' m w
      by (intro exI [of _ "(?st d)\<lparr>ti_flag := f, ti_paren := p, ti_tries := r\<rparr>"] exI [of _ vs] exI [of _ "[]"] exI [of _ "[]"])
        (auto simp: cell_step_def ins_cell_def enum_val_def compound_cell_def functor_symbol_def get_str_psc_def)
  next
    case (ci_list a t1 t2)
    then have d': "d = CList a" using d by simp
    have "isinternstr (ti_wam st) (CList a) = isinternstr s (CList a)" using w by (intro interned_same) auto
    then have ni: "\<not> (\<not> b \<and> isinternstr (ti_wam st) (CList a))" using ci_list by simp
    let ?s1 = "push_list a ((?st d)\<lparr>ti_flag := f, ti_paren := p, ti_tries := r\<rparr>)"
    obtain v1 v2 where v: "deref (mem s) (mem s a) = Some v1" "deref (mem s) (mem s (a + 1)) = Some v2"
      using cells_in_deref [OF ci_list(4)] by auto
    have "ins_cell b tt d st = Some ?s1" using sym [of d] i ci_list ni d' by (auto simp: ins_cell_def Let_def)
    moreover have "?ok c ?s1" using after [of d] by (simp add: push_list_def pdlpush_def ins_inv_def fps_def)
    moreover have "ti_pdl ?s1 = [enum_mem (mem s) ve vs a, enum_mem (mem s) ve vs (a + 1)] @ ti_pdl st"
      using w by (simp add: push_list_def pdlpush_def)
    moreover have "list_all2 (leads s ve vs) [enum_mem (mem s) ve vs a, enum_mem (mem s) ve vs (a + 1)] [mem s a, mem s (a + 1)]"
      using leads_read [OF okv v(1)] leads_read [OF okv v(2)] by simp
    ultimately have "cell_step s ve n tt b st (enum_val ve vs d) x ?s1 vs [mem s a, mem s (a + 1)]"
      using d' unfolding cell_step_def by (auto simp: enum_val_def compound_cell_def)
    then show ?thesis using ci_list i
      by (intro exI [of _ ?s1] exI [of _ vs] exI [of _ "[mem s a, mem s (a + 1)]"] exI [of _ "[t1, t2]"]) auto
  next
    case (ci_str a q us)
    then have d': "d = CStruct a" using d by simp
    have m: "enum_mem (mem s) ve vs a = CPsc q" using fixed [of a] ci_str by simp
    then have "isinternstr (ti_wam st) (CStruct a) = isinternstr s (CStruct a)" using w ci_str by (intro interned_same) auto
    then have ni: "\<not> (\<not> b \<and> isinternstr (ti_wam st) (CStruct a))" using ci_str by simp
    let ?n = "psc_arity (wenv s) q" and ?e = "enum_mem (mem s) ve vs"
    let ?s1 = "push_args a ?n ((?st d)\<lparr>ti_flag := f, ti_paren := p, ti_tries := r\<rparr>)"
    have v: "leads s ve vs (?e (a + int j)) (mem s (a + int j))" if "j \<in> set [1..<Suc ?n]" for j
      using cells_in_deref [OF ci_str(5)] that leads_read [OF okv, of "a + int j"] by (auto simp: arg_cells_def)
    have "ins_cell b tt d st = Some ?s1" using sym [of d] i ci_str ni d' m w by (auto simp: ins_cell_def get_str_psc_def Let_def)
    moreover have "?ok c ?s1" using after [of d] by (simp add: push_args_pdl ins_inv_def fps_def)
    moreover have "ti_pdl ?s1 = arg_cells ?e a ?n @ ti_pdl st" using w by (simp add: push_args_pdl arg_cells_def del: upt_Suc)
    moreover have "list_all2 (leads s ve vs) (arg_cells ?e a ?n) (arg_cells (mem s) a ?n)"
      unfolding arg_cells_def list.rel_map by (intro list.rel_refl_strong v)
    ultimately have "cell_step s ve n tt b st (enum_val ve vs d) x ?s1 vs (arg_cells (mem s) a ?n)"
      using d' unfolding cell_step_def by (auto simp: enum_val_def compound_cell_def)
    then show ?thesis using ci_str i
      by (intro exI [of _ ?s1] exI [of _ vs] exI [of _ "arg_cells (mem s) a ?n"] exI [of _ us]) auto
  qed
qed

lemma recvariant_step:
  "ti_pdl st = c # cs \<Longrightarrow> deref (mem (ti_wam st)) c = Some d \<Longrightarrow> ins_cell False tt d (st\<lparr>ti_pdl := cs\<rparr>) = Some st1 \<Longrightarrow>
   recvariant_trie_no_ans_subsf tt st = recvariant_trie_no_ans_subsf tt st1"
  by (subst recvariant_trie_no_ans_subsf.simps) simp

lemma leads_all_snoc: "enum_ok (mem s) ve n (vs @ [a]) \<Longrightarrow> list_all2 (leads s ve vs) xs ys \<Longrightarrow> list_all2 (leads s ve (vs @ [a])) xs ys"
  by (erule list_all2_mono) (rule leads_snoc)

lemma items_Cons: "\<exists>i is. items vs (t # ts) = i # is"
proof -
  have "items vs (t # ts) \<noteq> []" by (cases t) auto
  then show ?thesis by (simp add: neq_Nil_conv)
qed

text \<open>The push-down list is emptied and the symbols of its terms are inserted.\<close>

lemma recvariant_items:
  assumes "cells_in s vs (map (Pair False) cs) ts vs'" "enum_ok (mem s) ve n vs'" "ins_inv s ve n vs st"
    "list_all2 (leads s ve vs) (ti_pdl st) cs" "fold_items tt (items vs ts) (fps st) = Some x"
  shows "\<exists>st'. recvariant_trie_no_ans_subsf tt st = Some st' \<and> ins_inv s ve n vs' st' \<and> fps st' = x \<and> ti_pdl st' = []"
  using assms
proof (induction "length (items vs ts)" arbitrary: vs cs ts st rule: less_induct)
  case less
  show ?case
  proof (cases cs)
    case Nil
    then have "ts = []" "vs' = vs" "ti_pdl st = []" using less.prems(1,4) by auto
    then show ?thesis using less.prems(3,5) by (subst recvariant_trie_no_ans_subsf.simps) simp
  next
    case (Cons c cs1)
    then obtain t ts1 vs2 where ts: "ts = t # ts1" and C: "cell_in s vs (False, c) t vs2" "cells_in s vs2 (map (Pair False) cs1) ts1 vs'"
      using less.prems(1) by (auto simp: cells_in_Cons_iff)
    obtain c' cs' where pdl: "ti_pdl st = c' # cs'" "leads s ve vs c' c" "list_all2 (leads s ve vs) cs' cs1"
      using less.prems(4) Cons by (auto simp: list_all2_Cons2)
    then obtain d where d: "deref (mem s) c = Some d" "deref (enum_mem (mem s) ve vs) c' = Some (enum_val ve vs d)"
      by (auto simp: leads_def)
    obtain i "is" where i: "items vs (t # ts1) = i # is" using items_Cons by blast
    then obtain y where y: "one_btn_chk_ins (fst i) (snd i) tt (fps st) = Some y" "fold_items tt is y = Some x"
      using less.prems(5) ts by (auto split: option.splits)
    obtain xs where "vs' = vs2 @ xs" using cell_in_grows(2) [OF C(2)] by blast
    then have ok2: "enum_ok (mem s) ve n vs2" using less.prems(2) by (simp add: enum_ok_prefix)
    let ?st = "st\<lparr>ti_pdl := cs'\<rparr>"
    have inv: "ins_inv s ve n vs ?st" "fps ?st = fps st" using less.prems(3) by (simp_all add: ins_inv_def fps_def)
    obtain st1 vs1 ds us where S: "cell_step s ve n tt False ?st (enum_val ve vs d) y st1 vs1 ds"
      "cells_in s vs1 (map (Pair False) ds) us vs2" "is = items vs1 (us @ ts1)" "vs1 = vs \<or> (\<exists>a. vs1 = vs @ [a])"
      using ins_cell_step [OF C(1) ok2 inv(1) d(1) i, of tt y] y(1) inv(2) by metis
    obtain ds' where ds': "ti_pdl st1 = ds' @ cs'" "list_all2 (leads s ve vs1) ds' ds" using S(1) by (auto simp: cell_step_def)
    obtain ys where "vs2 = vs1 @ ys" using cell_in_grows(2) [OF S(2)] by blast
    then have "enum_ok (mem s) ve n vs1" using ok2 by (simp add: enum_ok_prefix)
    then have "list_all2 (leads s ve vs1) cs' cs1" using pdl(3) S(4) leads_all_snoc by blast
    then have L: "list_all2 (leads s ve vs1) (ti_pdl st1) (ds @ cs1)" using ds' by (simp add: list_all2_appendI)
    have st1: "ins_cell False tt (enum_val ve vs d) ?st = Some st1" "fps st1 = y" "ins_inv s ve n vs1 st1"
      using S(1) by (simp_all add: cell_step_def)
    have "recvariant_trie_no_ans_subsf tt st = recvariant_trie_no_ans_subsf tt st1"
      using recvariant_step [OF pdl(1) _ st1(1)] d(2) less.prems(3) by (simp add: ins_inv_def)
    moreover have "length (items vs1 (us @ ts1)) < length (items vs ts)" using i S(3) ts by simp
    moreover have "cells_in s vs1 (map (Pair False) (ds @ cs1)) (us @ ts1) vs'"
      unfolding map_append cells_in_append using S(2) C(2) by blast
    ultimately show ?thesis
      using less.hyps [of vs1 "us @ ts1" "ds @ cs1" st1] less.prems(2) st1 L y(2) S(3) by simp
  qed
qed

text \<open>The arguments of the term.\<close>

lemma trie_assert_args_items:
  assumes "cells_in s vs (map (\<lambda>i. (True, Ref (cptr + int i))) is) ts vs'" "enum_ok (mem s) ve n vs'" "ins_inv s ve n vs st"
    "ti_pdl st = []" "fold_items ASSERT_TRIE_TT (items vs ts) (fps st) = Some x"
  shows "\<exists>st'. trie_assert_args cptr is st = Some st' \<and> ins_inv s ve n vs' st' \<and> fps st' = x \<and> ti_pdl st' = []"
  using assms
proof (induction "is" arbitrary: vs ts st)
  case Nil
  then show ?case by auto
next
  case (Cons i "is")
  let ?c = "Ref (cptr + int i)" and ?rest = "map (\<lambda>i. (True, Ref (cptr + int i))) is"
  obtain t ts1 vs2 where ts: "ts = t # ts1" and C: "cell_in s vs (True, ?c) t vs2" "cells_in s vs2 ?rest ts1 vs'"
    using Cons.prems(1) by (auto simp: cells_in_Cons_iff)
  obtain d where d: "deref (mem s) ?c = Some d" using cell_in_deref [OF C(1)] by auto
  obtain ys where "vs' = vs2 @ ys" using cell_in_grows(2) [OF C(2)] by blast
  then have ok2: "enum_ok (mem s) ve n vs2" using Cons.prems(2) by (simp add: enum_ok_prefix)
  obtain xs where "vs2 = vs @ xs" using cell_in_grows(1) [OF C(1)] by blast
  then have okv: "enum_ok (mem s) ve n vs" using ok2 by (simp add: enum_ok_prefix)
  obtain j js where j: "items vs (t # ts1) = j # js" using items_Cons by blast
  then obtain y where y: "one_btn_chk_ins (fst j) (snd j) ASSERT_TRIE_TT (fps st) = Some y" "fold_items ASSERT_TRIE_TT js y = Some x"
    using Cons.prems(5) ts by (auto split: option.splits)
  from ins_cell_step [OF C(1) ok2 Cons.prems(3) d j y(1)]
  obtain st1 vs1 ds us where S: "cell_step s ve n ASSERT_TRIE_TT True st (enum_val ve vs d) y st1 vs1 ds"
    "cells_in s vs1 (map (Pair False) ds) us vs2" "js = items vs1 (us @ ts1)" by blast
  have st1: "ins_cell True ASSERT_TRIE_TT (enum_val ve vs d) st = Some st1" "fps st1 = y" "ins_inv s ve n vs1 st1"
    "list_all2 (leads s ve vs1) (ti_pdl st1) ds" "ds \<noteq> [] \<longrightarrow> compound_cell (enum_val ve vs d)"
    using S(1) Cons.prems(4) by (auto simp: cell_step_def)
  have "js = items vs1 us @ items vs2 ts1" unfolding S(3) by (rule items_append(2) [OF S(2)])
  then obtain z where z: "fold_items ASSERT_TRIE_TT (items vs1 us) y = Some z" "fold_items ASSERT_TRIE_TT (items vs2 ts1) z = Some x"
    using y(2) by (auto simp: fold_items_append split: bind_splits)
  obtain st2 where st2: "recvariant_trie_no_ans_subsf ASSERT_TRIE_TT st1 = Some st2" "ins_inv s ve n vs2 st2" "fps st2 = z" "ti_pdl st2 = []"
    using recvariant_items [OF S(2) ok2 st1(3,4), of ASSERT_TRIE_TT z] z(1) st1(2) by auto
  have "(if compound_cell (enum_val ve vs d) then recvariant_trie_no_ans_subsf ASSERT_TRIE_TT else Some) st1 = Some st2"
  proof (cases "compound_cell (enum_val ve vs d)")
    case False
    then have "ti_pdl st1 = []" using st1(4,5) by simp
    then have "recvariant_trie_no_ans_subsf ASSERT_TRIE_TT st1 = Some st1" by (subst recvariant_trie_no_ans_subsf.simps) simp
    then show ?thesis using st2(1) False by simp
  qed (use st2 in simp)
  moreover have "deref (mem (ti_wam st)) ?c = Some (enum_val ve vs d)"
    using deref_enum [OF okv d] Cons.prems(3) by (simp add: ins_inv_def)
  ultimately show ?case using Cons.IH [OF C(2) Cons.prems(2) st2(2,4)] z(2) st2(3) st1(1) by auto
qed

end
