(* ===== verification/Trie_Variant.thy ===== *)
theory Trie_Variant imports Trie_Insert begin

text \<open>
  What asserting a term into a trie means: the symbols of two terms are the same exactly when
  the terms are variants, and a trie of terms finds a term that is stored up to the names of
  its variables and adds it otherwise.
\<close>

section \<open>Symbols as words\<close>

lemma trievar_tag_bits:
  "bit NEW_TRIEVAR_TAG n \<longleftrightarrow> n = 16" "bit NEW_TRIEATTV_TAG n \<longleftrightarrow> n = 17" "(0xffff :: word64) = mask 16"
proof -
  have p: "NEW_TRIEVAR_TAG = push_bit 16 1" "NEW_TRIEATTV_TAG = push_bit 17 1" by (simp_all add: NEW_TRIEVAR_TAG_def NEW_TRIEATTV_TAG_def)
  show "bit NEW_TRIEVAR_TAG n \<longleftrightarrow> n = 16" "bit NEW_TRIEATTV_TAG n \<longleftrightarrow> n = 17"
    unfolding p bit_push_bit_iff bit_1_iff by auto
  show "(0xffff :: word64) = mask 16" by (simp add: mask_eq_exp_minus_1)
qed

lemma small_bits: "i < 2 ^ 16 \<Longrightarrow> bit (word_of_nat i :: word64) n \<Longrightarrow> n < 16"
proof (rule ccontr)
  assume i: "i < 2 ^ 16" and b: "bit (word_of_nat i :: word64) n" and n: "\<not> n < 16"
  have "bit i n" using b by (simp add: bit_simps)
  moreover have "i < 2 ^ n" using i n by (meson le_less_trans less_le_trans not_less one_less_numeral_iff power_increasing_iff semiring_norm(76) order_less_le_trans)
  ultimately show False by (simp add: bit_iff_odd)
qed

lemma tagged_bits:
  fixes w :: word64
  assumes w: "\<And>n. 16 \<le> n \<Longrightarrow> \<not> bit w n"
  shows "w AND mask 16 = w" "(w OR NEW_TRIEVAR_TAG) AND mask 16 = w" "(w OR NEW_TRIEATTV_TAG) AND mask 16 = w"
    "w AND NEW_TRIEVAR_TAG = 0" "w AND NEW_TRIEATTV_TAG = 0" "(w OR NEW_TRIEVAR_TAG) AND NEW_TRIEVAR_TAG = NEW_TRIEVAR_TAG"
    "(w OR NEW_TRIEVAR_TAG) AND NEW_TRIEATTV_TAG = 0" "(w OR NEW_TRIEATTV_TAG) AND NEW_TRIEATTV_TAG = NEW_TRIEATTV_TAG"
    "(w OR NEW_TRIEATTV_TAG) AND NEW_TRIEVAR_TAG = 0"
    "signed_take_bit 60 w = w" "signed_take_bit 60 (w OR NEW_TRIEVAR_TAG) = w OR NEW_TRIEVAR_TAG"
    "signed_take_bit 60 (w OR NEW_TRIEATTV_TAG) = w OR NEW_TRIEATTV_TAG"
proof -
  have small: "bit w n \<Longrightarrow> n < 16" for n using w [of n] by (simp flip: not_less) blast
  show "w AND mask 16 = w" "(w OR NEW_TRIEVAR_TAG) AND mask 16 = w" "(w OR NEW_TRIEATTV_TAG) AND mask 16 = w"
    "w AND NEW_TRIEVAR_TAG = 0" "w AND NEW_TRIEATTV_TAG = 0" "(w OR NEW_TRIEVAR_TAG) AND NEW_TRIEVAR_TAG = NEW_TRIEVAR_TAG"
    "(w OR NEW_TRIEVAR_TAG) AND NEW_TRIEATTV_TAG = 0" "(w OR NEW_TRIEATTV_TAG) AND NEW_TRIEATTV_TAG = NEW_TRIEATTV_TAG"
    "(w OR NEW_TRIEATTV_TAG) AND NEW_TRIEVAR_TAG = 0"
    "signed_take_bit 60 w = w" "signed_take_bit 60 (w OR NEW_TRIEVAR_TAG) = w OR NEW_TRIEVAR_TAG"
    "signed_take_bit 60 (w OR NEW_TRIEATTV_TAG) = w OR NEW_TRIEATTV_TAG"
    by (auto intro!: bit_word_eqI simp: w bit_and_iff bit_or_iff bit_mask_iff bit_signed_take_bit_iff min_def
        trievar_tag_bits split: if_splits dest: small)
qed

lemma trievar_vals:
  assumes "i < 2 ^ 16"
  shows "trievar_val (EncodeTrieVar i) = word_of_nat i" "trievar_val (EncodeNewTrieVar i) = word_of_nat i OR NEW_TRIEVAR_TAG"
    "trievar_val (EncodeNewTrieAttv i) = word_of_nat i OR NEW_TRIEATTV_TAG"
proof -
  have "trievar_val (maketrievar v) = signed_take_bit 60 v" for v
    using dec_int_tagged [of XSB_FREE v] by (simp add: trievar_val_def maketrievar_def tag_defs)
  moreover have "16 \<le> n \<Longrightarrow> \<not> bit (word_of_nat i :: word64) n" for n using small_bits [OF assms, of n] by fastforce
  ultimately show "trievar_val (EncodeTrieVar i) = word_of_nat i" "trievar_val (EncodeNewTrieVar i) = word_of_nat i OR NEW_TRIEVAR_TAG"
    "trievar_val (EncodeNewTrieAttv i) = word_of_nat i OR NEW_TRIEATTV_TAG"
    by (simp_all add: EncodeTrieVar_def EncodeNewTrieVar_def EncodeNewTrieAttv_def tagged_bits)
qed

lemma trievar_tag: "cell_tag (maketrievar v) = XSB_REF"
  using enc_int_aligned [of v] by (simp add: maketrievar_def cell_tag_def tag_defs)

lemma trievar_codes:
  assumes "i < 2 ^ 16"
  shows "DecodeTrieVar (EncodeTrieVar i) = i \<and> DecodeTrieVar (EncodeNewTrieVar i) = i \<and> DecodeTrieVar (EncodeNewTrieAttv i) = i \<and>
    IsTrieVar (EncodeTrieVar i) \<and> \<not> IsNewTrieVar (EncodeTrieVar i) \<and> \<not> IsNewTrieAttv (EncodeTrieVar i) \<and>
    IsTrieVar (EncodeNewTrieVar i) \<and> IsNewTrieVar (EncodeNewTrieVar i) \<and> \<not> IsNewTrieAttv (EncodeNewTrieVar i) \<and>
    IsTrieVar (EncodeNewTrieAttv i) \<and> \<not> IsNewTrieVar (EncodeNewTrieAttv i) \<and> IsNewTrieAttv (EncodeNewTrieAttv i)"
proof -
  let ?w = "word_of_nat i :: word64"
  have "16 \<le> n \<Longrightarrow> \<not> bit ?w n" for n using small_bits [OF assms, of n] by fastforce
  note B = tagged_bits [OF this]
  have "unat ?w = i" using assms by (simp add: unat_of_nat)
  then show ?thesis
    by (simp add: DecodeTrieVar_def IsNewTrieVar_def IsNewTrieAttv_def IsTrieVar_def trievar_vals [OF assms] trievar_tag_bits(3) B)
      (simp add: EncodeTrieVar_def EncodeNewTrieVar_def EncodeNewTrieAttv_def trievar_tag NEW_TRIEVAR_TAG_def NEW_TRIEATTV_TAG_def)
qed


lemma addr_word_aligned: "addr_word a AND 7 = 0"
proof -
  have "addr_word a = push_bit 3 (word_of_int a)" by (simp add: addr_word_def push_bit_eq_mult)
  then show ?thesis by (auto intro!: bit_word_eqI simp: word_masks(1) bit_and_iff bit_mask_iff bit_push_bit_iff)
qed

lemma addr_word_inj: "0 \<le> a \<Longrightarrow> a < 2 ^ 60 \<Longrightarrow> 0 \<le> b \<Longrightarrow> b < 2 ^ 60 \<Longrightarrow> addr_word a = addr_word b \<longleftrightarrow> a = b"
proof
  assume ab: "0 \<le> a" "a < 2 ^ 60" "0 \<le> b" "b < 2 ^ 60" and e: "addr_word a = addr_word b"
  have "uint (addr_word x) = 8 * x" if "0 \<le> x" "x < 2 ^ 60" for x
    unfolding addr_word_def uint_word_of_int using that by (simp add: take_bit_int_eq_self)
  then have "8 * a = 8 * b" using ab e by metis
  then show "a = b" by simp
qed simp

lemma pointer_tags:
  "cell_tag (makestring (addr_word a)) = XSB_STRING" "cell_tag (makecs (addr_word a)) = XSB_STRUCT"
  "cell_tag (makelist (addr_word a)) = XSB_LIST" "cell_tag (makeint v) = XSB_INT"
  using cell_tag_tagged [OF addr_word_aligned] cell_tag_tagged [OF enc_int_aligned] tag_masked
  by (simp_all add: makestring_def makecs_def makelist_def makeint_def enc_addr_def)

lemma pointer_words_nonzero: "makelist (addr_word a) \<noteq> 0" "makecs (addr_word a) \<noteq> 0"
  using pointer_tags(2,3) [of a] by (auto simp: cell_tag_def tag_defs)

lemma pointer_words_inj:
  assumes "0 \<le> a" "a < 2 ^ 60" "0 \<le> b" "b < 2 ^ 60"
  shows "makestring (addr_word a) = makestring (addr_word b) \<longleftrightarrow> a = b" "makecs (addr_word a) = makecs (addr_word b) \<longleftrightarrow> a = b"
    "makelist (addr_word a) = makelist (addr_word b) \<longleftrightarrow> a = b"
proof -
  have "dec_addr (addr_word x OR t) = addr_word x" if "t AND 7 = t" for x t by (rule dec_addr_tagged [OF addr_word_aligned that])
  then have "addr_word a OR t = addr_word b OR t \<longleftrightarrow> addr_word a = addr_word b" if "t AND 7 = t" for t using that by metis
  then show "makestring (addr_word a) = makestring (addr_word b) \<longleftrightarrow> a = b" "makecs (addr_word a) = makecs (addr_word b) \<longleftrightarrow> a = b"
    "makelist (addr_word a) = makelist (addr_word b) \<longleftrightarrow> a = b"
    using addr_word_inj [OF assms] tag_masked by (simp_all add: makestring_def makecs_def makelist_def enc_addr_def)
qed

lemma makeint_inj:
  assumes "- (2 ^ 60) \<le> i" "i < 2 ^ 60" "- (2 ^ 60) \<le> j" "j < 2 ^ 60"
  shows "makeint (word_of_int i) = makeint (word_of_int j) \<longleftrightarrow> i = j"
proof -
  have "sint (int_val (makeint (word_of_int k :: word64))) = k" if "- (2 ^ 60) \<le> k" "k < 2 ^ 60" for k
  proof -
    have "sint (word_of_int k :: word64) = k" using that by (simp add: sint_sbintrunc' signed_take_bit_int_eq_self)
    then show ?thesis using that by (simp add: int_val_makeint_id)
  qed
  then show ?thesis using assms by metis
qed

text \<open>
  Symbols whose words are apart: variables with a number of 16 bits, integers of a cell, strings,
  predicate symbols of \<open>P\<close> and interned terms at addresses the words can hold, the functor of an
  interned structure given by \<open>F\<close>, no interned structure at the address of a predicate symbol.
\<close>

fun const_ok :: "cell \<Rightarrow> bool" where
  "const_ok (CInt i) \<longleftrightarrow> - (2 ^ 60) \<le> i \<and> i < 2 ^ 60"
| "const_ok (CStr n) \<longleftrightarrow> n < 2 ^ 60"
| "const_ok (CFlt w) \<longleftrightarrow> cell_tag w = XSB_FLOAT"
| "const_ok _ \<longleftrightarrow> False"

fun sym_ok :: "nat set \<Rightarrow> (iaddr \<Rightarrow> nat) \<Rightarrow> tsym \<Rightarrow> bool" where
  "sym_ok P F (SVar i) \<longleftrightarrow> i < 2 ^ 16"
| "sym_ok P F (SNew i) \<longleftrightarrow> i < 2 ^ 16"
| "sym_ok P F (SAttv i) \<longleftrightarrow> i < 2 ^ 16"
| "sym_ok P F (SConst c) \<longleftrightarrow> const_ok c"
| "sym_ok P F (SIntern f c) \<longleftrightarrow>
     (case c of CList a \<Rightarrow> f = None \<and> 0 < a \<and> a < 2 ^ 60
      | CStruct a \<Rightarrow> f = Some (F a) \<and> 0 < a \<and> a < 2 ^ 60 \<and> nat a \<notin> P | _ \<Rightarrow> False)"
| "sym_ok P F SList \<longleftrightarrow> True"
| "sym_ok P F (SFun p) \<longleftrightarrow> p \<in> P \<and> p < 2 ^ 60"

definition sym_word :: "tsym \<Rightarrow> word64" where
  "sym_word y = node_symbol (enc_sym y)"

lemma sym_word_simps:
  "sym_word (SVar i) = EncodeTrieVar i" "sym_word (SNew i) = EncodeNewTrieVar i" "sym_word (SAttv i) = EncodeNewTrieAttv i"
  "sym_word (SConst c) = cell_word c" "sym_word SList = XSB_LIST" "sym_word (SFun p) = makecs (addr_word (int p))"
  "sym_word (SIntern f (CList a)) = makelist (addr_word a)" "sym_word (SIntern f (CStruct a)) = makecs (addr_word a)"
proof -
  show "sym_word (SIntern f (CList a)) = makelist (addr_word a)" "sym_word (SIntern f (CStruct a)) = makecs (addr_word a)"
    using pointer_words_nonzero by (simp_all add: sym_word_def node_symbol_def)
qed (simp_all add: sym_word_def node_symbol_def EncodeTrieList_def EncodeTriePSC_def)

lemma const_tags: "const_ok c \<Longrightarrow> cell_tag (cell_word c) \<in> {XSB_INT, XSB_STRING, XSB_FLOAT}"
  by (cases c) (auto simp: pointer_tags)

lemma const_words_inj: "const_ok c \<Longrightarrow> const_ok d \<Longrightarrow> cell_word c = cell_word d \<Longrightarrow> c = d"
proof -
  assume ok: "const_ok c" "const_ok d" and e: "cell_word c = cell_word d"
  have "cell_tag (cell_word c) = cell_tag (cell_word d)" using e by simp
  then show "c = d"
    using ok e makeint_inj pointer_words_inj(1) [of "int n" "int m" for n m]
    by (cases c; cases d) (auto simp: pointer_tags tag_defs)
qed

lemma sym_tags:
  "cell_tag (EncodeTrieVar i) = XSB_REF" "cell_tag (EncodeNewTrieVar i) = XSB_REF" "cell_tag (EncodeNewTrieAttv i) = XSB_REF"
  "cell_tag XSB_LIST = XSB_LIST"
  by (simp_all add: EncodeTrieVar_def EncodeNewTrieVar_def EncodeNewTrieAttv_def trievar_tag) (simp add: cell_tag_def tag_defs)

fun sym_tag :: "tsym \<Rightarrow> word64" where
  "sym_tag (SVar i) = XSB_REF" | "sym_tag (SNew i) = XSB_REF" | "sym_tag (SAttv i) = XSB_REF"
| "sym_tag (SConst c) = tag_of c" | "sym_tag (SIntern f c) = tag_of c" | "sym_tag SList = XSB_LIST" | "sym_tag (SFun p) = XSB_STRUCT"

lemma sym_word_tag: "sym_ok P F y \<Longrightarrow> cell_tag (sym_word y) = sym_tag y"
proof (cases y)
  case (SConst c)
  then show "sym_ok P F y \<Longrightarrow> ?thesis" by (cases c) (auto simp: sym_word_simps pointer_tags)
next
  case (SIntern f c)
  then show "sym_ok P F y \<Longrightarrow> ?thesis" by (cases c) (auto simp: sym_word_simps pointer_tags)
qed (auto simp: sym_word_simps sym_tags pointer_tags)

lemma list_not_symbol: "0 < a \<Longrightarrow> a < 2 ^ 60 \<Longrightarrow> makelist (addr_word a) \<noteq> XSB_LIST"
  using pointer_words_inj(3) [of a 0] by (auto simp: makelist_def enc_addr_def addr_word_def)

lemma trievar_words_inj:
  assumes "i < 2 ^ 16" "j < 2 ^ 16"
  shows "EncodeTrieVar i = EncodeTrieVar j \<longleftrightarrow> i = j" "EncodeNewTrieVar i = EncodeNewTrieVar j \<longleftrightarrow> i = j"
    "EncodeNewTrieAttv i = EncodeNewTrieAttv j \<longleftrightarrow> i = j" "EncodeTrieVar i \<noteq> EncodeNewTrieVar j"
    "EncodeTrieVar i \<noteq> EncodeNewTrieAttv j" "EncodeNewTrieVar i \<noteq> EncodeNewTrieAttv j"
  using trievar_codes [OF assms(1)] trievar_codes [OF assms(2)] by metis+

lemma sym_ok_by_tag:
  assumes "sym_ok P F z"
  shows "sym_tag z = XSB_LIST \<Longrightarrow> z = SList \<or> (\<exists>a. z = SIntern None (CList a) \<and> 0 < a \<and> a < 2 ^ 60)"
    "sym_tag z = XSB_STRUCT \<Longrightarrow> (\<exists>p \<in> P. z = SFun p \<and> p < 2 ^ 60) \<or>
       (\<exists>a. z = SIntern (Some (F a)) (CStruct a) \<and> 0 < a \<and> a < 2 ^ 60 \<and> nat a \<notin> P)"
    "sym_tag z \<in> {XSB_INT, XSB_STRING, XSB_FLOAT} \<Longrightarrow> \<exists>c. z = SConst c \<and> const_ok c"
    "sym_tag z = XSB_REF \<Longrightarrow> \<exists>i < 2 ^ 16. z = SVar i \<or> z = SNew i \<or> z = SAttv i"
    "sym_tag z \<in> {XSB_LIST, XSB_STRUCT, XSB_INT, XSB_STRING, XSB_FLOAT, XSB_REF}"
proof -
  have c: "tag_of c \<in> {XSB_INT, XSB_STRING, XSB_FLOAT}" if "const_ok c" for c using that by (cases c) auto
  have i: "(\<exists>a. c = CList a \<and> f = None \<and> 0 < a \<and> a < 2 ^ 60) \<or> (\<exists>a. c = CStruct a \<and> f = Some (F a) \<and> 0 < a \<and> a < 2 ^ 60 \<and> nat a \<notin> P)"
    if "sym_ok P F (SIntern f c)" for f c using that by (cases c) auto
  show "sym_tag z = XSB_LIST \<Longrightarrow> z = SList \<or> (\<exists>a. z = SIntern None (CList a) \<and> 0 < a \<and> a < 2 ^ 60)"
    using assms i c by (cases z) (fastforce simp: tag_defs)+
  show "sym_tag z = XSB_STRUCT \<Longrightarrow> (\<exists>p \<in> P. z = SFun p \<and> p < 2 ^ 60) \<or>
       (\<exists>a. z = SIntern (Some (F a)) (CStruct a) \<and> 0 < a \<and> a < 2 ^ 60 \<and> nat a \<notin> P)"
    using assms i c by (cases z) (fastforce simp: tag_defs)+
  show "sym_tag z \<in> {XSB_INT, XSB_STRING, XSB_FLOAT} \<Longrightarrow> \<exists>c. z = SConst c \<and> const_ok c"
    using assms i c by (cases z) (fastforce simp: tag_defs)+
  show "sym_tag z = XSB_REF \<Longrightarrow> \<exists>i < 2 ^ 16. z = SVar i \<or> z = SNew i \<or> z = SAttv i"
    using assms i c by (cases z) (fastforce simp: tag_defs)+
  show "sym_tag z \<in> {XSB_LIST, XSB_STRUCT, XSB_INT, XSB_STRING, XSB_FLOAT, XSB_REF}"
    using assms i c by (cases z) (fastforce simp: tag_defs)+
qed

lemma sym_word_inj:
  assumes ok: "sym_ok P F y" "sym_ok P F z" and e: "sym_word y = sym_word z"
  shows "y = z"
proof -
  have t: "sym_tag z = sym_tag y" using sym_word_tag [OF ok(1)] sym_word_tag [OF ok(2)] e by simp
  consider "sym_tag y = XSB_LIST" | "sym_tag y = XSB_STRUCT" | "sym_tag y \<in> {XSB_INT, XSB_STRING, XSB_FLOAT}" | "sym_tag y = XSB_REF"
    using sym_ok_by_tag(5) [OF ok(1)] by blast
  then show ?thesis
  proof cases
    case 1
    then show ?thesis
      using sym_ok_by_tag(1) [OF ok(1)] sym_ok_by_tag(1) [OF ok(2)] t e list_not_symbol pointer_words_inj(3)
      by (auto simp: sym_word_simps) metis
  next
    case 2
    then show ?thesis
      using sym_ok_by_tag(2) [OF ok(1)] sym_ok_by_tag(2) [OF ok(2)] t e pointer_words_inj(2)
      by (auto simp: sym_word_simps)
  next
    case 3
    then show ?thesis
      using sym_ok_by_tag(3) [OF ok(1)] sym_ok_by_tag(3) [OF ok(2)] t e const_words_inj by (auto simp: sym_word_simps)
  next
    case 4
    obtain i where i: "i < 2 ^ 16" "y = SVar i \<or> y = SNew i \<or> y = SAttv i" using sym_ok_by_tag(4) [OF ok(1) 4] by blast
    obtain j where j: "j < 2 ^ 16" "z = SVar j \<or> z = SNew j \<or> z = SAttv j" using sym_ok_by_tag(4) [OF ok(2)] t 4 by auto
    show ?thesis using i(2) j(2) e trievar_words_inj [OF i(1) j(1)] trievar_words_inj [OF j(1) i(1)] by (auto simp: sym_word_simps)
  qed
qed

section \<open>Variants\<close>

fun rename :: "(iaddr \<Rightarrow> iaddr) \<Rightarrow> tterm \<Rightarrow> tterm" where
  "rename f (TVar a) = TVar (f a)"
| "rename f (TAttv a t) = TAttv (f a) (rename f t)"
| "rename f (TConst c) = TConst c"
| "rename f (TIntern g c) = TIntern g c"
| "rename f (TList t u) = TList (rename f t) (rename f u)"
| "rename f (TStr p us) = TStr p (map (rename f) us)"

fun tvars :: "tterm \<Rightarrow> iaddr set" where
  "tvars (TVar a) = {a}"
| "tvars (TAttv a t) = insert a (tvars t)"
| "tvars (TConst c) = {}"
| "tvars (TIntern g c) = {}"
| "tvars (TList t u) = tvars t \<union> tvars u"
| "tvars (TStr p us) = (\<Union>u \<in> set us. tvars u)"

definition variant :: "tterm list \<Rightarrow> tterm list \<Rightarrow> bool" where
  "variant ts us \<longleftrightarrow> (\<exists>f. inj_on f (\<Union>t \<in> set ts. tvars t) \<and> us = map (rename f) ts)"

text \<open>The variables met, and the terms whose attributes are at the first occurrence and whose structures are full.\<close>

function seen :: "iaddr list \<Rightarrow> tterm list \<Rightarrow> iaddr list" where
  "seen vs [] = vs"
| "seen vs (TVar a # ts) = seen (if a \<in> set vs then vs else vs @ [a]) ts"
| "seen vs (TAttv a t # ts) = seen (vs @ [a]) (t # ts)"
| "seen vs (TConst c # ts) = seen vs ts"
| "seen vs (TIntern f c # ts) = seen vs ts"
| "seen vs (TList t u # ts) = seen vs (t # u # ts)"
| "seen vs (TStr p us # ts) = seen vs (us @ ts)"
  by pat_completeness auto
termination
proof (relation "measure (\<lambda>(vs, ts). sum_list (map (\<lambda>t. 2 * size t + 1) ts))")
  show "((vs, us @ ts), vs, TStr p us # ts) \<in> measure (\<lambda>(vs, ts). sum_list (map (\<lambda>t. 2 * size t + 1) ts))"
    for vs :: "iaddr list" and p us ts using sum_sizes [of us] by simp
qed auto

function wf_terms :: "(nat \<Rightarrow> nat) \<Rightarrow> iaddr list \<Rightarrow> tterm list \<Rightarrow> bool" where
  "wf_terms ar vs [] \<longleftrightarrow> True"
| "wf_terms ar vs (TVar a # ts) \<longleftrightarrow> wf_terms ar (if a \<in> set vs then vs else vs @ [a]) ts"
| "wf_terms ar vs (TAttv a t # ts) \<longleftrightarrow> a \<notin> set vs \<and> wf_terms ar (vs @ [a]) (t # ts)"
| "wf_terms ar vs (TConst c # ts) \<longleftrightarrow> wf_terms ar vs ts"
| "wf_terms ar vs (TIntern f c # ts) \<longleftrightarrow> wf_terms ar vs ts"
| "wf_terms ar vs (TList t u # ts) \<longleftrightarrow> wf_terms ar vs (t # u # ts)"
| "wf_terms ar vs (TStr p us # ts) \<longleftrightarrow> length us = ar p \<and> wf_terms ar vs (us @ ts)"
  by pat_completeness auto
termination
proof (relation "measure (\<lambda>(ar, vs, ts). sum_list (map (\<lambda>t. 2 * size t + 1) ts))")
  show "((ar, vs, us @ ts), ar, vs, TStr p us # ts) \<in> measure (\<lambda>(ar, vs, ts). sum_list (map (\<lambda>t. 2 * size t + 1) ts))"
    for ar :: "nat \<Rightarrow> nat" and vs :: "iaddr list" and p us ts using sum_sizes [of us] by simp
qed auto

lemma seen_grows: "\<exists>xs. seen vs ts = vs @ xs"
  by (induction vs ts rule: seen.induct) auto

lemma seen_distinct: "wf_terms ar vs ts \<Longrightarrow> distinct vs \<Longrightarrow> distinct (seen vs ts)"
  by (induction ar vs ts rule: wf_terms.induct) auto

lemma seen_vars: "set (seen vs ts) = set vs \<union> (\<Union>t \<in> set ts. tvars t)"
  by (induction vs ts rule: seen.induct) auto

lemma idx_map: "inj_on f (insert a (set vs)) \<Longrightarrow> idx (f a) (map f vs) = idx a vs"
proof -
  assume i: "inj_on f (insert a (set vs))"
  have "takeWhile (\<lambda>x. f x \<noteq> f a) vs = takeWhile (\<lambda>x. x \<noteq> a) vs"
    using i by (intro takeWhile_cong) (auto simp: inj_on_def)
  then show ?thesis by (simp add: idx_def takeWhile_map comp_def)
qed

lemma symbols_rename:
  "inj_on f (set vs \<union> (\<Union>t \<in> set ts. tvars t)) \<Longrightarrow> symbols (map f vs) (map (rename f) ts) = symbols vs ts"
proof (induction vs ts rule: seen.induct)
  case (2 vs a ts)
  have i: "inj_on f (insert a (set vs))" by (rule inj_on_subset [OF "2.prems"]) auto
  then have m: "f a \<in> set (map f vs) \<longleftrightarrow> a \<in> set vs" by (auto simp: inj_on_def)
  have "symbols (map f (if a \<in> set vs then vs else vs @ [a])) (map (rename f) ts) = symbols (if a \<in> set vs then vs else vs @ [a]) ts"
    by (rule "2.IH") (rule inj_on_subset [OF "2.prems"], auto)
  then show ?case using m idx_map [OF i] by (cases "a \<in> set vs") auto
next
  case (3 vs a t ts)
  have "symbols (map f (vs @ [a])) (map (rename f) (t # ts)) = symbols (vs @ [a]) (t # ts)"
    by (rule "3.IH") (rule inj_on_subset [OF "3.prems"], auto)
  then show ?case by simp
next
  case (6 vs t u ts)
  have "symbols (map f vs) (map (rename f) (t # u # ts)) = symbols vs (t # u # ts)"
    by (rule "6.IH") (rule inj_on_subset [OF "6.prems"], auto)
  then show ?case by simp
next
  case (7 vs p us ts)
  have "symbols (map f vs) (map (rename f) (us @ ts)) = symbols vs (us @ ts)"
    by (rule "7.IH") (rule inj_on_subset [OF "7.prems"], auto)
  then show ?case by simp
qed auto

text \<open>The symbols determine the terms up to the names of the variables.\<close>

definition renaming :: "iaddr list \<Rightarrow> iaddr list \<Rightarrow> iaddr \<Rightarrow> iaddr" where
  "renaming vs ws a = ws ! idx a vs"

lemma idx_nth: "a \<in> set vs \<Longrightarrow> vs ! idx a vs = a"
  by (induction vs) (auto simp: idx_def)

lemma symbols_inj:
  assumes "wf_terms ar vs ts" "wf_terms ar ws us" "distinct vs" "distinct ws" "length vs = length ws" "length ts = length us"
    "symbols vs ts @ xs = symbols ws us @ ys"
  shows "xs = ys \<and> length (seen vs ts) = length (seen ws us) \<and> us = map (rename (renaming (seen vs ts) (seen ws us))) ts"
  using assms
proof (induction vs ts arbitrary: ws us rule: seen.induct)
  case (1 vs)
  then show ?case by simp
next
  case (2 vs a ts)
  obtain u us' where us: "us = u # us'" "length ts = length us'" using "2.prems"(6) by (cases us) auto
  obtain b where u: "u = TVar b" "a \<in> set vs \<longleftrightarrow> b \<in> set ws" "a \<in> set vs \<Longrightarrow> idx a vs = idx b ws"
    using "2.prems"(7) us by (cases u) (auto split: if_splits)
  let ?vs = "if a \<in> set vs then vs else vs @ [a]" and ?ws = "if b \<in> set ws then ws else ws @ [b]"
  have IH: "xs = ys \<and> length (seen ?vs ts) = length (seen ?ws us') \<and> us' = map (rename (renaming (seen ?vs ts) (seen ?ws us'))) ts"
    using "2.prems" us u by (intro "2.IH") (auto split: if_splits)
  moreover have "renaming (seen ?vs ts) (seen ?ws us') a = b"
  proof -
    obtain xs1 ys1 where g: "seen ?vs ts = ?vs @ xs1" "seen ?ws us' = ?ws @ ys1" using seen_grows by metis
    have "idx a (?vs @ xs1) = idx b (?ws @ ys1)"
      using u "2.prems"(5) by (auto simp: idx_snoc idx_snoc(1) [of a "vs @ [a]" xs1, simplified] idx_snoc(1) [of b "ws @ [b]" ys1, simplified])
    then show ?thesis unfolding renaming_def g using idx_nth [of b "?ws @ ys1"] by simp
  qed
  ultimately show ?case using us u by simp
next
  case (3 vs a t ts)
  obtain u us' where us: "us = u # us'" "length ts = length us'" using "3.prems"(6) by (cases us) auto
  obtain b u1 where u: "u = TAttv b u1" using "3.prems"(7) us by (cases u) (auto split: if_splits)
  have new: "a \<notin> set vs" "b \<notin> set ws" using "3.prems"(1,2) us u by auto
  let ?S = "seen (vs @ [a]) (t # ts)" and ?W = "seen (ws @ [b]) (u1 # us')"
  have IH: "xs = ys \<and> length ?S = length ?W \<and> u1 # us' = map (rename (renaming ?S ?W)) (t # ts)"
    using "3.prems" us u by (intro "3.IH") auto
  moreover have "renaming ?S ?W a = b"
  proof -
    obtain xs1 ys1 where g: "?S = (vs @ [a]) @ xs1" "?W = (ws @ [b]) @ ys1" using seen_grows by metis
    have "idx a ((vs @ [a]) @ xs1) = length vs" using idx_snoc(1) [of a "vs @ [a]" xs1] new by (simp add: idx_snoc)
    then show ?thesis unfolding renaming_def g using "3.prems"(5) by (simp add: nth_append)
  qed
  ultimately show ?case using us u by simp
next
  case (4 vs c ts)
  then obtain u us' where us: "us = u # us'" "length ts = length us'" by (cases us) auto
  then have u: "u = TConst c" using "4.prems"(7) by (cases u) (auto split: if_splits)
  show ?case using "4.IH" [of ws us'] "4.prems" us u by simp
next
  case (5 vs f c ts)
  then obtain u us' where us: "us = u # us'" "length ts = length us'" by (cases us) auto
  then have u: "u = TIntern f c" using "5.prems"(7) by (cases u) (auto split: if_splits)
  show ?case using "5.IH" [of ws us'] "5.prems" us u by simp
next
  case (6 vs t1 t2 ts)
  then obtain u us' where us: "us = u # us'" "length ts = length us'" by (cases us) auto
  then obtain u1 u2 where u: "u = TList u1 u2" using "6.prems"(7) by (cases u) (auto split: if_splits)
  show ?case using "6.IH" [of ws "u1 # u2 # us'"] "6.prems" us u by simp
next
  case (7 vs p ts1 ts)
  then obtain u us' where us: "us = u # us'" "length ts = length us'" by (cases us) auto
  then obtain us1 where u: "u = TStr p us1" using "7.prems"(7) by (cases u) (auto split: if_splits)
  then have len: "length ts1 = length us1" using "7.prems" us by simp
  show ?case using "7.IH" [of ws "us1 @ us'"] "7.prems" us u len by (simp add: append_eq_append_conv)
qed


text \<open>
  Tuples of \<open>n\<close> terms whose symbols are apart as words.
\<close>

definition terms_ok :: "nat set \<Rightarrow> (iaddr \<Rightarrow> nat) \<Rightarrow> (nat \<Rightarrow> nat) \<Rightarrow> nat \<Rightarrow> tterm list \<Rightarrow> bool" where
  "terms_ok P F ar n ts \<longleftrightarrow> length ts = n \<and> wf_terms ar [] ts \<and> (\<forall>y \<in> set (symbols [] ts). sym_ok P F y)"

definition path_of :: "tterm list \<Rightarrow> word64 list" where
  "path_of ts = map node_symbol (items [] ts)"

lemma path_of_words: "path_of ts = map sym_word (symbols [] ts)"
  by (simp add: path_of_def items_def sym_word_def)

lemma variant_path: "variant ts us \<Longrightarrow> path_of us = path_of ts"
  using symbols_rename [of _ "[]" ts] by (auto simp: variant_def path_of_words)

lemma path_prefix:
  assumes "terms_ok P F ar n ts" "terms_ok P F ar n us" "prefix (path_of ts) (path_of us)"
  shows "variant ts us \<and> path_of us = path_of ts"
proof -
  let ?x = "symbols [] ts" and ?y = "symbols [] us"
  obtain zs where zs: "map sym_word ?y = map sym_word ?x @ zs" using assms(3) unfolding path_of_words prefix_def by blast
  have "map sym_word ?x = map sym_word (take (length ?x) ?y)" unfolding take_map [symmetric] zs by simp
  moreover have "inj_on sym_word (set ?x \<union> set (take (length ?x) ?y))"
  proof (rule inj_onI)
    fix y z assume "y \<in> set ?x \<union> set (take (length ?x) ?y)" "z \<in> set ?x \<union> set (take (length ?x) ?y)" "sym_word y = sym_word z"
    then show "y = z" using assms(1,2) sym_word_inj [of P F y z] by (auto simp: terms_ok_def dest: in_set_takeD)
  qed
  ultimately have "?x = take (length ?x) ?y" using inj_on_map_eq_map by blast
  then have "?x @ drop (length ?x) ?y = ?y @ []" by (metis append_take_drop_id append_Nil2)
  moreover have "wf_terms ar [] ts" "wf_terms ar [] us" "length ts = length us" using assms(1,2) by (simp_all add: terms_ok_def)
  ultimately have R: "us = map (rename (renaming (seen [] ts) (seen [] us))) ts" "length (seen [] ts) = length (seen [] us)"
    using symbols_inj [of ar "[]" ts "[]" us "drop (length ?x) ?y" "[]"] by simp_all
  have d: "distinct (seen [] us)" using seen_distinct [of ar "[]" us] \<open>wf_terms ar [] us\<close> by simp
  have "inj_on (renaming (seen [] ts) (seen [] us)) (set (seen [] ts))"
  proof (rule inj_onI)
    fix a b assume ab: "a \<in> set (seen [] ts)" "b \<in> set (seen [] ts)" "renaming (seen [] ts) (seen [] us) a = renaming (seen [] ts) (seen [] us) b"
    then have "idx a (seen [] ts) = idx b (seen [] ts)"
      using d R(2) idx_less [OF ab(1)] idx_less [OF ab(2)] by (simp add: renaming_def nth_eq_iff_index_eq)
    then show "a = b" using ab idx_nth by metis
  qed
  then have "variant ts us" using R(1) seen_vars [of "[]" ts] by (auto simp: variant_def)
  then show ?thesis using variant_path by blast
qed


section \<open>Asserting a term into a trie\<close>

lemma cells_in_wf_all:
  "cell_in s vs p t vs' \<Longrightarrow> \<forall>us. wf_terms (psc_arity (wenv s)) vs' us \<longrightarrow> wf_terms (psc_arity (wenv s)) vs (t # us)"
  "cells_in s vs ps ts vs' \<Longrightarrow> \<forall>us. wf_terms (psc_arity (wenv s)) vs' us \<longrightarrow> wf_terms (psc_arity (wenv s)) vs (ts @ us)"
proof (induction rule: cell_in_cells_in.inducts)
  case (ci_str c a p b vs us vs')
  have "length us = psc_arity (wenv s) p"
    using cells_in_length [OF \<open>cells_in s vs (map (Pair False) (arg_cells (mem s) a (psc_arity (wenv s) p))) us vs'\<close>]
    by (simp add: arg_cells_def del: upt_Suc)
  then show ?case using ci_str by simp
qed auto

lemma cells_in_wf: "cells_in s vs ps ts vs' \<Longrightarrow> wf_terms (psc_arity (wenv s)) vs ts"
  using cells_in_wf_all(2) [of s vs ps ts vs'] by (metis append_Nil2 wf_terms.simps(1))

lemma undo_enum:
  "enum_ok (mem w) ve k vs \<Longrightarrow> fold bld_free (rev vs) (w\<lparr>mem := enum_mem (mem w) ve vs\<rparr>) = w"
proof (induction vs rule: rev_induct)
  case Nil
  then show ?case by (simp add: enum_mem_def)
next
  case (snoc a vs)
  have a: "a \<notin> set vs" "mem w a = Ref a" using snoc.prems by (auto simp: enum_ok_def)
  then have "bld_free a (w\<lparr>mem := enum_mem (mem w) ve (vs @ [a])\<rparr>) = w\<lparr>mem := enum_mem (mem w) ve vs\<rparr>"
    unfolding enum_mem_snoc [OF a(1)] by (auto simp: bld_free_def bld_def enum_mem_def fun_eq_iff)
  then show ?case using snoc.IH [OF enum_ok_butlast [OF snoc.prems]] by simp
qed

lemma sym_ok_symbol: "sym_ok P F y \<Longrightarrow> symbol_ok (fst (enc_sym y))"
proof -
  assume ok: "sym_ok P F y"
  show ?thesis
  proof (cases "\<exists>f c. y = SIntern f c")
    case True
    then show ?thesis by (auto simp: symbol_ok_def functor_symbol_def EncodeTrieList_def EncodeTriePSC_def pointer_tags sym_tags split: option.splits)
  next
    case False
    then have "fst (enc_sym y) = sym_word y" by (cases y) (auto simp: sym_word_def node_symbol_def)
    then show ?thesis using sym_word_tag [OF ok] sym_ok_by_tag(5) [OF ok] by (auto simp: symbol_ok_def)
  qed
qed

text \<open>The words that are interned structures and not predicate symbols.\<close>

definition interned :: "nat set \<Rightarrow> word64 \<Rightarrow> bool" where
  "interned P sy \<longleftrightarrow> (\<exists>a. 0 < a \<and> a < 2 ^ 60 \<and> nat a \<notin> P \<and> sy = makecs (addr_word a))"

lemma interned_symbols:
  "sym_ok P F (SFun p) \<Longrightarrow> \<not> interned P (sym_word (SFun p))"
  "sym_ok P F (SIntern f (CStruct a)) \<Longrightarrow> interned P (sym_word (SIntern f (CStruct a)))"
  using pointer_words_inj(2) [of "int p"] by (auto simp: interned_def sym_word_simps)

lemma tag_neqs: "XSB_LIST \<noteq> XSB_STRUCT" "XSB_STRUCT \<noteq> XSB_LIST"
  by (simp_all add: tag_defs)

lemma sym_ok_item:
  assumes ok: "sym_ok P F y"
  shows "item_ok (interned P) (enc_sym y)"
proof (cases "\<exists>f c. y = SIntern f c")
  case True
  then obtain f c where y: "y = SIntern f c" by blast
  have "cell_tag (cell_word c) = cell_tag (functor_symbol f) \<and> cell_word c \<noteq> 0"
    using ok y pointer_words_nonzero
    by (cases c) (auto simp: functor_symbol_def EncodeTrieList_def EncodeTriePSC_def pointer_tags sym_tags)
  moreover have "interned P (cell_word c)" if "cell_tag (functor_symbol f) = XSB_STRUCT"
    using ok y that interned_symbols(2) [of P F f] by (cases c) (auto simp: functor_symbol_def EncodeTrieList_def sym_tags sym_word_simps tag_neqs)
  ultimately show ?thesis using sym_ok_symbol [OF ok] y by (simp add: item_ok_def node_symbol_def)
next
  case False
  then have e: "snd (enc_sym y) = 0" "node_symbol (enc_sym y) = sym_word y" by (cases y; simp add: sym_word_def)+
  moreover have "fst (enc_sym y) = sym_word y" using e by (simp add: node_symbol_def)
  moreover have "\<not> interned P (sym_word y)" if "cell_tag (sym_word y) = XSB_STRUCT"
  proof -
    have "sym_tag y = XSB_STRUCT" using that sym_word_tag [OF ok] by simp
    then obtain p where "y = SFun p" using sym_ok_by_tag(2) [OF ok] False by blast
    then show ?thesis using interned_symbols(1) ok by blast
  qed
  ultimately show ?thesis using sym_ok_symbol [OF ok] by (simp add: item_ok_def)
qed

text \<open>The trie \<open>root\<close> stores the tuples \<open>T\<close> of \<open>n\<close> terms, up to variables.\<close>

definition trie_of_terms :: "nat set \<Rightarrow> (iaddr \<Rightarrow> nat) \<Rightarrow> (nat \<Rightarrow> nat) \<Rightarrow> nat \<Rightarrow> tries \<Rightarrow> nat set \<Rightarrow> nat \<Rightarrow> tterm list set \<Rightarrow> bool" where
  "trie_of_terms P F ar n s N root T \<longleftrightarrow> stores s N root (path_of ` T) \<and> kinds_ok (interned P) s N \<and>
     (\<forall>us \<in> T. terms_ok P F ar n us)"

lemma trie_assert_rep:
  assumes T: "trie_of_terms P F (psc_arity (wenv w)) n s N root T" and n: "0 < n"
    and args: "cells_in w [] (map (\<lambda>i. (True, Ref (cptr + int i))) [1..<Suc n]) ts vs" "enum_ok (mem w) ve k vs"
    and ok: "\<forall>y \<in> set (symbols [] ts). sym_ok P F y"
    and st: "ti_wam st = w" "ti_tries st = s" "VarEnumerator st = ve" "current_num_trievars st = k" "ti_pdl st = []"
  shows "\<exists>st' N'. trie_assert_chk_ins cptr n root st = Some st' \<and> ti_wam st' = w \<and> ti_pdl st' = [] \<and>
    VarEnumerator st' = ve \<and> current_num_trievars st' = k \<and>
    (ti_flag st' \<longleftrightarrow> (\<exists>us \<in> T. variant us ts)) \<and> trie_of_terms P F (psc_arity (wenv w)) n (ti_tries st') N' root (insert ts T) \<and>
    leaf_added (interned P) s N root (path_of ` T) (path_of ts) (ti_paren st') (ti_tries st') N'"
proof -
  let ?l = "path_of ts" and ?L = "path_of ` T"
  have tok: "terms_ok P F (psc_arity (wenv w)) n ts"
    using cells_in_wf [OF args(1)] cells_in_length [OF args(1)] ok by (simp add: terms_ok_def)
  have flag: "?l \<in> ?L \<longleftrightarrow> (\<exists>us \<in> T. variant us ts)"
  proof
    assume "?l \<in> ?L"
    then obtain us where "us \<in> T" "path_of ts = path_of us" by blast
    then show "\<exists>us \<in> T. variant us ts" using path_prefix [of P F _ n us ts] T tok by (auto simp: trie_of_terms_def)
  next
    assume "\<exists>us \<in> T. variant us ts"
    then show "?l \<in> ?L" using variant_path by blast
  qed
  have ne: "items [] ts \<noteq> []" using tok n items_Cons [of "[]" "hd ts" "tl ts"] by (cases ts) (auto simp: terms_ok_def)
  have so: "\<forall>i \<in> set (items [] ts). item_ok (interned P) i" using ok sym_ok_item by (auto simp: items_def)
  have pre: "k = ?l" if "k \<in> ?L" "prefix k ?l \<or> prefix ?l k" for k
  proof -
    from that(1) obtain us where us: "us \<in> T" "k = path_of us" by blast
    then have "terms_ok P F (psc_arity (wenv w)) n us" using T by (simp add: trie_of_terms_def)
    then show ?thesis using that(2) us(2) path_prefix [OF _ tok, of us] path_prefix [OF tok, of us] by auto
  qed
  have S: "stores s N root ?L" using T by (simp add: trie_of_terms_def)
  obtain q s1 where q: "fold_items ASSERT_TRIE_TT (items [] ts) (True, root, s) = Some (?l \<in> ?L, q, s1)"
    "\<And>i'. (\<forall>r. i' r = tn_instr s1 r \<or> r = q \<and> i' r = tn_instr s1 r + 4) \<Longrightarrow>
       \<exists>N'. leaf_added (interned P) s N root ?L ?l q (if ?l \<in> ?L then s1 else (MakeLeafNode q s1)\<lparr>tn_instr := i'\<rparr>) N'"
    using stores_insert [OF S so path_of_def _ pre, of ASSERT_TRIE_TT] ne by (auto simp: path_of_def)
  let ?st = "st\<lparr>ti_paren := root, ti_flag := True, ti_tag := XSB_FREE, ti_ctr := 0, ti_attv_ctr := 0, VarEnumerator_trail := []\<rparr>"
  have "ins_inv w ve k [] ?st" "ti_pdl ?st = []" "fps ?st = (True, root, s)" using st by (simp_all add: ins_inv_def enum_mem_def fps_def)
  from trie_assert_args_items [OF args this(1,2)] this(3) q(1)
  obtain st1 where st1: "trie_assert_args cptr [1..<Suc n] ?st = Some st1" "ins_inv w ve k vs st1" "fps st1 = (?l \<in> ?L, q, s1)" "ti_pdl st1 = []"
    by auto
  let ?st2 = "undo_answer_bindings (st1\<lparr>ti_pdl := []\<rparr>)"
  have f: "ti_flag ?st2 = (?l \<in> ?L)" "ti_paren ?st2 = q" "ti_tries ?st2 = s1" "ti_wam ?st2 = w" "ti_pdl ?st2 = []"
    "VarEnumerator ?st2 = ve" "current_num_trievars ?st2 = k"
    using st1(2,3) undo_enum [OF args(2)] by (auto simp: undo_answer_bindings_def fps_def ins_inv_def)
  have r: "trie_assert_chk_ins cptr n root st = Some (new_leaf ?st2)"
    using st1(1) n by (simp add: trie_assert_chk_ins_def Let_def del: upt_Suc)
  let ?up = "TN_UpgradeInstrTypeToSUCCESS q (ti_tag ?st2) (MakeLeafNode q s1)"
  have up: "(MakeLeafNode q s1)\<lparr>tn_instr := tn_instr ?up\<rparr> = ?up" and "\<forall>r. tn_instr ?up r = tn_instr s1 r \<or> r = q \<and> tn_instr ?up r = tn_instr s1 r + 4"
    by (simp_all add: TN_UpgradeInstrTypeToSUCCESS_def MakeLeafNode_def)
  from q(2) [OF this(2), unfolded up] obtain N' where N': "leaf_added (interned P) s N root ?L ?l q (if ?l \<in> ?L then s1 else ?up) N'" by blast
  have t: "ti_tries (new_leaf ?st2) = (if ?l \<in> ?L then s1 else ?up)" "ti_paren (new_leaf ?st2) = q" "ti_flag (new_leaf ?st2) = (?l \<in> ?L)"
    "ti_wam (new_leaf ?st2) = w" "ti_pdl (new_leaf ?st2) = []" "VarEnumerator (new_leaf ?st2) = ve" "current_num_trievars (new_leaf ?st2) = k"
    using f by (simp_all add: new_leaf_def)
  have "trie_of_terms P F (psc_arity (wenv w)) n (ti_tries (new_leaf ?st2)) N' root (insert ts T)"
    using N' T tok unfolding t trie_of_terms_def leaf_added_def by simp
  moreover have "leaf_added (interned P) s N root ?L ?l (ti_paren (new_leaf ?st2)) (ti_tries (new_leaf ?st2)) N'" using N' unfolding t .
  ultimately show ?thesis using r t(3-7) flag by (intro exI [of _ "new_leaf ?st2"] exI [of _ N']) simp
qed

section \<open>Properties\<close>

definition args_in :: "wam \<Rightarrow> iaddr \<Rightarrow> nat \<Rightarrow> tterm list \<Rightarrow> iaddr list \<Rightarrow> bool" where
  "args_in w cptr n ts vs \<longleftrightarrow> cells_in w [] (map (\<lambda>i. (True, Ref (cptr + int i))) [1..<Suc n]) ts vs"

definition symbols_ok :: "nat set \<Rightarrow> (iaddr \<Rightarrow> nat) \<Rightarrow> tterm list \<Rightarrow> bool" where
  "symbols_ok P F ts \<longleftrightarrow> (\<forall>y \<in> set (symbols [] ts). sym_ok P F y)"

text \<open>The enumerator has room for the variables \<open>vs\<close>, which are free cells outside it.\<close>

definition enum_fits :: "tins \<Rightarrow> iaddr list \<Rightarrow> bool" where
  "enum_fits st vs \<longleftrightarrow> enum_ok (mem (ti_wam st)) (VarEnumerator st) (current_num_trievars st) vs"

text \<open>C15: asserting a vector of at least one term into a trie that stores terms finds a variant of
  it, and then leaves the trie as it is, or adds the terms; the flag tells which, the node returned
  is their leaf, and the memory, whose variables were bound on the way, is what it was. A
  variant is a renaming of variables, in which an interned subterm counts as a constant, its
  address, as it does in the trie. The terms have no more variables than the enumerator has room
  for (\<open>enum_fits\<close>), so that it is not enlarged on the way; their constants, symbols and interned
  subterms fit the words of the trie and are told apart there (\<open>symbols_ok\<close>: integers of one
  cell, addresses below \<open>2 ^ 60\<close>, at most \<open>2 ^ 16\<close> variables); and the stack of the routine is empty.\<close>

theorem trie_assert_variant:
  assumes "trie_of_terms P F (psc_arity (wenv (ti_wam st))) n (ti_tries st) N root T" "0 < n"
    "args_in (ti_wam st) cptr n ts vs" "enum_fits st vs" "symbols_ok P F ts" "ti_pdl st = []"
  shows "\<exists>st' N'. trie_assert_chk_ins cptr n root st = Some st' \<and> ti_wam st' = ti_wam st \<and>
    (ti_flag st' \<longleftrightarrow> (\<exists>us \<in> T. variant us ts)) \<and> (ti_flag st' \<longrightarrow> ti_tries st' = ti_tries st) \<and>
    trie_of_terms P F (psc_arity (wenv (ti_wam st))) n (ti_tries st') N' root (insert ts T) \<and>
    walk (ti_tries st') N' root (path_of ts) (ti_paren st') \<and> IsLeafNode (ti_tries st') (ti_paren st')"
proof -
  note A = assms(3) [unfolded args_in_def] and E = assms(4) [unfolded enum_fits_def] and S = assms(5) [unfolded symbols_ok_def]
  obtain st' N' where R: "trie_assert_chk_ins cptr n root st = Some st'" "ti_wam st' = ti_wam st"
    "ti_flag st' \<longleftrightarrow> (\<exists>us \<in> T. variant us ts)" "trie_of_terms P F (psc_arity (wenv (ti_wam st))) n (ti_tries st') N' root (insert ts T)"
    "leaf_added (interned P) (ti_tries st) N root (path_of ` T) (path_of ts) (ti_paren st') (ti_tries st') N'"
    using trie_assert_rep [OF assms(1,2) A E S refl refl refl refl assms(6)] by blast
  have "ti_flag st' \<Longrightarrow> path_of ts \<in> path_of ` T" using R(3) variant_path by blast
  then have "ti_flag st' \<Longrightarrow> ti_tries st' = ti_tries st" using R(5) by (simp add: leaf_added_def)
  then show ?thesis using R unfolding leaf_added_def by blast
qed

text \<open>C16: two vectors of at least one term asserted one after the other get the same leaf exactly
  when they are variants, interned subterms being compared as constants. As for one insertion, the
  trie stores terms, neither has more variables than the enumerator has room for (\<open>enum_fits\<close>),
  and their symbols fit the words of the trie (\<open>symbols_ok\<close>).\<close>

theorem trie_assert_same_leaf:
  assumes "trie_of_terms P F (psc_arity (wenv (ti_wam st))) n (ti_tries st) N root T" "0 < n"
    "args_in (ti_wam st) cptr n ts vs" "enum_fits st vs" "symbols_ok P F ts"
    "args_in (ti_wam st) cptr' n us ws" "enum_fits st ws" "symbols_ok P F us" "ti_pdl st = []"
  shows "\<exists>st1 st2. trie_assert_chk_ins cptr n root st = Some st1 \<and> trie_assert_chk_ins cptr' n root st1 = Some st2 \<and>
    (ti_paren st2 = ti_paren st1 \<longleftrightarrow> variant ts us) \<and> (ti_paren st2 = ti_paren st1 \<longrightarrow> ti_flag st2)"
proof -
  let ?ar = "psc_arity (wenv (ti_wam st))"
  note A = assms(3) [unfolded args_in_def] and E = assms(4) [unfolded enum_fits_def] and S = assms(5) [unfolded symbols_ok_def]
  note A' = assms(6) [unfolded args_in_def] and E' = assms(7) [unfolded enum_fits_def] and S' = assms(8) [unfolded symbols_ok_def]
  obtain st1 N1 where R: "trie_assert_chk_ins cptr n root st = Some st1" "ti_wam st1 = ti_wam st" "ti_pdl st1 = []"
    "VarEnumerator st1 = VarEnumerator st" "current_num_trievars st1 = current_num_trievars st"
    "trie_of_terms P F ?ar n (ti_tries st1) N1 root (insert ts T)"
    "leaf_added (interned P) (ti_tries st) N root (path_of ` T) (path_of ts) (ti_paren st1) (ti_tries st1) N1"
    using trie_assert_rep [OF assms(1,2) A E S refl refl refl refl assms(9)] by blast
  obtain st2 N2 where R2: "trie_assert_chk_ins cptr' n root st1 = Some st2" "ti_flag st2 \<longleftrightarrow> (\<exists>vs \<in> insert ts T. variant vs us)"
    "trie_of_terms P F ?ar n (ti_tries st2) N2 root (insert us (insert ts T))"
    "leaf_added (interned P) (ti_tries st1) N1 root (path_of ` insert ts T) (path_of us) (ti_paren st2) (ti_tries st2) N2"
    using trie_assert_rep [OF R(6) assms(2) A' E' S' R(2) refl R(4,5,3)] by blast
  have w: "walk (ti_tries st2) N2 root (path_of ts) (ti_paren st1)" "walk (ti_tries st2) N2 root (path_of us) (ti_paren st2)"
    using R(7) R2(4) by (simp_all add: leaf_added_def)
  have s2: "trie_ok (ti_tries st2) N2" "root \<in> N2" "IsTrieRoot (ti_tries st2) root"
    using R2(3) by (simp_all add: trie_of_terms_def stores_def)
  have "ti_paren st2 = ti_paren st1 \<longleftrightarrow> path_of us = path_of ts"
  proof
    assume "ti_paren st2 = ti_paren st1"
    then have "walk (ti_tries st2) N2 root (path_of us) (ti_paren st1)" using w(2) by simp
    then show "path_of us = path_of ts" using walk_path_unique [OF s2(3) _ w(1)] by blast
  next
    assume "path_of us = path_of ts"
    then show "ti_paren st2 = ti_paren st1" using walk_unique [OF s2(1,2) _ w(1)] w(2) by simp
  qed
  moreover have "terms_ok P F ?ar n ts" "terms_ok P F ?ar n us" using R2(3) by (simp_all add: trie_of_terms_def)
  then have "path_of us = path_of ts \<Longrightarrow> variant ts us" using path_prefix [of P F ?ar n ts us] by simp
  then have "path_of us = path_of ts \<longleftrightarrow> variant ts us" using variant_path by blast
  ultimately have "ti_paren st2 = ti_paren st1 \<longleftrightarrow> variant ts us" by simp
  moreover have "variant ts us \<Longrightarrow> ti_flag st2" using R2(2) by blast
  ultimately show ?thesis using R(1) R2(1) by blast
qed

text \<open>A variable of a trie is encoded so that its number is read back, as long as the number
  fits 16 bits, and the first occurrence of a variable, the first occurrence of an attributed one
  and a later occurrence are told apart.\<close>

theorem trievar_roundtrip:
  assumes "i < 2 ^ 16"
  shows "DecodeTrieVar (EncodeTrieVar i) = i \<and> DecodeTrieVar (EncodeNewTrieVar i) = i \<and> DecodeTrieVar (EncodeNewTrieAttv i) = i \<and>
    IsTrieVar (EncodeTrieVar i) \<and> \<not> IsNewTrieVar (EncodeTrieVar i) \<and> \<not> IsNewTrieAttv (EncodeTrieVar i) \<and>
    IsTrieVar (EncodeNewTrieVar i) \<and> IsNewTrieVar (EncodeNewTrieVar i) \<and> \<not> IsNewTrieAttv (EncodeNewTrieVar i) \<and>
    IsTrieVar (EncodeNewTrieAttv i) \<and> \<not> IsNewTrieVar (EncodeNewTrieAttv i) \<and> IsNewTrieAttv (EncodeNewTrieAttv i)"
  using trievar_codes [OF assms] .



text \<open>C38: when the array the variables are bound to is full, its replacement does not hold the old
  cells: a variable numbered before leads to a cell that is not recognised any more, and its next
  occurrence is inserted as a new variable.\<close>

theorem expansion_forgets_variables:
  assumes "ins_inv w ve k vs st" "enum_ok (mem w) ve k vs" "length vs = k" "a \<in> set vs" "b \<noteq> a" "\<not> in_enum ve k b"
    "\<forall>x. in_enum (ti_alloc st (2 * k)) (2 * k) x \<longrightarrow> \<not> in_enum ve k x \<and> x \<notin> set vs"
  defines "st' \<equiv> (StandardizeAndTrailVariable b st)\<lparr>ti_ctr := k + 1\<rparr>"
  shows "deref (mem (ti_wam st')) (Ref a) = Some (Ref (ve + int (idx a vs))) \<and>
    \<not> IsStandardizedVariable st' (ve + int (idx a vs)) \<and>
    ins_variable tt (ve + int (idx a vs)) st' =
      map_option (\<lambda>st1. st1\<lparr>ti_ctr := ti_ctr st1 + 1\<rparr>)
        (ins_symbol tt (EncodeNewTrieVar (k + 1)) 0 (StandardizeAndTrailVariable (ve + int (idx a vs)) st'))"
proof -
  let ?i = "ve + int (idx a vs)" and ?n = "ti_alloc st (2 * k)"
  have i: "in_enum ve k ?i" using idx_less [OF assms(4)] assms(3) by (simp add: in_enum_def)
  have old: "\<not> in_enum ?n (2 * k) ?i" "\<not> in_enum ?n (2 * k) a" using assms(4,7) i by blast+
  have m: "mem (free_cells p n u) = (\<lambda>x. if in_enum p n x then Ref x else mem u x)" for p n u
  proof (induction n)
    case (Suc n)
    then show ?case by (auto simp: free_cells_def bld_free_def bld_def in_enum_def fun_eq_iff)
  qed (auto simp: free_cells_def in_enum_def fun_eq_iff)
  have st': "VarEnumerator st' = ?n" "current_num_trievars st' = 2 * k" "ti_ctr st' = k + 1"
    "\<And>x. mem (ti_wam st') x = (if x = b then mem (free_cells ?n (2 * k) (ti_wam st)) (?n + int k)
       else if in_enum ?n (2 * k) x then Ref x else enum_mem (mem w) ve vs x)"
    using assms(1,3) m by (simp_all add: st'_def StandardizeAndTrailVariable_def StandardizeVariable_def expand_varenumerators_def Let_def
        ins_inv_def bld_def)
  have "mem (ti_wam st') a = Ref ?i" using st'(4) assms(4,5) old by (simp add: enum_mem_def)
  moreover have "mem (ti_wam st') ?i = Ref ?i" using st'(4) [of ?i] assms(6) old i enum_mem_enum [OF assms(2) i] by auto
  ultimately have "deref (mem (ti_wam st')) (Ref a) = Some (Ref ?i)"
    by (simp add: deref_def deref_ref.simps deref_attv_other)
  moreover have "\<not> IsStandardizedVariable st' ?i" using old st' by (simp add: IsStandardizedVariable_def in_enum_def)
  ultimately show ?thesis using st'(3) by (simp add: ins_variable_def)
qed


section \<open>Instances\<close>

text \<open>The terms \<open>p(X, X)\<close> at address 100 and \<open>p(Y, Z)\<close> at 200.\<close>

definition demo_term_wam :: wam where
  "demo_term_wam = demo_wam\<lparr>mem := Ref(100 := CPsc 7, 102 := Ref 101, 200 := CPsc 7)\<rparr>"

definition demo_tins :: tins where
  "demo_tins = \<lparr>ti_wam = demo_term_wam, ti_tries = demo_tries, ti_flag = True, ti_paren = 0, ti_tag = 0, ti_ctr = 0,
     ti_attv_ctr = 0, ti_pdl = [], VarEnumerator = 1000, current_num_trievars = 2, VarEnumerator_trail = [], ti_alloc = (\<lambda>n. 1000 * int n)\<rparr>"

lemma demo_trie_of_terms: "trie_of_terms P F ar n demo_tries {1} 1 {}"
  using demo_tries_stores by (simp add: trie_of_terms_def kinds_ok_def demo_tries_def IsTrieRoot_def)

lemma demo_deref:
  "deref (mem demo_term_wam) (Ref 101) = Some (Ref 101)" "deref (mem demo_term_wam) (Ref 102) = Some (Ref 101)"
  "deref (mem demo_term_wam) (Ref 201) = Some (Ref 201)" "deref (mem demo_term_wam) (Ref 202) = Some (Ref 202)"
  by (simp_all add: demo_term_wam_def deref_def deref_ref.simps deref_attv_other)

lemma demo_args:
  "args_in demo_term_wam 100 2 [TVar 101, TVar 101] [101]" "args_in demo_term_wam 200 2 [TVar 201, TVar 202] [201, 202]"
proof -
  have "cell_in demo_term_wam [] (True, Ref 101) (TVar 101) [101]" "cell_in demo_term_wam [101] (True, Ref 102) (TVar 101) [101]"
    "cell_in demo_term_wam [] (True, Ref 201) (TVar 201) [201]" "cell_in demo_term_wam [201] (True, Ref 202) (TVar 202) [201, 202]"
    using ci_var [OF demo_deref(1), of "[]" True] ci_var [OF demo_deref(2), of "[101]" True]
      ci_var [OF demo_deref(3), of "[]" True] ci_var [OF demo_deref(4), of "[201]" True] by simp_all
  moreover have "[1..<Suc 2] = [1, 2]" by (simp add: upt_rec)
  ultimately show "args_in demo_term_wam 100 2 [TVar 101, TVar 101] [101]" "args_in demo_term_wam 200 2 [TVar 201, TVar 202] [201, 202]"
    unfolding args_in_def by (auto simp: cells_in_Cons_iff)
qed

lemma demo_fits: "enum_fits demo_tins [101]" "enum_fits demo_tins [201, 202]"
  by (auto simp: enum_fits_def enum_ok_def demo_tins_def demo_term_wam_def in_enum_def)

lemma demo_symbols: "symbols_ok P F [TVar 101, TVar 101]" "symbols_ok P F [TVar 201, TVar 202]"
  by (simp_all add: symbols_ok_def idx_def)

lemma demo_not_variant: "\<not> variant [TVar 101, TVar 101] [TVar 201, TVar 202]"
  by (auto simp: variant_def)

lemma demo_tins_fields [simp]: "ti_wam demo_tins = demo_term_wam" "ti_tries demo_tins = demo_tries" "ti_pdl demo_tins = []"
  by (simp_all add: demo_tins_def)

theorem trievar_roundtrip_witness: "DecodeTrieVar (EncodeNewTrieVar 5) = 5 \<and> IsNewTrieVar (EncodeNewTrieVar 5)"
  using trievar_roundtrip [of 5] by simp

theorem trie_assert_variant_witness:
  "\<exists>st'. trie_assert_chk_ins 100 2 1 demo_tins = Some st' \<and> ti_wam st' = demo_term_wam \<and> \<not> ti_flag st'"
  using trie_assert_variant [where P = "{7}" and F = "\<lambda>_. 7" and n = 2 and st = demo_tins and N = "{1}" and root = 1 and T = "{}" and cptr = 100
      and ts = "[TVar 101, TVar 101]" and vs = "[101]"]
    demo_trie_of_terms demo_args(1) demo_fits(1) demo_symbols(1) by auto

theorem trie_assert_same_leaf_witness:
  "\<exists>st1 st2. trie_assert_chk_ins 100 2 1 demo_tins = Some st1 \<and> trie_assert_chk_ins 200 2 1 st1 = Some st2 \<and> ti_paren st2 \<noteq> ti_paren st1"
  using trie_assert_same_leaf [where P = "{7}" and F = "\<lambda>_. 7" and n = 2 and st = demo_tins and N = "{1}" and root = 1 and T = "{}" and cptr = 100
      and ts = "[TVar 101, TVar 101]" and vs = "[101]" and cptr' = 200 and us = "[TVar 201, TVar 202]" and ws = "[201, 202]"]
    demo_trie_of_terms demo_args demo_fits demo_symbols demo_not_variant by auto

theorem expansion_forgets_variables_witness:
  "deref (mem (ti_wam (StandardizeAndTrailVariable 300 (demo_tins\<lparr>ti_ctr := 2, VarEnumerator_trail := [201, 202],
     ti_wam := demo_term_wam\<lparr>mem := enum_mem (mem demo_term_wam) 1000 [201, 202]\<rparr>\<rparr>)))) (Ref 201) = Some (Ref 1000)"
proof -
  let ?st = "demo_tins\<lparr>ti_ctr := 2, VarEnumerator_trail := [201, 202],
     ti_wam := demo_term_wam\<lparr>mem := enum_mem (mem demo_term_wam) 1000 [201, 202]\<rparr>\<rparr>"
  have "ins_inv demo_term_wam 1000 2 [201, 202] ?st" by (simp add: ins_inv_def demo_tins_def)
  moreover have "enum_ok (mem demo_term_wam) 1000 2 [201, 202]" using demo_fits(2) by (simp add: enum_fits_def demo_tins_def)
  moreover have "\<forall>x. in_enum (ti_alloc ?st (2 * 2)) (2 * 2) x \<longrightarrow> \<not> in_enum 1000 2 x \<and> x \<notin> set [201, 202]"
    by (auto simp: demo_tins_def in_enum_def)
  ultimately show ?thesis
    using expansion_forgets_variables [where w = demo_term_wam and ve = 1000 and k = 2 and vs = "[201, 202]" and st = ?st and a = 201 and b = 300] by (simp add: in_enum_def idx_def)
qed

end
