(* ===== verification/Trie_Load.thy ===== *)
theory Trie_Load imports Trie_Variant begin

text \<open>
  Reading a term back from a trie (\<open>tries.c\<close>): the symbols on the path from a leaf up to
  the root are pushed on a stack, and a term is built on the heap from that stack, cell by
  cell. The arrays grow on demand and are unbounded here, and so is the heap, except where
  the code checks it.
\<close>

section \<open>Words and cells\<close>

definition addr_of :: "word64 \<Rightarrow> iaddr" where
  "addr_of w = uint (dec_addr w) div 8"

definition word_cell :: "word64 \<Rightarrow> cell" where
  "word_cell w =
     (let t = cell_tag w in
      if t = XSB_INT then CInt (sint (int_val w))
      else if t = XSB_STRING then CStr (nat (addr_of w))
      else if t = XSB_FLOAT then CFlt w
      else if t = XSB_STRUCT then CStruct (addr_of w)
      else if t = XSB_LIST then CList (addr_of w)
      else if t = XSB_ATTV then CAttv (addr_of w)
      else Ref (addr_of w))"

definition DecodeTrieFunctor :: "word64 \<Rightarrow> nat" where
  "DecodeTrieFunctor sy = nat (addr_of sy)"

section \<open>The path of a leaf\<close>

definition trie_const_instr :: "nat \<Rightarrow> bool" where
  "trie_const_instr i \<longleftrightarrow> i AND 0xf8 = 0x70"

partial_function (option) par_chain_loop :: "tries \<Rightarrow> nat \<Rightarrow> (word64 \<times> bool) list \<Rightarrow> nat \<Rightarrow> ((word64 \<times> bool) list \<times> nat) option" where
  "par_chain_loop s p stk heap_space =
     (if p \<noteq> 0 \<and> \<not> IsTrieRoot s p
      then let sym = tn_symbol s p; str = cell_tag sym = XSB_STRUCT
           in par_chain_loop s (tn_parent s p) ((sym, str \<and> trie_const_instr (tn_instr s p)) # stk)
                (heap_space + (if str then 2 else 1))
      else Some (stk, heap_space))"

definition follow_par_chain :: "tries \<Rightarrow> nat \<Rightarrow> ((word64 \<times> bool) list \<times> nat) option" where
  "follow_par_chain s leaf = par_chain_loop s leaf [] 0"

partial_function (option) path_size_loop :: "tries \<Rightarrow> nat \<Rightarrow> nat \<Rightarrow> nat option" where
  "path_size_loop s p heap_space =
     (if p \<noteq> 0 \<and> \<not> IsTrieRoot s p
      then path_size_loop s (tn_parent s p) (heap_space + (if cell_tag (tn_symbol s p) = XSB_STRUCT then 2 else 1))
      else Some heap_space)"

definition trie_path_heap_size :: "tries \<Rightarrow> nat \<Rightarrow> nat option" where
  "trie_path_heap_size s leaf = path_size_loop s leaf 0"

section \<open>Building a term\<close>

text \<open>
  The stacks have their tops first. An element of \<open>var_addr\<close> is NULL or what the variable with
  this number is bound to: the address of a free variable or an attributed variable.
\<close>

record loader =
  ld_wam :: wam
  term_stack :: "(word64 \<times> bool) list"
  Addr_Stack :: "iaddr list"
  var_addr :: "nat \<Rightarrow> cell option"
  num_heap_term_vars :: nat
  var_addr_accum_num :: nat

definition new_binding :: "nat \<Rightarrow> cell \<Rightarrow> loader \<Rightarrow> loader" where
  "new_binding i v ld = ld\<lparr>var_addr := (var_addr ld)(i \<mapsto> v), num_heap_term_vars := num_heap_term_vars ld + 1\<rparr>"

text \<open>
  One symbol of the term stack, for the cell \<open>at\<close>: the value the cell gets, and whether the
  term goes on with the arguments pushed on \<open>Addr_Stack\<close>.
\<close>

definition load_value :: "cell \<Rightarrow> loader \<Rightarrow> (cell \<times> bool \<times> loader) option" where
  "load_value at ld0 =
     (case term_stack ld0 of
        [] \<Rightarrow> None
      | (sy, interned_node) # rest \<Rightarrow>
          (let ld = ld0\<lparr>term_stack := rest\<rparr>; w = ld_wam ld; h = hreg w; t = cell_tag sy in
           if t = XSB_REF then
             (let i = DecodeTrieVar sy;
                  ld1 = ld\<lparr>var_addr_accum_num := (if var_addr_accum_num ld \<le> i then i + 1 else var_addr_accum_num ld)\<rparr> in
              if IsNewTrieVar sy then Some (at, False, new_binding i at ld1)
              else if IsNewTrieAttv sy then
                Some (CAttv h, True, new_binding i (CAttv h)
                  (ld1\<lparr>ld_wam := (new_heap_free w)\<lparr>hreg := h + 2\<rparr>, Addr_Stack := (h + 1) # Addr_Stack ld\<rparr>))
              else (case var_addr ld i of
                      None \<Rightarrow> Some (at, False, new_binding i at ld1)
                    | Some v \<Rightarrow> Some (v, False, ld1)))
           else if t = XSB_STRING \<or> t = XSB_INT \<or> t = XSB_FLOAT then Some (word_cell sy, False, ld)
           else if t = XSB_LIST then
             if sy \<noteq> EncodeTrieList then Some (word_cell sy, False, ld)
             else Some (CList h, True, ld\<lparr>ld_wam := w\<lparr>hreg := h + 2\<rparr>, Addr_Stack := h # (h + 1) # Addr_Stack ld\<rparr>)
           else if t = XSB_STRUCT then
             if interned_node then Some (word_cell sy, False, ld)
             else (let p = DecodeTrieFunctor sy; n = psc_arity (wenv w) p in
                   Some (CStruct h, True, ld\<lparr>ld_wam := (bld h (CPsc p) w)\<lparr>hreg := h + int n + 1\<rparr>,
                     Addr_Stack := map (\<lambda>j. h + int j) [1..<Suc n] @ Addr_Stack ld\<rparr>))
           else None))"

partial_function (option) rec_macro_make_heap_term :: "loader \<Rightarrow> loader option" where
  "rec_macro_make_heap_term ld =
     (case Addr_Stack ld of
        [] \<Rightarrow> Some ld
      | a # as \<Rightarrow>
          (case load_value (Ref a) (ld\<lparr>Addr_Stack := as\<rparr>) of
             None \<Rightarrow> None
           | Some x \<Rightarrow> rec_macro_make_heap_term ((snd (snd x))\<lparr>ld_wam := bld a (fst x) (ld_wam (snd (snd x)))\<rparr>)))"

definition macro_make_heap_term :: "cell \<Rightarrow> loader \<Rightarrow> (cell \<times> loader) option" where
  "macro_make_heap_term at ld =
     (case load_value at ld of
        None \<Rightarrow> None
      | Some (v, deeper, ld1) \<Rightarrow> map_option (Pair v) (if deeper then rec_macro_make_heap_term ld1 else Some ld1))"

definition dbind_ref :: "iaddr \<Rightarrow> cell \<Rightarrow> wam \<Rightarrow> wam" where
  "dbind_ref a v w = bld a v (pushtrail0 a v w)"

fun load_solution_trie_1 :: "iaddr \<Rightarrow> nat list \<Rightarrow> loader \<Rightarrow> loader option" where
  "load_solution_trie_1 cptr [] ld = Some ld"
| "load_solution_trie_1 cptr (i # is) ld =
     (case deref (mem (ld_wam ld)) (Ref (cptr - int i)) of
        None \<Rightarrow> None
      | Some x \<Rightarrow>
          (case macro_make_heap_term x ld of
             None \<Rightarrow> None
           | Some (v, ld1) \<Rightarrow>
               if x = v then load_solution_trie_1 cptr is ld1
               else (case x of
                       CAttv a \<Rightarrow> load_solution_trie_1 cptr is
                         (ld1\<lparr>ld_wam := dbind_ref a v (add_interrupt (mem (ld_wam ld1) (a + 1)) v (ld_wam ld1))\<rparr>)
                     | Ref a \<Rightarrow> load_solution_trie_1 cptr is (ld1\<lparr>ld_wam := dbind_ref a v (ld_wam ld1)\<rparr>)
                     | _ \<Rightarrow> None)))"

text \<open>The attributed variables of the call come first among the variables.\<close>

definition init_attvs :: "nat \<Rightarrow> iaddr \<Rightarrow> loader \<Rightarrow> loader" where
  "init_attvs arity cptr ld =
     fold (\<lambda>i ld. let c = mem (ld_wam ld) (cptr - int i) in
             if isattv c then new_binding (num_heap_term_vars ld) c ld else ld) [0..<arity] ld"

text \<open>
  The check for room on the heap, in cells, with the margin \<open>OVERFLOW_MARGIN\<close>. Without it the
  vector at \<open>cptr\<close> is saved in the argument registers, which the garbage collector keeps up to
  date, and with it the address \<open>cptr\<close> itself when it is on the heap. The garbage collection
  or reallocation of the stacks, \<open>glstack_ensure_space\<close>, is a parameter \<open>ensure\<close>: it gets the number of
  cells and the number of registers in use, and \<open>None\<close> is its abort.
\<close>

type_synonym space_maker = "nat \<Rightarrow> nat \<Rightarrow> wam \<Rightarrow> wam option"

definition glstack_overflow :: "int \<Rightarrow> nat \<Rightarrow> wam \<Rightarrow> bool" where
  "glstack_overflow margin extra w \<longleftrightarrow> top_of_localstk w < hreg w + (margin + int extra)"

definition save_vector :: "iaddr \<Rightarrow> nat \<Rightarrow> nat \<Rightarrow> wam \<Rightarrow> wam" where
  "save_vector cptr d arity w =
     fold (\<lambda>i w. bld_reg (i + d) (mem w (cptr - int arity + int i)) w) [1..<Suc arity] w"

definition restore_vector :: "iaddr \<Rightarrow> nat \<Rightarrow> nat \<Rightarrow> wam \<Rightarrow> wam" where
  "restore_vector cptr d arity w =
     fold (\<lambda>i w. bld (cptr - int arity + int i) (xreg w (i + d)) w) [1..<Suc arity] w"

definition handle_heap_overflow_trie :: "space_maker \<Rightarrow> iaddr \<Rightarrow> nat \<Rightarrow> nat \<Rightarrow> wam \<Rightarrow> (iaddr \<times> wam) option" where
  "handle_heap_overflow_trie ensure cptr arity heap_needed w =
     (if gl_low (wenv w) < cptr \<and> cptr < hreg w then
        if arity \<le> 254 then
          map_option (\<lambda>w1. let c = cell_ptr (xreg w1 1) in (c, restore_vector c 1 arity w1))
            (ensure heap_needed (arity + 1) (save_vector cptr 1 arity (bld_reg 1 (Ref cptr) w)))
        else None
      else if arity \<le> 255 then
        map_option (\<lambda>w1. (cptr, restore_vector cptr 0 arity w1)) (ensure heap_needed arity (save_vector cptr 0 arity w))
      else None)"

definition trie_heap_check :: "int \<Rightarrow> space_maker \<Rightarrow> iaddr \<Rightarrow> nat \<Rightarrow> nat \<Rightarrow> wam \<Rightarrow> (iaddr \<times> wam) option" where
  "trie_heap_check margin ensure cptr arity heap_needed w =
     (if glstack_overflow margin heap_needed w then handle_heap_overflow_trie ensure cptr arity heap_needed w
      else Some (cptr, w))"

definition load_solution_trie ::
  "int \<Rightarrow> space_maker \<Rightarrow> tries \<Rightarrow> nat \<Rightarrow> nat \<Rightarrow> iaddr \<Rightarrow> nat \<Rightarrow> loader \<Rightarrow> loader option" where
  "load_solution_trie margin ensure s arity attv_num cptr leaf ld0 =
     (let ld = ld0\<lparr>num_heap_term_vars := 0\<rparr> in
      if arity > 0 then
        (let ld1 = (if attv_num > 0 then init_attvs arity cptr ld else ld) in
         case follow_par_chain s leaf of
           None \<Rightarrow> None
         | Some (stk, heap_needed) \<Rightarrow>
             (case trie_heap_check margin ensure cptr arity heap_needed (ld_wam ld1) of
                None \<Rightarrow> None
              | Some (c, w) \<Rightarrow> load_solution_trie_1 c [0..<arity] (ld1\<lparr>term_stack := stk, ld_wam := w\<rparr>)))
      else Some ld)"

datatype load_error = No_heap | No_result

definition load_solution_trie_no_heapcheck ::
  "int \<Rightarrow> tries \<Rightarrow> nat \<Rightarrow> nat \<Rightarrow> iaddr \<Rightarrow> nat \<Rightarrow> loader \<Rightarrow> load_error + loader" where
  "load_solution_trie_no_heapcheck margin s arity attv_num cptr leaf ld0 =
     (let ld = ld0\<lparr>num_heap_term_vars := 0\<rparr> in
      if arity > 0 then
        (let ld1 = (if attv_num > 0 then init_attvs arity cptr ld else ld) in
         case follow_par_chain s leaf of
           None \<Rightarrow> Inl No_result
         | Some (stk, heap_needed) \<Rightarrow>
             if glstack_overflow margin heap_needed (ld_wam ld1) then Inl No_heap
             else (case load_solution_trie_1 cptr [0..<arity] (ld1\<lparr>term_stack := stk\<rparr>) of
                     None \<Rightarrow> Inl No_result | Some ld2 \<Rightarrow> Inr ld2))
      else Inr ld)"

section \<open>Symbols read back\<close>

lemma addr_of_tagged: "0 \<le> a \<Longrightarrow> a < 2 ^ 60 \<Longrightarrow> t AND 7 = t \<Longrightarrow> addr_of (addr_word a OR t) = a"
proof -
  assume a: "0 \<le> a" "a < 2 ^ 60" and t: "t AND 7 = t"
  have "uint (addr_word a) = 8 * a" unfolding addr_word_def uint_word_of_int using a by (simp add: take_bit_int_eq_self)
  then show ?thesis by (simp add: addr_of_def dec_addr_tagged [OF addr_word_aligned t])
qed

lemma addr_of_pointers:
  assumes "0 \<le> a" "a < 2 ^ 60"
  shows "addr_of (makestring (addr_word a)) = a" "addr_of (makecs (addr_word a)) = a" "addr_of (makelist (addr_word a)) = a"
  using addr_of_tagged [OF assms] tag_masked by (simp_all add: makestring_def makecs_def makelist_def enc_addr_def)

lemma word_cell_const: "const_ok c \<Longrightarrow> word_cell (cell_word c) = c"
proof (cases c)
  case (CInt i)
  have s: "sint (word_of_int i :: word64) = i" if "- (2 ^ 60) \<le> i" "i < 2 ^ 60"
    using that by (simp add: sint_sbintrunc' signed_take_bit_int_eq_self)
  show "const_ok c \<Longrightarrow> ?thesis" using CInt s int_val_makeint_id [of "word_of_int i"] by (simp add: word_cell_def pointer_tags)
next
  case (CStr n)
  show "const_ok c \<Longrightarrow> ?thesis" using CStr addr_of_pointers(1) [of "int n"] by (simp add: word_cell_def pointer_tags tag_defs)
qed (auto simp: word_cell_def tag_defs)

lemma word_cell_pointers:
  assumes "0 \<le> a" "a < 2 ^ 60"
  shows "word_cell (makecs (addr_word a)) = CStruct a" "word_cell (makelist (addr_word a)) = CList a"
  using addr_of_pointers(2,3) [OF assms] by (simp_all add: word_cell_def pointer_tags tag_defs)

lemma const_kinds: "i div 4 = 28 \<or> i div 4 = 29 \<Longrightarrow> trie_const_instr i" "i div 4 = 24 \<or> i div 4 = 25 \<Longrightarrow> \<not> trie_const_instr i"
proof -
  have r: "i \<in> set [4 * k..<4 * k + 4]" if "i div 4 = k" for k :: nat using that by auto
  have "\<forall>i \<in> set [112..<120]. trie_const_instr i" "\<forall>i \<in> set [96..<104]. \<not> trie_const_instr i"
    by (simp_all add: upt_rec trie_const_instr_def)
  then show "i div 4 = 28 \<or> i div 4 = 29 \<Longrightarrow> trie_const_instr i" "i div 4 = 24 \<or> i div 4 = 25 \<Longrightarrow> \<not> trie_const_instr i"
    using r [of 28] r [of 29] r [of 24] r [of 25] by auto
qed

text \<open>What is pushed for the node of a symbol.\<close>

definition pushed :: "nat set \<Rightarrow> word64 \<Rightarrow> word64 \<times> bool" where
  "pushed P sy = (sy, cell_tag sy = XSB_STRUCT \<and> interned P sy)"

definition word_size :: "word64 \<Rightarrow> nat" where
  "word_size sy = (if cell_tag sy = XSB_STRUCT then 2 else 1)"

lemma par_chain_walk:
  assumes K: "kinds_ok (interned P) s N" "trie_ok s N" "root \<in> N" "IsTrieRoot s root"
  shows "walk s N root l q \<Longrightarrow> par_chain_loop s q stk k = Some (map (pushed P) l @ stk, k + sum_list (map word_size l))"
proof (induction l arbitrary: q stk k rule: rev_induct)
  case Nil
  then show ?case using K(4) by (subst par_chain_loop.simps) simp
next
  case (snoc x l)
  then obtain r where r: "walk s N root l r" "q \<in> N" "\<not> IsTrieRoot s q" "tn_parent s q = r" "tn_symbol s q = x"
    by (auto simp: walk_snoc has_child_def)
  have q0: "q \<noteq> 0" using K(2) r(2) trie_repD(1) by (auto simp: trie_ok_def)
  have "trie_const_instr (tn_instr s q) = interned P x" if "cell_tag x = XSB_STRUCT"
  proof -
    have "let k = (if interned P x then 28 else 24) in tn_instr s q div 4 = k \<or> tn_instr s q div 4 = k + 1"
      using K(1) r that unfolding kinds_ok_def Let_def by blast
    then show ?thesis using const_kinds [of "tn_instr s q"] by (auto simp: Let_def split: if_splits)
  qed
  then have "(x, cell_tag x = XSB_STRUCT \<and> trie_const_instr (tn_instr s q)) = pushed P x" by (auto simp: pushed_def)
  then have "par_chain_loop s q stk k = par_chain_loop s r (pushed P x # stk) (k + word_size x)"
    using r q0 by (subst par_chain_loop.simps) (simp add: Let_def word_size_def)
  then show ?case using snoc.IH [OF r(1)] by simp
qed

section \<open>One symbol\<close>

lemma load_value_REF:
  assumes "i < 2 ^ 16" "term_stack ld = pushed P sy # rest" and y: "sy = EncodeTrieVar i \<or> sy = EncodeNewTrieVar i \<or> sy = EncodeNewTrieAttv i"
  defines "ld1 \<equiv> ld\<lparr>term_stack := rest, var_addr_accum_num := (if var_addr_accum_num ld \<le> i then i + 1 else var_addr_accum_num ld)\<rparr>"
  shows "load_value at ld =
    (if sy = EncodeNewTrieVar i then Some (at, False, new_binding i at ld1)
     else if sy = EncodeNewTrieAttv i then
       (let h = hreg (ld_wam ld) in Some (CAttv h, True, new_binding i (CAttv h)
          (ld1\<lparr>ld_wam := (new_heap_free (ld_wam ld))\<lparr>hreg := h + 2\<rparr>, Addr_Stack := (h + 1) # Addr_Stack ld\<rparr>)))
     else (case var_addr ld i of None \<Rightarrow> Some (at, False, new_binding i at ld1) | Some v \<Rightarrow> Some (v, False, ld1)))"
proof -
  note C = trievar_codes [OF assms(1)] and D = trievar_words_inj(4-6) [OF assms(1) assms(1)]
  have t: "cell_tag sy = XSB_REF" using y sym_tags by auto
  have d: "DecodeTrieVar sy = i" "IsNewTrieVar sy = (sy = EncodeNewTrieVar i)" "IsNewTrieAttv sy = (sy = EncodeNewTrieAttv i)"
    using y C D by metis+
  show ?thesis using assms(2) t d by (simp add: load_value_def pushed_def Let_def ld1_def cong: option.case_cong)
qed

lemma load_value_sym:
  assumes ok: "sym_ok P F y" and stk: "term_stack ld = pushed P (sym_word y) # rest"
  shows "y = SConst c \<or> y = SIntern f c \<Longrightarrow> load_value at ld = Some (c, False, ld\<lparr>term_stack := rest\<rparr>)"
    "y = SList \<Longrightarrow> load_value at ld = (let h = hreg (ld_wam ld) in Some (CList h, True,
       ld\<lparr>term_stack := rest, ld_wam := (ld_wam ld)\<lparr>hreg := h + 2\<rparr>, Addr_Stack := h # (h + 1) # Addr_Stack ld\<rparr>))"
    "y = SFun p \<Longrightarrow> load_value at ld = (let h = hreg (ld_wam ld); n = psc_arity (wenv (ld_wam ld)) p in Some (CStruct h, True,
       ld\<lparr>term_stack := rest, ld_wam := (bld h (CPsc p) (ld_wam ld))\<lparr>hreg := h + int n + 1\<rparr>,
          Addr_Stack := map (\<lambda>j. h + int j) [1..<Suc n] @ Addr_Stack ld\<rparr>))"
proof -
  have T: "cell_tag (sym_word y) = sym_tag y" by (rule sym_word_tag [OF ok])
  show "load_value at ld = Some (c, False, ld\<lparr>term_stack := rest\<rparr>)" if y: "y = SConst c \<or> y = SIntern f c"
  proof (cases "y = SConst c")
    case True
    have c: "const_ok c" using ok True by simp
    have ne: "XSB_INT \<noteq> XSB_REF" "XSB_STRING \<noteq> XSB_REF" "XSB_FLOAT \<noteq> XSB_REF" by (simp_all add: tag_defs)
    have "cell_tag (cell_word c) = XSB_INT \<or> cell_tag (cell_word c) = XSB_STRING \<or> cell_tag (cell_word c) = XSB_FLOAT"
      using const_tags [OF c] by simp
    then have t: "cell_tag (cell_word c) \<noteq> XSB_REF"
      "cell_tag (cell_word c) = XSB_STRING \<or> cell_tag (cell_word c) = XSB_INT \<or> cell_tag (cell_word c) = XSB_FLOAT"
      using ne by auto
    show ?thesis using stk True word_cell_const [OF c] unfolding load_value_def
      by (simp add: pushed_def sym_word_simps Let_def t)
  next
    case False
    then have y: "y = SIntern f c" using y by simp
    from ok y consider a where "c = CList a" "0 < a" "a < 2 ^ 60" | a where "c = CStruct a" "0 < a" "a < 2 ^ 60" "nat a \<notin> P"
      by (cases c) auto
    then show ?thesis
    proof cases
      case 1
      then show ?thesis using stk y word_cell_pointers(2) [of a] list_not_symbol [of a]
        by (simp add: load_value_def pushed_def sym_word_simps Let_def pointer_tags EncodeTrieList_def) (simp add: tag_defs)
    next
      case 2
      have "interned P (makecs (addr_word a))" using interned_symbols(2) [of P F f a] ok y 2 by (simp add: sym_word_simps)
      then show ?thesis using stk y 2 word_cell_pointers(1) [of a]
        by (simp add: load_value_def pushed_def sym_word_simps Let_def pointer_tags) (simp add: tag_defs)
    qed
  qed
  show "load_value at ld = (let h = hreg (ld_wam ld) in Some (CList h, True,
       ld\<lparr>term_stack := rest, ld_wam := (ld_wam ld)\<lparr>hreg := h + 2\<rparr>, Addr_Stack := h # (h + 1) # Addr_Stack ld\<rparr>))" if "y = SList"
    using that stk by (simp add: load_value_def pushed_def sym_word_simps Let_def sym_tags EncodeTrieList_def) (simp add: tag_defs)
  show "load_value at ld = (let h = hreg (ld_wam ld); n = psc_arity (wenv (ld_wam ld)) p in Some (CStruct h, True,
       ld\<lparr>term_stack := rest, ld_wam := (bld h (CPsc p) (ld_wam ld))\<lparr>hreg := h + int n + 1\<rparr>,
          Addr_Stack := map (\<lambda>j. h + int j) [1..<Suc n] @ Addr_Stack ld\<rparr>))" if y: "y = SFun p"
  proof -
    have "p < 2 ^ 60" using ok y by simp
    then have "DecodeTrieFunctor (makecs (addr_word (int p))) = p" using addr_of_pointers(2) [of "int p"] by (simp add: DecodeTrieFunctor_def)
    moreover have "\<not> interned P (makecs (addr_word (int p)))" using interned_symbols(1) [of P F p] ok y by (simp add: sym_word_simps)
    ultimately show ?thesis using stk y
      by (simp add: load_value_def pushed_def sym_word_simps Let_def pointer_tags del: upt_Suc) (simp add: tag_defs)
  qed
qed

section \<open>A term on the heap\<close>

text \<open>
  The value \<open>v\<close> stands for the term when the variables stand for \<open>b\<close>. The terms of a list are in
  consecutive cells.
\<close>

fun rep :: "(iaddr \<Rightarrow> cell) \<Rightarrow> (iaddr \<Rightarrow> cell) \<Rightarrow> tterm \<Rightarrow> cell \<Rightarrow> bool"
  and reps :: "(iaddr \<Rightarrow> cell) \<Rightarrow> (iaddr \<Rightarrow> cell) \<Rightarrow> tterm list \<Rightarrow> iaddr \<Rightarrow> bool" where
  "rep m b (TVar a) v \<longleftrightarrow> v = b a"
| "rep m b (TAttv a t) v \<longleftrightarrow> (case v of CAttv h \<Rightarrow> v = b a \<and> m h = Ref h \<and> rep m b t (m (h + 1)) | _ \<Rightarrow> False)"
| "rep m b (TConst c) v \<longleftrightarrow> v = c"
| "rep m b (TIntern f c) v \<longleftrightarrow> v = c"
| "rep m b (TList t u) v \<longleftrightarrow> (case v of CList h \<Rightarrow> rep m b t (m h) \<and> rep m b u (m (h + 1)) | _ \<Rightarrow> False)"
| "rep m b (TStr p us) v \<longleftrightarrow> (case v of CStruct h \<Rightarrow> m h = CPsc p \<and> reps m b us (h + 1) | _ \<Rightarrow> False)"
| "reps m b [] h \<longleftrightarrow> True"
| "reps m b (u # us) h \<longleftrightarrow> rep m b u (m h) \<and> reps m b us (h + 1)"

text \<open>The heap cells a term takes besides its own.\<close>

fun heap_cells :: "tterm \<Rightarrow> nat" where
  "heap_cells (TAttv a t) = 2 + heap_cells t"
| "heap_cells (TList t u) = 2 + heap_cells t + heap_cells u"
| "heap_cells (TStr p us) = 1 + length us + sum_list (map heap_cells us)"
| "heap_cells _ = 0"

abbreviation total :: "tterm list \<Rightarrow> nat" where
  "total ts \<equiv> sum_list (map heap_cells ts)"

definition fresh :: "wam \<Rightarrow> nat \<Rightarrow> iaddr set" where
  "fresh w n = {hreg w..<hreg w + int n}"

definition binds :: "(iaddr \<Rightarrow> cell) \<Rightarrow> iaddr list \<Rightarrow> (iaddr \<Rightarrow> cell) \<Rightarrow> bool" where
  "binds m vs b \<longleftrightarrow> inj_on (\<lambda>a. cell_ptr (b a)) (set vs) \<and> (\<forall>a \<in> set vs. \<exists>x. (b a = Ref x \<or> b a = CAttv x) \<and> m x = Ref x)"

definition holds :: "(iaddr \<Rightarrow> cell) \<Rightarrow> (iaddr \<Rightarrow> cell) \<Rightarrow> tterm list \<Rightarrow> iaddr list \<Rightarrow> bool" where
  "holds m b ts as \<longleftrightarrow> list_all2 (\<lambda>t a. rep m b t (m a)) ts as"

lemma holds_simps [simp]:
  "holds m b [] [] \<longleftrightarrow> True" "holds m b (t # ts) (a # as) \<longleftrightarrow> rep m b t (m a) \<and> holds m b ts as"
  by (simp_all add: holds_def)

lemma holds_append: "length us = length as \<Longrightarrow> holds m b (us @ ts) (as @ bs) \<longleftrightarrow> holds m b us as \<and> holds m b ts bs"
  by (simp add: holds_def list_all2_append)

lemma reps_holds: "reps m b us (h + 1) \<longleftrightarrow> holds m b us (map (\<lambda>j. h + int j) [1..<Suc (length us)])"
proof (induction us arbitrary: h)
  case (Cons u us)
  have "[1..<Suc (length (u # us))] = 1 # map Suc [1..<Suc (length us)]" 
    unfolding map_Suc_upt by (subst upt_conv_Cons) (simp_all del: upt_Suc)
  then have e: "map (\<lambda>j. h + int j) [1..<Suc (length (u # us))] = (h + 1) # map (\<lambda>j. (h + 1) + int j) [1..<Suc (length us)]"
    by (simp add: comp_def add_ac del: upt_Suc)
  show ?case unfolding e using Cons.IH [of "h + 1"] by (simp del: upt_Suc)
qed simp

definition load_pre :: "nat set \<Rightarrow> (iaddr \<Rightarrow> nat) \<Rightarrow> (word64 \<times> bool) list \<Rightarrow> iaddr list \<Rightarrow> (iaddr \<Rightarrow> cell) \<Rightarrow> tterm list \<Rightarrow> iaddr list \<Rightarrow> loader \<Rightarrow> bool" where
  "load_pre P F rest vs b ts as ld \<longleftrightarrow> length as = length ts \<and> distinct as \<and>
     term_stack ld = map (\<lambda>y. pushed P (sym_word y)) (symbols vs ts) @ rest \<and> (\<forall>y \<in> set (symbols vs ts). sym_ok P F y) \<and>
     wf_terms (psc_arity (wenv (ld_wam ld))) vs ts \<and> distinct vs \<and> (\<forall>i < length vs. var_addr ld i = Some (b (vs ! i))) \<and>
     set as \<inter> fresh (ld_wam ld) (total ts) = {} \<and> binds (mem (ld_wam ld)) vs b \<and>
     (\<forall>a \<in> set vs. cell_ptr (b a) \<notin> set as \<and> cell_ptr (b a) \<notin> fresh (ld_wam ld) (total ts))"

definition load_post :: "(word64 \<times> bool) list \<Rightarrow> iaddr list \<Rightarrow> (iaddr \<Rightarrow> cell) \<Rightarrow> tterm list \<Rightarrow> iaddr list \<Rightarrow> loader \<Rightarrow> loader \<Rightarrow> (iaddr \<Rightarrow> cell) \<Rightarrow> bool" where
  "load_post rest vs b ts as ld ld' b' \<longleftrightarrow> Addr_Stack ld' = [] \<and> term_stack ld' = rest \<and> (\<forall>a \<in> set vs. b' a = b a) \<and>
     (\<forall>i < length (seen vs ts). var_addr ld' i = Some (b' (seen vs ts ! i))) \<and> binds (mem (ld_wam ld')) (seen vs ts) b' \<and>
     (\<forall>m. (\<forall>x \<in> set as \<union> fresh (ld_wam ld) (total ts). m x = mem (ld_wam ld') x) \<longrightarrow> holds m b' ts as) \<and>
     ld_wam ld' = (ld_wam ld)\<lparr>mem := mem (ld_wam ld'), hreg := hreg (ld_wam ld) + int (total ts),
       trreg := trreg (ld_wam ld'), trail := trail (ld_wam ld')\<rparr> \<and>
     (\<forall>x. x \<notin> set as \<longrightarrow> x \<notin> fresh (ld_wam ld) (total ts) \<longrightarrow> mem (ld_wam ld') x = mem (ld_wam ld) x) \<and>
     (\<forall>a \<in> set (seen vs ts) - set vs. cell_ptr (b' a) \<in> set as \<union> fresh (ld_wam ld) (total ts))"

lemma binds_cong: "binds m vs b \<Longrightarrow> \<forall>a \<in> set vs. m' (cell_ptr (b a)) = m (cell_ptr (b a)) \<Longrightarrow> binds m' vs b"
  unfolding binds_def by fastforce

lemma binds_snoc:
  "binds m vs b \<Longrightarrow> a \<notin> set vs \<Longrightarrow> c = Ref x \<or> c = CAttv x \<Longrightarrow> m x = Ref x \<Longrightarrow> \<forall>y \<in> set vs. cell_ptr (b y) \<noteq> x \<Longrightarrow>
    binds m (vs @ [a]) (b(a := c))"
  unfolding binds_def by (auto simp: inj_on_def)

lemma nth_snoc_upd:
  "\<forall>i < length vs. f i = Some (b (vs ! i)) \<Longrightarrow> a \<notin> set vs \<Longrightarrow> \<forall>i < length (vs @ [a]). (f(length vs \<mapsto> c)) i = Some ((b(a := c)) ((vs @ [a]) ! i))"
  by (auto simp: nth_append less_Suc_eq)

text \<open>
  One step: the cell \<open>x\<close> gets the value \<open>v\<close>, sooner or later. \<open>H\<close> are the new cells that are filled at
  once and \<open>new\<close> those of the arguments \<open>us\<close>, which come next.
\<close>

lemma load_step:
  assumes pre: "load_pre P F rest vs b (t # ts) (x # xs) ld"
    and fr: "fresh (ld_wam ld) (total (t # ts)) = H \<union> set new \<union> fresh wn (total (us @ ts))"
    and ap: "(H \<union> set new) \<inter> fresh wn (total (us @ ts)) = {}" "H \<inter> set new = {}" "distinct new" "length us = length new"
    and ld2: "wenv (ld_wam ld2) = wenv (ld_wam ld)" "fresh (ld_wam ld2) = fresh wn"
      "ld_wam ld2 = (ld_wam ld)\<lparr>mem := mem (ld_wam ld2), hreg := hreg (ld_wam ld2)\<rparr>"
      "hreg (ld_wam ld2) + int (total us) = hreg (ld_wam ld) + int (heap_cells t)"
    and m: "\<And>y. y \<notin> H \<Longrightarrow> y \<noteq> x \<Longrightarrow> mem (ld_wam ld2) y = mem (ld_wam ld) y"
    and env: "vs1 = vs \<and> b1 = b \<and> var_addr ld2 = var_addr ld \<or>
      (\<exists>a c. a \<notin> set vs \<and> vs1 = vs @ [a] \<and> b1 = b(a := c) \<and> var_addr ld2 = (var_addr ld)(length vs \<mapsto> c) \<and>
        (c = Ref x \<or> (\<exists>h \<in> H. c = CAttv h)) \<and> mem (ld_wam ld2) (cell_ptr c) = Ref (cell_ptr c) \<and> (c = Ref x \<longrightarrow> v = Ref x))"
    and sy: "symbols vs (t # ts) = y # symbols vs1 (us @ ts)" "term_stack ld2 = map (\<lambda>y. pushed P (sym_word y)) (symbols vs1 (us @ ts)) @ rest"
      "\<And>ar. wf_terms ar vs (t # ts) \<Longrightarrow> wf_terms ar vs1 (us @ ts)" "seen vs (t # ts) = seen vs1 (us @ ts)"
    and r: "\<And>m' b'. \<forall>y \<in> H. m' y = mem (ld_wam ld2) y \<Longrightarrow> \<forall>a \<in> set vs1. b' a = b1 a \<Longrightarrow> holds m' b' us new \<Longrightarrow> rep m' b' t v"
  shows "load_pre P F rest vs1 b1 (us @ ts) (new @ xs) ld2 \<and>
    (\<forall>ld' b'. load_post rest vs1 b1 (us @ ts) (new @ xs) ld2 ld' b' \<longrightarrow>
       load_post rest vs b (t # ts) (x # xs) ld (ld'\<lparr>ld_wam := bld x v (ld_wam ld')\<rparr>) b')"
proof (intro conjI allI impI)
  note Q = pre [unfolded load_pre_def fr]
  have x: "x \<notin> set xs" "x \<notin> H" "x \<notin> set new" "x \<notin> fresh wn (total (us @ ts))" using Q by auto
  have pt: "\<forall>a \<in> set vs. cell_ptr (b a) \<noteq> x \<and> cell_ptr (b a) \<notin> H" using Q by auto
  have bi: "binds (mem (ld_wam ld2)) vs b" by (rule binds_cong [of "mem (ld_wam ld)"]) (use Q pt m in auto)
  have E: "binds (mem (ld_wam ld2)) vs1 b1 \<and> distinct vs1 \<and> (\<forall>i < length vs1. var_addr ld2 i = Some (b1 (vs1 ! i))) \<and>
    set vs \<subseteq> set vs1 \<and> (\<forall>a \<in> set vs. b1 a = b a) \<and> (\<forall>a \<in> set vs1 - set vs. cell_ptr (b1 a) \<in> insert x H \<and> (cell_ptr (b1 a) = x \<longrightarrow> v = Ref x))"
    using env
  proof
    assume e: "vs1 = vs \<and> b1 = b \<and> var_addr ld2 = var_addr ld"
    then show ?thesis using bi Q by simp
  next
    assume "\<exists>a c. a \<notin> set vs \<and> vs1 = vs @ [a] \<and> b1 = b(a := c) \<and> var_addr ld2 = (var_addr ld)(length vs \<mapsto> c) \<and>
        (c = Ref x \<or> (\<exists>h \<in> H. c = CAttv h)) \<and> mem (ld_wam ld2) (cell_ptr c) = Ref (cell_ptr c) \<and> (c = Ref x \<longrightarrow> v = Ref x)"
    then obtain a c where e: "a \<notin> set vs" "vs1 = vs @ [a]" "b1 = b(a := c)" "var_addr ld2 = (var_addr ld)(length vs \<mapsto> c)"
        "c = Ref x \<or> (\<exists>h \<in> H. c = CAttv h)" "mem (ld_wam ld2) (cell_ptr c) = Ref (cell_ptr c)" "c = Ref x \<longrightarrow> v = Ref x" by blast
    have c: "c = Ref (cell_ptr c) \<or> c = CAttv (cell_ptr c)" "cell_ptr c \<in> insert x H" "cell_ptr c = x \<longrightarrow> v = Ref x" using e(5,7) x(2) by auto
    have "binds (mem (ld_wam ld2)) (vs @ [a]) (b(a := c))" by (rule binds_snoc [OF bi e(1) c(1) e(6)]) (use pt c(2) in auto)
    moreover have "\<forall>i < length vs. var_addr ld i = Some (b (vs ! i))" using Q by simp
    note nth_snoc_upd [OF this e(1), of c]
    ultimately show ?thesis using e c Q by auto
  qed
  have P1: "\<forall>a \<in> set vs1. cell_ptr (b1 a) \<notin> set (new @ xs) \<and> cell_ptr (b1 a) \<notin> fresh wn (total (us @ ts))"
  proof
    fix a assume a: "a \<in> set vs1"
    show "cell_ptr (b1 a) \<notin> set (new @ xs) \<and> cell_ptr (b1 a) \<notin> fresh wn (total (us @ ts))"
    proof (cases "a \<in> set vs")
      case True then show ?thesis using Q E by auto
    next
      case False
      then have "cell_ptr (b1 a) \<in> insert x H" using E a by auto
      then show ?thesis using x ap(1,2) Q by auto
    qed
  qed
  show "load_pre P F rest vs1 b1 (us @ ts) (new @ xs) ld2"
    unfolding load_pre_def ld2(1,2) using Q ap sy E P1 by auto
  fix ld' b' assume post: "load_post rest vs1 b1 (us @ ts) (new @ xs) ld2 ld' b'"
  note R = post [unfolded load_post_def ld2(2)]
  let ?m = "(mem (ld_wam ld'))(x := v)"
  have H: "\<forall>y \<in> H. mem (ld_wam ld') y = mem (ld_wam ld2) y"
  proof
    fix y assume y: "y \<in> H"
    then have "y \<notin> set (new @ xs)" "y \<notin> fresh wn (total (us @ ts))" using Q ap(1,2) by auto
    then show "mem (ld_wam ld') y = mem (ld_wam ld2) y" using R by blast
  qed
  have hol: "holds m b' (t # ts) (x # xs)" if "\<forall>z \<in> set (x # xs) \<union> fresh (ld_wam ld) (total (t # ts)). m z = ?m z" for m
  proof -
    have z: "\<forall>z \<in> set (new @ xs) \<union> fresh wn (total (us @ ts)). m z = mem (ld_wam ld') z" using that x unfolding fr by auto
    then have hs: "holds m b' (us @ ts) (new @ xs)" using R by blast
    then have "holds m b' us new" "holds m b' ts xs" using ap(4) by (simp_all add: holds_append)
    moreover have "\<forall>y \<in> H. m y = mem (ld_wam ld2) y" using that x(2) H unfolding fr by auto
    moreover have "m x = v" using that by simp
    moreover have "\<forall>a \<in> set vs1. b' a = b1 a" using R by blast
    ultimately show ?thesis using r by simp
  qed
  have w: "ld_wam ld' = (ld_wam ld)\<lparr>mem := mem (ld_wam ld'), hreg := hreg (ld_wam ld) + int (total (t # ts)),
      trreg := trreg (ld_wam ld'), trail := trail (ld_wam ld')\<rparr>"
  proof -
    have "ld_wam ld' = (ld_wam ld2)\<lparr>mem := mem (ld_wam ld'), hreg := hreg (ld_wam ld2) + int (total (us @ ts)),
      trreg := trreg (ld_wam ld'), trail := trail (ld_wam ld')\<rparr>" using R by blast
    also have "\<dots> = (ld_wam ld)\<lparr>mem := mem (ld_wam ld'), hreg := hreg (ld_wam ld) + int (total (t # ts)),
      trreg := trreg (ld_wam ld'), trail := trail (ld_wam ld')\<rparr>"
      using ld2(4) by (subst ld2(3)) simp
    finally show ?thesis .
  qed
  have "bld x v (ld_wam ld') = (ld_wam ld)\<lparr>mem := mem (bld x v (ld_wam ld')), hreg := hreg (ld_wam ld) + int (total (t # ts)),
      trreg := trreg (bld x v (ld_wam ld')), trail := trail (bld x v (ld_wam ld'))\<rparr>"
    unfolding bld_def by (subst w) simp
  moreover have new: "\<forall>a \<in> set (seen vs (t # ts)) - set vs. cell_ptr (b' a) \<in> set (x # xs) \<union> fresh (ld_wam ld) (total (t # ts))"
  proof
    fix a assume a: "a \<in> set (seen vs (t # ts)) - set vs"
    show "cell_ptr (b' a) \<in> set (x # xs) \<union> fresh (ld_wam ld) (total (t # ts))"
    proof (cases "a \<in> set vs1")
      case True
      then have "b' a = b1 a" "cell_ptr (b1 a) \<in> insert x H" using R E a by auto
      then show ?thesis unfolding fr by auto
    next
      case False
      then have "cell_ptr (b' a) \<in> set (new @ xs) \<union> fresh wn (total (us @ ts))" using R a unfolding sy(4) by blast
      then show ?thesis unfolding fr by auto
    qed
  qed
  moreover have "binds ?m (seen vs (t # ts)) b'"
  proof -
    have B: "binds (mem (ld_wam ld')) (seen vs1 (us @ ts)) b'" using R by blast
    have "?m (cell_ptr (b' a)) = mem (ld_wam ld') (cell_ptr (b' a))" if "a \<in> set (seen vs1 (us @ ts))" for a
    proof (cases "cell_ptr (b' a) = x")
      case True
      have "a \<in> set vs1"
      proof (rule ccontr)
        assume "a \<notin> set vs1"
        then have "cell_ptr (b' a) \<in> set (new @ xs) \<union> fresh wn (total (us @ ts))" using R that by blast
        then show False using True x by auto
      qed
      then have "b' a = b1 a" using R by blast
      moreover have "a \<notin> set vs" using pt E True \<open>b' a = b1 a\<close> by auto
      ultimately have "v = Ref x" using E True \<open>a \<in> set vs1\<close> by auto
      moreover have "mem (ld_wam ld') x = Ref x" using B that True unfolding binds_def by fastforce
      ultimately show ?thesis using True by simp
    qed simp
    then show ?thesis unfolding sy(4) by (intro binds_cong [OF B]) auto
  qed
  moreover have "?m z = mem (ld_wam ld) z" if "z \<notin> set (x # xs)" "z \<notin> fresh (ld_wam ld) (total (t # ts))" for z
    using that R m [of z] unfolding fr by auto
  moreover have "\<forall>a \<in> set vs. b' a = b a"
  proof
    fix a assume "a \<in> set vs"
    then have "a \<in> set vs1" "b1 a = b a" using E by auto
    moreover have "\<forall>a \<in> set vs1. b' a = b1 a" using R by blast
    ultimately show "b' a = b a" by simp
  qed
  moreover have "Addr_Stack ld' = []" "term_stack ld' = rest" "\<forall>i < length (seen vs (t # ts)). var_addr ld' i = Some (b' (seen vs (t # ts) ! i))"
    using R sy(4) by auto
  ultimately show "load_post rest vs b (t # ts) (x # xs) ld (ld'\<lparr>ld_wam := bld x v (ld_wam ld')\<rparr>) b'"
    using hol unfolding load_post_def by (auto simp: bld_def)
qed

text \<open>What follows a symbol: the arguments \<open>us\<close> in the cells \<open>new\<close>, whatever the cell of the symbol holds meanwhile.\<close>

definition goes_on :: "nat set \<Rightarrow> (iaddr \<Rightarrow> nat) \<Rightarrow> (word64 \<times> bool) list \<Rightarrow> iaddr list \<Rightarrow> (iaddr \<Rightarrow> cell) \<Rightarrow> tterm \<Rightarrow> tterm list \<Rightarrow> iaddr \<Rightarrow> iaddr list \<Rightarrow>
    loader \<Rightarrow> cell \<Rightarrow> loader \<Rightarrow> iaddr list \<Rightarrow> (iaddr \<Rightarrow> cell) \<Rightarrow> tterm list \<Rightarrow> iaddr list \<Rightarrow> bool" where
  "goes_on P F rest vs b t ts x xs ld v ld1 vs1 b1 us new \<longleftrightarrow>
     x \<notin> set (new @ xs) \<and> x \<notin> fresh (ld_wam ld1) (total (us @ ts)) \<and> mem (ld_wam ld1) x = mem (ld_wam ld) x \<and>
     (\<forall>m. (\<forall>y. y \<noteq> x \<longrightarrow> m y = mem (ld_wam ld1) y) \<longrightarrow> (v = Ref x \<longrightarrow> m x = Ref x) \<longrightarrow>
       (let ld2 = ld1\<lparr>ld_wam := (ld_wam ld1)\<lparr>mem := m\<rparr>\<rparr> in load_pre P F rest vs1 b1 (us @ ts) (new @ xs) ld2 \<and>
        (\<forall>ld' b'. load_post rest vs1 b1 (us @ ts) (new @ xs) ld2 ld' b' \<longrightarrow>
           load_post rest vs b (t # ts) (x # xs) ld (ld'\<lparr>ld_wam := bld x v (ld_wam ld')\<rparr>) b')))"

definition weight :: "tterm list \<Rightarrow> nat" where
  "weight ts = sum_list (map (\<lambda>t. 2 * size t + 1) ts)"

lemma goes_onI:
  assumes pre: "load_pre P F rest vs b (t # ts) (x # xs) ld"
    and fr: "fresh (ld_wam ld) (total (t # ts)) = H \<union> set new \<union> fresh wn (total (us @ ts))"
    and ap: "(H \<union> set new) \<inter> fresh wn (total (us @ ts)) = {}" "H \<inter> set new = {}" "distinct new" "length us = length new"
    and ld1: "ld_wam ld1 = (ld_wam ld)\<lparr>mem := mem (ld_wam ld1), hreg := hreg wn\<rparr>"
      "hreg wn + int (total us) = hreg (ld_wam ld) + int (heap_cells t)"
    and m: "\<And>y. y \<notin> H \<Longrightarrow> mem (ld_wam ld1) y = mem (ld_wam ld) y"
    and env: "ws = vs \<and> bb = b \<and> var_addr ld1 = var_addr ld \<or>
      (\<exists>a c. a \<notin> set vs \<and> ws = vs @ [a] \<and> bb = b(a := c) \<and> var_addr ld1 = (var_addr ld)(length vs \<mapsto> c) \<and>
        (c = Ref x \<and> v = Ref x \<or> (\<exists>h \<in> H. c = CAttv h \<and> mem (ld_wam ld1) h = Ref h)))"
    and sy: "symbols vs (t # ts) = y # symbols ws (us @ ts)" "term_stack ld1 = map (\<lambda>y. pushed P (sym_word y)) (symbols ws (us @ ts)) @ rest"
      "\<And>ar. wf_terms ar vs (t # ts) \<Longrightarrow> wf_terms ar ws (us @ ts)" "seen vs (t # ts) = seen ws (us @ ts)"
    and r: "\<And>m' b'. \<forall>y \<in> H. m' y = mem (ld_wam ld1) y \<Longrightarrow> \<forall>a \<in> set ws. b' a = bb a \<Longrightarrow> holds m' b' us new \<Longrightarrow> rep m' b' t v"
  shows "goes_on P F rest vs b t ts x xs ld v ld1 ws bb us new"
  unfolding goes_on_def
proof (intro conjI allI impI)
  have "hreg (ld_wam ld1) = hreg wn" by (subst ld1(1)) simp
  then have "fresh (ld_wam ld1) = fresh wn" by (simp add: fresh_def fun_eq_iff)
  then show "x \<notin> set (new @ xs)" "x \<notin> fresh (ld_wam ld1) (total (us @ ts))" using pre [unfolded load_pre_def fr] by auto
  have "x \<notin> H" using pre fr by (auto simp: load_pre_def)
  then show "mem (ld_wam ld1) x = mem (ld_wam ld) x" by (rule m)
  fix m assume m': "\<forall>y. y \<noteq> x \<longrightarrow> m y = mem (ld_wam ld1) y" "v = Ref x \<longrightarrow> m x = Ref x"
  have xH: "x \<notin> H" using pre fr by (auto simp: load_pre_def)
  let ?ld2 = "ld1\<lparr>ld_wam := (ld_wam ld1)\<lparr>mem := m\<rparr>\<rparr>"
  have w: "wenv (ld_wam ld1) = wenv (ld_wam ld)" "hreg (ld_wam ld1) = hreg wn" by (subst ld1(1), simp)+
  have e: "ws = vs \<and> bb = b \<and> var_addr ?ld2 = var_addr ld \<or>
      (\<exists>a c. a \<notin> set vs \<and> ws = vs @ [a] \<and> bb = b(a := c) \<and> var_addr ?ld2 = (var_addr ld)(length vs \<mapsto> c) \<and>
        (c = Ref x \<or> (\<exists>h \<in> H. c = CAttv h)) \<and> mem (ld_wam ?ld2) (cell_ptr c) = Ref (cell_ptr c) \<and> (c = Ref x \<longrightarrow> v = Ref x))"
    using env
  proof (elim disjE exE conjE bexE)
    fix a c h assume "h \<in> H" "c = CAttv h" "mem (ld_wam ld1) h = Ref h" "a \<notin> set vs" "ws = vs @ [a]" "bb = b(a := c)"
      "var_addr ld1 = (var_addr ld)(length vs \<mapsto> c)"
    then show ?thesis using m'(1) xH by (intro disjI2 exI [of _ a] exI [of _ c]) auto
  qed (use m' in auto)
  show "let ld2 = ?ld2 in load_pre P F rest ws bb (us @ ts) (new @ xs) ld2 \<and>
        (\<forall>ld' b'. load_post rest ws bb (us @ ts) (new @ xs) ld2 ld' b' \<longrightarrow>
           load_post rest vs b (t # ts) (x # xs) ld (ld'\<lparr>ld_wam := bld x v (ld_wam ld')\<rparr>) b')"
    unfolding Let_def
  proof (rule load_step [OF pre fr ap _ _ _ _ _ e sy(1) _ sy(3,4)])
    show "ld_wam ?ld2 = (ld_wam ld)\<lparr>mem := mem (ld_wam ?ld2), hreg := hreg (ld_wam ?ld2)\<rparr>"
      using w(2) by (simp, subst ld1(1)) simp
    show "rep m' b' t v" if h: "\<forall>y \<in> H. m' y = mem (ld_wam ?ld2) y" "\<forall>a \<in> set ws. b' a = bb a" "holds m' b' us new" for m' b'
    proof (rule r [OF _ h(2,3)])
      show "\<forall>y \<in> H. m' y = mem (ld_wam ld1) y" using h(1) m'(1) xH by auto
    qed
  qed (use w ld1(2) m m' sy in \<open>auto simp: fresh_def\<close>)
qed

lemma goes_onD:
  assumes "goes_on P F rest vs b t ts x xs ld v ld1 ws bb us new" "\<forall>y. y \<noteq> x \<longrightarrow> m y = mem (ld_wam ld1) y" "v = Ref x \<longrightarrow> m x = Ref x"
  shows "load_pre P F rest ws bb (us @ ts) (new @ xs) (ld1\<lparr>ld_wam := (ld_wam ld1)\<lparr>mem := m\<rparr>\<rparr>)"
    "load_post rest ws bb (us @ ts) (new @ xs) (ld1\<lparr>ld_wam := (ld_wam ld1)\<lparr>mem := m\<rparr>\<rparr>) ld' b' \<Longrightarrow>
       load_post rest vs b (t # ts) (x # xs) ld (ld'\<lparr>ld_wam := bld x v (ld_wam ld')\<rparr>) b'"
    "x \<notin> set (new @ xs)" "x \<notin> fresh (ld_wam ld1) (total (us @ ts))" "mem (ld_wam ld1) x = mem (ld_wam ld) x"
  using assms unfolding goes_on_def Let_def by blast+

lemma load_post_stack: "load_post rest vs b ts as (ld\<lparr>Addr_Stack := zs\<rparr>) ld' b' \<longleftrightarrow> load_post rest vs b ts as ld ld' b'"
  by (simp add: load_post_def)

lemma symbol_ok:
  "load_value (Ref x) ld = Some (v, d, ld1) \<Longrightarrow> Addr_Stack ld1 = new @ xs \<Longrightarrow> \<not> d \<longrightarrow> us = [] \<and> new = [] \<Longrightarrow>
    weight (us @ ts) < weight (t # ts) \<Longrightarrow> goes_on P F rest vs b t ts x xs ld v ld1 vs1 b1 us new \<Longrightarrow>
    \<exists>v d ld1 vs1 b1 us new. load_value (Ref x) ld = Some (v, d, ld1) \<and> Addr_Stack ld1 = new @ xs \<and> (\<not> d \<longrightarrow> us = [] \<and> new = []) \<and>
    weight (us @ ts) < weight (t # ts) \<and> goes_on P F rest vs b t ts x xs ld v ld1 vs1 b1 us new"
  by blast

lemma args_set: "set (map (\<lambda>j. h + int j) [1..<Suc n]) = {h + 1..<h + int n + 1}"
proof (intro equalityI subsetI)
  fix y assume "y \<in> {h + 1..<h + int n + 1}"
  then have "y = h + int (nat (y - h))" "nat (y - h) \<in> set [1..<Suc n]" by auto
  then show "y \<in> set (map (\<lambda>j. h + int j) [1..<Suc n])" unfolding set_map by (rule image_eqI)
qed auto

lemma weight_args: "weight us \<le> 2 * size_list size us"
  by (induction us) (auto simp: weight_def)

lemma load_symbol:
  assumes pre: "load_pre P F rest vs b (t # ts) (x # xs) ld" and as: "Addr_Stack ld = xs"
  shows "\<exists>v d ld1 vs1 b1 us new. load_value (Ref x) ld = Some (v, d, ld1) \<and> Addr_Stack ld1 = new @ xs \<and> (\<not> d \<longrightarrow> us = [] \<and> new = []) \<and>
    weight (us @ ts) < weight (t # ts) \<and> goes_on P F rest vs b t ts x xs ld v ld1 vs1 b1 us new"
proof -
  let ?w = "ld_wam ld" and ?h = "hreg (ld_wam ld)"
  let ?stk = "\<lambda>vs1 us. map (\<lambda>y. pushed P (sym_word y)) (symbols vs1 (us @ ts)) @ rest"
  show ?thesis
  proof (cases t)
    case (TVar a)
    show ?thesis
    proof (cases "a \<in> set vs")
      case True
      have i: "idx a vs < 2 ^ 16" "term_stack ld = pushed P (EncodeTrieVar (idx a vs)) # ?stk vs []"
        using pre True TVar by (auto simp: load_pre_def sym_word_simps)
      have va: "var_addr ld (idx a vs) = Some (b a)"
        using pre idx_less [OF True] idx_nth [OF True] by (auto simp: load_pre_def)
      obtain ld1 where ld1: "load_value (Ref x) ld = Some (b a, False, ld1)" "ld_wam ld1 = ?w" "term_stack ld1 = ?stk vs []"
          "Addr_Stack ld1 = [] @ xs" "var_addr ld1 = var_addr ld"
        using load_value_REF [OF i, of "Ref x"] trievar_words_inj(4,5) [OF i(1) i(1)] va as by simp
      have "goes_on P F rest vs b t ts x xs ld (b a) ld1 vs b [] []"
        by (rule goes_onI [OF pre, where H = "{}" and wn = ?w and y = "SVar (idx a vs)"])
          (use ld1 TVar True in \<open>auto simp: fresh_def\<close>)
      then show ?thesis by (intro symbol_ok [OF ld1(1,4)]) (use TVar in \<open>simp_all add: weight_def\<close>)
    next
      case False
      have i: "length vs < 2 ^ 16" "term_stack ld = pushed P (EncodeNewTrieVar (length vs)) # ?stk (vs @ [a]) []"
        using pre False TVar by (auto simp: load_pre_def sym_word_simps)
      obtain ld1 where ld1: "load_value (Ref x) ld = Some (Ref x, False, ld1)" "ld_wam ld1 = ?w" "term_stack ld1 = ?stk (vs @ [a]) []"
          "Addr_Stack ld1 = [] @ xs" "var_addr ld1 = (var_addr ld)(length vs \<mapsto> Ref x)"
        using load_value_REF [OF i, of "Ref x"] as by (simp add: new_binding_def)
      have "goes_on P F rest vs b t ts x xs ld (Ref x) ld1 (vs @ [a]) (b(a := Ref x)) [] []"
        by (rule goes_onI [OF pre, where H = "{}" and wn = ?w and y = "SNew (length vs)"])
          (use ld1 TVar False in \<open>auto simp: fresh_def\<close>)
      then show ?thesis by (intro symbol_ok [OF ld1(1,4)]) (use TVar in \<open>simp_all add: weight_def\<close>)
    qed
  next
    case (TAttv a u)
    have new: "a \<notin> set vs" using pre TAttv by (simp add: load_pre_def)
    have i: "length vs < 2 ^ 16" "term_stack ld = pushed P (EncodeNewTrieAttv (length vs)) # ?stk (vs @ [a]) [u]"
      using pre TAttv by (auto simp: load_pre_def sym_word_simps)
    obtain ld1 where ld1: "load_value (Ref x) ld = Some (CAttv ?h, True, ld1)" "ld_wam ld1 = (new_heap_free ?w)\<lparr>hreg := ?h + 2\<rparr>"
        "term_stack ld1 = ?stk (vs @ [a]) [u]" "Addr_Stack ld1 = [?h + 1] @ xs" "var_addr ld1 = (var_addr ld)(length vs \<mapsto> CAttv ?h)"
      using load_value_REF [OF i, of "Ref x"] trievar_words_inj(6) [OF i(1) i(1)] as by (simp add: new_binding_def Let_def)
    have "goes_on P F rest vs b t ts x xs ld (CAttv ?h) ld1 (vs @ [a]) (b(a := CAttv ?h)) [u] [?h + 1]"
        by (rule goes_onI [OF pre, where H = "{?h}" and wn = "?w\<lparr>hreg := ?h + 2\<rparr>" and y = "SAttv (length vs)"])
          (use ld1 TAttv new in \<open>auto simp: fresh_def new_heap_free_def new_heap_node_def\<close>)
      then show ?thesis by (intro symbol_ok [OF ld1(1,4)]) (use TAttv in \<open>simp_all add: weight_def\<close>)
  next
    case (TConst c)
    have i: "sym_ok P F (SConst c)" "term_stack ld = pushed P (sym_word (SConst c)) # ?stk vs []"
      using pre TConst by (auto simp: load_pre_def)
    have lv: "load_value (Ref x) ld = Some (c, False, ld\<lparr>term_stack := ?stk vs []\<rparr>)" by (rule load_value_sym(1) [OF i]) simp
    have "goes_on P F rest vs b t ts x xs ld c (ld\<lparr>term_stack := ?stk vs []\<rparr>) vs b [] []"
        by (rule goes_onI [OF pre, where H = "{}" and wn = ?w and y = "SConst c"])
          (use TConst in \<open>auto simp: fresh_def\<close>)
      then show ?thesis by (intro symbol_ok [OF lv]) (use TConst as in \<open>simp_all add: weight_def\<close>)
  next
    case (TIntern f c)
    have i: "sym_ok P F (SIntern f c)" "term_stack ld = pushed P (sym_word (SIntern f c)) # ?stk vs []"
      using pre TIntern by (auto simp: load_pre_def)
    have lv: "load_value (Ref x) ld = Some (c, False, ld\<lparr>term_stack := ?stk vs []\<rparr>)" by (rule load_value_sym(1) [OF i]) simp
    have "goes_on P F rest vs b t ts x xs ld c (ld\<lparr>term_stack := ?stk vs []\<rparr>) vs b [] []"
        by (rule goes_onI [OF pre, where H = "{}" and wn = ?w and y = "SIntern f c"])
          (use TIntern in \<open>auto simp: fresh_def\<close>)
      then show ?thesis by (intro symbol_ok [OF lv]) (use TIntern as in \<open>simp_all add: weight_def\<close>)
  next
    case (TList u1 u2)
    have i: "sym_ok P F SList" "term_stack ld = pushed P (sym_word SList) # ?stk vs [u1, u2]" using pre TList by (auto simp: load_pre_def)
    let ?ld1 = "ld\<lparr>term_stack := ?stk vs [u1, u2], ld_wam := ?w\<lparr>hreg := ?h + 2\<rparr>, Addr_Stack := [?h, ?h + 1] @ xs\<rparr>"
    have lv: "load_value (Ref x) ld = Some (CList ?h, True, ?ld1)"
      using load_value_sym(2) [OF i refl, where at = "Ref x"] as by (simp add: Let_def)
    have "goes_on P F rest vs b t ts x xs ld (CList ?h) ?ld1 vs b [u1, u2] [?h, ?h + 1]"
        by (rule goes_onI [OF pre, where H = "{}" and wn = "?w\<lparr>hreg := ?h + 2\<rparr>" and y = SList])
          (use TList in \<open>auto simp: fresh_def\<close>)
      then show ?thesis by (intro symbol_ok [OF lv]) (use TList in \<open>simp_all add: weight_def\<close>)
  next
    case (TStr p us)
    let ?n = "psc_arity (wenv (ld_wam ld)) p"
    let ?args = "map (\<lambda>j. ?h + int j) [1..<Suc ?n]" and ?wn = "?w\<lparr>hreg := ?h + int ?n + 1\<rparr>"
    have i: "sym_ok P F (SFun p)" "term_stack ld = pushed P (sym_word (SFun p)) # ?stk vs us" and len: "length us = ?n"
      using pre TStr by (auto simp: load_pre_def)
    let ?ld1 = "ld\<lparr>term_stack := ?stk vs us, ld_wam := (bld ?h (CPsc p) ?w)\<lparr>hreg := ?h + int ?n + 1\<rparr>, Addr_Stack := ?args @ xs\<rparr>"
    have lv: "load_value (Ref x) ld = Some (CStruct ?h, True, ?ld1)"
      using load_value_sym(3) [OF i refl, where at = "Ref x"] as by (simp add: Let_def del: upt_Suc)
    have fr: "fresh ?w (total (t # ts)) = {?h} \<union> set ?args \<union> fresh ?wn (total (us @ ts))"
      unfolding args_set using len TStr by (auto simp: fresh_def)
    have ar: "({?h} \<union> set ?args) \<inter> fresh ?wn (total (us @ ts)) = {}" "{?h} \<inter> set ?args = {}" unfolding args_set by (auto simp: fresh_def)
    have di: "distinct ?args" by (simp add: distinct_map inj_on_def del: upt_Suc)
    have "goes_on P F rest vs b t ts x xs ld (CStruct ?h) ?ld1 vs b us ?args"
    proof (rule goes_onI [OF pre fr ar di, where y = "SFun p"])
      show "rep m' b' t (CStruct ?h)" if "\<forall>y \<in> {?h}. m' y = mem (ld_wam ?ld1) y" "holds m' b' us ?args" for m' b'
        using that len reps_holds [of m' b' us ?h] TStr by (simp add: bld_def del: upt_Suc)
    qed (use TStr len in \<open>simp_all add: bld_def del: upt_Suc\<close>)
    then show ?thesis
      by (intro symbol_ok [OF lv]) (use TStr weight_args [of us] in \<open>simp_all add: weight_def del: upt_Suc\<close>)
  qed
qed

lemma load_rest:
  "load_pre P F rest vs b ts as ld \<Longrightarrow> Addr_Stack ld = as \<Longrightarrow>
    \<exists>ld' b'. rec_macro_make_heap_term ld = Some ld' \<and> load_post rest vs b ts as ld ld' b'"
proof (induction "weight ts" arbitrary: vs b ts as ld rule: less_induct)
  case less
  show ?case
  proof (cases ts)
    case Nil
    then have "as = []" "term_stack ld = rest" using less.prems by (auto simp: load_pre_def)
    then show ?thesis using less.prems Nil
      by (intro exI [of _ ld] exI [of _ b]) (auto simp: rec_macro_make_heap_term.simps load_post_def load_pre_def)
  next
    case (Cons t ts')
    obtain x xs where as: "as = x # xs" using less.prems Cons by (cases as) (auto simp: load_pre_def)
    have "load_pre P F rest vs b (t # ts') (x # xs) (ld\<lparr>Addr_Stack := xs\<rparr>)" using less.prems(1) Cons as by (simp add: load_pre_def)
    moreover have "Addr_Stack (ld\<lparr>Addr_Stack := xs\<rparr>) = xs" by simp
    note load_symbol [OF calculation this]
    then obtain v d ld1 vs1 b1 us new where L: "load_value (Ref x) (ld\<lparr>Addr_Stack := xs\<rparr>) = Some (v, d, ld1)" "Addr_Stack ld1 = new @ xs"
      "weight (us @ ts') < weight (t # ts')" "goes_on P F rest vs b t ts' x xs (ld\<lparr>Addr_Stack := xs\<rparr>) v ld1 vs1 b1 us new"
      by (elim exE conjE) (assumption | rule that)+
    let ?ld2 = "ld1\<lparr>ld_wam := bld x v (ld_wam ld1)\<rparr>"
    have m: "\<forall>y. y \<noteq> x \<longrightarrow> ((mem (ld_wam ld1))(x := v)) y = mem (ld_wam ld1) y" "v = Ref x \<longrightarrow> ((mem (ld_wam ld1))(x := v)) x = Ref x" by auto
    note G = goes_onD [OF L(4) m, folded bld_def, unfolded load_post_stack]
    obtain ld' b' where R: "rec_macro_make_heap_term ?ld2 = Some ld'" "load_post rest vs1 b1 (us @ ts') (new @ xs) ?ld2 ld' b'"
      using less.hyps [OF _ G(1)] L(2,3) Cons by auto
    have "rec_macro_make_heap_term ld = Some ld'"
      using R(1) L(1) less.prems(2) as by (subst rec_macro_make_heap_term.simps) simp
    moreover have "ld'\<lparr>ld_wam := bld x v (ld_wam ld')\<rparr> = ld'"
    proof -
      have "x \<notin> set (new @ xs)" "x \<notin> fresh (ld_wam ?ld2) (total (us @ ts'))" using G(3,4) by (simp_all add: fresh_def bld_def)
      then have "mem (ld_wam ld') x = mem (ld_wam ?ld2) x" using R(2) unfolding load_post_def by blast
      then have "mem (ld_wam ld') x = v" by (simp add: bld_def)
      then show ?thesis by (simp add: bld_def fun_upd_idem)
    qed
    ultimately show ?thesis using G(2) [OF R(2)] Cons as by auto
  qed
qed


section \<open>One argument, and all of them\<close>

lemma make_term:
  assumes pre: "load_pre P F rest vs b [t] [x] ld" and as: "Addr_Stack ld = []" and free: "mem (ld_wam ld) x = Ref x"
  shows "\<exists>v ld' b'. macro_make_heap_term (Ref x) ld = Some (v, ld') \<and> mem (ld_wam ld') x = Ref x \<and>
    load_post rest vs b [t] [x] ld (ld'\<lparr>ld_wam := bld x v (ld_wam ld')\<rparr>) b'"
proof -
  obtain v d ld1 ws bb us new where L: "load_value (Ref x) ld = Some (v, d, ld1)" "Addr_Stack ld1 = new @ []" "\<not> d \<longrightarrow> us = [] \<and> new = []"
      "goes_on P F rest vs b t [] x [] ld v ld1 ws bb us new"
    using load_symbol [OF pre as] by (elim exE conjE) (assumption | rule that)+
  have "mem (ld_wam ld1) x = Ref x" using L(4) free by (simp add: goes_on_def)
  then have m: "\<forall>y. y \<noteq> x \<longrightarrow> mem (ld_wam ld1) y = mem (ld_wam ld1) y" "v = Ref x \<longrightarrow> mem (ld_wam ld1) x = Ref x" by auto
  have e: "ld1\<lparr>ld_wam := (ld_wam ld1)\<lparr>mem := mem (ld_wam ld1)\<rparr>\<rparr> = ld1" by simp
  note G = goes_onD [OF L(4) m, unfolded e]
  obtain ld' b' where R: "rec_macro_make_heap_term ld1 = Some ld'" "load_post rest ws bb (us @ []) (new @ []) ld1 ld' b'"
    using load_rest [OF G(1) L(2)] by blast
  have "macro_make_heap_term (Ref x) ld = Some (v, ld')"
  proof (cases d)
    case True
    then show ?thesis using L(1) R(1) by (simp add: macro_make_heap_term_def)
  next
    case False
    then have "rec_macro_make_heap_term ld1 = Some ld1" using L(2,3) by (subst rec_macro_make_heap_term.simps) simp
    then show ?thesis using False L(1) R(1) by (simp add: macro_make_heap_term_def)
  qed
  moreover have "mem (ld_wam ld') x = mem (ld_wam ld1) x" using R(2) G(3,4) unfolding load_post_def by blast
  ultimately show ?thesis using G(2) [OF R(2)] \<open>mem (ld_wam ld1) x = Ref x\<close> by auto
qed

lemma seen_append: "seen vs (ts @ us) = seen (seen vs ts) us"
  by (induction vs ts rule: seen.induct) auto

lemma symbols_append: "symbols vs (ts @ us) = symbols vs ts @ symbols (seen vs ts) us"
  by (induction vs ts rule: seen.induct) (auto simp: Let_def)

lemma wf_terms_append: "wf_terms ar vs (ts @ us) \<longleftrightarrow> wf_terms ar vs ts \<and> wf_terms ar (seen vs ts) us"
  by (induction vs ts rule: seen.induct) auto

lemma fresh_add: "fresh w (j + k) = fresh w j \<union> fresh (w\<lparr>hreg := hreg w + int j\<rparr>) k"
  by (auto simp: fresh_def)

lemma rep_cong:
  "\<forall>a \<in> tvars t. b a = c a \<Longrightarrow> rep m b t v = rep m c t v"
  "\<forall>u \<in> set us. \<forall>a \<in> tvars u. b a = c a \<Longrightarrow> reps m b us h = reps m c us h"
proof (induction m b t v and m b us h rule: rep_reps.induct)
  case (5 m b t u v)
  then show ?case by (cases v) simp_all
next
  case (2 m b a t v)
  then show ?case by (cases v) simp_all
next
  case (6 m b p us v)
  then show ?case by (cases v) simp_all
qed simp_all

lemma holds_cong: "\<forall>t \<in> set ts. \<forall>a \<in> tvars t. b a = c a \<Longrightarrow> holds m b ts as = holds m c ts as"
proof (induction ts arbitrary: as)
  case (Cons t ts)
  then show ?case by (cases as) (simp_all add: holds_def rep_cong(1) [of t b c])
qed (simp add: holds_def)

lemma load_split:
  assumes pre: "load_pre P F rest vs b (ts @ us) (as @ bs) ld" and len: "length as = length ts"
  defines "stk \<equiv> map (\<lambda>y. pushed P (sym_word y)) (symbols (seen vs ts) us) @ rest"
  shows "load_pre P F stk vs b ts as ld"
    "load_post stk vs b ts as ld ldA bA \<Longrightarrow> load_pre P F rest (seen vs ts) bA us bs ldA"
    "load_post stk vs b ts as ld ldA bA \<Longrightarrow> load_post rest (seen vs ts) bA us bs ldA ldB bB \<Longrightarrow> load_post rest vs b (ts @ us) (as @ bs) ld ldB bB"
proof -
  let ?w = "ld_wam ld"
  note Q = pre [unfolded load_pre_def]
  have ft: "fresh ?w (total (ts @ us)) = fresh ?w (total ts) \<union> fresh (?w\<lparr>hreg := hreg ?w + int (total ts)\<rparr>) (total us)"
    using fresh_add [of ?w "total ts" "total us"] by simp
  have dj: "fresh ?w (total ts) \<inter> fresh (?w\<lparr>hreg := hreg ?w + int (total ts)\<rparr>) (total us) = {}" by (auto simp: fresh_def)
  show "load_pre P F stk vs b ts as ld"
    using Q len unfolding load_pre_def ft stk_def by (auto simp: symbols_append wf_terms_append)
  assume A: "load_post stk vs b ts as ld ldA bA"
  note RA = A [unfolded load_post_def]
  have wA: "ld_wam ldA = ?w\<lparr>mem := mem (ld_wam ldA), hreg := hreg ?w + int (total ts), trreg := trreg (ld_wam ldA), trail := trail (ld_wam ldA)\<rparr>"
    using RA by blast
  have hA: "hreg (ld_wam ldA) = hreg ?w + int (total ts)" "wenv (ld_wam ldA) = wenv ?w" by (subst wA, simp)+
  have fA: "fresh (ld_wam ldA) = fresh (?w\<lparr>hreg := hreg ?w + int (total ts)\<rparr>)" using hA by (simp add: fresh_def fun_eq_iff)
  have gr: "set vs \<subseteq> set (seen vs ts)" using seen_grows [of vs ts] by auto
  have pt: "cell_ptr (bA a) \<notin> set bs \<and> cell_ptr (bA a) \<notin> fresh (ld_wam ldA) (total us)" if a: "a \<in> set (seen vs ts)" for a
  proof (cases "a \<in> set vs")
    case True
    then have "bA a = b a" using RA by blast
    then show ?thesis using Q True unfolding ft fA by auto
  next
    case False
    then have "cell_ptr (bA a) \<in> set as \<union> fresh ?w (total ts)" using RA a by blast
    then show ?thesis using Q dj unfolding ft fA by auto
  qed
  show "load_pre P F rest (seen vs ts) bA us bs ldA"
    unfolding load_pre_def hA(2) using Q RA pt seen_distinct [of "psc_arity (wenv ?w)" vs ts] len
    unfolding ft fA stk_def by (auto simp: symbols_append wf_terms_append)
  assume B: "load_post rest (seen vs ts) bA us bs ldA ldB bB"
  note RB = B [unfolded load_post_def fA]
  have ab: "\<forall>a \<in> set (seen vs ts). bB a = bA a" using RB by blast
  have fr: "mem (ld_wam ldB) z = mem (ld_wam ldA) z" if "z \<in> set as \<union> fresh ?w (total ts)" for z
  proof -
    have "z \<notin> set bs" "z \<notin> fresh (?w\<lparr>hreg := hreg ?w + int (total ts)\<rparr>) (total us)" using that Q dj unfolding ft by auto
    then show ?thesis using RB by blast
  qed
  have hol: "holds m bB (ts @ us) (as @ bs)" if m: "\<forall>z \<in> set (as @ bs) \<union> fresh ?w (total (ts @ us)). m z = mem (ld_wam ldB) z" for m
  proof -
    have "\<forall>z \<in> set as \<union> fresh ?w (total ts). m z = mem (ld_wam ldA) z" using m fr unfolding ft by auto
    then have "holds m bA ts as" using RA by blast
    moreover have "\<forall>t \<in> set ts. \<forall>a \<in> tvars t. bA a = bB a"
    proof (intro ballI)
      fix t a assume "t \<in> set ts" "a \<in> tvars t"
      then have "a \<in> set (seen vs ts)" using seen_vars [of vs ts] by blast
      then show "bA a = bB a" using ab by simp
    qed
    ultimately have "holds m bB ts as" using holds_cong by blast
    moreover have "\<forall>z \<in> set bs \<union> fresh (?w\<lparr>hreg := hreg ?w + int (total ts)\<rparr>) (total us). m z = mem (ld_wam ldB) z" using m unfolding ft by auto
    then have "holds m bB us bs" using RB by blast
    ultimately show ?thesis using len by (simp add: holds_append)
  qed
  have "ld_wam ldB = ?w\<lparr>mem := mem (ld_wam ldB), hreg := hreg ?w + int (total (ts @ us)), trreg := trreg (ld_wam ldB), trail := trail (ld_wam ldB)\<rparr>"
  proof -
    have "ld_wam ldB = (ld_wam ldA)\<lparr>mem := mem (ld_wam ldB), hreg := hreg (ld_wam ldA) + int (total us), trreg := trreg (ld_wam ldB), trail := trail (ld_wam ldB)\<rparr>"
      using RB by blast
    also have "\<dots> = ?w\<lparr>mem := mem (ld_wam ldB), hreg := hreg ?w + int (total (ts @ us)), trreg := trreg (ld_wam ldB), trail := trail (ld_wam ldB)\<rparr>"
      unfolding hA(1) by (subst wA) simp
    finally show ?thesis .
  qed
  moreover have "\<forall>a \<in> set vs. bB a = b a" using RA ab gr by auto
  moreover have "mem (ld_wam ldB) z = mem ?w z" if "z \<notin> set (as @ bs)" "z \<notin> fresh ?w (total (ts @ us))" for z
    using that RA RB unfolding ft by auto
  moreover have "cell_ptr (bB a) \<in> set (as @ bs) \<union> fresh ?w (total (ts @ us))" if a: "a \<in> set (seen (seen vs ts) us)" "a \<notin> set vs" for a
  proof (cases "a \<in> set (seen vs ts)")
    case True
    then have "bB a = bA a" "cell_ptr (bA a) \<in> set as \<union> fresh ?w (total ts)" using RA ab a by blast+
    then show ?thesis unfolding ft by auto
  next
    case False
    then have "cell_ptr (bB a) \<in> set bs \<union> fresh (?w\<lparr>hreg := hreg ?w + int (total ts)\<rparr>) (total us)" using RB a by blast
    then show ?thesis unfolding ft by auto
  qed
  ultimately show "load_post rest vs b (ts @ us) (as @ bs) ld ldB bB"
    using RB hol unfolding load_post_def seen_append by blast
qed

lemma load_args:
  "load_pre P F rest vs b ts xs ld \<Longrightarrow> Addr_Stack ld = [] \<Longrightarrow> \<forall>x \<in> set xs. mem (ld_wam ld) x = Ref x \<Longrightarrow> length is = length xs \<Longrightarrow>
    \<forall>j < length is. cptr - int (is ! j) \<notin> set xs \<union> fresh (ld_wam ld) (total ts) \<and> mem (ld_wam ld) (cptr - int (is ! j)) = Ref (xs ! j) \<Longrightarrow>
    \<exists>ld' b'. load_solution_trie_1 cptr is ld = Some ld' \<and> load_post rest vs b ts xs ld ld' b'"
proof (induction ts arbitrary: vs b xs ld "is")
  case Nil
  then have "xs = []" "is = []" "term_stack ld = rest" by (auto simp: load_pre_def)
  then show ?case using Nil by (intro exI [of _ ld] exI [of _ b]) (auto simp: load_post_def load_pre_def)
next
  case (Cons t ts)
  obtain x ys where xs: "xs = x # ys" using Cons.prems(1) by (cases xs) (auto simp: load_pre_def)
  obtain i js where "is": "is = i # js" using Cons.prems(4) xs by (cases "is") auto
  let ?w = "ld_wam ld" and ?rest = "map (\<lambda>y. pushed P (sym_word y)) (symbols (seen vs [t]) ts) @ rest"
  have pre: "load_pre P F rest vs b ([t] @ ts) ([x] @ ys) ld" "length [x] = length [t]" using Cons.prems(1) xs by simp_all
  note S = load_split [OF pre]
  have fx: "mem ?w x = Ref x" using Cons.prems(3) xs by simp
  obtain v ld1 b1 where M: "macro_make_heap_term (Ref x) ld = Some (v, ld1)" "mem (ld_wam ld1) x = Ref x"
    "load_post ?rest vs b [t] [x] ld (ld1\<lparr>ld_wam := bld x v (ld_wam ld1)\<rparr>) b1"
    using make_term [OF S(1) Cons.prems(2) fx] by blast
  have cp: "cptr - int i \<noteq> x" "mem ?w (cptr - int i) = Ref x" using Cons.prems(5) xs "is" by auto
  have d: "deref (mem ?w) (Ref (cptr - int i)) = Some (Ref x)"
    using cp fx by (simp add: deref_def deref_ref.simps deref_attv.simps)
  define ld2 where "ld2 = (if Ref x = v then ld1 else ld1\<lparr>ld_wam := dbind_ref x v (ld_wam ld1)\<rparr>)"
  have s1: "load_solution_trie_1 cptr is ld = load_solution_trie_1 cptr js ld2"
    using d M(1) "is" by (auto simp: ld2_def)
  have "(mem (ld_wam ld1))(x := Ref x) = mem (ld_wam ld1)" by (simp add: fun_upd_idem M(2))
  then have e: "mem (ld_wam ld2) = mem (bld x v (ld_wam ld1))" "Addr_Stack ld2 = Addr_Stack ld1" "term_stack ld2 = term_stack ld1"
      "var_addr ld2 = var_addr ld1" "ld_wam ld2 = (bld x v (ld_wam ld1))\<lparr>trreg := trreg (ld_wam ld2), trail := trail (ld_wam ld2)\<rparr>"
    by (auto simp: ld2_def dbind_ref_def pushtrail0_def bld_def Let_def)
  have w1: "bld x v (ld_wam ld1) = ?w\<lparr>mem := mem (bld x v (ld_wam ld1)), hreg := hreg ?w + int (total [t]),
      trreg := trreg (bld x v (ld_wam ld1)), trail := trail (bld x v (ld_wam ld1))\<rparr>"
    using M(3) unfolding load_post_def by simp
  have w2: "ld_wam ld2 = ?w\<lparr>mem := mem (ld_wam ld2), hreg := hreg ?w + int (total [t]), trreg := trreg (ld_wam ld2), trail := trail (ld_wam ld2)\<rparr>"
    unfolding e(1) by (subst e(5), subst w1) simp
  have post: "load_post ?rest vs b [t] [x] ld ld2 b1"
    using M(3) w2 unfolding load_post_def by (simp add: e(1-4) del: upt_Suc)
  have un: "mem (ld_wam ld2) z = mem ?w z" if "z \<noteq> x" "z \<notin> fresh ?w (total [t])" for z
    using post that unfolding load_post_def by simp
  have "hreg (ld_wam ld2) = hreg ?w + int (total [t])" by (subst w2) simp
  then have ft: "fresh ?w (total (t # ts)) = fresh ?w (total [t]) \<union> fresh (ld_wam ld2) (total ts)"
    by (auto simp: fresh_def)
  obtain ld' b' where R: "load_solution_trie_1 cptr js ld2 = Some ld'" "load_post rest (seen vs [t]) b1 ts ys ld2 ld' b'"
  proof -
    have xy: "x \<notin> set ys" "set (x # ys) \<inter> fresh ?w (total (t # ts)) = {}" using Cons.prems(1) xs by (auto simp: load_pre_def)
    have "Addr_Stack ld2 = []" using post by (simp add: load_post_def)
    moreover have "\<forall>y \<in> set ys. mem (ld_wam ld2) y = Ref y" using un Cons.prems(3) xs xy unfolding ft by fastforce
    moreover have "\<forall>j < length js. cptr - int (js ! j) \<notin> set ys \<union> fresh (ld_wam ld2) (total ts) \<and> mem (ld_wam ld2) (cptr - int (js ! j)) = Ref (ys ! j)"
    proof (intro allI impI)
      fix j assume "j < length js"
      then have "cptr - int (js ! j) \<notin> set xs \<union> fresh ?w (total (t # ts)) \<and> mem ?w (cptr - int (js ! j)) = Ref (ys ! j)"
        using Cons.prems(5) [rule_format, of "Suc j"] xs "is" by simp
      then show "cptr - int (js ! j) \<notin> set ys \<union> fresh (ld_wam ld2) (total ts) \<and> mem (ld_wam ld2) (cptr - int (js ! j)) = Ref (ys ! j)"
        using un [of "cptr - int (js ! j)"] unfolding ft xs by auto
    qed
    moreover have "length js = length ys" using Cons.prems(4) xs "is" by simp
    ultimately show thesis using Cons.IH [OF S(2) [OF post]] that by blast
  qed
  show ?case using S(3) [OF post R(2)] R(1) s1 xs by auto
qed


section \<open>Answers\<close>

text \<open>
  The substitution factor at \<open>cptr\<close> holds references to the free variables \<open>xs\<close>, none of
  which is in the next \<open>k\<close> cells of the heap.
\<close>

definition answer_vector :: "wam \<Rightarrow> iaddr \<Rightarrow> iaddr list \<Rightarrow> nat \<Rightarrow> bool" where
  "answer_vector w cptr xs k \<longleftrightarrow> distinct xs \<and>
     (\<forall>j < length xs. mem w (cptr - int j) = Ref (xs ! j) \<and> cptr - int j \<notin> set xs \<union> fresh w k \<and>
       mem w (xs ! j) = Ref (xs ! j) \<and> xs ! j \<notin> fresh w k)"

text \<open>The heap cells the check asks for to load the terms.\<close>

definition path_cells :: "tterm list \<Rightarrow> nat" where
  "path_cells ts = sum_list (map word_size (path_of ts))"

text \<open>The cells \<open>xs\<close> hold a variant of the terms: their variables stand for free variables, different ones for different ones.\<close>

definition holds_variant :: "(iaddr \<Rightarrow> cell) \<Rightarrow> tterm list \<Rightarrow> iaddr list \<Rightarrow> bool" where
  "holds_variant m ts xs \<longleftrightarrow> (\<exists>b. binds m (seen [] ts) b \<and> holds m b ts xs)"

fun attvs :: "tterm \<Rightarrow> nat" where
  "attvs (TAttv a t) = Suc (attvs t)"
| "attvs (TList t u) = attvs t + attvs u"
| "attvs (TStr p us) = sum_list (map attvs us)"
| "attvs _ = 0"

lemma word_size_ge: "1 \<le> word_size w" "word_size (sym_word (SFun p)) = 2"
  by (simp_all add: word_size_def sym_word_simps pointer_tags)

lemma path_size: "total ts + length ts \<le> sum_list (map (\<lambda>y. word_size (sym_word y)) (symbols vs ts)) + sum_list (map attvs ts)"
proof (induction vs ts rule: seen.induct)
  case (2 vs a ts)
  then show ?case using word_size_ge(1) [of "sym_word (if a \<in> set vs then SVar (idx a vs) else SNew (length vs))"] by (auto split: if_splits)
next
  case (3 vs a t ts)
  then show ?case using word_size_ge(1) [of "sym_word (SAttv (length vs))"] by simp
next
  case (4 vs c ts)
  then show ?case using word_size_ge(1) [of "sym_word (SConst c)"] by simp
next
  case (5 vs f c ts)
  then show ?case using word_size_ge(1) [of "sym_word (SIntern f c)"] by simp
next
  case (6 vs t u ts)
  then show ?case using word_size_ge(1) [of "sym_word SList"] by simp
next
  case (7 vs p us ts)
  then show ?case by (simp add: word_size_ge(2))
qed simp

lemma stored_path:
  assumes T: "trie_of_terms P F ar n s N root T" and q: "ts \<in> T" "walk s N root (path_of ts) q"
  shows "follow_par_chain s q = Some (map (pushed P) (path_of ts), sum_list (map word_size (path_of ts)))"
    "total ts + n \<le> sum_list (map word_size (path_of ts)) + sum_list (map attvs ts)" "terms_ok P F ar n ts"
proof -
  have K: "kinds_ok (interned P) s N" "trie_ok s N" "root \<in> N" "IsTrieRoot s root" and ok: "terms_ok P F ar n ts"
    using T q(1) by (auto simp: trie_of_terms_def stores_def)
  show "follow_par_chain s q = Some (map (pushed P) (path_of ts), sum_list (map word_size (path_of ts)))"
    using par_chain_walk [OF K q(2), of "[]" 0] by (simp add: follow_par_chain_def)
  show "total ts + n \<le> sum_list (map word_size (path_of ts)) + sum_list (map attvs ts)"
    using path_size [of ts "[]"] ok by (simp add: path_of_words comp_def terms_ok_def)
  show "terms_ok P F ar n ts" by (rule ok)
qed

lemma load_answer:
  assumes ok: "terms_ok P F (psc_arity (wenv (ld_wam ld))) n ts" and vec: "answer_vector (ld_wam ld) cptr xs (total ts)" "length xs = n"
    and ld: "Addr_Stack ld = []" "term_stack ld = map (pushed P) (path_of ts)"
  shows "\<exists>ld'. load_solution_trie_1 cptr [0..<n] ld = Some ld' \<and> holds_variant (mem (ld_wam ld')) ts xs \<and>
    hreg (ld_wam ld') = hreg (ld_wam ld) + int (total ts) \<and>
    (\<forall>x. x \<notin> set xs \<longrightarrow> x \<notin> fresh (ld_wam ld) (total ts) \<longrightarrow> mem (ld_wam ld') x = mem (ld_wam ld) x)"
proof -
  have xs: "\<forall>x \<in> set xs. mem (ld_wam ld) x = Ref x \<and> x \<notin> fresh (ld_wam ld) (total ts)"
    using vec(1) unfolding answer_vector_def by (metis in_set_conv_nth)
  have "load_pre P F [] [] Ref ts xs ld"
    using ok vec xs ld unfolding load_pre_def by (auto simp: terms_ok_def answer_vector_def binds_def path_of_words)
  moreover have "\<forall>j < length [0..<n]. cptr - int ([0..<n] ! j) \<notin> set xs \<union> fresh (ld_wam ld) (total ts) \<and> mem (ld_wam ld) (cptr - int ([0..<n] ! j)) = Ref (xs ! j)"
    using vec by (simp add: answer_vector_def)
  ultimately obtain ld' b' where R: "load_solution_trie_1 cptr [0..<n] ld = Some ld'" "load_post [] [] Ref ts xs ld ld' b'"
    using load_args [of P F "[]" "[]" Ref ts xs ld "[0..<n]" cptr] ld(1) xs vec(2) by auto
  have w: "ld_wam ld' = (ld_wam ld)\<lparr>mem := mem (ld_wam ld'), hreg := hreg (ld_wam ld) + int (total ts), trreg := trreg (ld_wam ld'), trail := trail (ld_wam ld')\<rparr>"
    using R(2) unfolding load_post_def by blast
  have "hreg (ld_wam ld') = hreg (ld_wam ld) + int (total ts)" by (subst w) simp
  moreover have "holds_variant (mem (ld_wam ld')) ts xs" using R(2) unfolding load_post_def holds_variant_def by blast
  ultimately show ?thesis using R unfolding load_post_def by blast
qed

text \<open>C17: what \<open>trie_assert_chk_ins\<close> stored in a trie for a vector of terms can be read back from its
  leaf: \<open>load_solution_trie\<close>, the loader of answers and calls, binds the free variables of the
  substitution factor to a variant of the terms, built on top of the heap, and changes nothing
  else in the memory. This covers the branch in which the heap must be made larger first: \<open>w\<close>
  is the state and \<open>c\<close> the place of the factor after the check for room, where the factor still refers
  to free variables \<open>xs\<close> outside the cells to be filled. The trie holds terms (\<open>trie_of_terms\<close>),
  there is at least one term and no more variables than the enumerator has room for
  (\<open>enum_fits\<close>), the symbols fit their words (\<open>symbols_ok\<close>), interned subterms are read back as
  the constants they were stored as, the stacks of both routines are empty at the start, and the
  call has no attributed variables (the terms may).\<close>

theorem answer_roundtrip:
  assumes "trie_of_terms P F (psc_arity (wenv (ti_wam st))) n (ti_tries st) N root T" "0 < n"
    "args_in (ti_wam st) cptr n ts vs" "enum_fits st vs" "symbols_ok P F ts" "ti_pdl st = []"
    "Addr_Stack ld = []" "trie_heap_check margin ensure cptr' n (path_cells ts) (ld_wam ld) = Some (c, w)"
    "wenv w = wenv (ti_wam st)" "length xs = n" "answer_vector w c xs (total ts)"
  shows "\<exists>st' ld'. trie_assert_chk_ins cptr n root st = Some st' \<and>
    load_solution_trie margin ensure (ti_tries st') n 0 cptr' (ti_paren st') ld = Some ld' \<and>
    holds_variant (mem (ld_wam ld')) ts xs \<and>
    (\<forall>x. x \<notin> set xs \<longrightarrow> x \<notin> fresh w (total ts) \<longrightarrow> mem (ld_wam ld') x = mem w x)"
proof -
  note A = assms(3) [unfolded args_in_def] and E = assms(4) [unfolded enum_fits_def] and S = assms(5) [unfolded symbols_ok_def]
  obtain st' N' where R: "trie_assert_chk_ins cptr n root st = Some st'"
    "trie_of_terms P F (psc_arity (wenv (ti_wam st))) n (ti_tries st') N' root (insert ts T)"
    "leaf_added (interned P) (ti_tries st) N root (path_of ` T) (path_of ts) (ti_paren st') (ti_tries st') N'"
    using trie_assert_rep [OF assms(1,2) A E S refl refl refl refl assms(6)] by blast
  have q: "walk (ti_tries st') N' root (path_of ts) (ti_paren st')" using R(3) by (simp add: leaf_added_def)
  note Q = stored_path [OF R(2) _ q, simplified]
  let ?ld = "ld\<lparr>num_heap_term_vars := 0, term_stack := map (pushed P) (path_of ts), ld_wam := w\<rparr>"
  obtain ld' where L: "load_solution_trie_1 c [0..<n] ?ld = Some ld'" "holds_variant (mem (ld_wam ld')) ts xs"
    "\<forall>x. x \<notin> set xs \<longrightarrow> x \<notin> fresh (ld_wam ?ld) (total ts) \<longrightarrow> mem (ld_wam ld') x = mem (ld_wam ?ld) x"
    using load_answer [of P F ?ld n ts c xs] Q(3) assms(7,9-11) by auto
  have "load_solution_trie margin ensure (ti_tries st') n 0 cptr' (ti_paren st') ld = Some ld'"
    using Q(1) L(1) assms(2,8) by (simp add: load_solution_trie_def Let_def path_cells_def)
  then show ?thesis using R(1) L(2,3) by auto
qed

text \<open>C39: loading an answer after the check for room on the heap ends below the local stack with the margin
  still free, except for one cell for each attributed variable of the answer: the check counts one
  cell for it, and it takes two.\<close>

theorem load_room:
  assumes "trie_of_terms P F (psc_arity (wenv (ld_wam ld))) n s N root T" "0 < n" "ts \<in> T" "walk s N root (path_of ts) q"
    "Addr_Stack ld = []" "length xs = n" "answer_vector (ld_wam ld) cptr xs (total ts)"
    "load_solution_trie_no_heapcheck margin s n 0 cptr q ld \<noteq> Inl No_heap"
  shows "\<exists>ld'. load_solution_trie_no_heapcheck margin s n 0 cptr q ld = Inr ld' \<and> holds_variant (mem (ld_wam ld')) ts xs \<and>
    hreg (ld_wam ld') + margin + int n \<le> top_of_localstk (ld_wam ld) + int (sum_list (map attvs ts))"
proof -
  note Q = stored_path [OF assms(1,3,4)]
  let ?ld = "ld\<lparr>num_heap_term_vars := 0, term_stack := map (pushed P) (path_of ts)\<rparr>"
  obtain ld' where L: "load_solution_trie_1 cptr [0..<n] ?ld = Some ld'" "holds_variant (mem (ld_wam ld')) ts xs"
    "hreg (ld_wam ld') = hreg (ld_wam ?ld) + int (total ts)"
    using load_answer [of P F ?ld n ts cptr xs] Q(3) assms(5-7) by auto
  let ?k = "sum_list (map word_size (path_of ts))"
  have o: "\<not> glstack_overflow margin ?k (ld_wam ld)"
    using assms(2,8) Q(1) by (auto simp: load_solution_trie_no_heapcheck_def Let_def split: if_splits)
  then have "load_solution_trie_no_heapcheck margin s n 0 cptr q ld = Inr ld'"
    using Q(1) L(1) assms(2) by (simp add: load_solution_trie_no_heapcheck_def Let_def)
  moreover have "hreg (ld_wam ld) + (margin + int ?k) \<le> top_of_localstk (ld_wam ld)" using o by (simp add: glstack_overflow_def)
  then have "hreg (ld_wam ld') + margin + int n \<le> top_of_localstk (ld_wam ld) + int (sum_list (map attvs ts))"
    using Q(2) L(3) by simp
  ultimately show ?thesis using L(2) by blast
qed


section \<open>Instances\<close>

text \<open>The substitution factor at 500 and 499 refers to the variables 601 and 602.\<close>

definition demo_loader :: loader where
  "demo_loader = \<lparr>ld_wam = demo_term_wam\<lparr>mem := Ref(500 := Ref 601, 499 := Ref 602)\<rparr>, term_stack = [], Addr_Stack = [],
     var_addr = Map.empty, num_heap_term_vars = 0, var_addr_accum_num = 0\<rparr>"

lemma demo_vector: "answer_vector (ld_wam demo_loader) 500 [601, 602] (total [TVar 101, TVar 101])"
  by (auto simp: answer_vector_def demo_loader_def fresh_def less_Suc_eq)

lemma demo_loader_fields: "wenv (ld_wam demo_loader) = wenv demo_term_wam" "Addr_Stack demo_loader = []"
    "200 \<le> top_of_localstk (ld_wam demo_loader)" "hreg (ld_wam demo_loader) = 100"
  by (simp_all add: demo_loader_def demo_term_wam_def demo_wam_def demo_wenv_def top_of_localstk_def)

text \<open>
  Once with room, and once with a margin that makes the check fail, where the factor is saved
  in the registers and a space maker that has nothing to move gives the state back.
\<close>

lemma demo_overflow:
  "trie_heap_check 10 (\<lambda>_ _. Some) 500 2 (path_cells [TVar 101, TVar 101]) (ld_wam demo_loader) = Some (500, ld_wam demo_loader)"
  "\<exists>w. trie_heap_check 10000 (\<lambda>_ _. Some) 500 2 (path_cells [TVar 101, TVar 101]) (ld_wam demo_loader) = Some (500, w) \<and>
     wenv w = wenv demo_term_wam \<and> answer_vector w 500 [601, 602] (total [TVar 101, TVar 101])"
proof -
  have k: "path_cells [TVar 101, TVar 101] = 2"
    using sym_tags tag_defs by (simp add: path_cells_def path_of_words sym_word_simps idx_def word_size_def)
  have "glstack_overflow 10000 2 (ld_wam demo_loader)" "\<not> glstack_overflow 10 2 (ld_wam demo_loader)"
    by (simp_all add: glstack_overflow_def demo_loader_def demo_term_wam_def demo_wam_def demo_wenv_def top_of_localstk_def)
  then show "trie_heap_check 10 (\<lambda>_ _. Some) 500 2 (path_cells [TVar 101, TVar 101]) (ld_wam demo_loader) = Some (500, ld_wam demo_loader)"
    "\<exists>w. trie_heap_check 10000 (\<lambda>_ _. Some) 500 2 (path_cells [TVar 101, TVar 101]) (ld_wam demo_loader) = Some (500, w) \<and>
     wenv w = wenv demo_term_wam \<and> answer_vector w 500 [601, 602] (total [TVar 101, TVar 101])"
    unfolding trie_heap_check_def k
    by (auto simp: handle_heap_overflow_trie_def save_vector_def restore_vector_def bld_reg_def bld_def upt_rec
        demo_loader_def demo_term_wam_def demo_wam_def demo_wenv_def answer_vector_def fresh_def less_Suc_eq)
qed

theorem answer_roundtrip_witness:
  "(\<exists>st' ld'. trie_assert_chk_ins 100 2 1 demo_tins = Some st' \<and>
    load_solution_trie 10 (\<lambda>_ _. Some) (ti_tries st') 2 0 500 (ti_paren st') demo_loader = Some ld' \<and>
    holds_variant (mem (ld_wam ld')) [TVar 101, TVar 101] [601, 602]) \<and>
   (\<exists>st' ld'. trie_assert_chk_ins 100 2 1 demo_tins = Some st' \<and>
    load_solution_trie 10000 (\<lambda>_ _. Some) (ti_tries st') 2 0 500 (ti_paren st') demo_loader = Some ld' \<and>
    holds_variant (mem (ld_wam ld')) [TVar 101, TVar 101] [601, 602])"
proof -
  have "\<exists>st' ld'. trie_assert_chk_ins 100 2 1 demo_tins = Some st' \<and>
    load_solution_trie margin (\<lambda>_ _. Some) (ti_tries st') 2 0 500 (ti_paren st') demo_loader = Some ld' \<and>
    holds_variant (mem (ld_wam ld')) [TVar 101, TVar 101] [601, 602]"
    if "trie_heap_check margin (\<lambda>_ _. Some) 500 2 (path_cells [TVar 101, TVar 101]) (ld_wam demo_loader) = Some (500, w)"
      "wenv w = wenv demo_term_wam" "answer_vector w 500 [601, 602] (total [TVar 101, TVar 101])" for margin w
    using answer_roundtrip [where P = "{7}" and F = "\<lambda>_. 7" and n = 2 and st = demo_tins and N = "{1}" and root = 1 and T = "{}" and cptr = 100
      and ts = "[TVar 101, TVar 101]" and vs = "[101]" and ld = demo_loader and xs = "[601, 602]" and cptr' = 500 and c = 500 and w = w
      and margin = margin and ensure = "\<lambda>_ _. Some"]
    demo_trie_of_terms demo_args(1) demo_fits(1) demo_symbols(1) that demo_loader_fields(2) by auto
  then show ?thesis using demo_overflow demo_vector demo_loader_fields(1) by blast
qed

theorem load_room_witness:
  "\<exists>s q ld'. load_solution_trie_no_heapcheck 10 s 2 0 500 q demo_loader = Inr ld' \<and> holds_variant (mem (ld_wam ld')) [TVar 101, TVar 101] [601, 602]"
proof -
  let ?ts = "[TVar 101, TVar 101]" and ?ar = "psc_arity (wenv demo_term_wam)"
  have args: "cells_in demo_term_wam [] (map (\<lambda>i. (True, Ref (100 + int i))) [1..<Suc 2]) ?ts [101]"
    using demo_args(1) unfolding args_in_def .
  have en: "enum_ok (mem demo_term_wam) (VarEnumerator demo_tins) (current_num_trievars demo_tins) [101]"
    using demo_fits(1) by (simp add: enum_fits_def)
  have sy: "\<forall>y \<in> set (symbols [] ?ts). sym_ok {7} (\<lambda>_. 7) y" using demo_symbols(1) unfolding symbols_ok_def .
  obtain st' :: tins and N' where R: "trie_of_terms {7} (\<lambda>_. 7) ?ar 2 (ti_tries st') N' 1 (insert ?ts {})"
    "leaf_added (interned {7}) demo_tries {1} 1 (path_of ` {}) (path_of ?ts) (ti_paren st') (ti_tries st') N'"
    using trie_assert_rep [OF demo_trie_of_terms zero_less_numeral args en sy demo_tins_fields(1,2) refl refl demo_tins_fields(3)] by blast
  have q: "walk (ti_tries st') N' 1 (path_of ?ts) (ti_paren st')" using R(2) by (simp add: leaf_added_def)
  note Q = stored_path [OF R(1) _ q, simplified]
  have w: "word_size (EncodeNewTrieVar 0) = 1" "word_size (EncodeTrieVar 0) = 1" using sym_tags tag_defs by (simp_all add: word_size_def)
  have "follow_par_chain (ti_tries st') (ti_paren st') = Some (map (pushed {7}) (path_of ?ts), 2)"
    using Q(1) w by (simp add: path_of_words sym_word_simps idx_def)
  then have "load_solution_trie_no_heapcheck 10 (ti_tries st') 2 0 500 (ti_paren st') demo_loader \<noteq> Inl No_heap"
    using demo_loader_fields(3,4) by (auto simp: load_solution_trie_no_heapcheck_def glstack_overflow_def split: option.splits)
  then show ?thesis
    using load_room [where P = "{7}" and F = "\<lambda>_. 7" and n = 2 and s = "ti_tries st'" and N = N' and root = 1 and T = "{?ts}" and ts = ?ts and q = "ti_paren st'"
        and xs = "[601, 602]" and ld = demo_loader and cptr = 500 and margin = 10] R(1) q demo_vector demo_loader_fields by auto
qed

end
