(* ===== verification/Spec2Isabelle.thy ===== *)
theory Spec2Isabelle imports Arith Callgraph Cells Codec Compare Dynstack Engine Scc Structman Symtab Trie_Load begin

text \<open>
  A verification library for the core of XSB, a Prolog system with tabling. The modelled
  code is the C of \<open>src/XSB/emu\<close>, the emulator XSB runs on; the libraries written in Prolog
  and the packages run on top of it.

  \<^bold>\<open>The program.\<close> The emulator is a Warren abstract machine with an SLG extension. It keeps
  terms as tagged words on a global stack shared with the environments, a trail in the form
  of a tree (a consumer can share the trail of its generator) and a stack of choice points.
  The instruction loop (\<open>emuloop.c\<close>) matches heads, builds bodies, makes and drops choice
  points and environments, and evaluates arithmetic. Names and predicate symbols are
  interned in two hash tables; the records of the tables and tries come from pools; the
  completion of mutually dependent subgoals works on a stack of subgoal frames. Incremental
  tables hang together in a graph of which table depends on which.

  \<^bold>\<open>Configuration.\<close> 64-bit words (\<open>BITS64\<close>), one thread, \<open>SLG_GC\<close>, no profiling, no
  \<open>FAST_FLOATS\<close>, doubles boxed. The engine is that of local scheduling; theory \<open>Scc\<close> is the
  part of the batched build that looks for an independent component. No asynchronous
  interrupt is pending.

  \<^bold>\<open>Theories and sources.\<close>

  \<^item> \<open>Prelude\<close>: collections of rules, addresses and 64-bit integers, generic facts.

  \<^item> \<open>Cells\<close> (\<open>cell_xsb.h\<close>, \<open>cell_xsb_i.h\<close>): the bit patterns of tagged words. \<open>makeint\<close>,
    \<open>makestring\<close>, \<open>bld_boxedint_args\<close> and the others have the macros' names. Decoding
    inverts encoding, tags tell the kinds apart, and \<open>int_overflow\<close> is exactly the loss of
    an integer. The other theories use the datatype \<open>cell\<close>, whose constructors are the tags.

  \<^item> \<open>Wam_State\<close> (\<open>binding.h\<close>, \<open>deref.h\<close>, \<open>heap_xsb.h\<close>, \<open>memory_xsb.h\<close>, \<open>choice.h\<close>,
    \<open>sw_envs.h\<close>): the record \<open>wam\<close> has one field per register and memory area;
    \<open>bind_copy\<close>, \<open>pushtrail\<close>, \<open>conditional\<close>, \<open>deref\<close> and \<open>table_undo_bindings\<close> are the
    macros. \<open>Wam_Safe\<close> holds the relation \<open>bt_safe\<close> between two states of which the later can
    be untrailed to the earlier.

  \<^item> \<open>Wam_Unify\<close> (\<open>subp.c\<close>, \<open>unify_xsb.h\<close>): \<open>unify\<close> and \<open>unify_rat\<close>; \<open>Wam_Attv\<close> follows them
    through the attributed variables, whose bindings are queued in the interrupt chain on the
    heap, and shows that they too are undone. \<open>Wam_Instr\<close>
    (\<open>emuloop.c\<close>, \<open>emudef.h\<close>): one definition \<open>i_<opcode>\<close> per get, unify, put and build
    instruction. \<open>Wam_Choice\<close> (\<open>emuloop_aux.h\<close>, \<open>choice.h\<close>, \<open>emuloop.c\<close>): choice points,
    environments, calls, and \<open>step_instr\<close>, one round of the loop. \<open>Wam_Cut\<close>
    (\<open>cut_xsb.h\<close>): the compaction of the trail.

  \<^item> \<open>Engine\<close>: the locale \<open>undoable\<close>, a contract of steps that backtracking undoes, with
    its instances for unification, single instructions and runs with nested choice points;
    theory \<open>Arith\<close> adds the instance of the arithmetic instructions.

  \<^item> \<open>Eval\<close> (\<open>function.c\<close>): \<open>xsb_eval\<close> and its operators; \<open>Arith\<close> (\<open>emuloop.c\<close>): the
    instructions that use it, over the locale \<open>evaluates\<close>.

  \<^item> \<open>Compare\<close> (\<open>subp.c\<close>): \<open>compare\<close>, \<open>key_compare\<close> and \<open>are_identical_terms\<close>, with the
    locale \<open>comparator\<close>.

  \<^item> \<open>Symtab\<close> (\<open>hash_xsb.c\<close>, \<open>psc_xsb.c\<close>): interning, over the locale \<open>chained\<close>.

  \<^item> \<open>Structman\<close> (\<open>struct_manager.c\<close>), \<open>Dynstack\<close> (\<open>dynamic_stack.c\<close>): pools and stacks
    of records in raw memory, with the locales \<open>allocator\<close> and \<open>lifo\<close>.

  \<^item> \<open>Scc\<close> (\<open>scc_xsb.c\<close>, \<open>wfs_xsb_i.h\<close>): the graph searches on the completion stack, over the
    locale \<open>marking\<close>.

  \<^item> \<open>Trie_Nodes\<close> (\<open>tries.c\<close>, \<open>trie_internals.h\<close>): trie nodes in memory, their sibling
    chains and hash tables, and \<open>one_btn_chk_ins\<close>, which finds or adds a child;
    \<open>Trie_Paths\<close>: a trie as a set of paths; \<open>Trie_Insert\<close>: the symbols of a term and
    \<open>trie_assert_chk_ins\<close>; \<open>Trie_Variant\<close>: that a trie stores terms up to renaming;
    \<open>Trie_Load\<close>: \<open>load_solution_trie\<close>, which builds the terms of a leaf on the heap.

  \<^item> \<open>Hashtable\<close> (\<open>hashtable.c\<close>, \<open>hashtable_itr.c\<close>): the hash tables of edges and their
    iterators, with the locale \<open>edge_table\<close>; \<open>Callgraph\<close> (\<open>call_graph_xsb.c\<close>, and its uses in
    \<open>slginsts_xsb_i.h\<close>, \<open>tables.c\<close> and \<open>tr_utils.c\<close>): the nodes of incremental tables, their
    edges, invalidation and what undoes it.

  \<^item> \<open>Codec\<close> (\<open>base64_enc.c\<close>, \<open>url_encode.c\<close>).

  \<^bold>\<open>What the lemmas show.\<close> The first group is about backtracking: unification, with
  attributed variables too, every instruction and every run of instructions with choice points
  made and dropped inside it can be untrailed, which restores each address a choice point can
  see; \<open>retry\<close> and \<open>trust\<close> bring back the registers; cutting drops exactly the trail frames
  that nothing needs. For instructions and runs the state holds no attributed variable
  (\<open>plain\<close>). The second
  is about terms: arithmetic on the heap computes the value of the expression tree,
  comparison the order of the trees, and this order is total. The third is about data
  structures: tables, pools and stacks refine a set of entries, a set of live records and a
  list, whatever the sequence of operations. The fourth is about the graph searches of
  completion: the component found is a component of the dependency graph, which depends on
  no other, and the check for negative loops answers whether there is one. The fifth is
  about tries: a chain that becomes a hash table and a table that doubles keep the children
  and the instructions that try them in turn, and two terms reach the same leaf exactly when
  they are variants; a term read back from its leaf is a variant of the one inserted. The
  sixth is about incremental tabling: adding and removing nodes and edges keeps the graph
  consistent, invalidation marks exactly what depends on a node, and when the table
  evaluated again has not changed everything becomes valid again. Some properties
  state what goes wrong at the edge: a stack enlarged by less than is pushed,
  operands taken in reverse, a bit-field of 14 bits that wraps around. The hypotheses of a
  property are part of its text: the shape of the terms, the operands the compiler leaves, the
  room there is.

  \<^bold>\<open>Bounds and fuel.\<close> Loops that follow pointers (\<open>deref\<close>, the untrailing loops, the
  chains of \<open>Structman\<close>, \<open>eval_loop\<close>) are partial functions, whose \<open>None\<close> is a loop that
  does not end; that they end is proved under the invariants: a trail whose parents go
  down, reference chains that go down, chains without repetition, a finite expression.
  The two searches of the call graph end by a lexicographic measure of the nodes not yet
  marked (or still affected) and the edges left in the iterators.
  Recursions through memory (\<open>unify_rat\<close>, \<open>compare\<close>, the depth-first searches) count their
  depth in a fuel argument. \<open>compare\<close> and \<open>are_identical_terms\<close> are shown to settle, which
  is to return the same value for every larger fuel; the searches get the number of frames
  as fuel and are shown to return. Machine integers wrap where C does (\<open>wrap64\<close>, words) and
  what C leaves undefined is an error value. Two bounds are the code's own: the byte that counts
  the registers saved in a choice point, whose loop does not end at 255 of them, so that runs with
  choice points are followed up to 254; and the 10000 frames of the search of the call graph, past
  which the stack is reallocated and the new address lost, which the model ends with
  \<open>Stack_moved\<close>.

  \<^bold>\<open>Parameters.\<close> Double arithmetic and the mathematical library (\<open>fops\<close>), the addresses
  that \<open>malloc\<close> returns, uninitialised memory, the contents of files, the shift of an int by
  more than its width, the tables of interned terms, and the garbage collection or reallocation that
  makes room on the heap before an answer is loaded (\<open>ensure\<close>) are arguments of the definitions.

  \<^bold>\<open>Not modelled.\<close> Growing and moving the stacks, and garbage collection. Tables and
  the tabling instructions (\<open>tables.c\<close>, \<open>slginsts_xsb_i.h\<close>, and the call and answer
  insertions of \<open>tries.c\<close>), delay lists, completion and \<open>findall\<close>: they run on answer lists,
  consumers and the scheduling of the engine, which the state modelled here does not have. Of
  the call graph, the order in which affected tables are evaluated again, the coalescing of
  choice points and the lists built for Prolog. Assertion and
  indexing of clauses (\<open>biassert.c\<close>). Builtins, reader, loader, input and output, sockets
  and processes, error printing, tracing and threads, whose code is dispatch or system
  calls. Foreign databases, packages and third-party code.
\<close>

end
